(* ===== verification/Prelude.thy ===== *)
theory Prelude
  imports Main "HOL-Library.Char_ord" "HOL-Library.List_Lexorder" "HOL-Library.Sublist"
    "HOL-Library.Code_Target_Numeral"
begin

text \<open>
  Shared vocabulary of the development.

  Go's \<^verbatim>\<open>byte\<close> is \<^typ>\<open>char\<close> (256 values, ordered by \<open>of_char\<close> as Go orders bytes), and
  both \<^verbatim>\<open>[]byte\<close> and \<^verbatim>\<open>string\<close> are byte lists; \<open>HOL-Library.List_Lexorder\<close> gives them the
  byte-wise lexicographic order of \<^verbatim>\<open>strings.Compare\<close>.  A Go function returning
  \<^verbatim>\<open>(T, error)\<close> is a function into \<open>'e + 'a\<close>, \<open>Inl\<close> being the error and
  \<open>bindE\<close> the early return \<^verbatim>\<open>if err != nil { return ..., err }\<close>; a panic is one of the
  error values of the component's error type.  Unsigned 64-bit arithmetic is written on
  \<^typ>\<open>nat\<close> with the wrap-around explicit (\<open>u64\<close>).
\<close>

type_synonym byte = char
type_synonym bytes = "char list"

named_theorems codec_simps \<open>encode and decode steps on concrete token shapes\<close>
named_theorems res_simps \<open>reasoning about results of fallible steps\<close>

section \<open>Results\<close>

fun bindE :: "'e + 'a \<Rightarrow> ('a \<Rightarrow> 'e + 'b) \<Rightarrow> 'e + 'b" where
  "bindE (Inl e) f = Inl e"
| "bindE (Inr x) f = f x"

definition guardE :: "bool \<Rightarrow> 'e \<Rightarrow> 'e + unit" where
  "guardE c e = (if c then Inr () else Inl e)"

lemma bindE_eq_Inr_iff [res_simps]: "bindE m f = Inr y \<longleftrightarrow> (\<exists>x. m = Inr x \<and> f x = Inr y)"
  by (cases m) auto

lemma bindE_eq_Inl_iff [res_simps]:
  "bindE m f = Inl e \<longleftrightarrow> m = Inl e \<or> (\<exists>x. m = Inr x \<and> f x = Inl e)"
  by (cases m) auto

lemma bindE_assoc: "bindE (bindE m f) g = bindE m (\<lambda>x. bindE (f x) g)"
  by (cases m) auto

lemma bindE_cong [fundef_cong]:
  "m = m' \<Longrightarrow> (\<And>x. m' = Inr x \<Longrightarrow> f x = f' x) \<Longrightarrow> bindE m f = bindE m' f'"
  by (cases m') auto

lemma guardE_eq_Inr [simp]: "guardE c e = Inr u \<longleftrightarrow> c"
  by (simp add: guardE_def)

lemma guardE_eq_Inl [simp]: "guardE c e = Inl e' \<longleftrightarrow> \<not> c \<and> e' = e"
  by (auto simp: guardE_def)

lemma guardE_True [simp]: "guardE True e = Inr ()"
  by (simp add: guardE_def)

lemma guardE_False [simp]: "guardE False e = Inl e"
  by (simp add: guardE_def)

definition is_ok :: "'e + 'a \<Rightarrow> bool" where
  "is_ok r = (case r of Inl _ \<Rightarrow> False | Inr _ \<Rightarrow> True)"

lemma is_ok_simps [simp]: "is_ok (Inr x)" "\<not> is_ok (Inl e)"
  by (simp_all add: is_ok_def)

lemma is_ok_iff: "is_ok r \<longleftrightarrow> (\<exists>x. r = Inr x)"
  by (cases r) auto

section \<open>Machine integers\<close>

definition u64 :: "nat \<Rightarrow> nat" where
  "u64 n = n mod 2 ^ 64"

definition max_u64 :: nat where
  "max_u64 = 2 ^ 64 - 1"

text \<open>The conversion \<^verbatim>\<open>int(x)\<close> of a \<^verbatim>\<open>uint64\<close> on a 64-bit platform: two's complement.\<close>

definition to_int :: "nat \<Rightarrow> int" where
  "to_int n = (if n < 2 ^ 63 then int n else int n - 2 ^ 64)"

lemma u64_less [simp]: "u64 n < 2 ^ 64"
  by (simp add: u64_def)

lemma u64_id [simp]: "n < 2 ^ 64 \<Longrightarrow> u64 n = n"
  by (simp add: u64_def)

lemma to_int_id [simp]: "n < 2 ^ 63 \<Longrightarrow> to_int n = int n"
  by (simp add: to_int_def)

lemma and_nat_le: "and a b \<le> (b :: nat)"
  by (metis AND_upper2 of_nat_0_le_iff of_nat_and_eq of_nat_le_iff)

section \<open>Slices\<close>

text \<open>The Go slice expression \<^verbatim>\<open>xs[lo:hi]\<close> within bounds.\<close>

definition bslice :: "'a list \<Rightarrow> nat \<Rightarrow> nat \<Rightarrow> 'a list" where
  "bslice xs lo hi = take (hi - lo) (drop lo xs)"

lemma length_bslice [simp]: "lo \<le> hi \<Longrightarrow> hi \<le> length xs \<Longrightarrow> length (bslice xs lo hi) = hi - lo"
  by (simp add: bslice_def)

lemma bslice_append_right [simp]:
  "length xs \<le> lo \<Longrightarrow> bslice (xs @ ys) lo hi = bslice ys (lo - length xs) (hi - length xs)"
  by (simp add: bslice_def)

lemma take_prefix_bslice: "lo \<le> hi \<Longrightarrow> take lo xs @ bslice xs lo hi = take hi xs"
  by (metis le_add_diff_inverse bslice_def take_add)

lemma drop_eq_append_drop:
  "drop n xs = ys @ zs \<Longrightarrow> drop (n + length ys) xs = zs"
  by (metis add.commute append_eq_conv_conj drop_drop)

lemma drop_eq_Cons_nth: "drop n xs = y # ys \<Longrightarrow> n < length xs \<and> xs ! n = y \<and> drop (Suc n) xs = ys"
  by (metis drop_eq_Nil2 hd_drop_conv_nth leI list.discI list.sel(1,3) tl_drop drop_Suc)

lemma last_take_nth: "0 < n \<Longrightarrow> n \<le> length xs \<Longrightarrow> last (take n xs) = xs ! (n - 1)"
  by (cases n) (simp_all add: take_Suc_conv_app_nth)

end
