(* ===== verification/Encode.thy ===== *)
theory Encode
  imports Prelude
begin

text \<open>
  The field escaping of \<^verbatim>\<open>src/internal/deck/encode.go\<close>: the full escaping of a flat manifest
  (\<open>FossilEncode\<close>), the minimal escaping of a tree construction (\<open>CanonicalEncode\<close>) and the one
  decoder both share (\<open>FossilDecode\<close>).  The loops over the string's indices are recursions over
  the byte list.  The locale \<open>field_codec\<close> is what the card writers and the card scanner rely on:
  decoding undoes encoding, and an encoded field never holds a space or an LF, so it stays one
  token.
\<close>

section \<open>The encoders and the decoder\<close>

abbreviation SP :: byte where "SP \<equiv> CHR '' ''"
abbreviation LF :: byte where "LF \<equiv> CHR 0x0A"
abbreviation BSL :: byte where "BSL \<equiv> CHR 0x5C"

fun FossilEncode :: "bytes \<Rightarrow> bytes" where
  "FossilEncode [] = []"
| "FossilEncode (c # s) =
     (if c = LF then BSL # CHR ''n'' # FossilEncode s
      else if c = SP then BSL # CHR ''s'' # FossilEncode s
      else if c = CHR 0x09 then BSL # CHR ''t'' # FossilEncode s
      else if c = CHR 0x0D then BSL # CHR ''r'' # FossilEncode s
      else if c = CHR 0x0B then BSL # CHR ''v'' # FossilEncode s
      else if c = CHR 0x0C then BSL # CHR ''f'' # FossilEncode s
      else if c = CHR 0x00 then BSL # CHR ''0'' # FossilEncode s
      else if c = BSL then BSL # BSL # FossilEncode s
      else c # FossilEncode s)"

text \<open>The switch of \<^verbatim>\<open>FossilDecode\<close> on the byte after a backslash.\<close>

definition unescape :: "byte \<Rightarrow> byte" where
  "unescape c =
     (if c = CHR ''n'' then LF
      else if c = CHR ''s'' then SP
      else if c = CHR ''t'' then CHR 0x09
      else if c = CHR ''r'' then CHR 0x0D
      else if c = CHR ''v'' then CHR 0x0B
      else if c = CHR ''f'' then CHR 0x0C
      else if c = CHR ''0'' then CHR 0x00
      else if c = BSL then BSL
      else c)"

fun FossilDecode :: "bytes \<Rightarrow> bytes" where
  "FossilDecode [] = []"
| "FossilDecode [c] = [c]"
| "FossilDecode (c # e # s) =
     (if c \<noteq> BSL then c # FossilDecode (e # s) else unescape e # FossilDecode s)"

fun CanonicalEncode :: "bytes \<Rightarrow> bytes" where
  "CanonicalEncode [] = []"
| "CanonicalEncode (c # s) =
     (if c = LF then BSL # CHR ''n'' # CanonicalEncode s
      else if c = SP then BSL # CHR ''s'' # CanonicalEncode s
      else if c = BSL then BSL # BSL # CanonicalEncode s
      else c # CanonicalEncode s)"

section \<open>The contract of a field encoder\<close>

text \<open>A token of a card line: it holds neither of the two bytes that end a token.\<close>

definition is_token :: "bytes \<Rightarrow> bool" where
  "is_token t \<longleftrightarrow> SP \<notin> set t \<and> LF \<notin> set t"

lemma is_token_simps [simp]:
  "is_token []"
  "is_token (c # t) \<longleftrightarrow> c \<noteq> SP \<and> c \<noteq> LF \<and> is_token t"
  "is_token (s @ t) \<longleftrightarrow> is_token s \<and> is_token t"
  by (auto simp: is_token_def)

locale field_codec =
  fixes enc :: "bytes \<Rightarrow> bytes" and dec :: "bytes \<Rightarrow> bytes"
  assumes dec_enc: "dec (enc s) = s"
    and enc_token: "is_token (enc s)"
    and enc_Nil: "enc [] = []"
begin

lemma enc_inj: "enc s = enc t \<longleftrightarrow> s = t"
  by (metis dec_enc)

lemma enc_eq_Nil: "enc s = [] \<longleftrightarrow> s = []"
  by (metis dec_enc enc_Nil)

end

lemma FossilDecode_plain:
  "c \<noteq> BSL \<Longrightarrow> FossilDecode (c # s) = c # FossilDecode s"
  by (cases s) auto

lemma FossilDecode_escape [simp]:
  "FossilDecode (BSL # e # s) = unescape e # FossilDecode s"
  by simp

lemma FossilDecode_FossilEncode [simp]: "FossilDecode (FossilEncode s) = s"
  by (induction s) (auto simp: FossilDecode_plain unescape_def simp del: FossilDecode.simps(3))

lemma FossilDecode_CanonicalEncode [simp]: "FossilDecode (CanonicalEncode s) = s"
  by (induction s) (auto simp: FossilDecode_plain unescape_def simp del: FossilDecode.simps(3))

lemma FossilEncode_token [simp]: "is_token (FossilEncode s)"
  by (induction s) auto

lemma CanonicalEncode_token [simp]: "is_token (CanonicalEncode s)"
  by (induction s) auto

interpretation fossil: field_codec FossilEncode FossilDecode
  by unfold_locales simp_all

interpretation canonical: field_codec CanonicalEncode FossilDecode
  by unfold_locales simp_all

lemmas enc_eq_Nil_simps [simp] = fossil.enc_eq_Nil canonical.enc_eq_Nil

section \<open>How the two encodings relate\<close>

text \<open>A field with none of the five bytes only \<^verbatim>\<open>FossilEncode\<close> escapes.\<close>

definition no_control_escape :: "bytes \<Rightarrow> bool" where
  "no_control_escape s \<longleftrightarrow>
     list_all (\<lambda>c. c \<noteq> CHR 0x09 \<and> c \<noteq> CHR 0x0D \<and> c \<noteq> CHR 0x0B \<and> c \<noteq> CHR 0x0C \<and> c \<noteq> CHR 0x00) s"

lemma no_control_escape_simps [simp]:
  "no_control_escape []"
  "no_control_escape (c # s) \<longleftrightarrow>
     c \<noteq> CHR 0x09 \<and> c \<noteq> CHR 0x0D \<and> c \<noteq> CHR 0x0B \<and> c \<noteq> CHR 0x0C \<and> c \<noteq> CHR 0x00 \<and> no_control_escape s"
  by (auto simp: no_control_escape_def)

lemma length_CanonicalEncode_le: "length (CanonicalEncode s) \<le> length (FossilEncode s)"
  by (induction s) auto

lemma canonical_eq_fossil_aux:
  "CanonicalEncode s = FossilEncode s \<longleftrightarrow> no_control_escape s"
proof (induction s)
  case (Cons c s)
  show ?case using Cons by auto
qed simp

text \<open>
  Field escaping: both encoders are undone by the one decoder, leave no token separator in
  their output, the canonical one is never longer, and the two agree exactly on the fields that
  hold no tab, CR, VT, FF or NUL.
\<close>

theorem field_encodings:
  "FossilDecode (FossilEncode s) = s \<and> FossilDecode (CanonicalEncode s) = s \<and>
   is_token (FossilEncode s) \<and> is_token (CanonicalEncode s) \<and>
   length (CanonicalEncode s) \<le> length (FossilEncode s) \<and>
   (CanonicalEncode s = FossilEncode s) = no_control_escape s"
  by (simp add: fossil.dec_enc canonical.dec_enc fossil.enc_token canonical.enc_token
      length_CanonicalEncode_le canonical_eq_fossil_aux)

end
