(* ===== verification/Pathname.thy ===== *)
theory Pathname
  imports Encode
begin

text \<open>
  The name predicates of \<^verbatim>\<open>src/internal/deck/pathname.go\<close> and the hexadecimal token predicates
  of \<^verbatim>\<open>zcard.go\<close> and \<^verbatim>\<open>parse.go\<close>.  A loop over indices that returns false at the first
  offending index is a bounded conjunction over those indices; Go's \<^verbatim>\<open>utf8.DecodeRuneInString\<close> is
  \<open>decodeRune\<close>, which returns the rune and the number of bytes it took, the error being the rune
  U+FFFD with width at most 1.
\<close>

section \<open>Simple pathnames\<close>

abbreviation SLASH :: byte where "SLASH \<equiv> CHR ''/''"
abbreviation DOT :: byte where "DOT \<equiv> CHR ''.''"

definition dotElementAt :: "bytes \<Rightarrow> nat \<Rightarrow> bool" where
  "dotElementAt z start =
     (if length z \<le> start \<or> z ! start \<noteq> DOT then False
      else if length z \<le> start + 1 \<or> z ! (start + 1) = SLASH then True
      else z ! (start + 1) = DOT \<and> (length z \<le> start + 2 \<or> z ! (start + 2) = SLASH))"

definition simplePathname :: "bytes \<Rightarrow> bool" where
  "simplePathname z =
     (if z = [] \<or> z ! 0 = SLASH then False
      else if dotElementAt z 0 then False
      else list_all (\<lambda>i. z ! i = SLASH \<longrightarrow>
             \<not> (length z \<le> i + 1 \<or> z ! (i + 1) = SLASH) \<and> \<not> dotElementAt z (i + 1)) [0..<length z])"

section \<open>UTF-8\<close>

definition RuneError :: nat where "RuneError = 0xFFFD"

definition byteval :: "byte \<Rightarrow> nat" where
  "byteval c = of_char c"

definition isCont :: "byte \<Rightarrow> bool" where
  "isCont c = (0x80 \<le> byteval c \<and> byteval c \<le> 0xBF)"

text \<open>The accept range of the second byte, by the first (the table \<^verbatim>\<open>acceptRanges\<close>).\<close>

definition acceptSecond :: "nat \<Rightarrow> byte \<Rightarrow> bool" where
  "acceptSecond b0 c =
     (if b0 = 0xE0 then 0xA0 \<le> byteval c \<and> byteval c \<le> 0xBF
      else if b0 = 0xED then 0x80 \<le> byteval c \<and> byteval c \<le> 0x9F
      else if b0 = 0xF0 then 0x90 \<le> byteval c \<and> byteval c \<le> 0xBF
      else if b0 = 0xF4 then 0x80 \<le> byteval c \<and> byteval c \<le> 0x8F
      else isCont c)"

definition runeWidth :: "nat \<Rightarrow> nat" where
  "runeWidth b0 =
     (if b0 < 0x80 then 1 else if b0 < 0xC2 then 0 else if b0 < 0xE0 then 2
      else if b0 < 0xF0 then 3 else if b0 < 0xF5 then 4 else 0)"

definition decodeRune :: "bytes \<Rightarrow> nat \<times> nat" where
  "decodeRune s =
     (case s of [] \<Rightarrow> (RuneError, 0)
      | c # _ \<Rightarrow>
        let b0 = byteval c; sz = runeWidth b0; low = (\<lambda>i. byteval (s ! i) mod 0x40) in
        if sz = 1 then (b0, 1)
        else if sz = 0 \<or> length s < sz \<or> \<not> acceptSecond b0 (s ! 1) then (RuneError, 1)
        else if sz = 2 then (b0 mod 0x20 * 0x40 + low 1, 2)
        else if \<not> isCont (s ! 2) then (RuneError, 1)
        else if sz = 3 then (b0 mod 0x10 * 0x1000 + low 1 * 0x40 + low 2, 3)
        else if \<not> isCont (s ! 3) then (RuneError, 1)
        else (b0 mod 8 * 0x40000 + low 1 * 0x1000 + low 2 * 0x40 + low 3, 4))"

text \<open>One turn of a rune loop always moves forward; both loops below end because of it.\<close>

lemma decodeRune_width: "s \<noteq> [] \<Longrightarrow> 0 < snd (decodeRune s)"
  by (cases s) (auto simp: decodeRune_def Let_def)

definition strictRune :: "nat \<Rightarrow> bool" where
  "strictRune r \<longleftrightarrow> \<not> (0xFFFF < r \<or> (0xE000 \<le> r \<and> r \<le> 0xF8FF) \<or> (0xFDD0 \<le> r \<and> r \<le> 0xFDEF) \<or> 0xFFFE \<le> r)"

function runesAll :: "(nat \<Rightarrow> bool) \<Rightarrow> bytes \<Rightarrow> bool" where
  "runesAll P s =
     (if s = [] then True
      else if fst (decodeRune s) = RuneError \<and> snd (decodeRune s) \<le> 1 then False
      else if \<not> P (fst (decodeRune s)) then False
      else runesAll P (drop (snd (decodeRune s)) s))"
  by auto

termination
  by (relation "measure (\<lambda>(P, s). length s)") (auto simp: decodeRune_width)

declare runesAll.simps [simp del]

definition ValidString :: "bytes \<Rightarrow> bool" where
  "ValidString s = runesAll (\<lambda>_. True) s"

definition StrictPathname :: "bytes \<Rightarrow> bool" where
  "StrictPathname z =
     (if \<not> simplePathname z \<or> BSL \<in> set z then False else runesAll strictRune z)"

definition WorktreePathname :: "bytes \<Rightarrow> bool" where
  "WorktreePathname z \<longleftrightarrow> simplePathname z \<and> BSL \<notin> set z \<and> ValidString z"

section \<open>Wiki names, reserved names, hexadecimal tokens\<close>

definition wikiNameWellformed :: "bytes \<Rightarrow> bool" where
  "wikiNameWellformed z =
     (if z = [] \<or> z ! 0 \<le> CHR 0x20 then False
      else if \<not> list_all (\<lambda>i. \<not> z ! i < CHR 0x20 \<and> \<not> (z ! i = SP \<and> z ! (i - 1) = SP)) [1..<length z] then False
      else if z ! (length z - 1) = SP \<or> 100 < length z then False
      else True)"

text \<open>
  \<^verbatim>\<open>strings.EqualFold\<close> where it is called: against an ASCII literal of the same length.  There a
  rune outside ASCII takes more than one byte and leaves too few runes to match, so folding is
  ASCII case folding.
\<close>

definition lowerByte :: "byte \<Rightarrow> byte" where
  "lowerByte c = (if CHR ''A'' \<le> c \<and> c \<le> CHR ''Z'' then char_of (byteval c + 32) else c)"

definition EqualFold :: "bytes \<Rightarrow> bytes \<Rightarrow> bool" where
  "EqualFold s t \<longleftrightarrow> map lowerByte s = map lowerByte t"

text \<open>The suffix switch: \<open>None\<close> is its early return, otherwise the new \<^verbatim>\<open>end\<close> and \<^verbatim>\<open>gotSuffix\<close>.\<close>

definition reservedSuffix :: "bytes \<Rightarrow> (nat \<times> bool) option" where
  "reservedSuffix name =
     (let n = length name in
      if 12 \<le> n \<and> name ! (n - 4) = CHR ''-'' then
        (if \<not> EqualFold (bslice name (n - 3) n) ''wal'' \<and> \<not> EqualFold (bslice name (n - 3) n) ''shm'' then None
         else Some (n - 4, True))
      else if 16 \<le> n \<and> name ! (n - 8) = CHR ''-'' then
        (if \<not> EqualFold (bslice name (n - 7) n) ''journal'' then None else Some (n - 8, True))
      else Some (n, False))"

definition reservedBase :: "bytes \<Rightarrow> nat \<Rightarrow> bool \<Rightarrow> bool" where
  "reservedBase name en gotSuffix =
     (if name ! (en - 1) = CHR ''_'' then
        (if en < 8 \<or> \<not> EqualFold (bslice name (en - 8) en) ''_FOSSIL_'' then False
         else if en = 8 then True
         else name ! (en - 9) = SLASH \<or> gotSuffix)
      else if name ! (en - 1) = CHR ''T'' \<or> name ! (en - 1) = CHR ''t'' then
        (if en < 9 \<or> name ! (en - 9) \<noteq> DOT \<or> \<not> EqualFold (bslice name (en - 9) en) ''.fslckout'' then False
         else if en = 9 then True
         else name ! (en - 10) = SLASH \<or> gotSuffix)
      else False)"

definition IsReservedName :: "bytes \<Rightarrow> bool" where
  "IsReservedName name =
     (if length name < 8 then False
      else case reservedSuffix name of None \<Rightarrow> False
           | Some (en, gotSuffix) \<Rightarrow> reservedBase name en gotSuffix)"

definition isHexDigit :: "byte \<Rightarrow> bool" where
  "isHexDigit c =
     (if CHR ''0'' \<le> c \<and> c \<le> CHR ''9'' then True
      else if CHR ''a'' \<le> c \<and> c \<le> CHR ''f'' then True
      else if CHR ''A'' \<le> c \<and> c \<le> CHR ''F'' then True
      else False)"

definition isHexAnyCase :: "bytes \<Rightarrow> bool" where
  "isHexAnyCase s = list_all (\<lambda>c. (CHR ''0'' \<le> c \<and> c \<le> CHR ''9'') \<or> (CHR ''a'' \<le> c \<and> c \<le> CHR ''f'') \<or>
     (CHR ''A'' \<le> c \<and> c \<le> CHR ''F'')) s"

definition isHexToken :: "bytes \<Rightarrow> bool" where
  "isHexToken s \<longleftrightarrow> s \<noteq> [] \<and> isHexAnyCase s"

definition validArtifactHash :: "bytes \<Rightarrow> bool" where
  "validArtifactHash s \<longleftrightarrow> (length s = 40 \<or> length s = 64) \<and> isHexAnyCase s"

text \<open>\<^verbatim>\<open>fileTail\<close>: the bytes after the last slash, the whole name when there is none.\<close>

definition fileTail :: "bytes \<Rightarrow> bytes" where
  "fileTail name = rev (takeWhile (\<lambda>c. c \<noteq> SLASH) (rev name))"

section \<open>Simple pathnames are the paths with proper elements\<close>

text \<open>The path's elements: \<^verbatim>\<open>strings.Split(z, "/")\<close>.\<close>

fun pathElements :: "bytes \<Rightarrow> bytes list" where
  "pathElements [] = [[]]"
| "pathElements (c # z) =
     (if c = SLASH then [] # pathElements z
      else case pathElements z of [] \<Rightarrow> [[c]] | e # es \<Rightarrow> (c # e) # es)"

definition properElement :: "bytes \<Rightarrow> bool" where
  "properElement e \<longleftrightarrow> e \<noteq> [] \<and> e \<noteq> ''.'' \<and> e \<noteq> ''..''"

lemma pathElements_neq_Nil [simp]: "pathElements z \<noteq> []"
  by (cases z) (auto split: list.splits)

lemma pathElements_slash [simp]: "pathElements (SLASH # z) = [] # pathElements z"
  by simp

lemma pathElements_Cons_hd [simp]:
  "c \<noteq> SLASH \<Longrightarrow> pathElements (c # z) = (c # hd (pathElements z)) # List.tl (pathElements z)"
  by (cases "pathElements z") auto

declare pathElements.simps(2) [simp del]

text \<open>The conditions on the position where an element starts.\<close>

definition badStart :: "bytes \<Rightarrow> bool" where
  "badStart z \<longleftrightarrow> z = [] \<or> z ! 0 = SLASH \<or> dotElementAt z 0"

lemma hd_pathElements_Nil: "hd (pathElements z) = [] \<longleftrightarrow> z = [] \<or> z ! 0 = SLASH"
proof (cases z)
  case (Cons c r)
  then show ?thesis by (cases "c = SLASH") simp_all
qed simp

lemma badStart_iff: "badStart z \<longleftrightarrow> \<not> properElement (hd (pathElements z))"
proof (cases z)
  case (Cons a r)
  show ?thesis
  proof (cases "a = SLASH")
    case False
    have r: "hd (pathElements r) = [] \<longleftrightarrow> r = [] \<or> r ! 0 = SLASH"
      by (rule hd_pathElements_Nil)
    have rr: "hd (pathElements r) = [DOT] \<longleftrightarrow> r \<noteq> [] \<and> r ! 0 = DOT \<and> (length r = 1 \<or> r ! 1 = SLASH)"
    proof (cases r)
      case (Cons b r')
      then show ?thesis
        using hd_pathElements_Nil [of r'] by (cases "b = SLASH") (auto simp: pathElements_Cons_hd)
    qed simp
    show ?thesis
      using False r rr Cons
      by (auto simp: badStart_def properElement_def dotElementAt_def pathElements_Cons_hd
          simp flip: length_greater_0_conv)
  qed (simp add: badStart_def properElement_def Cons)
qed (simp add: badStart_def properElement_def)

lemma dotElementAt_drop: "i \<le> length z \<Longrightarrow> dotElementAt (drop i z) 0 = dotElementAt z i"
  by (auto simp: dotElementAt_def add.commute)

lemma simplePathname_badStart:
  "simplePathname z \<longleftrightarrow> \<not> badStart z \<and> (\<forall>i<length z. z ! i = SLASH \<longrightarrow> \<not> badStart (drop (Suc i) z))"
  by (auto simp: simplePathname_def badStart_def list_all_iff dotElementAt_drop not_less_eq_eq)

lemma tl_pathElements:
  "(\<forall>i<length z. z ! i = SLASH \<longrightarrow> \<not> badStart (drop (Suc i) z)) \<longleftrightarrow>
   list_all properElement (List.tl (pathElements z))"
proof (induction z)
  case (Cons a z)
  have split: "(\<forall>i<length (a # z). (a # z) ! i = SLASH \<longrightarrow> \<not> badStart (drop (Suc i) (a # z))) \<longleftrightarrow>
     (a = SLASH \<longrightarrow> \<not> badStart z) \<and> (\<forall>i<length z. z ! i = SLASH \<longrightarrow> \<not> badStart (drop (Suc i) z))"
    by (auto simp: less_Suc_eq_0_disj)
  show ?case
  proof (cases "a = SLASH")
    case True
    have "list_all properElement (pathElements z) \<longleftrightarrow>
        properElement (hd (pathElements z)) \<and> list_all properElement (List.tl (pathElements z))"
      by (cases "pathElements z") auto
    then show ?thesis
      using True Cons.IH unfolding split by (simp add: badStart_iff)
  next
    case False
    then show ?thesis
      using Cons.IH unfolding split by (simp add: pathElements_Cons_hd)
  qed
qed simp

lemma simplePathname_iff_elements: "simplePathname z \<longleftrightarrow> list_all properElement (pathElements z)"
proof -
  have "list_all properElement (pathElements z) \<longleftrightarrow>
      properElement (hd (pathElements z)) \<and> list_all properElement (List.tl (pathElements z))"
    by (cases "pathElements z") auto
  then show ?thesis
    unfolding simplePathname_badStart tl_pathElements by (simp add: badStart_iff)
qed

lemma runesAll_mono: "runesAll P s \<Longrightarrow> (\<And>r. P r \<Longrightarrow> Q r) \<Longrightarrow> runesAll Q s"
  by (induction P s rule: runesAll.induct) (metis (no_types, lifting) runesAll.simps)

text \<open>
  The parser's pathname rule is the one of its specification: a name is simple exactly when
  every element between its slashes is non-empty and neither \<open>.\<close> nor \<open>..\<close>; the strict rule of an
  unversioned file name implies the worktree rule, and that one simplicity.
\<close>

theorem pathname_rules:
  "simplePathname z = list_all properElement (pathElements z) \<and>
   (StrictPathname z \<le> WorktreePathname z) \<and> (WorktreePathname z \<le> simplePathname z)"
  using runesAll_mono [of strictRune z "\<lambda>_. True"]
  by (auto simp: simplePathname_iff_elements StrictPathname_def WorktreePathname_def ValidString_def)

lemma lowerByte_idem: "lowerByte (lowerByte c) = lowerByte c"
proof -
  have "\<forall>c. lowerByte (lowerByte c) = lowerByte c" by code_simp
  then show ?thesis by blast
qed


section \<open>Reserved repository names\<close>

text \<open>The specification: an optional directory part, a reserved base name, an optional suffix.\<close>

definition reservedSplit :: "bytes \<Rightarrow> bytes \<Rightarrow> bytes \<Rightarrow> bool" where
  "reservedSplit dir base sfx \<longleftrightarrow>
     (EqualFold base ''_FOSSIL_'' \<or> EqualFold base ''.fslckout'') \<and>
     (sfx = [] \<or> EqualFold sfx ''-wal'' \<or> EqualFold sfx ''-shm'' \<or> EqualFold sfx ''-journal'') \<and>
     (dir = [] \<or> last dir = SLASH \<or> sfx \<noteq> [])"

lemma EqualFold_length: "EqualFold s t \<Longrightarrow> length s = length t"
  by (metis EqualFold_def length_map)

text \<open>A fact about single bytes is checked on all 256 of them.\<close>

lemma lowerByte_table:
  "\<forall>c. (lowerByte c = CHR ''-'') = (c = CHR ''-'') \<and> (lowerByte c = CHR ''_'') = (c = CHR ''_'') \<and>
       (lowerByte c = DOT) = (c = DOT) \<and> (lowerByte c = CHR ''t'') = (c = CHR ''t'' \<or> c = CHR ''T'')"
  by code_simp

lemmas lowerByte_eqs = lowerByte_table [THEN spec, THEN conjunct1]
  lowerByte_table [THEN spec, THEN conjunct2, THEN conjunct1]
  lowerByte_table [THEN spec, THEN conjunct2, THEN conjunct2, THEN conjunct1]
  lowerByte_table [THEN spec, THEN conjunct2, THEN conjunct2, THEN conjunct2]

lemma lowerByte_lits:
  "lowerByte CHR ''_'' = CHR ''_''" "lowerByte DOT = DOT" "lowerByte CHR ''-'' = CHR ''-''"
  "lowerByte CHR ''t'' = CHR ''t''" "lowerByte CHR ''F'' = CHR ''f''" "lowerByte CHR ''S'' = CHR ''s''"
  "lowerByte CHR ''s'' = CHR ''s''" "lowerByte CHR ''k'' = CHR ''k''" "lowerByte CHR ''f'' = CHR ''f''"
  "lowerByte CHR ''r'' = CHR ''r''"
  by code_simp+

lemma EqualFold_Cons: "EqualFold s (d # t) \<longleftrightarrow> (\<exists>c s'. s = c # s' \<and> lowerByte c = lowerByte d \<and> EqualFold s' t)"
  by (auto simp: EqualFold_def map_eq_Cons_conv)

lemma EqualFold_Nil: "EqualFold s [] \<longleftrightarrow> s = []"
  by (simp add: EqualFold_def)

lemma EqualFold_last_under:
  "EqualFold base ''_FOSSIL_'' \<Longrightarrow> length base = 8 \<and> base ! 7 = CHR ''_''"
  by (auto simp: EqualFold_Cons EqualFold_Nil lowerByte_eqs lowerByte_lits)

lemma EqualFold_last_t:
  "EqualFold base ''.fslckout'' \<Longrightarrow> length base = 9 \<and> (base ! 8 = CHR ''t'' \<or> base ! 8 = CHR ''T'') \<and> base ! 0 = DOT"
  by (auto simp: EqualFold_Cons EqualFold_Nil lowerByte_eqs lowerByte_lits)

definition reservedBaseName :: "bytes \<Rightarrow> bool" where
  "reservedBaseName base \<longleftrightarrow> EqualFold base ''_FOSSIL_'' \<or> EqualFold base ''.fslckout''"

lemma reservedBase_complete:
  assumes "reservedBaseName base" and dir: "dir = [] \<or> last dir = SLASH \<or> g"
    and name: "name = dir @ base @ sfx" and en: "en = length dir + length base"
  shows "reservedBase name en g"
proof -
  have base: "bslice name (en - length base) en = base"
    by (simp add: name en bslice_def)
  have nth: "name ! (en - Suc i) = base ! (length base - Suc i)" if "i < length base" for i
  proof -
    from that have "en - Suc i = length dir + (length base - Suc i)" and "length base - Suc i < length base"
      using en by auto
    then show ?thesis by (simp add: name nth_append)
  qed
  have before: "en = length base \<or> name ! (en - Suc (length base)) = SLASH \<or> g"
    using dir by (auto simp: name en nth_append last_conv_nth)
  from assms(1) consider "EqualFold base ''_FOSSIL_''" | "EqualFold base ''.fslckout''"
    by (auto simp: reservedBaseName_def)
  then show ?thesis
  proof cases
    case 1
    note b = EqualFold_last_under [OF 1]
    with en nth [of 0] base before 1 show ?thesis by (auto simp: reservedBase_def)
  next
    case 2
    note b = EqualFold_last_t [OF 2]
    with en nth [of 0] nth [of 8] base before 2 show ?thesis by (auto simp: reservedBase_def)
  qed
qed

lemma reservedBase_sound:
  assumes "reservedBase name en g" and "en \<le> length name"
  obtains dir base where "take en name = dir @ base" "reservedBaseName base" "dir = [] \<or> last dir = SLASH \<or> g"
proof -
  obtain k where k: "k \<le> en" "reservedBaseName (bslice name (en - k) en)" "en = k \<or> name ! (en - Suc k) = SLASH \<or> g"
  proof (cases "name ! (en - 1) = CHR ''_''")
    case True
    with assms that [of 8] show ?thesis by (auto simp: reservedBase_def reservedBaseName_def split: if_splits)
  next
    case False
    with assms that [of 9] show ?thesis by (auto simp: reservedBase_def reservedBaseName_def split: if_splits)
  qed
  have "take en name = take (en - k) name @ bslice name (en - k) en"
    by (simp add: take_prefix_bslice)
  moreover have "take (en - k) name = [] \<or> last (take (en - k) name) = SLASH \<or> g"
  proof (cases "k = en \<or> g")
    case False
    with k assms(2) have "last (take (en - k) name) = name ! (en - Suc k)" and "name ! (en - Suc k) = SLASH"
      by (auto simp: last_take_nth)
    then show ?thesis by simp
  qed auto
  ultimately show ?thesis using that k(2) by blast
qed

definition reservedSuffixName :: "bytes \<Rightarrow> bool" where
  "reservedSuffixName sfx \<longleftrightarrow> EqualFold sfx ''-wal'' \<or> EqualFold sfx ''-shm'' \<or> EqualFold sfx ''-journal''"

lemma reservedSuffix_sound:
  assumes "reservedSuffix name = Some (en, g)"
  shows "en \<le> length name \<and> (if g then reservedSuffixName (drop en name) else en = length name)"
proof -
  have dash: "n \<le> length name \<Longrightarrow> 0 < n \<Longrightarrow> name ! (length name - n) = CHR ''-'' \<Longrightarrow>
     drop (length name - n) name = CHR ''-'' # bslice name (length name - (n - 1)) (length name)" for n
    by (simp add: Cons_nth_drop_Suc [symmetric] bslice_def Suc_diff_le)
  show ?thesis
    using assms dash [of 4] dash [of 8]
    by (auto simp: reservedSuffix_def Let_def reservedSuffixName_def EqualFold_Cons split: if_splits)
qed

lemma reservedBaseName_nth:
  assumes "reservedBaseName base"
  shows "8 \<le> length base \<and> base ! (length base - 4) \<noteq> CHR ''-'' \<and> base ! (length base - 8) \<noteq> CHR ''-''"
  using assms by (auto simp: reservedBaseName_def EqualFold_Cons EqualFold_Nil lowerByte_lits)

lemma reservedSuffixName_cases:
  assumes "reservedSuffixName sfx"
  shows "sfx ! 0 = CHR ''-'' \<and>
    (length sfx = 4 \<and> (EqualFold (drop 1 sfx) ''wal'' \<or> EqualFold (drop 1 sfx) ''shm'') \<or>
     length sfx = 8 \<and> EqualFold (drop 1 sfx) ''journal'' \<and> sfx ! 4 \<noteq> CHR ''-'')"
  using assms
  by (auto simp: reservedSuffixName_def EqualFold_Cons EqualFold_Nil lowerByte_eqs lowerByte_lits)

lemma reservedSuffix_complete:
  assumes base: "reservedBaseName base" and sfx: "sfx = [] \<or> reservedSuffixName sfx"
    and name: "name = dir @ base @ sfx"
  shows "reservedSuffix name = Some (length dir + length base, sfx \<noteq> [])"
proof -
  note b = reservedBaseName_nth [OF base]
  consider "sfx = []" | "length sfx = 4" "reservedSuffixName sfx" | "length sfx = 8" "reservedSuffixName sfx"
    using sfx reservedSuffixName_cases by blast
  then show ?thesis
  proof cases
    case 1
    have "name ! (length name - 4) = base ! (length base - 4)" "name ! (length name - 8) = base ! (length base - 8)"
      using b by (auto simp: name 1 nth_append)
    with b 1 show ?thesis by (simp add: reservedSuffix_def Let_def name)
  next
    case 2
    have "name ! (length name - 4) = sfx ! 0" "bslice name (length name - 3) (length name) = drop 1 sfx"
      using 2 by (auto simp: name nth_append bslice_def)
    with b 2 reservedSuffixName_cases [OF 2(2)] show ?thesis
      by (auto simp: reservedSuffix_def Let_def name)
  next
    case 3
    have "name ! (length name - 8) = sfx ! 0" "bslice name (length name - 7) (length name) = drop 1 sfx"
        "name ! (length name - 4) = sfx ! 4"
      using 3 by (auto simp: name nth_append bslice_def)
    with b 3 reservedSuffixName_cases [OF 3(2)] show ?thesis
      by (auto simp: reservedSuffix_def Let_def name)
  qed
qed

lemma reservedSplit_alt:
  "reservedSplit dir base sfx \<longleftrightarrow> reservedBaseName base \<and> (sfx = [] \<or> reservedSuffixName sfx) \<and>
     (dir = [] \<or> last dir = SLASH \<or> sfx \<noteq> [])"
  by (auto simp: reservedSplit_def reservedBaseName_def reservedSuffixName_def)

text \<open>
  C35. A name is reserved exactly when it splits into a directory part, one of the two base names in
  any case, and an optional \<^verbatim>\<open>-wal\<close>, \<^verbatim>\<open>-shm\<close> or \<^verbatim>\<open>-journal\<close> suffix, where without a suffix the
  base name must be a whole path element (with one, any preceding bytes are accepted).
\<close>

theorem IsReservedName_spec:
  "IsReservedName name = (\<exists>dir base sfx. name = dir @ base @ sfx \<and> reservedSplit dir base sfx)"
proof
  assume r: "IsReservedName name"
  then obtain en g where s: "reservedSuffix name = Some (en, g)" and rb: "reservedBase name en g"
    by (auto simp: IsReservedName_def split: if_splits option.splits)
  note s' = reservedSuffix_sound [OF s]
  then have le: "en \<le> length name" by simp
  from rb le obtain dir base where "take en name = dir @ base" "reservedBaseName base" "dir = [] \<or> last dir = SLASH \<or> g"
    by (rule reservedBase_sound)
  moreover have "name = take en name @ drop en name" by simp
  ultimately have "name = dir @ base @ drop en name" "reservedSplit dir base (drop en name)"
    using s' by (simp, auto simp: reservedSplit_alt reservedSuffixName_def EqualFold_def split: if_splits)
  then show "\<exists>dir base sfx. name = dir @ base @ sfx \<and> reservedSplit dir base sfx" by blast
next
  assume "\<exists>dir base sfx. name = dir @ base @ sfx \<and> reservedSplit dir base sfx"
  then obtain dir base sfx where name: "name = dir @ base @ sfx" and sp: "reservedSplit dir base sfx"
    by blast
  note sp' = sp [unfolded reservedSplit_alt]
  have "reservedSuffix name = Some (length dir + length base, sfx \<noteq> [])"
    using sp' name by (intro reservedSuffix_complete) auto
  moreover have "reservedBase name (length dir + length base) (sfx \<noteq> [])"
    using sp' name by (intro reservedBase_complete [of base dir _ name sfx]) auto
  ultimately show "IsReservedName name"
    using reservedBaseName_nth [of base] sp' by (auto simp: IsReservedName_def name)
qed

end
