(* ===== verification/MD5.thy ===== *)
theory MD5
  imports Pathname "HOL-Library.Word"
begin

text \<open>
  The digest the Z and R cards are defined by: \<^verbatim>\<open>md5.Sum\<close> and \<^verbatim>\<open>hex.EncodeToString\<close> of Go's
  standard library, over 32-bit words (RFC 1321), and \<^verbatim>\<open>computeZ\<close> of
  \<^verbatim>\<open>src/internal/deck/zcard.go\<close>.  The digest is concrete, so checksums of concrete artifacts are
  computed by the kernel.
\<close>

unbundle bit_operations_syntax

section \<open>MD5\<close>

type_synonym w32 = "32 word"

definition md5K :: "w32 list" where
  "md5K =
    [0xD76AA478, 0xE8C7B756, 0x242070DB, 0xC1BDCEEE, 0xF57C0FAF, 0x4787C62A,
     0xA8304613, 0xFD469501, 0x698098D8, 0x8B44F7AF, 0xFFFF5BB1, 0x895CD7BE,
     0x6B901122, 0xFD987193, 0xA679438E, 0x49B40821, 0xF61E2562, 0xC040B340,
     0x265E5A51, 0xE9B6C7AA, 0xD62F105D, 0x02441453, 0xD8A1E681, 0xE7D3FBC8,
     0x21E1CDE6, 0xC33707D6, 0xF4D50D87, 0x455A14ED, 0xA9E3E905, 0xFCEFA3F8,
     0x676F02D9, 0x8D2A4C8A, 0xFFFA3942, 0x8771F681, 0x6D9D6122, 0xFDE5380C,
     0xA4BEEA44, 0x4BDECFA9, 0xF6BB4B60, 0xBEBFBC70, 0x289B7EC6, 0xEAA127FA,
     0xD4EF3085, 0x04881D05, 0xD9D4D039, 0xE6DB99E5, 0x1FA27CF8, 0xC4AC5665,
     0xF4292244, 0x432AFF97, 0xAB9423A7, 0xFC93A039, 0x655B59C3, 0x8F0CCC92,
     0xFFEFF47D, 0x85845DD1, 0x6FA87E4F, 0xFE2CE6E0, 0xA3014314, 0x4E0811A1,
     0xF7537E82, 0xBD3AF235, 0x2AD7D2BB, 0xEB86D391]"

definition md5S :: "nat list" where
  "md5S =
    [7, 12, 17, 22, 7, 12, 17, 22, 7, 12, 17, 22, 7, 12, 17, 22,
     5, 9, 14, 20, 5, 9, 14, 20, 5, 9, 14, 20, 5, 9, 14, 20,
     4, 11, 16, 23, 4, 11, 16, 23, 4, 11, 16, 23, 4, 11, 16, 23,
     6, 10, 15, 21, 6, 10, 15, 21, 6, 10, 15, 21, 6, 10, 15, 21]"

text \<open>Little-endian bytes of a number, and the word four bytes make.\<close>

fun leBytes :: "nat \<Rightarrow> nat \<Rightarrow> bytes" where
  "leBytes 0 v = []"
| "leBytes (Suc k) v = char_of (v mod 256) # leBytes k (v div 256)"

definition leWord :: "bytes \<Rightarrow> w32" where
  "leWord bs = of_nat (foldr (\<lambda>c v. byteval c + 256 * v) bs 0)"

definition md5Pad :: "bytes \<Rightarrow> bytes" where
  "md5Pad msg = msg @ CHR 0x80 # replicate ((119 - length msg mod 64) mod 64) (CHR 0x00) @
     leBytes 8 (8 * length msg)"

fun chunks :: "nat \<Rightarrow> 'a list \<Rightarrow> 'a list list" where
  "chunks n xs = (if n = 0 \<or> xs = [] then [] else take n xs # chunks n (drop n xs))"

declare chunks.simps [simp del]

definition rotl :: "nat \<Rightarrow> w32 \<Rightarrow> w32" where
  "rotl s x = push_bit s x OR drop_bit (32 - s) x"

type_synonym md5state = "w32 \<times> w32 \<times> w32 \<times> w32"

definition md5Step :: "w32 list \<Rightarrow> md5state \<Rightarrow> nat \<Rightarrow> md5state" where
  "md5Step M st i =
     (case st of (a, b, c, d) \<Rightarrow>
      let (f, g) = (if i < 16 then ((b AND c) OR (NOT b AND d), i)
                    else if i < 32 then ((d AND b) OR (NOT d AND c), (5 * i + 1) mod 16)
                    else if i < 48 then (b XOR c XOR d, (3 * i + 5) mod 16)
                    else (c XOR (b OR NOT d), (7 * i) mod 16))
      in (d, b + rotl (md5S ! i) (f + a + md5K ! i + M ! g), b, c))"

definition md5Block :: "md5state \<Rightarrow> bytes \<Rightarrow> md5state" where
  "md5Block st blk =
     (case (st, foldl (md5Step (map leWord (chunks 4 blk))) st [0..<64]) of
       ((a, b, c, d), (a', b', c', d')) \<Rightarrow> (a + a', b + b', c + c', d + d'))"

definition md5Sum :: "bytes \<Rightarrow> bytes" where
  "md5Sum msg =
     (case foldl md5Block (0x67452301, 0xEFCDAB89, 0x98BADCFE, 0x10325476) (chunks 64 (md5Pad msg)) of
       (a, b, c, d) \<Rightarrow> leBytes 4 (unat a) @ leBytes 4 (unat b) @ leBytes 4 (unat c) @ leBytes 4 (unat d))"

section \<open>Hexadecimal rendering and the Z checksum\<close>

definition hexDigit :: "nat \<Rightarrow> byte" where
  "hexDigit n = (if n < 10 then char_of (48 + n) else char_of (87 + n))"

definition hexEncode :: "bytes \<Rightarrow> bytes" where
  "hexEncode bs = concat (map (\<lambda>c. [hexDigit (byteval c div 16), hexDigit (byteval c mod 16)]) bs)"

definition computeZ :: "bytes \<Rightarrow> bytes" where
  "computeZ data = hexEncode (md5Sum data)"

lemma length_leBytes [simp]: "length (leBytes k v) = k"
  by (induction k arbitrary: v) auto

lemma length_hexEncode [simp]: "length (hexEncode bs) = 2 * length bs"
  by (induction bs) (auto simp: hexEncode_def)

lemma length_md5Sum [simp]: "length (md5Sum msg) = 16"
  by (simp add: md5Sum_def split: prod.splits)

lemma length_computeZ [simp]: "length (computeZ data) = 32"
  by (simp add: computeZ_def)

text \<open>A lower-case hexadecimal digit.\<close>

definition isLowerHex :: "byte \<Rightarrow> bool" where
  "isLowerHex c \<longleftrightarrow> (CHR ''0'' \<le> c \<and> c \<le> CHR ''9'') \<or> (CHR ''a'' \<le> c \<and> c \<le> CHR ''f'')"

lemma hexDigits_lower_table:
  "\<forall>c. isLowerHex (hexDigit (byteval c div 16)) \<and> isLowerHex (hexDigit (byteval c mod 16))"
  by code_simp

lemma hexEncode_lower: "list_all isLowerHex (hexEncode bs)"
  using hexDigits_lower_table by (auto simp: hexEncode_def list_all_iff)

lemma computeZ_lower: "list_all isLowerHex (computeZ data)"
  by (simp add: computeZ_def hexEncode_lower)

lemma lowerHex_table:
  "\<forall>c. (isLowerHex c \<le> isHexDigit c) \<and> (isHexDigit c \<le> (c \<noteq> SP)) \<and> (isHexDigit c \<le> (c \<noteq> LF)) \<and>
       (isHexDigit c \<le> isLowerHex (lowerByte c)) \<and> (isLowerHex c \<le> (lowerByte c = c)) \<and>
       (isHexDigit c \<le> (c \<noteq> BSL)) \<and> (isHexDigit c \<le> (c \<noteq> CHR ''*''))"
  by code_simp

lemma isHexDigit_props:
  "isHexDigit c \<Longrightarrow> c \<noteq> SP" "isHexDigit c \<Longrightarrow> c \<noteq> LF" "isLowerHex c \<Longrightarrow> isHexDigit c"
  "isHexDigit c \<Longrightarrow> isLowerHex (lowerByte c)" "isLowerHex c \<Longrightarrow> lowerByte c = c"
  "isHexDigit c \<Longrightarrow> c \<noteq> BSL" "isHexDigit c \<Longrightarrow> c \<noteq> CHR ''*''"
  using lowerHex_table by auto

lemma isHexAnyCase_iff: "isHexAnyCase s \<longleftrightarrow> list_all isHexDigit s"
  by (auto simp: isHexAnyCase_def isHexDigit_def list_all_iff)

lemma isHexAnyCase_token: "isHexAnyCase s \<Longrightarrow> is_token s"
  by (auto simp: isHexAnyCase_iff list_all_iff is_token_def dest: isHexDigit_props)

lemma computeZ_hex: "isHexAnyCase (computeZ data)"
  using computeZ_lower by (auto simp: isHexAnyCase_iff list_all_iff dest: isHexDigit_props)

section \<open>The digest of the empty message\<close>

text \<open>
  The round function is evaluated sixteen steps at a time; the block is the padding alone.
\<close>

definition emptyBlock :: "w32 list" where
  "emptyBlock = 128 # replicate 15 0"

lemmas md5_eval = md5Step_def rotl_def md5S_def md5K_def emptyBlock_def

lemma md5_empty_0:
  "foldl (md5Step emptyBlock) (0x67452301, 0xEFCDAB89, 0x98BADCFE, 0x10325476) [0, 1, 2, 3, 4, 5, 6, 7] =
   (0x32033344, 0x9BC13CE9, 0xF5B158DB, 0x2F35D494)"
  by (simp add: md5_eval)

lemma md5_empty_1:
  "foldl (md5Step emptyBlock) (0x32033344, 0x9BC13CE9, 0xF5B158DB, 0x2F35D494) [8, 9, 10, 11, 12, 13, 14, 15] =
   (0xF56C7CF1, 0xD6819C6A, 0x5AA53F75, 0x374943A7)"
  by (simp add: md5_eval)

lemma md5_empty_2:
  "foldl (md5Step emptyBlock) (0xF56C7CF1, 0xD6819C6A, 0x5AA53F75, 0x374943A7) [16, 17, 18, 19, 20, 21, 22, 23] =
   (0x3D1E3E6C, 0xE422531A, 0xEB41643E, 0x68B7B3E3)"
  by (simp add: md5_eval)

lemma md5_empty_3:
  "foldl (md5Step emptyBlock) (0x3D1E3E6C, 0xE422531A, 0xEB41643E, 0x68B7B3E3) [24, 25, 26, 27, 28, 29, 30, 31] =
   (0x13707036, 0xA2205F1F, 0x1C31C384, 0xAE7813DB)"
  by (simp add: md5_eval)

lemma md5_empty_4:
  "foldl (md5Step emptyBlock) (0x13707036, 0xA2205F1F, 0x1C31C384, 0xAE7813DB) [32, 33, 34, 35, 36, 37, 38, 39] =
   (0x5F7A9B2E, 0xC5DC8C15, 0x91CA4CB7, 0xABC34E16)"
  by (simp add: md5_eval)

lemma md5_empty_5:
  "foldl (md5Step emptyBlock) (0x5F7A9B2E, 0xC5DC8C15, 0x91CA4CB7, 0xABC34E16) [40, 41, 42, 43, 44, 45, 46, 47] =
   (0x3F55EDFD, 0xCA7D2DBD, 0x68D84EA2, 0x22A31F54)"
  by (simp add: md5_eval)

lemma md5_empty_6:
  "foldl (md5Step emptyBlock) (0x3F55EDFD, 0xCA7D2DBD, 0x68D84EA2, 0x22A31F54) [48, 49, 50, 51, 52, 53, 54, 55] =
   (0x5625A114, 0x1E77FA61, 0x392AD0D0, 0x3450F42B)"
  by (simp add: md5_eval)

lemma md5_empty_7:
  "foldl (md5Step emptyBlock) (0x5625A114, 0x1E77FA61, 0x392AD0D0, 0x3450F42B) [56, 57, 58, 59, 60, 61, 62, 63] =
   (0x7246FAD3, 0x14E45506, 0xFF4EA3EB, 0x6E10A476)"
  by (simp add: md5_eval)

lemma md5_rounds: "[0..<64] = [0, 1, 2, 3, 4, 5, 6, 7] @ [8, 9, 10, 11, 12, 13, 14, 15] @ [16, 17, 18, 19, 20, 21, 22, 23] @ [24, 25, 26, 27, 28, 29, 30, 31] @ [32, 33, 34, 35, 36, 37, 38, 39] @ [40, 41, 42, 43, 44, 45, 46, 47] @ [48, 49, 50, 51, 52, 53, 54, 55] @ [56, 57, 58, 59, 60, 61, 62, 63]"
  by code_simp

lemma md5_empty_words: "map leWord (chunks 4 (CHR 0x80 # replicate 63 (CHR 0x00))) = emptyBlock"
  by code_simp

lemma md5_empty_pad: "chunks 64 (md5Pad []) = [CHR 0x80 # replicate 63 (CHR 0x00)]"
  by code_simp

lemma md5_empty_rounds:
  "foldl (md5Step emptyBlock) (0x67452301, 0xEFCDAB89, 0x98BADCFE, 0x10325476) [0..<64] =
   (0x7246FAD3, 0x14E45506, 0xFF4EA3EB, 0x6E10A476)"
  by (simp only: md5_rounds foldl_append md5_empty_0 md5_empty_1 md5_empty_2 md5_empty_3 md5_empty_4 md5_empty_5 md5_empty_6 md5_empty_7)

lemma md5_empty_block:
  "foldl md5Block (0x67452301, 0xEFCDAB89, 0x98BADCFE, 0x10325476) (chunks 64 (md5Pad [])) =
   (0xD98C1DD4, 0x04B2008F, 0x980980E9, 0x7E42F8EC)"
  unfolding md5_empty_pad by (simp add: md5Block_def md5_empty_words md5_empty_rounds)

lemma computeZ_empty: "computeZ [] = ''d41d8cd98f00b204e9800998ecf8427e''"
  unfolding computeZ_def md5Sum_def md5_empty_block by code_simp

end
