(* ===== verification/Clearsign.thy ===== *)
theory Clearsign
  imports MD5
begin

text \<open>
  The clearsign wrapper (\<^verbatim>\<open>src/internal/deck/clearsign.go\<close>) and the Z card check
  (\<^verbatim>\<open>src/internal/deck/zcard.go\<close>).  The forward scan for the blank line and the backward scan for the
  signature trailer are the recursions \<open>skipArmor\<close> and \<open>cutSignature\<close>, over the same indices as the
  loops.
\<close>

section \<open>Errors of the deck package\<close>

text \<open>An error is the format it was built with and the strings it quotes; a Go panic is an error value too.\<close>

datatype deck_error = Errorf string "string list" | Panic string

section \<open>Stripping the wrapper\<close>

definition clearsignHeaders :: "bytes list" where
  "clearsignHeaders = [''-----BEGIN PGP SIGNED MESSAGE-----'', ''-----BEGIN SSH SIGNED MESSAGE-----'']"

definition clearsignSignatures :: "bytes list" where
  "clearsignSignatures = [LF # ''-----BEGIN PGP SIGNATURE----'', LF # ''-----BEGIN SSH SIGNATURE----'']"

definition clearsignHeaderLen :: nat where
  "clearsignHeaderLen = 34"

fun matchPrefix :: "bytes \<Rightarrow> bytes list \<Rightarrow> bytes option" where
  "matchPrefix data [] = None"
| "matchPrefix data (marker # markers) = (if prefix marker data then Some marker else matchPrefix data markers)"

definition afterBlankLine :: "bytes \<Rightarrow> nat \<Rightarrow> bool" where
  "afterBlankLine z i =
     (if i < 1 \<or> z ! (i - 1) \<noteq> LF then False
      else if 2 \<le> i \<and> z ! (i - 2) = LF then True
      else if 3 \<le> i \<and> z ! (i - 2) = CHR 0x0D \<and> z ! (i - 3) = LF then True
      else False)"

function skipArmor :: "bytes \<Rightarrow> nat \<Rightarrow> nat" where
  "skipArmor data i = (if i < length data \<and> \<not> afterBlankLine data i then skipArmor data (i + 1) else i)"
  by auto

termination
  by (relation "measure (\<lambda>(data, i). length data - i)") auto

declare skipArmor.simps [simp del]

text \<open>\<open>cutSignature body k\<close> is the backward loop about to look at index \<open>k - 1\<close>.\<close>

fun cutSignature :: "bytes \<Rightarrow> nat \<Rightarrow> bytes" where
  "cutSignature body 0 = body"
| "cutSignature body (Suc j) =
     (if body ! j \<noteq> LF then cutSignature body j
      else if matchPrefix (drop j body) clearsignSignatures \<noteq> None then take (Suc j) body
      else cutSignature body j)"

definition StripClearsign :: "bytes \<Rightarrow> deck_error + bytes" where
  "StripClearsign data =
     (case matchPrefix data clearsignHeaders of
        None \<Rightarrow> Inr data
      | Some header \<Rightarrow>
          if length header \<noteq> clearsignHeaderLen then Inl (Panic ''deck.StripClearsign: clearsign header marker length mismatch'')
          else let i = skipArmor data clearsignHeaderLen in
               if length data \<le> i then Inr data
               else let body = drop i data in Inr (cutSignature body (length body)))"

section \<open>The Z card\<close>

definition verifyZ :: "bytes \<Rightarrow> deck_error + unit" where
  "verifyZ body =
     (let n = length body in
      if n < 35 then Inr ()
      else if body ! (n - 35) \<noteq> CHR ''Z'' \<or> body ! (n - 34) \<noteq> SP then Inr ()
      else let stated = bslice body (n - 33) (n - 1); computed = computeZ (take (n - 35) body) in
           if computed \<noteq> stated
           then Inl (Errorf ''deck.VerifyZ: checksum mismatch: stated=%s computed=%s'' [stated, computed])
           else Inr ())"

definition VerifyZ :: "bytes \<Rightarrow> deck_error + unit" where
  "VerifyZ data = bindE (StripClearsign data) verifyZ"

definition HasValidZ :: "bytes \<Rightarrow> deck_error + bool" where
  "HasValidZ data =
     bindE (StripClearsign data) (\<lambda>body.
       let n = length body in
       if n < 35 \<or> body ! (n - 1) \<noteq> LF \<or> body ! (n - 35) \<noteq> CHR ''Z'' \<or> body ! (n - 34) \<noteq> SP then Inr False
       else Inr (is_ok (verifyZ body)))"

section \<open>Facts about the strip\<close>

lemma matchPrefix_Some: "matchPrefix data ms = Some m \<Longrightarrow> m \<in> set ms \<and> prefix m data"
  by (induction ms) (auto split: if_splits)

lemma matchPrefix_None: "matchPrefix data ms = None \<longleftrightarrow> (\<forall>m\<in>set ms. \<not> prefix m data)"
  by (induction ms) auto

lemma matchPrefix_append: "m \<in> set ms \<Longrightarrow> matchPrefix (m @ rest) ms \<noteq> None"
  by (induction ms) auto

lemma clearsignHeaders_len: "h \<in> set clearsignHeaders \<Longrightarrow> length h = clearsignHeaderLen"
  by (auto simp: clearsignHeaders_def clearsignHeaderLen_def)

lemma cutSignature_prefix: "prefix (cutSignature body k) body"
  by (induction k) (auto simp: take_is_prefix)

lemma cutSignature_last:
  "k \<le> length body \<Longrightarrow> body \<noteq> [] \<Longrightarrow> last body = LF \<Longrightarrow>
   cutSignature body k \<noteq> [] \<and> last (cutSignature body k) = LF"
  by (induction k) (auto simp: last_take_nth)

text \<open>The content that is scanned: the strip never panics, so its result is a byte string.\<close>

definition stripped :: "bytes \<Rightarrow> bytes" where
  "stripped data =
     (if matchPrefix data clearsignHeaders = None \<or> length data \<le> skipArmor data clearsignHeaderLen then data
      else let body = drop (skipArmor data clearsignHeaderLen) data in cutSignature body (length body))"

lemma StripClearsign_eq: "StripClearsign data = Inr (stripped data)"
  by (auto simp: StripClearsign_def stripped_def Let_def dest: matchPrefix_Some clearsignHeaders_len
      split: option.splits)

lemma stripped_plain: "matchPrefix data clearsignHeaders = None \<Longrightarrow> stripped data = data"
  by (simp add: stripped_def)

lemma stripped_last:
  "data \<noteq> [] \<Longrightarrow> last data = LF \<Longrightarrow> stripped data \<noteq> [] \<and> last (stripped data) = LF"
  using cutSignature_last [of "length (drop (skipArmor data clearsignHeaderLen) data)"
      "drop (skipArmor data clearsignHeaderLen) data"]
  by (auto simp: stripped_def Let_def last_drop)

lemma stripped_sublist: "sublist (stripped data) data"
proof -
  let ?b = "drop (skipArmor data clearsignHeaderLen) data"
  have "sublist (cutSignature ?b (length ?b)) ?b"
    by (simp add: cutSignature_prefix prefix_imp_sublist)
  moreover have "sublist ?b data"
    by (metis suffix_drop suffix_imp_sublist)
  ultimately show ?thesis
    by (auto simp: stripped_def Let_def intro: sublist_order.order_trans)
qed

lemma afterBlankLine_append: "k \<le> length xs \<Longrightarrow> afterBlankLine (xs @ ys) k = afterBlankLine xs k"
  by (auto simp: afterBlankLine_def nth_append)

lemma skipArmor_found:
  assumes "afterBlankLine data b" "b < length data" "i \<le> b"
    and "list_all (\<lambda>k. \<not> afterBlankLine data k) [i..<b]"
  shows "skipArmor data i = b"
  using assms(3,4)
proof (induction "b - i" arbitrary: i)
  case 0
  with assms show ?case by (simp add: skipArmor.simps [of data i])
next
  case (Suc n)
  then have "i < b" by simp
  with Suc.prems have "\<not> afterBlankLine data i" "list_all (\<lambda>k. \<not> afterBlankLine data k) [i + 1..<b]"
    by (auto simp: upt_conv_Cons)
  with Suc.hyps(1) [of "i + 1"] Suc.hyps(2) \<open>i < b\<close> assms(2) show ?case
    by (simp add: skipArmor.simps [of data i])
qed

lemma cutSignature_found:
  assumes "body ! j = LF" "matchPrefix (drop j body) clearsignSignatures \<noteq> None" "j < k"
    and "list_all (\<lambda>i. matchPrefix (drop i body) clearsignSignatures = None) [Suc j..<k]"
  shows "cutSignature body k = take (Suc j) body"
  using assms(3,4)
proof (induction k)
  case (Suc k)
  show ?case
  proof (cases "j = k")
    case True
    with assms show ?thesis by simp
  next
    case False
    with Suc.prems have "j < k" by simp
    with Suc.prems have "matchPrefix (drop k body) clearsignSignatures = None"
        "list_all (\<lambda>i. matchPrefix (drop i body) clearsignSignatures = None) [Suc j..<k]"
      by auto
    with Suc.IH \<open>j < k\<close> show ?thesis by simp
  qed
qed simp

text \<open>
  C33. Unwrapping: a message that is a clearsign header, armor lines up to the first blank line, LF-terminated
  content and a signature trailer that does not occur again below it, strips to exactly the content.
\<close>

theorem StripClearsign_unwraps:
  assumes "header \<in> set clearsignHeaders" and "marker \<in> set clearsignSignatures"
    and "afterBlankLine (header @ armor) (length (header @ armor))"
    and "list_all (\<lambda>k. \<not> afterBlankLine (header @ armor) k) [34..<length (header @ armor)]"
    and "content \<noteq> []" and "last content = LF"
    and "list_all (\<lambda>i. matchPrefix (drop i (content @ drop 1 marker @ rest)) clearsignSignatures = None)
           [length content..<length (content @ drop 1 marker @ rest)]"
    and "34 \<le> length (header @ armor)"
  shows "StripClearsign (header @ armor @ content @ drop 1 marker @ rest) = Inr content"
proof -
  let ?body = "content @ drop 1 marker @ rest"
  let ?data = "header @ armor @ ?body"
  let ?b = "length (header @ armor)"
  have hd: "matchPrefix ?data clearsignHeaders \<noteq> None"
    using assms(1) by (rule matchPrefix_append)
  have abl: "afterBlankLine ?data k = afterBlankLine (header @ armor) k" if "k \<le> ?b" for k
    using afterBlankLine_append [OF that] by simp
  have skip: "skipArmor ?data clearsignHeaderLen = ?b"
    using assms(3-5,8) by (intro skipArmor_found) (auto simp: abl [simplified] clearsignHeaderLen_def list_all_iff)
  obtain m where m: "marker = LF # m" using assms(2) by (auto simp: clearsignSignatures_def)
  let ?j = "length content - 1"
  obtain c0 where c0: "content = c0 @ [LF]"
    using assms(5,6) by (metis append_butlast_last_id)
  have jLF: "?body ! ?j = LF" using assms(5,6) by (simp add: nth_append last_conv_nth)
  have "drop ?j ?body = marker @ rest"
    by (simp add: c0 m)
  then have mk: "matchPrefix (drop ?j ?body) clearsignSignatures \<noteq> None"
    by (simp only: matchPrefix_append [OF assms(2)] not_False_eq_True)
  have "cutSignature ?body (length ?body) = take (Suc ?j) ?body"
    using assms(7) by (intro cutSignature_found jLF mk) (auto simp: c0)
  then show ?thesis
    using hd skip assms(5) by (auto simp: StripClearsign_eq stripped_def Let_def)
qed

lemma StripClearsign_unwraps_witness:
  "StripClearsign (''-----BEGIN PGP SIGNED MESSAGE-----'' @ (LF # ''Hash: SHA1'' @ [LF, LF]) @ (''C x'' @ [LF]) @
      drop 1 (LF # ''-----BEGIN PGP SIGNATURE----'') @ (''-'' @ [LF])) = Inr (''C x'' @ [LF])"
  by (rule StripClearsign_unwraps) code_simp+

text \<open>
  The strip is the identity on input with no clearsign header, always yields a slice of its input, and keeps
  the final LF; it is not idempotent, as a wrapped body that itself starts with a header shows.
\<close>

theorem StripClearsign_shape:
  "(\<exists>c. StripClearsign data = Inr c \<and> sublist c data \<and>
      (c = data \<or> (\<exists>h. h \<in> set clearsignHeaders \<and> prefix h data)) \<and>
      (data = [] \<or> last data \<noteq> LF \<or> (c \<noteq> [] \<and> last c = LF))) \<and>
   (\<exists>d c c'. StripClearsign d = Inr c \<and> StripClearsign c = Inr c' \<and> c' \<noteq> c)"
proof
  show "\<exists>c. StripClearsign data = Inr c \<and> sublist c data \<and>
      (c = data \<or> (\<exists>h. h \<in> set clearsignHeaders \<and> prefix h data)) \<and>
      (data = [] \<or> last data \<noteq> LF \<or> (c \<noteq> [] \<and> last c = LF))"
    using stripped_sublist [of data] stripped_last [of data] stripped_plain [of data]
    by (auto simp: StripClearsign_eq matchPrefix_None)
  let ?h = "''-----BEGIN PGP SIGNED MESSAGE-----'' @ [LF, LF]"
  have "StripClearsign (?h @ ?h @ ''C x'' @ [LF]) = Inr (?h @ ''C x'' @ [LF])"
    and "StripClearsign (?h @ ''C x'' @ [LF]) = Inr (''C x'' @ [LF])"
    by code_simp+
  then show "\<exists>d c c'. StripClearsign d = Inr c \<and> StripClearsign c = Inr c' \<and> c' \<noteq> c"
    by fastforce
qed

lemma StripClearsign_shape_witness:
  "\<exists>c. StripClearsign (''C x'' @ [LF]) = Inr c \<and> sublist c (''C x'' @ [LF]) \<and> last c = LF"
  using StripClearsign_shape [of "''C x'' @ [LF]"] by auto

section \<open>Facts about the Z card\<close>

definition zCard :: "bytes \<Rightarrow> bytes" where
  "zCard body = ''Z '' @ computeZ body @ [LF]"

lemma verifyZ_stated:
  assumes "length z = 32"
  shows "verifyZ (body @ ''Z '' @ z @ [c]) = Inr () \<longleftrightarrow> z = computeZ body"
  using assms by (auto simp: verifyZ_def Let_def nth_append bslice_def)

lemma verifyZ_zCard: "verifyZ (body @ zCard body) = Inr ()"
  using verifyZ_stated [of "computeZ body" body LF] by (simp add: zCard_def)

lemma last_35_split:
  assumes "35 \<le> length s" "s ! (length s - 35) = CHR ''Z''" "s ! (length s - 34) = SP"
  obtains b z where "s = b @ ''Z '' @ z @ [last s]" "length z = 32" "b = take (length s - 35) s"
proof -
  let ?n = "length s"
  have s: "s = take (?n - 35) s @ drop (?n - 35) s" by simp
  have "drop (?n - 35) s = CHR ''Z'' # SP # drop (?n - 33) s"
  proof -
    define k where "k = ?n - 35"
    with assms(1) have k: "?n - 34 = Suc k" "?n - 33 = Suc (Suc k)" "k < ?n" "Suc k < ?n" by auto
    show ?thesis
      unfolding k_def [symmetric] k(2)
      using assms(2,3) k Cons_nth_drop_Suc [of k s] Cons_nth_drop_Suc [of "Suc k" s] by (simp add: k_def [symmetric])
  qed
  moreover have "drop (?n - 33) s = butlast (drop (?n - 33) s) @ [last s]"
    using assms(1) by (subst append_butlast_last_id [symmetric]) (auto simp: last_drop)
  ultimately show ?thesis
    using that [of "take (?n - 35) s" "butlast (drop (?n - 33) s)"] s assms(1) by simp
qed

text \<open>
  \<^verbatim>\<open>HasValidZ\<close> accepts exactly the artifacts whose stripped content is a body followed by the Z card of
  that body, LF included; the content \<^verbatim>\<open>VerifyZ\<close> rejects is a body followed by a Z card stating another digest.
\<close>

theorem HasValidZ_iff:
  "(HasValidZ data = Inr True) = (\<exists>body. StripClearsign data = Inr (body @ zCard body)) \<and>
   (\<not> is_ok (VerifyZ data)) =
     (\<exists>body z c. StripClearsign data = Inr (body @ ''Z '' @ z @ [c]) \<and> length z = 32 \<and> z \<noteq> computeZ body)"
proof -
  let ?s = "stripped data"
  have "(HasValidZ data = Inr True) = (\<exists>body. ?s = body @ zCard body)"
  proof
    assume h: "HasValidZ data = Inr True"
    then have p: "35 \<le> length ?s" "?s ! (length ?s - 35) = CHR ''Z''" "?s ! (length ?s - 34) = SP"
        "?s ! (length ?s - 1) = LF" "is_ok (verifyZ ?s)"
      by (auto simp: HasValidZ_def StripClearsign_eq Let_def not_less split: if_splits)
    then have l: "last ?s = LF" by (metis last_conv_nth length_0_conv not_numeral_le_zero)
    from p(1-3) obtain b z where "?s = b @ ''Z '' @ z @ [last ?s]" "length z = 32" by (rule last_35_split)
    moreover from this p(5) have "z = computeZ b" by (metis verifyZ_stated is_ok_iff old.unit.exhaust)
    ultimately show "\<exists>body. ?s = body @ zCard body" using l by (auto simp: zCard_def)
  next
    assume "\<exists>body. ?s = body @ zCard body"
    then obtain b where b: "?s = b @ zCard b" by blast
    have "is_ok (verifyZ ?s)" using verifyZ_zCard [of b] b by simp
    then show "HasValidZ data = Inr True"
      by (simp add: HasValidZ_def StripClearsign_eq Let_def b zCard_def nth_append)
  qed
  moreover have "(\<not> is_ok (VerifyZ data)) = (\<exists>body z c. ?s = body @ ''Z '' @ z @ [c] \<and> length z = 32 \<and> z \<noteq> computeZ body)"
  proof
    assume r: "\<not> is_ok (VerifyZ data)"
    then have v: "\<not> is_ok (verifyZ ?s)" by (simp add: VerifyZ_def StripClearsign_eq)
    then have p: "35 \<le> length ?s" "?s ! (length ?s - 35) = CHR ''Z''" "?s ! (length ?s - 34) = SP"
      by (auto simp: verifyZ_def Let_def not_less split: if_splits)
    then obtain b z where s: "?s = b @ ''Z '' @ z @ [last ?s]" "length z = 32" by (rule last_35_split)
    with v have "z \<noteq> computeZ b" by (metis verifyZ_stated is_ok_simps(1))
    with s show "\<exists>body z c. ?s = body @ ''Z '' @ z @ [c] \<and> length z = 32 \<and> z \<noteq> computeZ body" by blast
  next
    assume "\<exists>body z c. ?s = body @ ''Z '' @ z @ [c] \<and> length z = 32 \<and> z \<noteq> computeZ body"
    then obtain b z c where "?s = b @ ''Z '' @ z @ [c]" "length z = 32" "z \<noteq> computeZ b" by blast
    then have "verifyZ ?s \<noteq> Inr ()" using verifyZ_stated by metis
    then show "\<not> is_ok (VerifyZ data)"
      by (auto simp: VerifyZ_def StripClearsign_eq is_ok_iff)
  qed
  ultimately show ?thesis by (simp add: StripClearsign_eq)
qed

end
