(* ===== verification/Timestamp.thy ===== *)
theory Timestamp
  imports Clearsign Complex_Main
begin

text \<open>
  D and E card timestamps: the parser of \<^verbatim>\<open>src/internal/deck/timestamp.go\<close> and the writer
  \<^verbatim>\<open>marshalTimestamp\<close> of \<^verbatim>\<open>marshal.go\<close>.

  A \<^verbatim>\<open>time.Time\<close> in UTC is the number of nanoseconds since 0001-01-01T00:00:00Z, so that Go's
  zero time is 0; \<open>goDate\<close> is \<^verbatim>\<open>time.Date\<close> for a month in 1..12 and \<open>civilDate\<close> the proleptic Gregorian
  date \<^verbatim>\<open>Time.Format\<close> prints.  The cursor \<^verbatim>\<open>tsCursor\<close> is the unread rest of its string.
  \<^verbatim>\<open>strconv.ParseFloat\<close> is decimal to binary64 rounding over the rationals (\<open>roundF64\<close>), and the
  floating-point product and sum of the Julian form round the same way.
\<close>

section \<open>Decimal digits\<close>

definition isDigit :: "byte \<Rightarrow> bool" where
  "isDigit c \<longleftrightarrow> CHR ''0'' \<le> c \<and> c \<le> CHR ''9''"

definition digitVal :: "byte \<Rightarrow> nat" where
  "digitVal c = byteval c - 48"

definition digitChar :: "nat \<Rightarrow> byte" where
  "digitChar n = char_of (48 + n)"

definition digitsVal :: "bytes \<Rightarrow> nat" where
  "digitsVal s = foldl (\<lambda>v c. v * 10 + digitVal c) 0 s"

text \<open>Exactly \<open>w\<close> decimal digits of \<open>v\<close>, and Go's \<^verbatim>\<open>%d\<close>.\<close>

fun decn :: "nat \<Rightarrow> nat \<Rightarrow> bytes" where
  "decn 0 v = []"
| "decn (Suc w) v = decn w (v div 10) @ [digitChar (v mod 10)]"

fun decimal :: "nat \<Rightarrow> bytes" where
  "decimal v = (if v < 10 then [digitChar v] else decimal (v div 10) @ [digitChar (v mod 10)])"

declare decimal.simps [simp del]

lemma digit_table: "\<forall>n\<in>{0..<10}. isDigit (digitChar n) \<and> digitVal (digitChar n) = n"
  by code_simp

lemma digitChar_simps [simp]: "n < 10 \<Longrightarrow> isDigit (digitChar n)" "n < 10 \<Longrightarrow> digitVal (digitChar n) = n"
  using digit_table by auto

lemma digitsVal_snoc [simp]: "digitsVal (s @ [c]) = digitsVal s * 10 + digitVal c"
  by (simp add: digitsVal_def)

lemma digitsVal_Nil [simp]: "digitsVal [] = 0"
  by (simp add: digitsVal_def)

lemma length_decn [simp]: "length (decn w v) = w"
  by (induction w arbitrary: v) auto

lemma decn_digits [simp]: "list_all isDigit (decn w v)"
  by (induction w arbitrary: v) auto

lemma digitsVal_decn [simp]: "v < 10 ^ w \<Longrightarrow> digitsVal (decn w v) = v"
proof (induction w arbitrary: v)
  case (Suc w)
  then have "v div 10 < 10 ^ w" by (simp add: less_mult_imp_div_less mult.commute)
  with Suc.IH show ?case by simp
qed simp

lemma decimal_props: "list_all isDigit (decimal v) \<and> digitsVal (decimal v) = v \<and> decimal v \<noteq> []"
proof (induction v rule: decimal.induct)
  case (1 v)
  then show ?case
    by (cases "v < 10") (simp_all add: decimal.simps [of v] digitsVal_def)
qed

section \<open>Civil time\<close>

type_synonym gotime = int

definition isLeap :: "int \<Rightarrow> bool" where
  "isLeap y \<longleftrightarrow> y mod 4 = 0 \<and> (y mod 100 \<noteq> 0 \<or> y mod 400 = 0)"

definition daysBeforeYear :: "int \<Rightarrow> int" where
  "daysBeforeYear y = 365 * (y - 1) + (y - 1) div 4 - (y - 1) div 100 + (y - 1) div 400"

definition daysBeforeMonth :: "bool \<Rightarrow> int \<Rightarrow> int" where
  "daysBeforeMonth leap m =
     (let l = (if leap then 1 else 0) in
      if m \<le> 1 then 0 else if m = 2 then 31 else if m = 3 then 59 + l else if m = 4 then 90 + l
      else if m = 5 then 120 + l else if m = 6 then 151 + l else if m = 7 then 181 + l
      else if m = 8 then 212 + l else if m = 9 then 243 + l else if m = 10 then 273 + l
      else if m = 11 then 304 + l else 334 + l)"

definition civilDay :: "int \<Rightarrow> int \<Rightarrow> int \<Rightarrow> int" where
  "civilDay y m d = daysBeforeYear y + daysBeforeMonth (isLeap y) m + d - 1"

definition goDate :: "int \<Rightarrow> int \<Rightarrow> int \<Rightarrow> int \<Rightarrow> int \<Rightarrow> int \<Rightarrow> int \<Rightarrow> int \<Rightarrow> gotime" where
  "goDate y mo d h mi s ns off =
     (civilDay y mo d * 86400 + h * 3600 + mi * 60 + s - off) * 1000000000 + ns"

definition yearOfDay :: "int \<Rightarrow> int" where
  "yearOfDay n = (let k = (400 * n) div 146097 in if daysBeforeYear (k + 2) \<le> n then k + 2 else k + 1)"

definition monthOfYday :: "bool \<Rightarrow> int \<Rightarrow> int" where
  "monthOfYday leap yd =
     (if yd < daysBeforeMonth leap 2 then 1 else if yd < daysBeforeMonth leap 3 then 2
      else if yd < daysBeforeMonth leap 4 then 3 else if yd < daysBeforeMonth leap 5 then 4
      else if yd < daysBeforeMonth leap 6 then 5 else if yd < daysBeforeMonth leap 7 then 6
      else if yd < daysBeforeMonth leap 8 then 7 else if yd < daysBeforeMonth leap 9 then 8
      else if yd < daysBeforeMonth leap 10 then 9 else if yd < daysBeforeMonth leap 11 then 10
      else if yd < daysBeforeMonth leap 12 then 11 else 12)"

definition civilDate :: "int \<Rightarrow> int \<times> int \<times> int" where
  "civilDate n =
     (let y = yearOfDay n; yd = n - daysBeforeYear y; m = monthOfYday (isLeap y) yd in
      (y, m, yd - daysBeforeMonth (isLeap y) m + 1))"

definition timeDay :: "gotime \<Rightarrow> int" where "timeDay t = t div (86400 * 1000000000)"
definition timeSec :: "gotime \<Rightarrow> nat" where "timeSec t = nat (t div 1000000000 mod 86400)"
definition timeNano :: "gotime \<Rightarrow> nat" where "timeNano t = nat (t mod 1000000000)"

section \<open>The writer form\<close>

definition appendInt :: "int \<Rightarrow> nat \<Rightarrow> bytes" where
  "appendInt v w = (if v < 0 then ''-'' else []) @
     (let a = nat \<bar>v\<bar> in if a < 10 ^ w then decn w a else decimal a)"

text \<open>\<^verbatim>\<open>fractionDigits\<close>: nine digits, the trailing zeros beyond \<open>minDigits\<close> trimmed by the loop on \<^verbatim>\<open>end\<close>.\<close>

fun trimZeros :: "bytes \<Rightarrow> nat \<Rightarrow> nat \<Rightarrow> nat" where
  "trimZeros ds minDigits 0 = 0"
| "trimZeros ds minDigits (Suc en) =
     (if minDigits < Suc en \<and> ds ! en = CHR ''0'' then trimZeros ds minDigits en else Suc en)"

definition fractionDigits :: "nat \<Rightarrow> nat \<Rightarrow> bytes" where
  "fractionDigits nsec minDigits =
     (let ds = appendInt (int nsec) 9 in take (trimZeros ds minDigits (length ds)) ds)"

definition formatTime :: "gotime \<Rightarrow> bytes" where
  "formatTime t =
     (case civilDate (timeDay t) of (y, m, d) \<Rightarrow>
        appendInt y 4 @ ''-'' @ appendInt m 2 @ ''-'' @ appendInt d 2 @ ''T'' @
        appendInt (int (timeSec t div 3600)) 2 @ '':'' @ appendInt (int (timeSec t div 60 mod 60)) 2 @ '':'' @
        appendInt (int (timeSec t mod 60)) 2)"

definition marshalTimestamp :: "gotime \<Rightarrow> nat \<Rightarrow> bytes" where
  "marshalTimestamp t minFracDigits =
     (let frac = fractionDigits (timeNano t) minFracDigits in
      if frac \<noteq> [] then formatTime t @ ''.'' @ frac else formatTime t)"

section \<open>The parser: calendar forms\<close>

type_synonym tsCursor = bytes

definition peek :: "tsCursor \<Rightarrow> byte" where
  "peek c = (case c of [] \<Rightarrow> CHR 0x00 | b # _ \<Rightarrow> b)"

text \<open>Named \<open>tsDigits\<close>: the method \<^verbatim>\<open>digits\<close>; \<open>None\<close> leaves the cursor where it was.\<close>

definition tsDigits :: "nat \<Rightarrow> tsCursor \<Rightarrow> (nat \<times> tsCursor) option" where
  "tsDigits n c =
     (if length c < n then None
      else if \<not> list_all isDigit (take n c) then None
      else Some (digitsVal (take n c), drop n c))"

definition isTimestampSeparator :: "byte \<Rightarrow> bool" where
  "isTimestampSeparator b \<longleftrightarrow>
     b \<in> {CHR ''T'', CHR '' '', CHR 0x09, LF, CHR 0x0D, CHR 0x0B, CHR 0x0C}"

definition fractionNanos :: "tsCursor \<Rightarrow> (nat \<times> tsCursor) option" where
  "fractionNanos c =
     (let frac = takeWhile isDigit c; rest = dropWhile isDigit c in
      if frac = [] then None
      else let f = (if 9 < length frac then take 9 frac else frac) in
           Some (foldl (\<lambda>nsec k. nsec * 10 + (if k < length f then digitVal (f ! k) else 0)) 0 [0..<9], rest))"

definition afterJulianEpoch :: "int \<Rightarrow> int \<Rightarrow> int \<Rightarrow> bool" where
  "afterJulianEpoch year month day =
     (if year \<noteq> -4713 then year > -4713
      else if month \<noteq> 11 then month > 11
      else day > 24)"

text \<open>The optional zone at the end of the token; the result is the offset in seconds.\<close>

definition parseZone :: "tsCursor \<Rightarrow> int option" where
  "parseZone c0 =
     (let c = dropWhile (\<lambda>b. isTimestampSeparator b \<and> b \<noteq> CHR ''T'') c0 in
      if c = [] then Some 0
      else if peek c = CHR ''Z'' \<or> peek c = CHR ''z'' then (if drop 1 c = [] then Some 0 else None)
      else if peek c = CHR ''+'' \<or> peek c = CHR ''-'' then
        (case tsDigits 2 (drop 1 c) of None \<Rightarrow> None
         | Some (zh, c1) \<Rightarrow> if peek c1 \<noteq> CHR '':'' then None else
           (case tsDigits 2 (drop 1 c1) of None \<Rightarrow> None
            | Some (zm, c2) \<Rightarrow>
                let offset = (int zh * 60 + int zm) * 60 in
                if c2 \<noteq> [] then None else Some (if peek c = CHR ''-'' then - offset else offset)))
      else None)"

text \<open>The optional seconds and fraction after \<^verbatim>\<open>HH:MM\<close>.\<close>

definition parseSeconds :: "tsCursor \<Rightarrow> (nat \<times> nat \<times> tsCursor) option" where
  "parseSeconds c =
     (if peek c \<noteq> CHR '':'' then Some (0, 0, c)
      else case tsDigits 2 (drop 1 c) of None \<Rightarrow> None
           | Some (sec, c1) \<Rightarrow>
               if sec > 59 then None
               else if peek c1 \<noteq> CHR ''.'' then Some (sec, 0, c1)
               else map_option (\<lambda>(nsec, c2). (sec, nsec, c2)) (fractionNanos (drop 1 c1)))"

definition parseTimeAndZone :: "tsCursor \<Rightarrow> (nat \<times> nat \<times> nat \<times> nat \<times> int) option" where
  "parseTimeAndZone c =
     (case tsDigits 2 c of None \<Rightarrow> None
      | Some (hour, c1) \<Rightarrow>
          if hour > 24 \<or> peek c1 \<noteq> CHR '':'' then None
          else case tsDigits 2 (drop 1 c1) of None \<Rightarrow> None
               | Some (mn, c2) \<Rightarrow>
                   if mn > 59 then None
                   else case parseSeconds c2 of None \<Rightarrow> None
                        | Some (sec, nsec, c3) \<Rightarrow>
                            map_option (\<lambda>off. (hour, mn, sec, nsec, off)) (parseZone c3))"

definition badTimestamp :: "bytes \<Rightarrow> deck_error" where
  "badTimestamp s = Errorf ''invalid timestamp %q'' [s]"

text \<open>The part after the day; \<open>c\<close> is at the end of the token or at the separators.\<close>

definition parseAfterDay :: "bytes \<Rightarrow> int \<Rightarrow> int \<Rightarrow> int \<Rightarrow> tsCursor \<Rightarrow> deck_error + gotime" where
  "parseAfterDay s year month day c =
     (if c = [] then Inr (goDate year month day 0 0 0 0 0)
      else if \<not> isTimestampSeparator (peek c) then Inl (badTimestamp s)
      else case parseTimeAndZone (dropWhile isTimestampSeparator c) of
             None \<Rightarrow> Inl (badTimestamp s)
           | Some (hour, mn, sec, nsec, off) \<Rightarrow>
               Inr (goDate year month day (int hour) (int mn) (int sec) (int nsec) off))"

text \<open>Month and day after \<^verbatim>\<open>YYYY-\<close>: the token is a calendar timestamp from here on, so a problem is an error.\<close>

definition parseDate :: "bytes \<Rightarrow> int \<Rightarrow> tsCursor \<Rightarrow> deck_error + gotime" where
  "parseDate s year c1 =
     (case tsDigits 2 c1 of None \<Rightarrow> Inl (badTimestamp s)
      | Some (month, c2) \<Rightarrow>
          if month < 1 \<or> month > 12 \<or> peek c2 \<noteq> CHR ''-'' then Inl (badTimestamp s)
          else case tsDigits 2 (drop 1 c2) of None \<Rightarrow> Inl (badTimestamp s)
               | Some (day, c3) \<Rightarrow>
                   if day < 1 \<or> day > 31 then Inl (badTimestamp s)
                   else if \<not> afterJulianEpoch year (int month) (int day) then Inl (badTimestamp s)
                   else parseAfterDay s year (int month) (int day) c3)"

text \<open>\<open>None\<close> is \<^verbatim>\<open>matched = false\<close>.\<close>

definition parseCalendarTimestamp :: "bytes \<Rightarrow> (deck_error + gotime) option" where
  "parseCalendarTimestamp s =
     (let neg = (peek s = CHR ''-''); c0 = (if neg then drop 1 s else s) in
      case tsDigits 4 c0 of None \<Rightarrow> None
      | Some (y, c1) \<Rightarrow>
          if peek c1 \<noteq> CHR ''-'' then None
          else let year = (if neg then - int y else int y) in Some (parseDate s year (drop 1 c1)))"

section \<open>The parser: Julian day numbers\<close>

definition julianEpochMillis :: int where "julianEpochMillis = 210866760000000"
definition millisPerJulianDay :: int where "millisPerJulianDay = 86400000"
definition maxJulianMillis :: int where "maxJulianMillis = 464269060800000"

definition stripSign :: "bytes \<Rightarrow> bytes" where
  "stripSign s = (if s \<noteq> [] \<and> (hd s = CHR ''-'' \<or> hd s = CHR ''+'') then drop 1 s else s)"

text \<open>
  The number's parts: integer digits, fraction digits and what follows them; then the exponent digits with the
  exponent's sign.
\<close>

definition numberParts :: "bytes \<Rightarrow> bytes \<times> bytes \<times> bytes" where
  "numberParts s =
     (let c = stripSign s; r = dropWhile isDigit c in
      if r \<noteq> [] \<and> hd r = CHR ''.''
      then (takeWhile isDigit c, takeWhile isDigit (drop 1 r), dropWhile isDigit (drop 1 r))
      else (takeWhile isDigit c, [], r))"

definition scanJulianNumber :: "bytes \<Rightarrow> bool" where
  "scanJulianNumber s =
     (case numberParts s of (ip, fp, r) \<Rightarrow>
        if length ip + length fp = 0 then False
        else if r \<noteq> [] \<and> (hd r = CHR ''e'' \<or> hd r = CHR ''E'') then
          (let ex = stripSign (drop 1 r) in takeWhile isDigit ex \<noteq> [] \<and> dropWhile isDigit ex = [])
        else r = [])"

text \<open>The exact value of a token \<open>scanJulianNumber\<close> accepts.\<close>

definition decimalValue :: "bytes \<Rightarrow> rat" where
  "decimalValue s =
     (case numberParts s of (ip, fp, r) \<Rightarrow>
        let ex = (if r = [] then 0
                  else (if hd (drop 1 r) = CHR ''-'' then -1 else 1) * int (digitsVal (stripSign (drop 1 r))));
            v = of_nat (digitsVal (ip @ fp)) * (10 powi (ex - int (length fp)))
        in if s \<noteq> [] \<and> hd s = CHR ''-'' then - v else v)"

fun bitLength :: "nat \<Rightarrow> nat" where
  "bitLength n = (if n = 0 then 0 else Suc (bitLength (n div 2)))"

declare bitLength.simps [simp del]

text \<open>The binary exponent of a positive rational, and rounding to nearest, ties to even, at 53 bits.\<close>

definition binaryExponent :: "rat \<Rightarrow> int" where
  "binaryExponent x =
     (case quotient_of x of (p, q) \<Rightarrow>
        let k = int (bitLength (nat p)) - int (bitLength (nat q)) in
        if x < 2 powi k then k - 1 else k)"

definition roundHalfEven :: "rat \<Rightarrow> int" where
  "roundHalfEven y =
     (let f = \<lfloor>y\<rfloor>; r = y - of_int f in
      if r < 1 / 2 then f else if r > 1 / 2 then f + 1 else if even f then f else f + 1)"

text \<open>\<open>None\<close> is overflow to infinity.\<close>

definition roundF64 :: "rat \<Rightarrow> rat option" where
  "roundF64 x =
     (if x = 0 then Some 0
      else let a = \<bar>x\<bar>; ulp = 2 powi (max (binaryExponent a - 52) (- 1074));
               v = of_int (roundHalfEven (a / ulp)) * ulp
           in if 1024 \<le> binaryExponent v then None else Some (if x < 0 then - v else v))"

definition unixToGotime :: "int \<Rightarrow> gotime" where
  "unixToGotime ms = ms * 1000000 + 62135596800 * 1000000000"

definition parseJulianTimestamp :: "bytes \<Rightarrow> (deck_error + gotime) option" where
  "parseJulianTimestamp s =
     (let range = Errorf ''Julian day out of range: %q'' [s] in
      if \<not> scanJulianNumber s then None
      else Some (case roundF64 (decimalValue s) of
          None \<Rightarrow> Inl range
        | Some r \<Rightarrow>
            if \<not> (0 < r \<and> r < 5373485) then Inl range
            else case roundF64 (r * of_int millisPerJulianDay) of None \<Rightarrow> Inl range
              | Some p \<Rightarrow> (case roundF64 (p + 1 / 2) of None \<Rightarrow> Inl range
                  | Some q \<Rightarrow>
                      let ms = \<lfloor>q\<rfloor> in
                      if ms \<le> 0 \<or> maxJulianMillis \<le> ms then Inl range
                      else Inr (unixToGotime (ms - julianEpochMillis)))))"

definition parseTimestamp :: "bytes \<Rightarrow> deck_error + gotime" where
  "parseTimestamp s =
     (case parseCalendarTimestamp s of Some r \<Rightarrow> r
      | None \<Rightarrow> (case parseJulianTimestamp s of Some r \<Rightarrow> r
          | None \<Rightarrow> Inl (Errorf ''cannot parse timestamp %q'' [s])))"

section \<open>Civil dates and day numbers\<close>

lemma div_bounds:
  assumes "0 < (c :: int)"
  shows "c * (k div c) \<le> k" "k < c * (k div c) + c"
  using mult_div_mod_eq [of c k] pos_mod_bound [OF assms, of k] pos_mod_sign [OF assms, of k] by linarith+

lemma daysBeforeYear_lower: "146097 * (y - 1) - 699 \<le> 400 * daysBeforeYear y"
  using div_bounds [of 4 "y - 1"] div_bounds [of 100 "y - 1"] div_bounds [of 400 "y - 1"]
  unfolding daysBeforeYear_def by simp

lemma daysBeforeYear_upper: "400 * daysBeforeYear y \<le> 146097 * (y - 1) + 396"
  using div_bounds [of 4 "y - 1"] div_bounds [of 100 "y - 1"] div_bounds [of 400 "y - 1"]
  unfolding daysBeforeYear_def by simp

lemma div_step:
  assumes "0 < (c :: int)"
  shows "y div c = (y - 1) div c + (if y mod c = 0 then 1 else 0)"
proof (cases "y mod c = 0")
  case True
  then obtain q where q: "y = c * q" by auto
  have "(c * q - 1) div c = q - 1"
    using assms by (intro int_div_pos_eq [where r = "c - 1"]) (auto simp: algebra_simps)
  with q assms show ?thesis by simp
next
  case False
  then have "0 \<le> y mod c - 1" "y mod c - 1 < c"
    using pos_mod_bound [OF assms, of y] pos_mod_sign [OF assms, of y] by linarith+
  then have "(y - 1) div c = y div c"
    by (intro int_div_pos_eq [where r = "y mod c - 1"]) (auto simp: algebra_simps)
  with False show ?thesis by simp
qed

lemma leap_arith:
  "(p100 \<longrightarrow> p4) \<Longrightarrow> (p400 \<longrightarrow> p100) \<Longrightarrow>
   365 * y + (a + (if p4 then 1 else 0)) - (b + (if p100 then 1 else 0)) + (c + (if p400 then 1 else 0)) =
   365 * (y - 1) + a - b + c + (if p4 \<and> (\<not> p100 \<or> p400) then 366 else 365 :: int)"
  by (cases p4; cases p100; cases p400) (simp_all add: algebra_simps)

lemma daysBeforeYear_Suc: "daysBeforeYear (y + 1) = daysBeforeYear y + (if isLeap y then 366 else 365)"
proof -
  have imp: "y mod 100 = 0 \<Longrightarrow> y mod 4 = 0" "y mod 400 = 0 \<Longrightarrow> y mod 100 = 0"
    using dvd_trans [of 4 100 y] dvd_trans [of 100 400 y] by (auto simp: mod_eq_0_iff_dvd)
  have eq: "daysBeforeYear (y + 1) = 365 * y + y div 4 - y div 100 + y div 400"
    by (simp add: daysBeforeYear_def)
  show ?thesis
    unfolding eq div_step [of 4 y, simplified] div_step [of 100 y, simplified] div_step [of 400 y, simplified]
    unfolding daysBeforeYear_def isLeap_def using imp by (intro leap_arith) blast+
qed

lemma yearOfDay_bounds:
  "daysBeforeYear (yearOfDay n) \<le> n" "n < daysBeforeYear (yearOfDay n + 1)"
proof -
  define k where "k = (400 * n) div 146097"
  have k: "146097 * k \<le> 400 * n" "400 * n < 146097 * k + 146097"
    unfolding k_def using div_bounds [of 146097 "400 * n"] by simp_all
  have lo: "daysBeforeYear (k + 1) \<le> n" using k daysBeforeYear_upper [of "k + 1"] by simp
  have hi: "n < daysBeforeYear (k + 3)" using k daysBeforeYear_lower [of "k + 3"] by simp
  show "daysBeforeYear (yearOfDay n) \<le> n"
    using lo by (simp add: yearOfDay_def k_def [symmetric])
  show "n < daysBeforeYear (yearOfDay n + 1)"
    using hi by (auto simp: yearOfDay_def k_def [symmetric] Let_def not_le add.assoc)
qed

lemma monthOfYday_bounds:
  assumes "0 \<le> yd" "yd < (if leap then 366 else 365)"
  shows "1 \<le> monthOfYday leap yd \<and> monthOfYday leap yd \<le> 12 \<and>
    1 \<le> yd - daysBeforeMonth leap (monthOfYday leap yd) + 1 \<and>
    yd - daysBeforeMonth leap (monthOfYday leap yd) + 1 \<le> 31"
  using assms by (cases leap) (simp_all add: monthOfYday_def daysBeforeMonth_def)

lemma civilDate_props:
  assumes "civilDate n = (y, m, d)"
  shows "civilDay y m d = n" "1 \<le> m \<and> m \<le> 12" "1 \<le> d \<and> d \<le> 31"
proof -
  let ?y = "yearOfDay n"
  have "0 \<le> n - daysBeforeYear ?y" "n - daysBeforeYear ?y < (if isLeap ?y then 366 else 365)"
    using yearOfDay_bounds [of n] daysBeforeYear_Suc [of ?y] by auto
  from monthOfYday_bounds [OF this] assms
  show "civilDay y m d = n" "1 \<le> m \<and> m \<le> 12" "1 \<le> d \<and> d \<le> 31"
    by (auto simp: civilDate_def Let_def civilDay_def)
qed

section \<open>Reading back what the writer wrote\<close>

text \<open>The times the writer form can carry: a four-digit year, strictly after the Julian epoch day.\<close>

definition writableTime :: "gotime \<Rightarrow> bool" where
  "writableTime t = (case civilDate (timeDay t) of (y, m, d) \<Rightarrow> afterJulianEpoch y m d \<and> y \<le> 9999)"

lemma tsDigits_decn [codec_simps]: "v < 10 ^ n \<Longrightarrow> tsDigits n (decn n v @ r) = Some (v, r)"
  by (simp add: tsDigits_def)

lemma appendInt_decn: "0 \<le> v \<Longrightarrow> v < 10 ^ w \<Longrightarrow> appendInt v w = decn w (nat v)"
  by (simp add: appendInt_def Let_def nat_less_iff)

lemma digit_sep_table:
  "\<forall>c. (isDigit c \<le> (\<not> isTimestampSeparator c)) \<and> (isDigit c \<le> (c \<noteq> CHR ''-'')) \<and> (isDigit c \<le> (c \<noteq> SP)) \<and> (isDigit c \<le> (c \<noteq> LF))"
  by code_simp

lemma isDigit_not: "isDigit c \<Longrightarrow> \<not> isTimestampSeparator c" "isDigit c \<Longrightarrow> c \<noteq> CHR ''-''"
    "isDigit c \<Longrightarrow> c \<noteq> SP" "isDigit c \<Longrightarrow> c \<noteq> LF"
  using digit_sep_table by auto

lemma decn_Cons: "0 < w \<Longrightarrow> \<exists>c r. decn w v = c # r \<and> isDigit c"
  using decn_digits [of w v] length_decn [of w v] by (cases "decn w v") auto

lemma peek_decn: "0 < w \<Longrightarrow> peek (decn w v @ r) \<noteq> CHR ''-''"
  using decn_Cons [of w v] isDigit_not(2) by (auto simp: peek_def)

lemma dropWhile_sep_decn: "0 < w \<Longrightarrow> dropWhile isTimestampSeparator (decn w v @ r) = decn w v @ r"
  using decn_Cons [of w v] by (auto simp: isDigit_not)

lemma peek_Cons [simp]: "peek (c # r) = c"
  by (simp add: peek_def)

lemma trimZeros_spec:
  "trimZeros ds k n \<le> n \<and> (\<forall>i. trimZeros ds k n \<le> i \<and> i < n \<longrightarrow> ds ! i = CHR ''0'')"
  by (induction n) (auto simp: le_Suc_eq less_Suc_eq)

lemma trimZeros_zero_or: "k \<le> n \<Longrightarrow> min k n \<le> trimZeros ds k n"
  by (induction n) auto

lemma frac_fold:
  "foldl (\<lambda>nsec k. nsec * 10 + (if k < length f then digitVal (f ! k) else 0)) 0 [0..<m] =
   digitsVal (map (\<lambda>k. if k < length f then f ! k else CHR ''0'') [0..<m])"
proof (induction m)
  case (Suc m)
  have "digitVal (CHR ''0'') = 0" by code_simp
  with Suc show ?case by simp
qed simp

lemma fraction_roundtrip:
  assumes "n < 10 ^ 9" "fractionDigits n k \<noteq> []"
  shows "fractionNanos (fractionDigits n k) = Some (n, [])"
proof -
  let ?ds = "decn 9 n"
  let ?e = "trimZeros ?ds k 9"
  have f: "fractionDigits n k = take ?e ?ds"
    using assms(1) by (simp add: fractionDigits_def Let_def appendInt_decn)
  have e: "?e \<le> 9" "\<And>i. ?e \<le> i \<Longrightarrow> i < 9 \<Longrightarrow> ?ds ! i = CHR ''0''"
    using trimZeros_spec [of ?ds k 9] by auto
  have tw: "takeWhile isDigit (take ?e ?ds) = take ?e ?ds" "dropWhile isDigit (take ?e ?ds) = []"
    using decn_digits [of 9 n] by (auto simp: takeWhile_eq_all_conv dropWhile_eq_Nil_conv list_all_iff dest: in_set_takeD)
  have "map (\<lambda>i. if i < length (take ?e ?ds) then take ?e ?ds ! i else CHR ''0'') [0..<9] = ?ds"
    using e by (intro nth_equalityI) (auto simp: min_def)
  then have "digitsVal (map (\<lambda>i. if i < length (take ?e ?ds) then take ?e ?ds ! i else CHR ''0'') [0..<9]) = n"
    using assms(1) by simp
  then show ?thesis
    using assms(2) e(1) unfolding f fractionNanos_def tw Let_def frac_fold by (simp add: min_def)
qed

definition fractionTail :: "nat \<Rightarrow> nat \<Rightarrow> bytes" where
  "fractionTail n k = (let frac = fractionDigits n k in if frac \<noteq> [] then ''.'' @ frac else [])"

lemma fractionDigits_empty: "n < 10 ^ 9 \<Longrightarrow> fractionDigits n k = [] \<Longrightarrow> n = 0"
proof -
  assume n: "n < 10 ^ 9" and "fractionDigits n k = []"
  then have "trimZeros (decn 9 n) k 9 = 0"
    by (simp add: fractionDigits_def Let_def appendInt_decn) (metis length_decn list.size(3) zero_neq_numeral)
  with trimZeros_spec [of "decn 9 n" k 9] have "decn 9 n = replicate 9 (CHR ''0'')"
    by (intro nth_equalityI) auto
  moreover have "digitsVal (replicate 9 (CHR ''0'')) = 0" by code_simp
  ultimately show "n = 0" using n by (metis digitsVal_decn)
qed

lemma parseSeconds_writer:
  assumes "sec < 60" "n < 10 ^ 9"
  shows "parseSeconds ('':'' @ decn 2 sec @ fractionTail n k) = Some (sec, n, [])"
  using assms fractionDigits_empty [OF assms(2)]
  by (auto simp: parseSeconds_def fractionTail_def Let_def tsDigits_decn fraction_roundtrip peek_def)

lemma parseTimeAndZone_writer:
  assumes "h < 24" "mi < 60" "sec < 60" "n < 10 ^ 9"
  shows "parseTimeAndZone (decn 2 h @ '':'' @ decn 2 mi @ '':'' @ decn 2 sec @ fractionTail n k) = Some (h, mi, sec, n, 0)"
  using assms parseSeconds_writer [OF assms(3,4)]
  by (simp add: parseTimeAndZone_def tsDigits_decn parseZone_def)

lemma parseCalendar_writer:
  assumes "-9999 \<le> y" "y \<le> 9999" "1 \<le> m" "m \<le> 12" "1 \<le> d" "d \<le> 31" "afterJulianEpoch y m d"
    and "h < 24" "mi < 60" "sec < 60" "n < 10 ^ 9"
  shows "parseCalendarTimestamp (appendInt y 4 @ ''-'' @ decn 2 (nat m) @ ''-'' @ decn 2 (nat d) @ ''T'' @
      decn 2 h @ '':'' @ decn 2 mi @ '':'' @ decn 2 sec @ fractionTail n k) =
    Some (Inr (goDate y m d (int h) (int mi) (int sec) (int n) 0))"
proof -
  let ?t = "decn 2 h @ '':'' @ decn 2 mi @ '':'' @ decn 2 sec @ fractionTail n k"
  have T: "isTimestampSeparator (CHR ''T'')" by (simp add: isTimestampSeparator_def)
  have "dropWhile isTimestampSeparator (''T'' @ ?t) = ?t"
    using dropWhile_sep_decn [of 2 h] T by simp
  with parseTimeAndZone_writer [OF assms(8-11)] T
  have after: "parseAfterDay s y m d (''T'' @ ?t) = Inr (goDate y m d (int h) (int mi) (int sec) (int n) 0)" for s
    by (simp add: parseAfterDay_def)
  have y4: "appendInt y 4 = (if y < 0 then ''-'' else []) @ decn 4 (nat \<bar>y\<bar>)" and yl: "nat \<bar>y\<bar> < 10 ^ 4"
    using assms(1,2) by (auto simp: appendInt_def Let_def)
  have md: "nat m < 10 ^ 2" "nat d < 10 ^ 2" "\<not> 12 < nat m" "\<not> 31 < nat d" using assms(4,6) by auto
  show ?thesis
  proof (cases "y < 0")
    case True
    with y4 yl md after assms show ?thesis
      by (simp add: parseCalendarTimestamp_def parseDate_def tsDigits_decn Let_def)
  next
    case False
    with y4 yl md after assms peek_decn [of 4] show ?thesis
      by (simp add: parseCalendarTimestamp_def parseDate_def tsDigits_decn Let_def)
  qed
qed

lemma timeSec_fields: "timeSec t div 3600 < 24" "timeSec t div 60 mod 60 < 60" "timeSec t mod 60 < 60" "timeNano t < 10 ^ 9"
proof -
  have "timeSec t < 86400" by (simp add: timeSec_def nat_less_iff)
  then show "timeSec t div 3600 < 24" by (simp add: less_mult_imp_div_less)
  show "timeNano t < 10 ^ 9" by (simp add: timeNano_def nat_less_iff)
qed auto

lemma timeSec_recompose: "timeSec t div 3600 * 3600 + timeSec t div 60 mod 60 * 60 + timeSec t mod 60 = timeSec t"
proof -
  let ?s = "timeSec t"
  have "?s div 60 div 60 = ?s div 3600" by (simp add: div_mult2_eq [symmetric])
  then have "?s = (?s div 3600 * 60 + ?s div 60 mod 60) * 60 + ?s mod 60"
    using div_mult_mod_eq [of "?s div 60" 60] div_mult_mod_eq [of ?s 60] by simp
  then show ?thesis by simp
qed

lemma time_recompose:
  "(timeDay t * 86400 + int (timeSec t)) * 1000000000 + int (timeNano t) = t"
proof -
  have "timeDay t = t div 1000000000 div 86400"
    by (simp add: timeDay_def zdiv_zmult2_eq [symmetric] mult.commute)
  then have "timeDay t * 86400 + int (timeSec t) = t div 1000000000"
    using div_mult_mod_eq [of "t div 1000000000" 86400] by (simp add: timeSec_def)
  then show ?thesis
    using div_mult_mod_eq [of t 1000000000] by (simp add: timeNano_def)
qed

lemma parseTimestamp_marshal:
  assumes "writableTime t"
  shows "parseTimestamp (marshalTimestamp t k) = Inr t"
proof -
  obtain y m d where c: "civilDate (timeDay t) = (y, m, d)" by (cases "civilDate (timeDay t)") auto
  note cp = civilDate_props [OF c] and f = timeSec_fields [of t]
  from assms c have w: "afterJulianEpoch y m d" "y \<le> 9999" by (auto simp: writableTime_def)
  then have lo: "-9999 \<le> y" by (auto simp: afterJulianEpoch_def split: if_splits)
  let ?h = "timeSec t div 3600" and ?mi = "timeSec t div 60 mod 60" and ?s = "timeSec t mod 60"
  have form: "marshalTimestamp t k = appendInt y 4 @ ''-'' @ decn 2 (nat m) @ ''-'' @ decn 2 (nat d) @ ''T'' @
      decn 2 ?h @ '':'' @ decn 2 ?mi @ '':'' @ decn 2 ?s @ fractionTail (timeNano t) k"
    using cp f by (auto simp: marshalTimestamp_def formatTime_def c fractionTail_def Let_def appendInt_decn)
  have "goDate y m d (int ?h) (int ?mi) (int ?s) (int (timeNano t)) 0 = t"
    using cp(1) time_recompose [of t] timeSec_recompose [of t, THEN arg_cong [where f = int]]
    by (simp add: goDate_def)
  moreover note parseCalendar_writer [OF lo w(2) cp(2)[THEN conjunct1] cp(2)[THEN conjunct2]
      cp(3)[THEN conjunct1] cp(3)[THEN conjunct2] w(1) f, of k]
  ultimately show ?thesis by (simp add: parseTimestamp_def form)
qed

text \<open>
  C34. A time with a four-digit year after the Julian epoch day, written for the D card (three fraction digits) or
  the E card (none) or with any other minimum, reads back as the same instant, to the nanosecond.
\<close>

theorem timestamp_roundtrip:
  assumes "writableTime t"
  shows "parseTimestamp (marshalTimestamp t k) = Inr t"
  using assms by (rule parseTimestamp_marshal)

lemma timestamp_roundtrip_witness:
  "parseTimestamp (marshalTimestamp (goDate 2024 2 29 13 4 5 120000 0) 3) = Inr (goDate 2024 2 29 13 4 5 120000 0)"
  by (rule timestamp_roundtrip) code_simp

text \<open>
  The accepted times are not closed under rewriting: hour 24 of the last four-digit day is accepted, denotes
  the first instant of year 10000, and is written with a five-digit year the parser rejects.
\<close>

theorem timestamp_rollover:
  "parseTimestamp ''9999-12-31T24:00'' = Inr (goDate 10000 1 1 0 0 0 0 0) \<and>
   marshalTimestamp (goDate 10000 1 1 0 0 0 0 0) 3 = ''10000-01-01T00:00:00.000'' \<and>
   parseTimestamp ''10000-01-01T00:00:00.000'' = Inl (Errorf ''cannot parse timestamp %q'' [''10000-01-01T00:00:00.000''])"
proof (intro conjI)
  show "parseTimestamp ''9999-12-31T24:00'' = Inr (goDate 10000 1 1 0 0 0 0 0)" by code_simp
  show "marshalTimestamp (goDate 10000 1 1 0 0 0 0 0) 3 = ''10000-01-01T00:00:00.000''" by code_simp
  show "parseTimestamp ''10000-01-01T00:00:00.000'' = Inl (Errorf ''cannot parse timestamp %q'' [''10000-01-01T00:00:00.000''])"
    by code_simp
qed

section \<open>Julian day numbers that are exact\<close>

lemma bitLength_upper: "n < 2 ^ bitLength n"
proof (induction n rule: bitLength.induct)
  case (1 n)
  then show ?case
    by (cases "n = 0") (auto simp: bitLength.simps [of n])
qed

lemma bitLength_lower: "0 < n \<Longrightarrow> 2 ^ bitLength n \<le> 2 * n"
proof (induction n rule: bitLength.induct)
  case (1 n)
  show ?case
  proof (cases "n div 2 = 0")
    case True
    with 1 have "n = 1" by auto
    then show ?thesis by (simp add: bitLength.simps)
  next
    case False
    with 1 have "2 ^ bitLength (n div 2) \<le> 2 * (n div 2)" by simp
    with 1 show ?thesis by (simp add: bitLength.simps [of n])
  qed
qed

lemma binaryExponent_le:
  assumes "0 < x"
  shows "2 powi binaryExponent x \<le> x"
proof -
  obtain p q where pq: "quotient_of x = (p, q)" by (cases "quotient_of x") auto
  have q: "0 < q" by (rule quotient_of_denom_pos [OF pq])
  have x: "x = of_int p / of_int q" by (rule quotient_of_div [OF pq])
  with assms q have p: "0 < p" by (simp add: zero_less_divide_iff)
  let ?a = "bitLength (nat p)" and ?b = "bitLength (nat q)"
  have "int (2 ^ ?a) \<le> int (2 * nat p)" using bitLength_lower [of "nat p"] p by (simp only: of_nat_le_iff zero_less_nat_eq)
  then have "2 ^ ?a \<le> 2 * p" using p by simp
  then have 1: "(2 :: rat) ^ ?a \<le> 2 * of_int p"
    by (metis of_int_le_iff of_int_mult of_int_numeral of_int_power)
  have "int (nat q) \<le> int (2 ^ ?b)" using bitLength_upper [of "nat q"] by (simp only: of_nat_le_iff)
  then have "q \<le> 2 ^ ?b" using q by simp
  then have 2: "(of_int q :: rat) \<le> 2 ^ ?b"
    by (metis of_int_le_iff of_int_numeral of_int_power)
  have "2 powi (int ?a - int ?b - 1) = (2 :: rat) ^ ?a / 2 ^ ?b / 2"
    by (simp add: power_int_diff)
  also have "\<dots> \<le> of_int p / of_int q"
  proof -
    have "2 ^ ?a / 2 \<le> (of_int p :: rat)" using 1 by simp
    then have "2 ^ ?a / 2 / 2 ^ ?b \<le> (of_int p / of_int q :: rat)"
      using 2 p q by (intro frac_le) auto
    then show ?thesis by (simp add: mult.commute)
  qed
  finally have "2 powi (int ?a - int ?b - 1) \<le> x" by (simp add: x)
  then show ?thesis
    by (auto simp: binaryExponent_def pq Let_def not_less)
qed

lemma binaryExponent_less:
  assumes "0 < x" "x < 2 ^ n"
  shows "binaryExponent x < int n"
proof (rule ccontr)
  assume "\<not> binaryExponent x < int n"
  then have "(2 :: rat) powi int n \<le> 2 powi binaryExponent x"
    by (intro power_int_increasing) auto
  with binaryExponent_le [OF assms(1)] assms(2) show False by simp
qed

text \<open>A multiple of one half below \<open>2 ^ 52\<close> is a binary64 value.\<close>

lemma roundF64_exact:
  assumes "0 < m" "m < 2 ^ 53"
  shows "roundF64 (of_nat m / 2) = Some (of_nat m / 2)"
proof -
  let ?x = "of_nat m / 2 :: rat"
  have "of_nat m < (of_nat (2 ^ 53) :: rat)" using assms(2) by (simp only: of_nat_less_iff)
  then have x: "0 < ?x" "?x < 2 ^ 52" using assms(1) by auto
  have b: "binaryExponent ?x < 52" using binaryExponent_less [OF x] by simp
  have b2: "binaryExponent ?x < 1024" using b by simp
  define e where "e = max (binaryExponent ?x - 52) (- 1074)"
  have e: "e \<le> -1" "- 1074 \<le> e" using b by (auto simp: e_def)
  define k where "k = nat (- e - 1)"
  with e have ek: "e = - int (Suc k)" by simp
  have pe: "(2 :: rat) powi e = 1 / (2 * 2 ^ k)"
    unfolding ek power_int_minus power_int_of_nat by (simp add: field_simps)
  have q: "?x / 2 powi e = of_int (int m * 2 ^ k)"
    by (simp add: pe)
  have r: "roundHalfEven (?x / 2 powi e) = int m * 2 ^ k"
    unfolding q roundHalfEven_def Let_def floor_of_int by simp
  have v: "of_int (roundHalfEven (?x / 2 powi e)) * 2 powi e = ?x"
    unfolding r by (simp add: pe)
  have a: "\<bar>?x\<bar> = ?x" "(?x = 0) = False" "(?x < 0) = False" "(1024 \<le> binaryExponent ?x) = False"
    using x(1) b2 by auto
  show ?thesis
    unfolding roundF64_def Let_def a e_def [symmetric] v if_False by (rule refl)
qed

lemma decimal_not_calendar: "list_all isDigit s \<Longrightarrow> s \<noteq> [] \<Longrightarrow> parseCalendarTimestamp s = None"
proof -
  assume s: "list_all isDigit s" "s \<noteq> []"
  then have "peek s \<noteq> CHR ''-''" by (cases s) (auto simp: isDigit_not)
  moreover have "peek (drop 4 s) \<noteq> CHR ''-''"
  proof (cases "drop 4 s")
    case (Cons a r)
    then have "a \<in> set s" by (metis in_set_dropD list.set_intros(1))
    with s Cons show ?thesis by (auto simp: list_all_iff isDigit_not)
  qed (simp add: peek_def)
  ultimately show ?thesis by (auto simp: parseCalendarTimestamp_def tsDigits_def Let_def)
qed

lemma numberParts_digits:
  assumes "list_all isDigit s" "s \<noteq> []"
  shows "numberParts s = (s, [], [])" "\<not> (s \<noteq> [] \<and> hd s = CHR ''-'')"
proof -
  from assms obtain c r where s: "s = c # r" "isDigit c" by (cases s) auto
  have "\<not> isDigit (CHR ''+'')" "\<not> isDigit (CHR ''-'')" by code_simp+
  with s have strip: "stripSign s = s" and "hd s \<noteq> CHR ''-''" by (auto simp: stripSign_def)
  then show "numberParts s = (s, [], [])" "\<not> (s \<noteq> [] \<and> hd s = CHR ''-'')"
    using assms(1) by (auto simp: numberParts_def Let_def takeWhile_eq_all_conv dropWhile_eq_Nil_conv list_all_iff)
qed

text \<open>
  A Julian day given as a whole number below 5373485 is read exactly: the floating-point conversion, product
  and rounding introduce no error, and the result is that day's noon.
\<close>

theorem julian_whole_days:
  assumes "0 < n" "n < 5373485"
  shows "parseTimestamp (decimal n) = Inr (unixToGotime (int n * 86400000 - 210866760000000))"
proof -
  note d = decimal_props [of n]
  have np: "numberParts (decimal n) = (decimal n, [], [])" and sg: "\<not> (decimal n \<noteq> [] \<and> hd (decimal n) = CHR ''-'')"
    using d numberParts_digits by auto
  have "decimalValue (decimal n) = of_nat (2 * n) / 2"
    using sg d by (simp add: decimalValue_def np Let_def)
  then have 1: "roundF64 (decimalValue (decimal n)) = Some (of_nat n)"
    using roundF64_exact [of "2 * n"] assms by simp
  have 2: "roundF64 (of_nat n * of_int millisPerJulianDay) = Some (of_nat n * 86400000)"
    using roundF64_exact [of "2 * n * 86400000"] assms by (simp add: millisPerJulianDay_def mult.commute)
  have 3: "roundF64 (of_nat n * 86400000 + 1 / 2) = Some (of_nat (2 * n * 86400000 + 1) / 2)"
    using roundF64_exact [of "2 * n * 86400000 + 1"] assms by (simp add: field_simps)
  have fl: "\<lfloor>of_nat (2 * n * 86400000 + 1) / 2 :: rat\<rfloor> = int n * 86400000"
    by (rule floor_unique) (auto simp: field_simps)
  have "0 < (of_nat n :: rat)" "(of_nat n :: rat) < 5373485"
    using assms(1) of_nat_less_iff [of n 5373485, where ?'a = rat] assms(2) by auto
  moreover have "int n * 86400000 < maxJulianMillis" "0 < int n * 86400000"
    using assms by (auto simp: maxJulianMillis_def)
  ultimately have "parseJulianTimestamp (decimal n) = Some (Inr (unixToGotime (int n * 86400000 - julianEpochMillis)))"
    using d unfolding parseJulianTimestamp_def Let_def 1 2 3 fl option.case
    by (simp add: scanJulianNumber_def np)
  then show ?thesis
    using d by (simp add: parseTimestamp_def decimal_not_calendar julianEpochMillis_def)
qed

lemma julian_whole_days_witness:
  "parseTimestamp (decimal 2440588) = Inr (goDate 1970 1 1 12 0 0 0 0)"
proof -
  have "unixToGotime (int 2440588 * 86400000 - 210866760000000) = goDate 1970 1 1 12 0 0 0 0" by code_simp
  then show ?thesis using julian_whole_days [of 2440588] by simp
qed

end
