(* ===== verification/Deck.thy ===== *)
theory Deck
  imports Timestamp
begin

text \<open>
  The artifact data model (\<^verbatim>\<open>src/internal/deck/deck.go\<close>), the ordering and occurrence rules
  (\<^verbatim>\<open>occurrence.go\<close>), card legality and the per-type semantic checks (\<^verbatim>\<open>legality.go\<close>) and the type
  inference of \<^verbatim>\<open>parse.go\<close>.  A nil pointer or nil slice whose nil-ness the code observes is an
  \<open>option\<close>; the 26-entry array \<^verbatim>\<open>seenCards\<close> is a function of the card letter; card masks are 32-bit
  words, bit \<^verbatim>\<open>letter-'A'\<close> per letter.
\<close>

unbundle bit_operations_syntax

section \<open>Data\<close>

datatype ArtifactType = Checkin | Wiki | Ticket | Event | Cluster | ForumPost | Attachment | Control | Submanifest

record FileCard =
  fName :: bytes
  fUUID :: bytes
  fPerm :: bytes
  fOldName :: bytes

record SubmanifestCard =
  sName :: bytes
  sUUID :: bytes

record TagCard =
  tType :: byte
  tName :: bytes
  tUUID :: bytes
  tValue :: bytes
  tValuePresent :: bool

definition TagSingleton :: byte where "TagSingleton = CHR ''+''"
definition TagPropagating :: byte where "TagPropagating = CHR ''*''"
definition TagCancel :: byte where "TagCancel = CHR ''-''"

record CherryPick =
  qIsBackout :: bool
  qTarget :: bytes
  qBaseline :: bytes

record AttachmentCard =
  aFilename :: bytes
  aTarget :: bytes
  aSource :: bytes

record EventCard =
  eDate :: gotime
  eUUID :: bytes

record TicketField =
  jName :: bytes
  jValue :: bytes

record Deck =
  dType :: ArtifactType
  dA :: "AttachmentCard option"
  dB :: bytes
  dC :: bytes
  dD :: gotime
  dE :: "EventCard option"
  dF :: "FileCard list"
  dG :: bytes
  dH :: bytes
  dI :: bytes
  dJ :: "TicketField list"
  dK :: bytes
  dL :: bytes
  dM :: "bytes list"
  dN :: bytes
  dP :: "bytes list"
  dQ :: "CherryPick list"
  dR :: bytes
  dS :: "SubmanifestCard list"
  dT :: "TagCard list"
  dU :: "bytes option"
  dW :: "bytes option"
  dZ :: bytes
  cPresent :: bool
  nPresent :: bool
  pPresent :: bool

text \<open>The zero value \<^verbatim>\<open>&Deck{}\<close> a parse starts from.\<close>

definition emptyDeck :: Deck where
  "emptyDeck = \<lparr>dType = Checkin, dA = None, dB = [], dC = [], dD = 0, dE = None, dF = [], dG = [], dH = [], dI = [],
     dJ = [], dK = [], dL = [], dM = [], dN = [], dP = [], dQ = [], dR = [], dS = [], dT = [], dU = None, dW = None,
     dZ = [], cPresent = False, nPresent = False, pPresent = False\<rparr>"

definition HasC :: "Deck \<Rightarrow> bool" where
  "HasC d \<longleftrightarrow> dC d \<noteq> [] \<or> cPresent d"

section \<open>Ordering and occurrence\<close>

definition Compare :: "bytes \<Rightarrow> bytes \<Rightarrow> int" where
  "Compare a b = (if a = b then 0 else if a < b then - 1 else 1)"

definition singleOccurrence :: "byte \<Rightarrow> bool" where
  "singleOccurrence c \<longleftrightarrow> c \<in> set ''ABCDEGHIKLNRUW''"

type_synonym seenCards = "byte \<Rightarrow> bool"

definition claim :: "seenCards \<Rightarrow> byte \<Rightarrow> deck_error + seenCards" where
  "claim s letter =
     (if letter < CHR ''A'' \<or> CHR ''Z'' < letter then Inr s
      else if \<not> singleOccurrence letter then Inr s
      else if s letter then Inl (Errorf ''duplicate '%c' card'' [[letter]])
      else Inr (s(letter := True)))"

text \<open>\<^verbatim>\<open>string(t.Type)\<close>: the UTF-8 encoding of the byte read as a rune.\<close>

definition runeString :: "byte \<Rightarrow> bytes" where
  "runeString b = (if byteval b < 0x80 then [b] else [char_of (0xC0 + byteval b div 64), char_of (0x80 + byteval b mod 64)])"

definition tagOrderKey :: "TagCard \<Rightarrow> bytes" where
  "tagOrderKey t = runeString (tType t) @ tName t"

definition requireAscending :: "byte \<Rightarrow> bytes \<Rightarrow> bytes \<Rightarrow> deck_error + unit" where
  "requireAscending letter previous current =
     (if Compare current previous > 0 then Inr ()
      else Inl (Errorf ''%c-card %q out of order after %q'' [[letter], current, previous]))"

definition requireTagAscending :: "TagCard \<Rightarrow> TagCard \<Rightarrow> deck_error + unit" where
  "requireTagAscending previous current =
     (let previousName = tagOrderKey previous; currentName = tagOrderKey current;
          cmp = Compare currentName previousName in
      if cmp > 0 then Inr ()
      else if cmp < 0 then Inl (Errorf ''T-card %q out of order after %q'' [currentName, previousName])
      else if Compare (tUUID current) (tUUID previous) > 0 then Inr ()
      else Inl (Errorf ''T-card %q target %q out of order after %q'' [currentName, tUUID current, tUUID previous]))"

lemma Compare_pos [simp]: "Compare a b > 0 \<longleftrightarrow> b < a"
  by (auto simp: Compare_def)

lemma Compare_neg [simp]: "Compare a b < 0 \<longleftrightarrow> a < b"
  by (auto simp: Compare_def)

lemma requireAscending_ok [simp]: "requireAscending c p q = Inr u \<longleftrightarrow> p < q"
  by (simp add: requireAscending_def)

definition tagKey :: "TagCard \<Rightarrow> bytes \<times> bytes" where
  "tagKey t = (tagOrderKey t, tUUID t)"

text \<open>The two-level order of T cards: the lexicographic order of \<open>tagKey\<close>.\<close>

definition tagLess :: "TagCard \<Rightarrow> TagCard \<Rightarrow> bool" where
  "tagLess s t \<longleftrightarrow> tagOrderKey s < tagOrderKey t \<or> tagOrderKey s = tagOrderKey t \<and> tUUID s < tUUID t"

lemma requireTagAscending_ok [simp]: "requireTagAscending s t = Inr u \<longleftrightarrow> tagLess s t"
  by (auto simp: requireTagAscending_def tagLess_def Let_def Compare_def)

section \<open>Type inference\<close>

definition inferType :: "Deck \<Rightarrow> ArtifactType" where
  "inferType d =
     (if dM d \<noteq> [] then Cluster
      else if dG d \<noteq> [] \<or> dH d \<noteq> [] \<or> dI d \<noteq> [] then ForumPost
      else if dA d \<noteq> None then Attachment
      else if dJ d \<noteq> [] \<or> dK d \<noteq> [] then Ticket
      else if dL d \<noteq> [] then Wiki
      else if dE d \<noteq> None then Event
      else if dB d \<noteq> [] \<or> dF d \<noteq> [] \<or> dQ d \<noteq> [] \<or> dR d \<noteq> [] \<or> dS d \<noteq> [] then Checkin
      else if cPresent d \<or> dP d \<noteq> [] then Checkin
      else Control)"

section \<open>Legality\<close>

definition letterBit :: "byte \<Rightarrow> w32" where
  "letterBit c = push_bit (byteval c - 65) 1"

definition letterMask :: "bytes \<Rightarrow> w32" where
  "letterMask letters = foldl (\<lambda>m c. m OR letterBit c) 0 letters"

record cardTable =
  ctAllowed :: w32
  ctRequired :: w32

definition cardRows :: "(ArtifactType \<times> bytes \<times> bytes) list" where
  "cardRows =
    [(Checkin, ''BCDFNPQRSTUZ'', ''DZ''),
     (Wiki, ''CDLNPUWZ'', ''DLUWZ''),
     (Ticket, ''DJKUZ'', ''DJKUZ''),
     (Event, ''CDENPTUWZ'', ''DEWZ''),
     (Cluster, ''MZ'', ''MZ''),
     (ForumPost, ''DGHINPUWZ'', ''DUWZ''),
     (Attachment, ''ACDNUZ'', ''ADZ''),
     (Control, ''DTUZ'', ''DTUZ''),
     (Submanifest, ''FSZ'', ''Z'')]"

definition cardTables :: "ArtifactType \<Rightarrow> cardTable option" where
  "cardTables t = map_option (\<lambda>(a, r). \<lparr>ctAllowed = letterMask a, ctRequired = letterMask r\<rparr>) (map_of cardRows t)"

definition lowestLetter :: "w32 \<Rightarrow> byte" where
  "lowestLetter msk =
     (case List.find (\<lambda>i. msk AND push_bit i 1 \<noteq> 0) [0..<26] of
        Some i \<Rightarrow> char_of (65 + i)
      | None \<Rightarrow> CHR ''?'')"

definition typeName :: "ArtifactType \<Rightarrow> bytes" where
  "typeName t = (case t of Checkin \<Rightarrow> ''manifest'' | Wiki \<Rightarrow> ''wiki'' | Ticket \<Rightarrow> ''ticket'' | Event \<Rightarrow> ''technote''
     | Cluster \<Rightarrow> ''cluster'' | ForumPost \<Rightarrow> ''forum post'' | Attachment \<Rightarrow> ''attachment''
     | Control \<Rightarrow> ''control artifact'' | Submanifest \<Rightarrow> ''submanifest'')"

definition checkTreeManifest :: "Deck \<Rightarrow> deck_error + unit" where
  "checkTreeManifest d =
     (if dS d = [] then Inr ()
      else if dB d \<noteq> [] then Inl (Errorf ''a manifest cannot carry both a B-card and an S-card'' [])
      else if dF d \<noteq> [] then Inl (Errorf ''a manifest cannot carry both F-cards and S-cards'' [])
      else Inr ())"

definition checkSubmanifest :: "Deck \<Rightarrow> deck_error + unit" where
  "checkSubmanifest d =
     (if dF d \<noteq> [] \<and> dS d \<noteq> [] then Inl (Errorf ''a sub-manifest cannot carry both F-cards and S-cards'' [])
      else if dF d = [] \<and> dS d = [] then Inl (Errorf ''a sub-manifest needs an F-card or an S-card'' [])
      else Inr ())"

definition checkSemantics :: "Deck \<Rightarrow> deck_error + unit" where
  "checkSemantics d =
     (let selfTags = length (filter (\<lambda>t. tUUID t = ''*'') (dT d));
          singletonTags = length (filter (\<lambda>t. tType t = TagSingleton) (dT d)) in
      case dType d of
        Checkin \<Rightarrow> checkTreeManifest d
      | Submanifest \<Rightarrow> checkSubmanifest d
      | Control \<Rightarrow> (if selfTags > 0 then Inl (Errorf ''self-referential T-card in control artifact'' []) else Inr ())
      | Event \<Rightarrow> (if length (dT d) \<noteq> selfTags then Inl (Errorf ''non-self-referential T-card in technote'' [])
                  else if length (dT d) \<noteq> singletonTags then Inl (Errorf ''T-card with '*' or '-' in technote'' [])
                  else Inr ())
      | ForumPost \<Rightarrow> (if dH d \<noteq> [] \<and> dI d \<noteq> [] then Inl (Errorf ''a forum post cannot carry both an H-card and an I-card'' [])
                      else if length (dP d) > 1 then Inl (Errorf ''a forum post has at most one parent'' [])
                      else Inr ())
      | _ \<Rightarrow> Inr ())"

definition checkType :: "Deck \<Rightarrow> w32 \<Rightarrow> deck_error + unit" where
  "checkType d seenMask =
     (case cardTables (dType d) of None \<Rightarrow> Inl (Panic ''deck.checkType: no card table for the artifact type'')
      | Some table \<Rightarrow>
          let extra = seenMask AND NOT (ctAllowed table); missing = ctRequired table AND NOT seenMask in
          if extra \<noteq> 0 then Inl (Errorf ''%c-card not allowed in %s'' [[lowestLetter extra], typeName (dType d)])
          else if missing \<noteq> 0 then Inl (Errorf ''%c-card missing in %s'' [[lowestLetter missing], typeName (dType d)])
          else checkSemantics d)"

section \<open>Masks and letter sets\<close>

definition isLetter :: "byte \<Rightarrow> bool" where
  "isLetter c \<longleftrightarrow> CHR ''A'' \<le> c \<and> c \<le> CHR ''Z''"

lemma isLetter_val: "isLetter c \<Longrightarrow> 65 \<le> byteval c \<and> byteval c < 91"
  by (auto simp: isLetter_def byteval_def less_eq_char_def)

lemma byteval_eq [simp]: "byteval c = byteval d \<longleftrightarrow> c = d"
  by (simp add: byteval_def)

lemma byteval_less: "byteval c < byteval d \<longleftrightarrow> c < d"
  by (simp add: byteval_def less_char_def)

lemma letter_inj: "isLetter c \<Longrightarrow> isLetter d \<Longrightarrow> byteval c - 65 = byteval d - 65 \<longleftrightarrow> c = d"
  using isLetter_val [of c] isLetter_val [of d] by (metis byteval_eq le_add_diff_inverse)

lemma bit_letterBit: "isLetter c \<Longrightarrow> bit (letterBit c) i \<longleftrightarrow> i = byteval c - 65"
  using isLetter_val [of c] by (auto simp: letterBit_def bit_exp_iff)

lemma bit_letter_fold:
  "list_all isLetter ls \<Longrightarrow>
   bit (foldl (\<lambda>m c. m OR letterBit c) a ls) i \<longleftrightarrow> bit a i \<or> (\<exists>c\<in>set ls. i = byteval c - 65)"
  by (induction ls arbitrary: a) (auto simp: bit_or_iff bit_letterBit)

lemma bit_letterMask: "list_all isLetter ls \<Longrightarrow> bit (letterMask ls) i \<longleftrightarrow> (\<exists>c\<in>set ls. i = byteval c - 65)"
  by (simp add: letterMask_def bit_letter_fold)

lemma bit_letterMask_letter:
  "list_all isLetter ls \<Longrightarrow> isLetter c \<Longrightarrow> bit (letterMask ls) (byteval c - 65) \<longleftrightarrow> c \<in> set ls"
  by (auto simp: bit_letterMask list_all_iff) (metis letter_inj)

lemma bit_letterMask_diff:
  assumes "list_all isLetter a" "list_all isLetter b"
  shows "bit (letterMask a AND NOT (letterMask b)) i \<longleftrightarrow> (\<exists>c\<in>set a - set b. i = byteval c - 65)"
proof
  assume l: "bit (letterMask a AND NOT (letterMask b)) i"
  then obtain c where "c \<in> set a" "i = byteval c - 65" and nb: "\<not> bit (letterMask b) i"
    using assms by (auto simp: bit_and_iff bit_not_iff bit_letterMask)
  with assms have "c \<notin> set b" by (auto simp: bit_letterMask)
  with \<open>c \<in> set a\<close> \<open>i = _\<close> show "\<exists>c\<in>set a - set b. i = byteval c - 65" by blast
next
  assume "\<exists>c\<in>set a - set b. i = byteval c - 65"
  then obtain c where c: "c \<in> set a" "c \<notin> set b" "i = byteval c - 65" by blast
  then have l: "isLetter c" using assms(1) by (auto simp: list_all_iff)
  then have "\<not> bit (letterMask b) i" using assms(2) c bit_letterMask_letter by blast
  moreover have "bit (letterMask a) i" using assms(1) c by (auto simp: bit_letterMask)
  moreover have "i < 32" using isLetter_val [OF l] c(3) by linarith
  ultimately show "bit (letterMask a AND NOT (letterMask b)) i" by (simp add: bit_and_iff bit_not_iff)
qed

lemma mask_diff_0:
  assumes "list_all isLetter a" "list_all isLetter b"
  shows "letterMask a AND NOT (letterMask b) = 0 \<longleftrightarrow> set a \<subseteq> set b"
proof
  assume "letterMask a AND NOT (letterMask b) = 0"
  then show "set a \<subseteq> set b" using bit_letterMask_diff [OF assms] by (metis DiffI bit_0_eq bot_apply bot_bool_def subsetI)
next
  assume "set a \<subseteq> set b"
  then have "\<not> bit (letterMask a AND NOT (letterMask b)) i" for i
    using bit_letterMask_diff [OF assms] by blast
  then show "letterMask a AND NOT (letterMask b) = 0" by (intro bit_eqI) auto
qed

lemma lowestLetter_diff:
  assumes a: "list_all isLetter a" and b: "list_all isLetter b" and ne: "\<not> set a \<subseteq> set b"
  shows "lowestLetter (letterMask a AND NOT (letterMask b)) = Min (set a - set b)"
proof -
  let ?m = "letterMask a AND NOT (letterMask b)"
  let ?c = "Min (set a - set b)"
  have c: "?c \<in> set a - set b" using ne by (intro Min_in) auto
  then have l: "65 \<le> byteval ?c" "byteval ?c < 91" using a isLetter_val by (auto simp: list_all_iff)
  let ?i = "byteval ?c - 65"
  have i: "bit ?m ?i" using bit_letterMask_diff [OF a b] c by blast
  have no: "\<not> bit ?m j" if "j < ?i" for j
  proof
    assume "bit ?m j"
    then obtain e where e: "e \<in> set a - set b" "j = byteval e - 65" using bit_letterMask_diff [OF a b] by blast
    then have "65 \<le> byteval e" using a isLetter_val by (auto simp: list_all_iff)
    with e(2) that l have "e < ?c" by (simp add: byteval_less [symmetric])
    with e(1) show False by (metis Min_le List.finite_set finite_Diff leD)
  qed
  have "List.find (\<lambda>i. ?m AND push_bit i 1 \<noteq> 0) [0..<26] = Some ?i"
    unfolding find_Some_iff bit_iff_and_push_bit_not_eq_0 [symmetric]
    by (rule exI [of _ ?i]) (use i no l in auto)
  moreover have "char_of (65 + ?i) = ?c" using l by (simp add: byteval_def)
  ultimately show ?thesis by (simp add: lowestLetter_def)
qed

definition allowedCards :: "ArtifactType \<Rightarrow> bytes" where "allowedCards t = fst (the (map_of cardRows t))"
definition requiredCards :: "ArtifactType \<Rightarrow> bytes" where "requiredCards t = snd (the (map_of cardRows t))"

lemma cardTables_letters:
  "cardTables t = Some \<lparr>ctAllowed = letterMask (allowedCards t), ctRequired = letterMask (requiredCards t)\<rparr>"
  "list_all isLetter (allowedCards t)" "list_all isLetter (requiredCards t)"
proof -
  show "cardTables t = Some \<lparr>ctAllowed = letterMask (allowedCards t), ctRequired = letterMask (requiredCards t)\<rparr>"
    by (cases t) (simp_all add: cardTables_def cardRows_def allowedCards_def requiredCards_def)
  have A: "isLetter c" if "c \<in> set ''ABCDEFGHIJKLMNPQRSTUWZ''" for c
    using that by (auto simp: isLetter_def)
  show "list_all isLetter (allowedCards t)" "list_all isLetter (requiredCards t)"
    by (cases t; simp add: cardRows_def allowedCards_def requiredCards_def A)+
qed

lemma checkType_letters:
  assumes "list_all isLetter seen"
  shows "checkType d (letterMask seen) =
    (if \<not> set seen \<subseteq> set (allowedCards (dType d))
     then Inl (Errorf ''%c-card not allowed in %s'' [[Min (set seen - set (allowedCards (dType d)))], typeName (dType d)])
     else if \<not> set (requiredCards (dType d)) \<subseteq> set seen
     then Inl (Errorf ''%c-card missing in %s'' [[Min (set (requiredCards (dType d)) - set seen)], typeName (dType d)])
     else checkSemantics d)"
  using assms cardTables_letters(2,3) [of "dType d"]
  by (simp add: checkType_def cardTables_letters(1) mask_diff_0 lowestLetter_diff Let_def)

text \<open>
  Card legality on the bit masks is set inclusion: given the letters seen, the check rejects the
  alphabetically first letter outside the type's allowed set, else the first required letter that is missing,
  and otherwise leaves the verdict to the per-type semantic rules; it never panics.
\<close>

theorem checkType_sets:
  assumes "list_all isLetter seen"
  shows "checkType d (letterMask seen) =
    (if \<not> set seen \<subseteq> set (allowedCards (dType d))
     then Inl (Errorf ''%c-card not allowed in %s'' [[Min (set seen - set (allowedCards (dType d)))], typeName (dType d)])
     else if \<not> set (requiredCards (dType d)) \<subseteq> set seen
     then Inl (Errorf ''%c-card missing in %s'' [[Min (set (requiredCards (dType d)) - set seen)], typeName (dType d)])
     else checkSemantics d)"
  using assms by (rule checkType_letters)

lemma checkType_sets_witness:
  "checkType emptyDeck (letterMask ''DFPZ'') = Inr () \<and>
   checkType emptyDeck (letterMask ''DFWZ'') = Inl (Errorf ''%c-card not allowed in %s'' [''W'', ''manifest''])"
proof -
  have l: "list_all isLetter ''DFPZ''" "list_all isLetter ''DFWZ''" by code_simp+
  have a: "allowedCards Checkin = ''BCDFNPQRSTUZ''" "requiredCards Checkin = ''DZ''" by code_simp+
  have m: "set ''DFWZ'' - set ''BCDFNPQRSTUZ'' = {CHR ''W''}" by auto
  have "checkSemantics emptyDeck = Inr ()" by code_simp
  then show ?thesis
    using checkType_sets [OF l(1), of emptyDeck] checkType_sets [OF l(2), of emptyDeck] m
    by (simp add: emptyDeck_def a typeName_def)
qed

end
