(* ===== verification/Deck_Parse.thy ===== *)
theory Deck_Parse
  imports Deck
begin

text \<open>
  The artifact parser of \<^verbatim>\<open>src/internal/deck/parse.go\<close>: the card scanner, the per-card parsers, the
  card loop and \<^verbatim>\<open>Parse\<close> itself.  The scanner keeps the code's buffer, position and \<^verbatim>\<open>atEol\<close>
  flag; a slice or index expression out of range is a \<open>Panic\<close>, and the theorems show that none is
  reached.  Every card parser takes the deck and returns the updated one.
\<close>

unbundle bit_operations_syntax

section \<open>The scanner\<close>

record manifestScanner =
  sbuf :: bytes
  spos :: nat
  satEol :: bool

abbreviation NUL :: byte where "NUL \<equiv> CHR 0x00"

definition nextCard :: "manifestScanner \<Rightarrow> byte \<times> manifestScanner" where
  "nextCard s =
     (let buf = sbuf s; pos = spos s in
      if \<not> satEol s \<or> length buf \<le> pos then (NUL, s)
      else if pos + 1 < length buf \<and> buf ! (pos + 1) = SP then (buf ! pos, s\<lparr>spos := pos + 2, satEol := False\<rparr>)
      else if pos + 1 < length buf \<and> buf ! (pos + 1) = LF then (buf ! pos, s\<lparr>spos := pos + 2, satEol := True\<rparr>)
      else (NUL, s))"

function tokenEnd :: "bytes \<Rightarrow> nat \<Rightarrow> nat" where
  "tokenEnd buf pos = (if pos < length buf \<and> buf ! pos \<noteq> SP \<and> buf ! pos \<noteq> LF then tokenEnd buf (pos + 1) else pos)"
  by auto

termination
  by (relation "measure (\<lambda>(buf, pos). length buf - pos)") auto

declare tokenEnd.simps [simp del]

definition nextToken :: "manifestScanner \<Rightarrow> deck_error + bytes option \<times> manifestScanner" where
  "nextToken s =
     (if satEol s then Inr (None, s)
      else let start = spos s; en = tokenEnd (sbuf s) start in
           if length (sbuf s) < start then Inl (Panic ''slice bounds out of range'')
           else Inr (Some (bslice (sbuf s) start en),
                     s\<lparr>spos := en + 1, satEol := en < length (sbuf s) \<and> sbuf s ! en = LF\<rparr>))"

lemma tokenEnd_ge: "pos \<le> tokenEnd buf pos"
  by (induction buf pos rule: tokenEnd.induct) (subst tokenEnd.simps, auto)

lemma nextToken_progress:
  assumes "nextToken s = Inr (Some t, s')"
  shows "spos s \<le> length (sbuf s) \<and> spos s < spos s' \<and> sbuf s' = sbuf s"
  using assms tokenEnd_ge [of "spos s" "sbuf s"] by (auto simp: nextToken_def Let_def split: if_splits)

function tokensLoop :: "manifestScanner \<Rightarrow> bytes list \<Rightarrow> deck_error + bytes list \<times> manifestScanner" where
  "tokensLoop s tokens =
     bindE (nextToken s) (\<lambda>(tok, s').
       case tok of None \<Rightarrow> Inr (tokens, s') | Some t \<Rightarrow> tokensLoop s' (tokens @ [t]))"
  by auto

termination
  by (relation "measure (\<lambda>(s, tokens). length (sbuf s) + 1 - spos s)")
    (auto dest!: nextToken_progress)

declare tokensLoop.simps [simp del]

definition cardTokens :: "manifestScanner \<Rightarrow> deck_error + bytes list \<times> manifestScanner" where
  "cardTokens s =
     bindE (tokensLoop s []) (\<lambda>(tokens, s').
       if list_ex (\<lambda>i. tokens ! i = []) [0..<length tokens - 1]
       then Inl (Errorf ''empty token between two others'' [])
       else Inr (tokens, s'))"

text \<open>The decimal prefix of the W size token, refusing to overflow 64 bits (\<open>None\<close>).\<close>

fun wSize :: "nat \<Rightarrow> bytes \<Rightarrow> nat option" where
  "wSize n [] = Some n"
| "wSize n (c # tok) =
     (if \<not> isDigit c then Some n
      else if (max_u64 - digitVal c) div 10 < n then None
      else wSize (n * 10 + digitVal c) tok)"

definition parseW :: "manifestScanner \<Rightarrow> Deck \<Rightarrow> deck_error + Deck \<times> manifestScanner" where
  "parseW s0 d =
     (if dW d \<noteq> None then Inl (Errorf ''more than one W-card'' [])
      else bindE (nextToken s0) (\<lambda>(tok, s).
        case tok of None \<Rightarrow> Inl (Errorf ''missing size on W-card'' [])
        | Some sizeTok \<Rightarrow>
            if \<not> satEol s then Inl (Errorf ''no content after W-card'' [])
            else case wSize 0 sizeTok of None \<Rightarrow> Inl (Errorf ''size overflow on W-card'' [])
              | Some n \<Rightarrow>
                  let remaining = length (sbuf s) - spos s in
                  if remaining < 2 \<or> remaining - 1 \<le> n then Inl (Errorf ''not enough content after W-card'' [])
                  else if length (sbuf s) \<le> spos s + n then Inl (Panic ''index out of range'')
                  else if sbuf s ! (spos s + n) \<noteq> LF then Inl (Errorf ''W-card content not newline terminated'' [])
                  else Inr (d\<lparr>dW := Some (bslice (sbuf s) (spos s) (spos s + n))\<rparr>,
                            s\<lparr>spos := spos s + n + 1, satEol := True\<rparr>)))"

section \<open>Card parsers\<close>

definition setStringCard :: "bytes list \<Rightarrow> string \<Rightarrow> bool \<Rightarrow> deck_error + bytes" where
  "setStringCard tokens what decode =
     (case tokens of
        [] \<Rightarrow> Inl (Errorf ''missing %s'' [what])
      | [value] \<Rightarrow> Inr (if decode then FossilDecode value else value)
      | _ \<Rightarrow> Inl (Errorf ''extra characters after %s'' [what]))"

definition setHashCard :: "bytes list \<Rightarrow> string \<Rightarrow> bool \<Rightarrow> deck_error + bytes" where
  "setHashCard tokens what sha1Only =
     (case tokens of
        [h] \<Rightarrow> (let ok = (if sha1Only then length h = 40 \<and> isHexAnyCase h else validArtifactHash h) in
               if \<not> ok then Inl (Errorf ''invalid hash on %s: %q'' [what, h]) else Inr h)
      | _ \<Rightarrow> Inl (Errorf ''%s takes exactly one hash'' [what]))"

definition setChecksumCard :: "bytes list \<Rightarrow> string \<Rightarrow> deck_error + bytes" where
  "setChecksumCard tokens what =
     (case tokens of
        [token] \<Rightarrow> (if length token \<noteq> 32 \<or> \<not> isHexAnyCase token
                    then Inl (Errorf ''invalid checksum on %s: %q'' [what, token]) else Inr token)
      | _ \<Rightarrow> Inl (Errorf ''%s takes exactly one checksum'' [what]))"

definition parseACard :: "Deck \<Rightarrow> bytes list \<Rightarrow> deck_error + Deck" where
  "parseACard d tokens =
     (if length tokens < 2 \<or> 3 < length tokens
      then Inl (Errorf ''A-card takes a filename, a target and an optional source'' [])
      else let name = FossilDecode (tokens ! 0) in
        if \<not> simplePathname name then Inl (Errorf ''invalid filename on A-card: %q'' [name])
        else let target = FossilDecode (tokens ! 1) in
          if \<not> validArtifactHash target \<and> \<not> wikiNameWellformed target
          then Inl (Errorf ''invalid target on A-card: %q'' [target])
          else if 3 \<le> length tokens \<and> \<not> validArtifactHash (tokens ! 2)
          then Inl (Errorf ''invalid source hash on A-card: %q'' [tokens ! 2])
          else Inr (d\<lparr>dA := Some \<lparr>aFilename = fileTail name, aTarget = target,
                       aSource = (if 3 \<le> length tokens then tokens ! 2 else [])\<rparr>\<rparr>))"

definition parseDCard :: "Deck \<Rightarrow> bytes list \<Rightarrow> deck_error + Deck" where
  "parseDCard d tokens =
     (case tokens of [tok] \<Rightarrow> bindE (parseTimestamp tok) (\<lambda>t. Inr (d\<lparr>dD := t\<rparr>))
      | _ \<Rightarrow> Inl (Errorf ''D-card takes exactly one timestamp'' []))"

definition parseECard :: "Deck \<Rightarrow> bytes list \<Rightarrow> deck_error + Deck" where
  "parseECard d tokens =
     (case tokens of [tok, uuid] \<Rightarrow>
        bindE (parseTimestamp tok) (\<lambda>t.
          if \<not> validArtifactHash uuid then Inl (Errorf ''invalid hash on E-card: %q'' [uuid])
          else Inr (d\<lparr>dE := Some \<lparr>eDate = t, eUUID = uuid\<rparr>\<rparr>))
      | _ \<Rightarrow> Inl (Errorf ''E-card takes a timestamp and a uuid'' []))"

text \<open>The F card's fields by position, and the check against the previous retained F card.\<close>

definition fileCardOf :: "bytes list \<Rightarrow> FileCard" where
  "fileCardOf tokens =
     \<lparr>fName = FossilDecode (tokens ! 0),
      fUUID = (if 2 \<le> length tokens then tokens ! 1 else []),
      fPerm = (if 3 \<le> length tokens then tokens ! 2 else []),
      fOldName = (if 4 \<le> length tokens then FossilDecode (tokens ! 3) else [])\<rparr>"

definition parseFCard :: "Deck \<Rightarrow> bytes list \<Rightarrow> deck_error + Deck" where
  "parseFCard d tokens =
     (if tokens = [] \<or> 4 < length tokens
      then Inl (Errorf ''F-card takes a filename and up to three more fields'' [])
      else let fc = fileCardOf tokens in
        if \<not> simplePathname (fName fc) then Inl (Errorf ''invalid filename on F-card: %q'' [fName fc])
        else if 4 \<le> length tokens \<and> \<not> simplePathname (fOldName fc)
        then Inl (Errorf ''invalid old-name on F-card: %q'' [fOldName fc])
        else if fUUID fc = [] \<and> dB d = [] then Inl (Errorf ''missing hash on F-card %q'' [fName fc])
        else if fUUID fc \<noteq> [] \<and> \<not> validArtifactHash (fUUID fc)
        then Inl (Errorf ''invalid hash on F-card %q: %q'' [fName fc, fUUID fc])
        else bindE (if dF d \<noteq> [] then requireAscending (CHR ''F'') (fName (last (dF d))) (fName fc) else Inr ()) (\<lambda>_.
          if IsReservedName (fName fc) then Inr d
          else Inr (d\<lparr>dF := dF d @ [fc]\<rparr>)))"

definition parseSCard :: "Deck \<Rightarrow> bytes list \<Rightarrow> deck_error + Deck" where
  "parseSCard d tokens =
     (case tokens of [n, uuid] \<Rightarrow>
        let name = FossilDecode n in
        if \<not> simplePathname name then Inl (Errorf ''invalid filename on S-card: %q'' [name])
        else if \<not> validArtifactHash uuid then Inl (Errorf ''invalid hash on S-card %q: %q'' [name, uuid])
        else bindE (if dS d \<noteq> [] then requireAscending (CHR ''S'') (sName (last (dS d))) name else Inr ()) (\<lambda>_.
          Inr (d\<lparr>dS := dS d @ [\<lparr>sName = name, sUUID = uuid\<rparr>]\<rparr>))
      | _ \<Rightarrow> Inl (Errorf ''S-card takes exactly a filename and a hash'' []))"

definition parseLCard :: "Deck \<Rightarrow> bytes list \<Rightarrow> deck_error + Deck" where
  "parseLCard d tokens =
     (case tokens of [tok] \<Rightarrow>
        let title = FossilDecode tok in
        if \<not> wikiNameWellformed title then Inl (Errorf ''malformed wiki name on L-card: %q'' [title])
        else Inr (d\<lparr>dL := title\<rparr>)
      | _ \<Rightarrow> Inl (Errorf ''L-card takes exactly one wiki title'' []))"

definition parseMCard :: "Deck \<Rightarrow> bytes list \<Rightarrow> deck_error + Deck" where
  "parseMCard d tokens =
     (case tokens of [m] \<Rightarrow>
        if \<not> validArtifactHash m then Inl (Errorf ''invalid hash on M-card: %q'' [m])
        else bindE (if dM d \<noteq> [] then requireAscending (CHR ''M'') (last (dM d)) m else Inr ()) (\<lambda>_.
          Inr (d\<lparr>dM := dM d @ [m]\<rparr>))
      | _ \<Rightarrow> Inl (Errorf ''M-card takes exactly one hash'' []))"

definition parseJCard :: "Deck \<Rightarrow> bytes list \<Rightarrow> deck_error + Deck" where
  "parseJCard d tokens =
     (if tokens = [] \<or> 2 < length tokens then Inl (Errorf ''J-card takes a name and an optional value'' [])
      else let jf = \<lparr>jName = tokens ! 0, jValue = (if 2 \<le> length tokens then FossilDecode (tokens ! 1) else [])\<rparr> in
        bindE (if dJ d \<noteq> [] then requireAscending (CHR ''J'') (jName (last (dJ d))) (jName jf) else Inr ()) (\<lambda>_.
          Inr (d\<lparr>dJ := dJ d @ [jf]\<rparr>)))"

definition parsePCard :: "Deck \<Rightarrow> bytes list \<Rightarrow> deck_error + Deck" where
  "parsePCard d tokens =
     (case List.find (\<lambda>p. \<not> validArtifactHash p) tokens of
        Some parent \<Rightarrow> Inl (Errorf ''invalid hash on P-card: %q'' [parent])
      | None \<Rightarrow> Inr (d\<lparr>pPresent := True, dP := dP d @ tokens\<rparr>))"

definition parseQCard :: "Deck \<Rightarrow> bytes list \<Rightarrow> deck_error + Deck" where
  "parseQCard d tokens =
     (if tokens = [] \<or> 2 < length tokens \<or> tokens ! 0 = []
      then Inl (Errorf ''Q-card takes a signed target and an optional baseline'' [])
      else let sign = tokens ! 0 ! 0 in
        if sign \<noteq> CHR ''+'' \<and> sign \<noteq> CHR ''-''
        then Inl (Errorf ''Q-card must begin with '+' or '-', got %q'' [take 1 (tokens ! 0)])
        else let target = drop 1 (tokens ! 0) in
          if \<not> validArtifactHash target then Inl (Errorf ''invalid target hash on Q-card: %q'' [target])
          else if 2 \<le> length tokens \<and> \<not> validArtifactHash (tokens ! 1)
          then Inl (Errorf ''invalid baseline hash on Q-card: %q'' [tokens ! 1])
          else Inr (d\<lparr>dQ := dQ d @ [\<lparr>qIsBackout = (sign = CHR ''-''), qTarget = target,
                      qBaseline = (if 2 \<le> length tokens then tokens ! 1 else [])\<rparr>]\<rparr>))"

definition parseTCard :: "Deck \<Rightarrow> bytes list \<Rightarrow> deck_error + Deck" where
  "parseTCard d tokens =
     (if tokens = [] \<or> tokens ! 0 = [] then Inl (Errorf ''T-card too short'' [])
      else let nameToken = tokens ! 0; sign = nameToken ! 0 in
        if sign \<noteq> TagSingleton \<and> sign \<noteq> TagPropagating \<and> sign \<noteq> TagCancel
        then Inl (Errorf ''T-card name must begin with '+', '-' or '*', got %q'' [take 1 nameToken])
        else if length tokens < 2 \<or> 3 < length tokens
        then Inl (Errorf ''T-card takes a name, a target and an optional value'' [])
        else let tc = \<lparr>tType = sign, tName = FossilDecode (drop 1 nameToken), tUUID = tokens ! 1,
                       tValue = (if 3 \<le> length tokens then FossilDecode (tokens ! 2) else []),
                       tValuePresent = (3 \<le> length tokens)\<rparr> in
          if isHexToken (tName tc) then Inl (Errorf ''T-card name %q must not be entirely hexadecimal'' [tName tc])
          else if tUUID tc \<noteq> ''*'' \<and> \<not> validArtifactHash (tUUID tc)
          then Inl (Errorf (''T-card target %q is neither a valid artifact hash nor '*'' @ [CHR 0x27]) [tUUID tc])
          else bindE (if dT d \<noteq> [] then requireTagAscending (last (dT d)) tc else Inr ()) (\<lambda>_.
            Inr (d\<lparr>dT := dT d @ [tc]\<rparr>)))"

definition parseUCard :: "Deck \<Rightarrow> bytes list \<Rightarrow> deck_error + Deck" where
  "parseUCard d tokens =
     (if 1 < length tokens then Inl (Errorf ''U-card takes an optional login'' [])
      else let user = (if 0 < length tokens then FossilDecode (tokens ! 0) else []) in
           Inr (d\<lparr>dU := Some (if user = [] then ''anonymous'' else user)\<rparr>))"

definition parseZCard :: "bytes list \<Rightarrow> deck_error + unit" where
  "parseZCard tokens =
     (case tokens of [token] \<Rightarrow>
        if length token \<noteq> 32 then Inl (Errorf ''Z-card checksum must be 32 characters, got %d'' [decimal (length token)])
        else if \<not> list_all isHexDigit token then Inl (Errorf ''Z-card checksum is not hexadecimal: %q'' [token])
        else Inr ()
      | _ \<Rightarrow> Inl (Errorf ''Z-card takes exactly one token'' []))"

definition parseCard :: "Deck \<Rightarrow> byte \<Rightarrow> bytes list \<Rightarrow> deck_error + Deck" where
  "parseCard d c tokens =
     (if c = CHR ''A'' then parseACard d tokens
      else if c = CHR ''B'' then bindE (setHashCard tokens ''B-card'' False) (\<lambda>v. Inr (d\<lparr>dB := v\<rparr>))
      else if c = CHR ''C'' then bindE (setStringCard tokens ''comment on C-card'' True) (\<lambda>v. Inr (d\<lparr>cPresent := True, dC := v\<rparr>))
      else if c = CHR ''D'' then parseDCard d tokens
      else if c = CHR ''E'' then parseECard d tokens
      else if c = CHR ''F'' then parseFCard d tokens
      else if c = CHR ''G'' then bindE (setHashCard tokens ''G-card'' False) (\<lambda>v. Inr (d\<lparr>dG := v\<rparr>))
      else if c = CHR ''H'' then bindE (setStringCard tokens ''title on H-card'' True) (\<lambda>v. Inr (d\<lparr>dH := v\<rparr>))
      else if c = CHR ''I'' then bindE (setHashCard tokens ''I-card'' False) (\<lambda>v. Inr (d\<lparr>dI := v\<rparr>))
      else if c = CHR ''J'' then parseJCard d tokens
      else if c = CHR ''K'' then bindE (setHashCard tokens ''K-card'' True) (\<lambda>v. Inr (d\<lparr>dK := v\<rparr>))
      else if c = CHR ''L'' then parseLCard d tokens
      else if c = CHR ''M'' then parseMCard d tokens
      else if c = CHR ''N'' then bindE (setStringCard tokens ''mimetype on N-card'' True) (\<lambda>v. Inr (d\<lparr>nPresent := True, dN := v\<rparr>))
      else if c = CHR ''P'' then parsePCard d tokens
      else if c = CHR ''Q'' then parseQCard d tokens
      else if c = CHR ''R'' then bindE (setChecksumCard tokens ''R-card'') (\<lambda>v. Inr (d\<lparr>dR := v\<rparr>))
      else if c = CHR ''S'' then parseSCard d tokens
      else if c = CHR ''T'' then parseTCard d tokens
      else if c = CHR ''U'' then parseUCard d tokens
      else if c = CHR ''Z'' then bindE (parseZCard tokens) (\<lambda>_. Inr d)
      else Inl (Errorf (''unknown card '%c'' @ [CHR 0x27]) [[c]]))"

section \<open>The card loop and the pipeline\<close>

definition isLegacyTechnoteNAfterP :: "Deck \<Rightarrow> byte \<Rightarrow> byte \<Rightarrow> bool" where
  "isLegacyTechnoteNAfterP d c lastCard \<longleftrightarrow> c = CHR ''N'' \<and> lastCard = CHR ''P'' \<and> dE d \<noteq> None"

text \<open>One card: the occurrence and order checks, then the W body or the tokens.\<close>

definition scanStep :: "manifestScanner \<Rightarrow> byte \<Rightarrow> Deck \<Rightarrow> byte \<Rightarrow> seenCards \<Rightarrow>
    deck_error + Deck \<times> manifestScanner \<times> seenCards" where
  "scanStep s c d lastCard seen =
     bindE (claim seen c) (\<lambda>seen'.
       if c < lastCard \<and> \<not> isLegacyTechnoteNAfterP d c lastCard
       then Inl (Errorf ''card '%c' out of order (after '%c')'' [[c], [lastCard]])
       else if c = CHR ''W'' then bindE (parseW s d) (\<lambda>(d', s'). Inr (d', s', seen'))
       else bindE (cardTokens s) (\<lambda>(tokens, s').
              bindE (parseCard d c tokens) (\<lambda>d'. Inr (d', s', seen'))))"

definition addLetter :: "w32 \<Rightarrow> byte \<Rightarrow> w32" where
  "addLetter msk c = (if CHR ''A'' \<le> c \<and> c \<le> CHR ''Z'' then msk OR letterBit c else msk)"

lemma nextToken_mono: "nextToken s = Inr (t, s') \<Longrightarrow> spos s \<le> spos s' \<and> sbuf s' = sbuf s"
  using nextToken_progress [of s _ s'] by (cases t) (auto simp: nextToken_def Let_def split: if_splits)

lemma tokensLoop_mono: "tokensLoop s ts = Inr (ts', s') \<Longrightarrow> spos s \<le> spos s' \<and> sbuf s' = sbuf s"
proof (induction s ts rule: tokensLoop.induct)
  case (1 s ts)
  from "1.prems" obtain t s1 where t: "nextToken s = Inr (t, s1)"
      and r: "(case t of None \<Rightarrow> Inr (ts, s1) | Some t \<Rightarrow> tokensLoop s1 (ts @ [t])) = Inr (ts', s')"
    by (subst (asm) tokensLoop.simps) (auto simp: bindE_eq_Inr_iff)
  note m = nextToken_mono [OF t]
  show ?case
  proof (cases t)
    case (Some u)
    with "1.IH" [OF t refl Some] r m show ?thesis by auto
  qed (use r m in auto)
qed

lemma cardTokens_mono: "cardTokens s = Inr (ts, s') \<Longrightarrow> spos s \<le> spos s' \<and> sbuf s' = sbuf s"
  using tokensLoop_mono [of s "[]" ts s'] by (auto simp: cardTokens_def bindE_eq_Inr_iff split: if_splits)

lemma parseW_D:
  assumes "parseW s0 d = Inr (d', s')"
  shows "\<exists>tok s n. dW d = None \<and> nextToken s0 = Inr (Some tok, s) \<and> satEol s \<and> wSize 0 tok = Some n \<and>
    spos s + n + 1 < length (sbuf s) \<and> sbuf s ! (spos s + n) = LF \<and>
    d' = d\<lparr>dW := Some (bslice (sbuf s) (spos s) (spos s + n))\<rparr> \<and> s' = s\<lparr>spos := spos s + n + 1, satEol := True\<rparr>"
proof -
  have W: "dW d = None" using assms by (simp add: parseW_def split: if_split_asm)
  obtain tk s where n: "nextToken s0 = Inr (tk, s)"
    using assms W by (cases "nextToken s0") (auto simp: parseW_def)
  then obtain tok where t: "tk = Some tok" using assms W by (cases tk) (auto simp: parseW_def)
  have e: "satEol s" using assms W n t by (auto simp: parseW_def split: if_split_asm)
  obtain m where m: "wSize 0 tok = Some m" using assms W n t e by (cases "wSize 0 tok") (auto simp: parseW_def)
  show ?thesis
    using assms W n t e m by (auto simp: parseW_def Let_def split: if_split_asm)
qed

lemma parseW_mono: "parseW s d = Inr (d', s') \<Longrightarrow> spos s \<le> spos s' \<and> sbuf s' = sbuf s"
  by (auto dest!: parseW_D nextToken_mono)

lemma scanStep_mono: "scanStep s c d l seen = Inr (d', s', seen') \<Longrightarrow> spos s \<le> spos s' \<and> sbuf s' = sbuf s"
  using parseW_mono [of s d d' s'] cardTokens_mono [of s _ s']
  by (auto simp: scanStep_def bindE_eq_Inr_iff split: if_splits)

lemma nextCard_progress:
  "nextCard s = (c, s') \<Longrightarrow> c \<noteq> NUL \<Longrightarrow> sbuf s' = sbuf s \<and> spos s' = spos s + 2 \<and> spos s' \<le> length (sbuf s)"
  by (auto simp: nextCard_def Let_def split: if_splits)

function scanLoop :: "manifestScanner \<Rightarrow> Deck \<Rightarrow> byte \<Rightarrow> seenCards \<Rightarrow> w32 \<Rightarrow> deck_error + Deck \<times> w32" where
  "scanLoop s d lastCard seen seenMask =
     (case nextCard s of (c, s1) \<Rightarrow>
        if c = NUL then
          (if spos s1 < length (sbuf s1) then Inl (Errorf ''extra characters at end of card'' [])
           else Inr (d, seenMask))
        else bindE (scanStep s1 c d lastCard seen) (\<lambda>(d', s2, seen').
               scanLoop s2 d' c seen' (addLetter seenMask c)))"
  by auto

termination
proof (relation "measure (\<lambda>(s, d, l, seen, m). length (sbuf s) - spos s)", simp, clarify)
  fix s :: manifestScanner and d lastCard seen c s1 d' s2 seen'
  assume a: "(c, s1) = nextCard s" "c \<noteq> NUL" "scanStep s1 c d lastCard seen = Inr (d', s2, seen')"
  note p = nextCard_progress [OF a(1) [symmetric] a(2)] and q = scanStep_mono [OF a(3)]
  from p q have "length (sbuf s) - spos s2 < length (sbuf s) - spos s" by linarith
  with p q show "((s2, d', c, seen', addLetter seenMask c), s, d, lastCard, seen, seenMask)
      \<in> measure (\<lambda>(s, d, l, seen, m). length (sbuf s) - spos s)" for seenMask by simp
qed

declare scanLoop.simps [simp del]

definition scanCards :: "bytes \<Rightarrow> Deck \<Rightarrow> deck_error + Deck \<times> w32" where
  "scanCards content d = scanLoop \<lparr>sbuf = content, spos = 0, satEol = True\<rparr> d NUL (\<lambda>_. False) 0"

definition frameArtifact :: "bytes \<Rightarrow> deck_error + bytes" where
  "frameArtifact data =
     (if data = [] then Inl (Errorf ''zero-length artifact'' [])
      else if last data \<noteq> LF then Inl (Errorf ''artifact not terminated with a newline'' [])
      else bindE (StripClearsign data) (\<lambda>content.
        if length content < 10 \<or> content ! 0 < CHR ''A'' \<or> CHR ''Z'' < content ! 0 \<or> content ! 1 \<noteq> SP
        then Inl (Errorf ''line 1 not recognized'' [])
        else bindE (verifyZ content) (\<lambda>_. Inr content)))"

text \<open>The type once the scan is done: a manifest without a D card is a sub-manifest.\<close>

definition finalType :: "Deck \<Rightarrow> w32 \<Rightarrow> ArtifactType" where
  "finalType d seenMask =
     (if inferType d = Checkin \<and> seenMask AND push_bit 3 1 = 0 then Submanifest else inferType d)"

definition Parse :: "bytes option \<Rightarrow> deck_error + Deck" where
  "Parse data0 =
     (case data0 of None \<Rightarrow> Inl (Panic ''deck.Parse: data must not be nil'')
      | Some data \<Rightarrow>
          bindE (frameArtifact data) (\<lambda>content.
          bindE (scanCards content emptyDeck) (\<lambda>(d, seenMask).
            let d' = d\<lparr>dType := finalType d seenMask\<rparr> in
            bindE (checkType d' seenMask) (\<lambda>_. Inr d'))))"

end
