(* ===== verification/Deck_Marshal.thy ===== *)
theory Deck_Marshal
  imports Deck_Parse "HOL-Library.Product_Lexorder" "HOL-Library.Multiset"
begin

text \<open>
  The artifact writer of \<^verbatim>\<open>src/internal/deck/marshal.go\<close> and the R checksum of \<^verbatim>\<open>rcard.go\<close>.  A string
  builder is the byte string it has accumulated; \<^verbatim>\<open>sort.Slice\<close> by a key is \<open>sort_key\<close> (on lists with
  distinct keys, the ones whose order matters, every sort gives the same list).  \<^verbatim>\<open>strings.ToLower\<close> is
  applied to hexadecimal fields only and is ASCII lower-casing.
\<close>

section \<open>Card writers\<close>

definition marshalCardsABCDE :: "Deck \<Rightarrow> bytes" where
  "marshalCardsABCDE d =
     (case dA d of None \<Rightarrow> []
      | Some a \<Rightarrow> ''A '' @ FossilEncode (aFilename a) @ '' '' @ FossilEncode (aTarget a) @
          (if aSource a \<noteq> [] then '' '' @ aSource a else []) @ [LF]) @
     (if dB d \<noteq> [] then ''B '' @ dB d @ [LF] else []) @
     (if dC d \<noteq> [] \<or> cPresent d then ''C '' @ FossilEncode (dC d) @ [LF] else []) @
     (if dD d \<noteq> 0 then ''D '' @ marshalTimestamp (dD d) 3 @ [LF] else []) @
     (case dE d of None \<Rightarrow> []
      | Some e \<Rightarrow> ''E '' @ marshalTimestamp (eDate e) 0 @ '' '' @ eUUID e @ [LF])"

definition writeFileCard :: "FileCard \<Rightarrow> (bytes \<Rightarrow> bytes) \<Rightarrow> bytes" where
  "writeFileCard f encode =
     ''F '' @ encode (fName f) @
     (if fUUID f \<noteq> [] then
        '' '' @ fUUID f @
        (let perm = (if fPerm f = [] \<and> fOldName f \<noteq> [] then ''w'' else fPerm f) in
         if perm \<noteq> [] then '' '' @ perm else []) @
        (if fOldName f \<noteq> [] then '' '' @ encode (fOldName f) else [])
      else []) @ [LF]"

definition marshalCardF :: "Deck \<Rightarrow> bytes" where
  "marshalCardF d =
     (let encode = (if dType d = Submanifest then CanonicalEncode else FossilEncode) in
      concat (map (\<lambda>f. writeFileCard f encode) (sort_key fName (dF d))))"

definition marshalCardsGHIJKL :: "Deck \<Rightarrow> bytes" where
  "marshalCardsGHIJKL d =
     (if dG d \<noteq> [] then ''G '' @ dG d @ [LF] else []) @
     (if dH d \<noteq> [] then ''H '' @ FossilEncode (dH d) @ [LF] else []) @
     (if dI d \<noteq> [] then ''I '' @ dI d @ [LF] else []) @
     concat (map (\<lambda>j. if jValue j \<noteq> [] then ''J '' @ jName j @ '' '' @ FossilEncode (jValue j) @ [LF]
                      else ''J '' @ jName j @ [LF]) (sort_key jName (dJ d))) @
     (if dK d \<noteq> [] then ''K '' @ map lowerByte (dK d) @ [LF] else []) @
     (if dL d \<noteq> [] then ''L '' @ FossilEncode (dL d) @ [LF] else [])"

fun joinSP :: "bytes list \<Rightarrow> bytes" where
  "joinSP [] = []"
| "joinSP [x] = x"
| "joinSP (x # y # xs) = x @ SP # joinSP (y # xs)"

definition marshalCardsMNPQR :: "Deck \<Rightarrow> bytes" where
  "marshalCardsMNPQR d =
     concat (map (\<lambda>m. ''M '' @ m @ [LF]) (sort (dM d))) @
     (if dN d \<noteq> [] \<or> nPresent d then ''N '' @ FossilEncode (dN d) @ [LF] else []) @
     (if dP d \<noteq> [] then ''P '' @ joinSP (dP d) @ [LF]
      else if pPresent d then ''P'' @ [LF] else []) @
     concat (map (\<lambda>q. let prefix = (if qIsBackout q then ''-'' else ''+'') in
        if qBaseline q \<noteq> [] then ''Q '' @ prefix @ qTarget q @ '' '' @ qBaseline q @ [LF]
        else ''Q '' @ prefix @ qTarget q @ [LF]) (dQ d)) @
     (if dR d \<noteq> [] then ''R '' @ map lowerByte (dR d) @ [LF] else [])"

definition marshalCardS :: "Deck \<Rightarrow> bytes" where
  "marshalCardS d =
     concat (map (\<lambda>sc. ''S '' @ CanonicalEncode (sName sc) @ '' '' @ sUUID sc @ [LF]) (sort_key sName (dS d)))"

definition marshalCardsTUW :: "Deck \<Rightarrow> bytes" where
  "marshalCardsTUW d =
     concat (map (\<lambda>t. ''T '' @ runeString (tType t) @ FossilEncode (tName t) @ '' '' @ tUUID t @
        (if tValue t \<noteq> [] \<or> tValuePresent t then '' '' @ FossilEncode (tValue t) else []) @ [LF])
        (sort_key tagKey (dT d))) @
     (case dU d of Some u \<Rightarrow> (if u \<noteq> [] then ''U '' @ FossilEncode u @ [LF] else []) | None \<Rightarrow> []) @
     (case dW d of Some w \<Rightarrow> ''W '' @ decimal (length w) @ [LF] @ w @ [LF] | None \<Rightarrow> [])"

definition marshalCards :: "Deck \<Rightarrow> bytes" where
  "marshalCards d = marshalCardsABCDE d @ marshalCardF d @ marshalCardsGHIJKL d @ marshalCardsMNPQR d @
     marshalCardS d @ marshalCardsTUW d"

section \<open>Entry points\<close>

definition Marshal :: "Deck \<Rightarrow> deck_error + bytes" where
  "Marshal d =
     (case List.find (\<lambda>t. isHexToken (tName t)) (dT d) of
        Some t \<Rightarrow> Inl (Errorf ''T-card name %q must not be entirely hexadecimal'' [tName t])
      | None \<Rightarrow> let body = marshalCards d in Inr (body @ ''Z '' @ computeZ body @ [LF]))"

definition marshalSubmanifest :: "Deck \<Rightarrow> bytes" where
  "marshalSubmanifest d = (let body = marshalCards d in body @ ''Z '' @ computeZ body @ [LF])"

definition MarshalLeaf :: "FileCard list \<Rightarrow> deck_error + bytes" where
  "MarshalLeaf files =
     (if files = [] then Inl (Panic ''deck.MarshalLeaf: files must not be empty'')
      else if list_ex (\<lambda>f. fUUID f = []) files then Inl (Panic ''deck.MarshalLeaf: every file must carry a hash'')
      else Inr (marshalSubmanifest (emptyDeck\<lparr>dType := Submanifest, dF := files\<rparr>)))"

definition MarshalInterior :: "SubmanifestCard list \<Rightarrow> deck_error + bytes" where
  "MarshalInterior refs =
     (if refs = [] then Inl (Panic ''deck.MarshalInterior: refs must not be empty'')
      else Inr (marshalSubmanifest (emptyDeck\<lparr>dType := Submanifest, dS := refs\<rparr>)))"

definition LeafCard :: "FileCard \<Rightarrow> bytes" where
  "LeafCard f = writeFileCard f CanonicalEncode"

section \<open>The R checksum\<close>

text \<open>The hash fed file by file; \<open>getContent\<close> is the caller's content lookup and may fail.\<close>

fun rFeed :: "(bytes \<Rightarrow> 'e + bytes) \<Rightarrow> FileCard list \<Rightarrow> bytes \<Rightarrow> 'e + bytes" where
  "rFeed getContent [] h = Inr h"
| "rFeed getContent (f # fs) h =
     (if fUUID f = [] then rFeed getContent fs h
      else bindE (getContent (fUUID f)) (\<lambda>content.
             rFeed getContent fs (h @ fName f @ '' '' @ decimal (length content) @ [LF] @ content)))"

definition ComputeR :: "(bytes \<Rightarrow> 'e + bytes) \<Rightarrow> Deck \<Rightarrow> 'e + bytes" where
  "ComputeR getContent d =
     (if dF d = [] then Inr ''d41d8cd98f00b204e9800998ecf8427e''
      else bindE (rFeed getContent (sort_key fName (dF d)) []) (\<lambda>h. Inr (hexEncode (md5Sum h))))"

lemma sort_key_cong_set:
  assumes "distinct (map f xs)" "distinct (map f ys)" "set xs = set ys"
  shows "sort_key f xs = sort_key f ys"
proof (rule map_sorted_distinct_set_unique [where f = f])
  show "inj_on f (set (sort_key f xs) \<union> set (sort_key f ys))"
    using assms by (simp add: distinct_map)
  have "distinct (map f (sort_key f zs))" if "distinct (map f zs)" for zs
    using that by (metis distinct_map distinct_sort set_sort)
  then show "distinct (map f (sort_key f xs))" "distinct (map f (sort_key f ys))" using assms by auto
qed (use assms in auto)

lemma rFeed_append:
  "rFeed gc (xs @ ys) h = bindE (rFeed gc xs h) (rFeed gc ys)"
  by (induction xs arbitrary: h) (auto simp: bindE_assoc)

text \<open>
  The R checksum of a file list is the digest of its general path, the empty list included: the literal
  the code returns for a manifest without files is the digest of no input.  Files without a hash do not count,
  and only the set of names and their contents matters, not the order of the cards.
\<close>

theorem ComputeR_general:
  assumes "distinct (map fName (dF d))" "mset (dF d') = mset (dF d)"
  shows "ComputeR getContent d =
      bindE (rFeed getContent (sort_key fName (filter (\<lambda>f. fUUID f \<noteq> []) (dF d))) []) (\<lambda>h. Inr (computeZ h)) \<and>
    ComputeR getContent d' = ComputeR getContent d"
proof
  have filt: "rFeed getContent xs h = rFeed getContent (filter (\<lambda>f. fUUID f \<noteq> []) xs) h" for xs h
    by (induction xs arbitrary: h) auto
  have sf: "sort_key fName (filter P (dF d)) = filter P (sort_key fName (dF d))" for P
    by (simp add: filter_sort)
  have gen: "ComputeR getContent d =
      bindE (rFeed getContent (sort_key fName (dF d)) []) (\<lambda>h. Inr (computeZ h))"
  proof (cases "dF d = []")
    case True
    then show ?thesis by (simp add: ComputeR_def computeZ_empty)
  qed (simp add: ComputeR_def computeZ_def)
  then show "ComputeR getContent d =
      bindE (rFeed getContent (sort_key fName (filter (\<lambda>f. fUUID f \<noteq> []) (dF d))) []) (\<lambda>h. Inr (computeZ h))"
    using filt [of "sort_key fName (dF d)" "[]"] by (simp add: sf)
  have "mset (map fName (dF d')) = mset (map fName (dF d))" using assms(2) by simp
  with assms(1) have "distinct (map fName (dF d'))" by (metis mset_eq_imp_distinct_iff)
  moreover have "set (dF d') = set (dF d)" using assms(2) by (rule mset_eq_setD)
  ultimately have "sort_key fName (dF d') = sort_key fName (dF d)"
    using assms(1) by (intro sort_key_cong_set) auto
  then show "ComputeR getContent d' = ComputeR getContent d"
    using mset_eq_setD [OF assms(2)] by (auto simp: ComputeR_def)
qed

lemma ComputeR_general_witness:
  "ComputeR (\<lambda>u. Inr u) (emptyDeck\<lparr>dF := [\<lparr>fName = ''b'', fUUID = ''1'', fPerm = [], fOldName = []\<rparr>,
       \<lparr>fName = ''a'', fUUID = [], fPerm = [], fOldName = []\<rparr>]\<rparr>) = (Inr (computeZ (''b 1'' @ [LF] @ ''1'')) :: deck_error + bytes)"
proof -
  let ?f = "[\<lparr>fName = ''b'', fUUID = ''1'', fPerm = [], fOldName = []\<rparr>, \<lparr>fName = ''a'', fUUID = [], fPerm = [], fOldName = []\<rparr>]"
  have "distinct (map fName (dF (emptyDeck\<lparr>dF := ?f\<rparr>)))" by (simp add: emptyDeck_def)
  moreover have "decimal (length ''1'') = ''1''" by code_simp
  ultimately show ?thesis
    using ComputeR_general [of "emptyDeck\<lparr>dF := ?f\<rparr>" "emptyDeck\<lparr>dF := ?f\<rparr>" "\<lambda>u. (Inr u :: deck_error + bytes)"]
    by simp
qed

end
