(* ===== verification/Deck_Items.thy ===== *)
theory Deck_Items
  imports Deck_Marshal
begin

text \<open>
  The abstract reading of an artifact: a list of cards, each a letter with its tokens, and at most one
  raw W body.  \<open>render\<close> is how an item appears in the bytes and \<open>absScan\<close> the card loop over items,
  without positions.  The refinement \<open>scanLoop_render\<close> says that the byte scanner on rendered items is
  \<open>absScan\<close> on the items; the round trip of the codec is then a matter of items only.
\<close>

section \<open>Items\<close>

datatype item = Card byte "bytes list" | Body bytes

fun letterOf :: "item \<Rightarrow> byte" where
  "letterOf (Card c toks) = c"
| "letterOf (Body w) = CHR ''W''"

fun render :: "item \<Rightarrow> bytes" where
  "render (Card c toks) = (if toks = [] then [c, LF] else c # SP # joinSP toks @ [LF])"
| "render (Body w) = ''W '' @ decimal (length w) @ [LF] @ w @ [LF]"

fun validItem :: "item \<Rightarrow> bool" where
  "validItem (Card c toks) \<longleftrightarrow> c \<noteq> NUL \<and> c \<noteq> CHR ''W'' \<and> list_all is_token toks \<and> list_all (\<lambda>t. t \<noteq> []) (butlast toks)"
| "validItem (Body w) \<longleftrightarrow> length w < 2 ^ 64"

fun isCard :: "item \<Rightarrow> bool" where
  "isCard (Card _ _) = True"
| "isCard (Body _) = False"

fun itemStep :: "item \<Rightarrow> Deck \<Rightarrow> deck_error + Deck" where
  "itemStep (Card c toks) d = parseCard d c toks"
| "itemStep (Body w) d = (if dW d \<noteq> None then Inl (Errorf ''more than one W-card'' []) else Inr (d\<lparr>dW := Some w\<rparr>))"

fun absScan :: "item list \<Rightarrow> Deck \<Rightarrow> byte \<Rightarrow> seenCards \<Rightarrow> w32 \<Rightarrow> deck_error + Deck \<times> w32" where
  "absScan [] d lastCard seen seenMask = Inr (d, seenMask)"
| "absScan (it # its) d lastCard seen seenMask =
     (let c = letterOf it in
      bindE (claim seen c) (\<lambda>seen'.
        if c < lastCard \<and> \<not> isLegacyTechnoteNAfterP d c lastCard
        then Inl (Errorf ''card '%c' out of order (after '%c')'' [[c], [lastCard]])
        else bindE (itemStep it d) (\<lambda>d'. absScan its d' c seen' (addLetter seenMask c))))"

section \<open>The scanner on rendered bytes\<close>

text \<open>The scanner stands before the bytes \<open>r\<close>, at a card (\<open>e\<close>) or inside one.\<close>

definition stands :: "manifestScanner \<Rightarrow> bytes \<Rightarrow> bool \<Rightarrow> bool" where
  "stands s r e \<longleftrightarrow> drop (spos s) (sbuf s) = r \<and> satEol s = e \<and> spos s \<le> length (sbuf s)"

lemma stands_nth: "stands s (x # r) e \<Longrightarrow> spos s < length (sbuf s) \<and> sbuf s ! spos s = x \<and> drop (Suc (spos s)) (sbuf s) = r"
  unfolding stands_def using drop_eq_Cons_nth by fastforce

lemma nextCard_stands:
  assumes "stands s (c # x # r) True" "x = SP \<or> x = LF"
  shows "\<exists>s'. nextCard s = (c, s') \<and> stands s' r (x = LF)"
proof -
  from stands_nth [OF assms(1)] have p: "spos s < length (sbuf s)" "sbuf s ! spos s = c" "drop (Suc (spos s)) (sbuf s) = x # r"
    by auto
  from drop_eq_Cons_nth [OF p(3)]
  have q: "Suc (spos s) < length (sbuf s)" "sbuf s ! Suc (spos s) = x" "drop (Suc (Suc (spos s))) (sbuf s) = r" by auto
  have "satEol s" using assms(1) by (simp add: stands_def)
  with p q assms(2) show ?thesis by (auto simp: nextCard_def Let_def stands_def)
qed

lemma tokenEnd_token:
  "drop pos buf = t @ x # r \<Longrightarrow> is_token t \<Longrightarrow> x = SP \<or> x = LF \<Longrightarrow> tokenEnd buf pos = pos + length t"
proof (induction t arbitrary: pos)
  case Nil
  then show ?case using drop_eq_Cons_nth [of pos buf x r] by (subst tokenEnd.simps) auto
next
  case (Cons a t)
  note p = drop_eq_Cons_nth [OF Cons.prems(1) [simplified]]
  from Cons.IH [of "Suc pos"] p Cons.prems have "tokenEnd buf (Suc pos) = Suc pos + length t" by auto
  with p Cons.prems(2) show ?case by (subst tokenEnd.simps) auto
qed

lemma nextToken_stands:
  assumes "stands s (t @ x # r) False" "is_token t" "x = SP \<or> x = LF"
  shows "\<exists>s'. nextToken s = Inr (Some t, s') \<and> stands s' r (x = LF)"
proof -
  have d: "drop (spos s) (sbuf s) = t @ x # r" and le: "spos s \<le> length (sbuf s)" and e: "\<not> satEol s"
    using assms(1) by (auto simp: stands_def)
  note te = tokenEnd_token [OF d assms(2,3)]
  have "drop (spos s + length t) (sbuf s) = x # r" using d by (rule drop_eq_append_drop)
  note q = drop_eq_Cons_nth [OF this]
  have "bslice (sbuf s) (spos s) (spos s + length t) = t" by (simp add: bslice_def d)
  with te le e q show ?thesis by (auto simp: nextToken_def Let_def stands_def)
qed

lemma tokensLoop_stands:
  "toks \<noteq> [] \<Longrightarrow> list_all is_token toks \<Longrightarrow> stands s (joinSP toks @ LF # r) False \<Longrightarrow>
   \<exists>s'. tokensLoop s acc = Inr (acc @ toks, s') \<and> stands s' r True"
proof (induction toks arbitrary: s acc rule: joinSP.induct)
  case (2 x)
  from nextToken_stands [of s x LF r] 2 obtain s1 where
    s1: "nextToken s = Inr (Some x, s1)" "stands s1 r True" by auto
  then have "tokensLoop s1 (acc @ [x]) = Inr (acc @ [x], s1)"
    by (subst tokensLoop.simps) (simp add: nextToken_def stands_def)
  with s1 show ?case by (subst tokensLoop.simps) auto
next
  case (3 x y xs)
  from nextToken_stands [of s x SP "joinSP (y # xs) @ LF # r"] 3 obtain s1 where
    s1: "nextToken s = Inr (Some x, s1)" "stands s1 (joinSP (y # xs) @ LF # r) False" by auto
  from "3.IH" [of s1 "acc @ [x]"] s1 3 obtain s2 where "tokensLoop s1 (acc @ [x]) = Inr (acc @ x # y # xs, s2)" "stands s2 r True"
    by auto
  with s1 show ?case by (subst tokensLoop.simps) auto
qed simp

lemma interior_nonempty:
  "list_all (\<lambda>t. t \<noteq> []) (butlast toks) \<longleftrightarrow> \<not> list_ex (\<lambda>i. toks ! i = []) [0..<length toks - 1]"
  by (auto simp: list_all_length list_ex_iff nth_butlast)

lemma cardTokens_stands:
  assumes "stands s (joinSP toks @ LF # r) False" "toks \<noteq> []" "list_all is_token toks" "list_all (\<lambda>t. t \<noteq> []) (butlast toks)"
  shows "\<exists>s'. cardTokens s = Inr (toks, s') \<and> stands s' r True"
  using tokensLoop_stands [OF assms(2,3,1), of "[]"] assms(4)
  by (auto simp: cardTokens_def interior_nonempty)

lemma cardTokens_bare: "stands s r True \<Longrightarrow> cardTokens s = Inr ([], s)"
  by (simp add: cardTokens_def tokensLoop.simps nextToken_def stands_def)

lemma wSize_digits:
  "list_all isDigit ds \<Longrightarrow> foldl (\<lambda>v c. v * 10 + digitVal c) a ds \<le> max_u64 \<Longrightarrow>
   wSize a ds = Some (foldl (\<lambda>v c. v * 10 + digitVal c) a ds)"
proof (induction ds arbitrary: a)
  case (Cons c ds)
  have "a * 10 + digitVal c \<le> foldl (\<lambda>v c. v * 10 + digitVal c) (a * 10 + digitVal c) ds"
    by (induction ds rule: rev_induct) auto
  with Cons.prems have "a * 10 + digitVal c \<le> max_u64" by simp
  then have "a \<le> (max_u64 - digitVal c) div 10" by (simp add: less_eq_div_iff_mult_less_eq)
  with Cons show ?case by simp
qed simp

lemma wSize_decimal: "n < 2 ^ 64 \<Longrightarrow> wSize 0 (decimal n) = Some n"
  using wSize_digits [of "decimal n" 0] decimal_props [of n] by (simp add: digitsVal_def max_u64_def)

lemma decimal_token: "is_token (decimal n)"
proof -
  have "\<not> isDigit SP" "\<not> isDigit LF" by code_simp+
  with decimal_props [of n] show ?thesis by (auto simp: is_token_def list_all_iff)
qed

lemma parseW_stands:
  assumes "stands s (decimal (length w) @ LF # w @ LF # r) False" "length w < 2 ^ 64" "r \<noteq> []" "dW d = None"
  shows "\<exists>s'. parseW s d = Inr (d\<lparr>dW := Some w\<rparr>, s') \<and> stands s' r True"
proof -
  from nextToken_stands [OF assms(1) decimal_token] obtain s1 where
    s1: "nextToken s = Inr (Some (decimal (length w)), s1)" "stands s1 (w @ LF # r) True" by auto
  have d: "drop (spos s1) (sbuf s1) = w @ LF # r" and le: "spos s1 \<le> length (sbuf s1)" and e: "satEol s1"
    using s1(2) by (auto simp: stands_def)
  have len: "length (sbuf s1) - spos s1 = length w + 1 + length r"
    using arg_cong [OF d, of length] by simp
  have "drop (spos s1 + length w) (sbuf s1) = LF # r" using d by (rule drop_eq_append_drop)
  note q = drop_eq_Cons_nth [OF this]
  have b: "bslice (sbuf s1) (spos s1) (spos s1 + length w) = w" by (simp add: bslice_def d)
  have "0 < length r" using assms(3) by simp
  with s1(1) e len q b wSize_decimal [OF assms(2)] assms(4) show ?thesis
    by (auto simp: parseW_def Let_def stands_def)
qed

text \<open>One rendered item, and then a whole rendered list, scans as the abstract step does.\<close>

lemma scanStep_Card:
  assumes "stands s (render (Card c toks) @ r) True" "validItem (Card c toks)"
  obtains s1 s2 where "nextCard s = (c, s1)" "stands s2 r True"
    and "\<And>d l seen. scanStep s1 c d l seen = bindE (claim seen c) (\<lambda>seen'.
      if c < l \<and> \<not> isLegacyTechnoteNAfterP d c l
      then Inl (Errorf ''card '%c' out of order (after '%c')'' [[c], [l]])
      else bindE (itemStep (Card c toks) d) (\<lambda>d'. Inr (d', s2, seen')))"
proof (cases "toks = []")
  case True
  with assms(1) nextCard_stands [of s c LF r] obtain s1 where s1: "nextCard s = (c, s1)" "stands s1 r True" by auto
  have "c \<noteq> CHR ''W''" using assms(2) by simp
  then show ?thesis
    by (intro that [OF s1]) (simp add: scanStep_def cardTokens_bare [OF s1(2)] True cong: if_cong)
next
  case False
  with assms(1) nextCard_stands [of s c SP "joinSP toks @ LF # r"] obtain s1 where
    s1: "nextCard s = (c, s1)" "stands s1 (joinSP toks @ LF # r) False" by auto
  with cardTokens_stands [of s1 toks r] False assms(2) obtain s2 where s2: "cardTokens s1 = Inr (toks, s2)" "stands s2 r True"
    by auto
  have "c \<noteq> CHR ''W''" using assms(2) by simp
  then show ?thesis
    by (intro that [OF s1(1) s2(2)]) (simp add: scanStep_def s2(1) cong: if_cong)
qed

lemma bindE_if_distrib: "bindE (if b then Inl e else m) f = (if b then Inl e else bindE m f)"
  by simp

lemma scanLoop_render:
  assumes "list_all validItem its" "its \<noteq> []" "isCard (last its)" "stands s (concat (map render its)) True"
  shows "scanLoop s d l seen m = absScan its d l seen m"
  using assms
proof (induction its arbitrary: s d l seen m)
  case (Cons it its)
  let ?r = "concat (map render its)"
  have rest: "scanLoop s2 d' l' seen' m' = absScan its d' l' seen' m'" if "stands s2 ?r True" for s2 d' l' seen' m'
  proof (cases "its = []")
    case True
    with that have "nextCard s2 = (NUL, s2)" "\<not> spos s2 < length (sbuf s2)"
      by (auto simp: stands_def nextCard_def)
    with True show ?thesis by (simp add: scanLoop.simps [of s2])
  qed (use Cons that in auto)
  show ?case
  proof (cases it)
    case (Card c toks)
    with Cons.prems have v: "validItem (Card c toks)" and at: "stands s (render (Card c toks) @ ?r) True" by auto
    from scanStep_Card [OF at v] obtain s1 s2 where s: "nextCard s = (c, s1)" "stands s2 ?r True"
      and st: "\<And>d l seen. scanStep s1 c d l seen = bindE (claim seen c) (\<lambda>seen'.
        if c < l \<and> \<not> isLegacyTechnoteNAfterP d c l
        then Inl (Errorf ''card '%c' out of order (after '%c')'' [[c], [l]])
        else bindE (itemStep (Card c toks) d) (\<lambda>d'. Inr (d', s2, seen')))" by blast
    have "c \<noteq> NUL" using v by simp
    with s rest [OF s(2)] show ?thesis
      unfolding scanLoop.simps [of s] s prod.case st
      by (simp add: Card Let_def bindE_assoc bindE_if_distrib cong: if_cong)
  next
    case (Body w)
    have ne: "its \<noteq> []" using Cons.prems Body by auto
    have rne: "?r \<noteq> []"
    proof (cases its)
      case (Cons a b)
      then show ?thesis by (cases a) auto
    qed (use ne in simp)
    from Cons.prems Body have at: "stands s (CHR ''W'' # SP # decimal (length w) @ LF # w @ LF # ?r) True"
      and wl: "length w < 2 ^ 64" by auto
    from nextCard_stands [OF at] obtain s1 where
      s1: "nextCard s = (CHR ''W'', s1)" "stands s1 (decimal (length w) @ LF # w @ LF # ?r) False" by auto
    show ?thesis
    proof (cases "dW d")
      case None
      from parseW_stands [OF s1(2) wl rne None] obtain s2 where "parseW s1 d = Inr (d\<lparr>dW := Some w\<rparr>, s2)" "stands s2 ?r True"
        by blast
      with s1 None rest show ?thesis
        unfolding scanLoop.simps [of s] s1 prod.case scanStep_def
        by (simp add: Body Let_def bindE_assoc bindE_if_distrib cong: if_cong)
    next
      case (Some w')
      with s1 show ?thesis
        unfolding scanLoop.simps [of s] s1 prod.case scanStep_def
        by (simp add: Body Let_def bindE_assoc bindE_if_distrib parseW_def cong: if_cong)
    qed
  qed
qed simp

end
