(* ===== verification/Deck_Roundtrip.thy ===== *)
theory Deck_Roundtrip
  imports Deck_Items
begin

text \<open>
  Marshalling followed by parsing is the identity on well-formed decks.  The writer's output is the
  rendering of \<open>deckItems\<close>; reading those items back rebuilds the deck one card letter at a time
  (\<open>groupsRun\<close>), the letters in ascending order.
\<close>

unbundle bit_operations_syntax

section \<open>The items of a deck\<close>

definition fileTokens :: "(bytes \<Rightarrow> bytes) \<Rightarrow> FileCard \<Rightarrow> bytes list" where
  "fileTokens encode f = encode (fName f) #
     (if fUUID f \<noteq> [] then fUUID f # (if fPerm f \<noteq> [] then [fPerm f] else []) @
        (if fOldName f \<noteq> [] then [encode (fOldName f)] else []) else [])"

definition tagTokens :: "TagCard \<Rightarrow> bytes list" where
  "tagTokens t = [tType t # FossilEncode (tName t), tUUID t] @
     (if tValue t \<noteq> [] \<or> tValuePresent t then [FossilEncode (tValue t)] else [])"

definition ticketTokens :: "TicketField \<Rightarrow> bytes list" where
  "ticketTokens j = jName j # (if jValue j \<noteq> [] then [FossilEncode (jValue j)] else [])"

definition cherryTokens :: "CherryPick \<Rightarrow> bytes list" where
  "cherryTokens q = ((if qIsBackout q then CHR ''-'' else CHR ''+'') # qTarget q) #
     (if qBaseline q \<noteq> [] then [qBaseline q] else [])"

definition nameEncode :: "Deck \<Rightarrow> bytes \<Rightarrow> bytes" where
  "nameEncode d = (if dType d = Submanifest then CanonicalEncode else FossilEncode)"

definition groupA :: "Deck \<Rightarrow> bytes list list" where
  "groupA d = (case dA d of None \<Rightarrow> [] | Some a \<Rightarrow> [[FossilEncode (aFilename a), FossilEncode (aTarget a)] @
     (if aSource a \<noteq> [] then [aSource a] else [])])"

definition groupE :: "Deck \<Rightarrow> bytes list list" where
  "groupE d = (case dE d of None \<Rightarrow> [] | Some e \<Rightarrow> [[marshalTimestamp (eDate e) 0, eUUID e]])"

definition groupU :: "Deck \<Rightarrow> bytes list list" where
  "groupU d = (case dU d of Some u \<Rightarrow> (if u \<noteq> [] then [[FossilEncode u]] else []) | None \<Rightarrow> [])"

definition optGroup :: "bool \<Rightarrow> bytes \<Rightarrow> bytes list list" where
  "optGroup b t = (if b then [[t]] else [])"

definition hasN :: "Deck \<Rightarrow> bool" where
  "hasN d \<longleftrightarrow> dN d \<noteq> [] \<or> nPresent d"

definition groupP :: "Deck \<Rightarrow> bytes list list" where
  "groupP d = (if dP d \<noteq> [] then [dP d] else if pPresent d then [[]] else [])"

definition deckGroups :: "Deck \<Rightarrow> (byte \<times> bytes list list) list" where
  "deckGroups d =
    [(CHR ''A'', groupA d),
     (CHR ''B'', optGroup (dB d \<noteq> []) (dB d)),
     (CHR ''C'', optGroup (HasC d) (FossilEncode (dC d))),
     (CHR ''D'', optGroup (dD d \<noteq> 0) (marshalTimestamp (dD d) 3)),
     (CHR ''E'', groupE d),
     (CHR ''F'', map (fileTokens (nameEncode d)) (dF d)),
     (CHR ''G'', optGroup (dG d \<noteq> []) (dG d)),
     (CHR ''H'', optGroup (dH d \<noteq> []) (FossilEncode (dH d))),
     (CHR ''I'', optGroup (dI d \<noteq> []) (dI d)),
     (CHR ''J'', map ticketTokens (dJ d)),
     (CHR ''K'', optGroup (dK d \<noteq> []) (dK d)),
     (CHR ''L'', optGroup (dL d \<noteq> []) (FossilEncode (dL d))),
     (CHR ''M'', map (\<lambda>m. [m]) (dM d)),
     (CHR ''N'', optGroup (hasN d) (FossilEncode (dN d))),
     (CHR ''P'', groupP d),
     (CHR ''Q'', map cherryTokens (dQ d)),
     (CHR ''R'', optGroup (dR d \<noteq> []) (dR d)),
     (CHR ''S'', map (\<lambda>sc. [CanonicalEncode (sName sc), sUUID sc]) (dS d)),
     (CHR ''T'', map tagTokens (dT d)),
     (CHR ''U'', groupU d)]"

definition groupItems :: "(byte \<times> bytes list list) list \<Rightarrow> item list" where
  "groupItems gs = concat (map (\<lambda>(c, ts). map (Card c) ts) gs)"

definition bodyItems :: "Deck \<Rightarrow> item list" where
  "bodyItems d = (case dW d of None \<Rightarrow> [] | Some w \<Rightarrow> [Body w])"

definition deckItems :: "Deck \<Rightarrow> item list" where
  "deckItems d = groupItems (deckGroups d) @ bodyItems d"

definition deckLetters :: "Deck \<Rightarrow> byte set" where
  "deckLetters d = {c. \<exists>ts. (c, ts) \<in> set (deckGroups d) \<and> ts \<noteq> []} \<union>
     (if dW d \<noteq> None then {CHR ''W''} else {}) \<union> {CHR ''Z''}"

section \<open>Well-formed decks\<close>

definition wfAttachment :: "AttachmentCard \<Rightarrow> bool" where
  "wfAttachment a \<longleftrightarrow> simplePathname (aFilename a) \<and> SLASH \<notin> set (aFilename a) \<and>
     (validArtifactHash (aTarget a) \<or> wikiNameWellformed (aTarget a)) \<and>
     (aSource a \<noteq> [] \<longrightarrow> validArtifactHash (aSource a))"

definition wfFile :: "bytes \<Rightarrow> FileCard \<Rightarrow> bool" where
  "wfFile b f \<longleftrightarrow> simplePathname (fName f) \<and> \<not> IsReservedName (fName f) \<and> is_token (fPerm f) \<and>
     (if fUUID f = [] then b \<noteq> [] \<and> fPerm f = [] \<and> fOldName f = [] else validArtifactHash (fUUID f)) \<and>
     (fOldName f \<noteq> [] \<longrightarrow> simplePathname (fOldName f) \<and> fPerm f \<noteq> [])"

definition wfTag :: "TagCard \<Rightarrow> bool" where
  "wfTag t \<longleftrightarrow> (tType t = TagSingleton \<or> tType t = TagPropagating \<or> tType t = TagCancel) \<and>
     \<not> isHexToken (tName t) \<and> (tUUID t = ''*'' \<or> validArtifactHash (tUUID t)) \<and> (tValue t \<noteq> [] \<longrightarrow> tValuePresent t)"

definition wfCherry :: "CherryPick \<Rightarrow> bool" where
  "wfCherry q \<longleftrightarrow> validArtifactHash (qTarget q) \<and> (qBaseline q \<noteq> [] \<longrightarrow> validArtifactHash (qBaseline q))"

definition wfTicket :: "TicketField \<Rightarrow> bool" where
  "wfTicket j \<longleftrightarrow> is_token (jName j) \<and> (jName j = [] \<longrightarrow> jValue j = [])"

definition lowerHash :: "bytes \<Rightarrow> bool" where
  "lowerHash h \<longleftrightarrow> isHexAnyCase h \<and> map lowerByte h = h"

text \<open>The fields one by one: what every stored value satisfies.\<close>

definition wfFields :: "Deck \<Rightarrow> bool" where
  "wfFields d \<longleftrightarrow>
     (case dA d of None \<Rightarrow> True | Some a \<Rightarrow> wfAttachment a) \<and>
     (dB d \<noteq> [] \<longrightarrow> validArtifactHash (dB d)) \<and>
     (dC d \<noteq> [] \<longrightarrow> cPresent d) \<and>
     (dD d \<noteq> 0 \<longrightarrow> writableTime (dD d)) \<and>
     (case dE d of None \<Rightarrow> True | Some e \<Rightarrow> writableTime (eDate e) \<and> validArtifactHash (eUUID e)) \<and>
     list_all (wfFile (dB d)) (dF d) \<and> sorted_wrt (\<lambda>f g. fName f < fName g) (dF d) \<and>
     (dG d \<noteq> [] \<longrightarrow> validArtifactHash (dG d)) \<and> (dI d \<noteq> [] \<longrightarrow> validArtifactHash (dI d)) \<and>
     list_all wfTicket (dJ d) \<and> sorted_wrt (\<lambda>i j. jName i < jName j) (dJ d) \<and>
     (dK d \<noteq> [] \<longrightarrow> length (dK d) = 40 \<and> lowerHash (dK d)) \<and>
     (dL d \<noteq> [] \<longrightarrow> wikiNameWellformed (dL d)) \<and>
     list_all validArtifactHash (dM d) \<and> sorted_wrt (<) (dM d) \<and>
     (dN d \<noteq> [] \<longrightarrow> nPresent d) \<and>
     list_all validArtifactHash (dP d) \<and> (dP d \<noteq> [] \<longrightarrow> pPresent d) \<and>
     list_all wfCherry (dQ d) \<and>
     (dR d \<noteq> [] \<longrightarrow> length (dR d) = 32 \<and> lowerHash (dR d)) \<and>
     list_all (\<lambda>s. simplePathname (sName s) \<and> validArtifactHash (sUUID s)) (dS d) \<and>
     sorted_wrt (\<lambda>s t. sName s < sName t) (dS d) \<and>
     list_all wfTag (dT d) \<and> sorted_wrt tagLess (dT d) \<and>
     dU d \<noteq> Some [] \<and>
     (case dW d of None \<Rightarrow> True | Some w \<Rightarrow> length w < 2 ^ 64) \<and>
     dZ d = []"

lemma wfFieldsD:
  assumes "wfFields d"
  shows "(case dA d of None \<Rightarrow> True | Some a \<Rightarrow> wfAttachment a)"
    "(dB d \<noteq> [] \<longrightarrow> validArtifactHash (dB d))"
    "(dC d \<noteq> [] \<longrightarrow> cPresent d)"
    "(dD d \<noteq> 0 \<longrightarrow> writableTime (dD d))"
    "(case dE d of None \<Rightarrow> True | Some e \<Rightarrow> writableTime (eDate e) \<and> validArtifactHash (eUUID e))"
    "list_all (wfFile (dB d)) (dF d)"
    "sorted_wrt (\<lambda>f g. fName f < fName g) (dF d)"
    "(dG d \<noteq> [] \<longrightarrow> validArtifactHash (dG d))"
    "(dI d \<noteq> [] \<longrightarrow> validArtifactHash (dI d))"
    "list_all wfTicket (dJ d)"
    "sorted_wrt (\<lambda>i j. jName i < jName j) (dJ d)"
    "(dK d \<noteq> [] \<longrightarrow> length (dK d) = 40 \<and> lowerHash (dK d))"
    "(dL d \<noteq> [] \<longrightarrow> wikiNameWellformed (dL d))"
    "list_all validArtifactHash (dM d)"
    "sorted_wrt (<) (dM d)"
    "(dN d \<noteq> [] \<longrightarrow> nPresent d)"
    "list_all validArtifactHash (dP d)"
    "(dP d \<noteq> [] \<longrightarrow> pPresent d)"
    "list_all wfCherry (dQ d)"
    "(dR d \<noteq> [] \<longrightarrow> length (dR d) = 32 \<and> lowerHash (dR d))"
    "list_all (\<lambda>s. simplePathname (sName s) \<and> validArtifactHash (sUUID s)) (dS d)"
    "sorted_wrt (\<lambda>s t. sName s < sName t) (dS d)"
    "list_all wfTag (dT d)"
    "sorted_wrt tagLess (dT d)"
    "dU d \<noteq> Some []"
    "(case dW d of None \<Rightarrow> True | Some w \<Rightarrow> length w < 2 ^ 64)"
    "dZ d = []"
  by (insert assms, unfold wfFields_def, blast+)

text \<open>The deck as a whole: its type follows from its cards, which are legal for it.\<close>

definition wfDeck :: "Deck \<Rightarrow> bool" where
  "wfDeck d \<longleftrightarrow> wfFields d \<and>
     dType d = (if inferType d = Checkin \<and> dD d = 0 then Submanifest else inferType d) \<and>
     deckLetters d \<subseteq> set (allowedCards (dType d)) \<and> set (requiredCards (dType d)) \<subseteq> deckLetters d \<and>
     checkSemantics d = Inr ()"

section \<open>Reading a run of equal letters\<close>

fun foldParse :: "byte \<Rightarrow> bytes list list \<Rightarrow> Deck \<Rightarrow> deck_error + Deck" where
  "foldParse c [] d = Inr d"
| "foldParse c (ts # tss) d = bindE (parseCard d c ts) (foldParse c tss)"

fun groupsRun :: "(byte \<times> bytes list list) list \<Rightarrow> Deck \<Rightarrow> deck_error + Deck" where
  "groupsRun [] d = Inr d"
| "groupsRun ((c, tss) # gs) d = bindE (foldParse c tss d) (groupsRun gs)"

lemma addLetter_idem [simp]: "addLetter (addLetter m c) c = addLetter m c"
  by (auto simp: addLetter_def or.assoc)

definition runSeen :: "byte \<Rightarrow> bytes list list \<Rightarrow> seenCards \<Rightarrow> seenCards" where
  "runSeen c tss seen = (if tss \<noteq> [] \<and> singleOccurrence c then seen(c := True) else seen)"

lemma claim_ok: "isLetter c \<Longrightarrow> singleOccurrence c \<longrightarrow> \<not> seen c \<Longrightarrow>
    claim seen c = Inr (if singleOccurrence c then seen(c := True) else seen)"
  by (auto simp: claim_def isLetter_def)

lemma absScan_run:
  assumes "isLetter c" "foldParse c tss d = Inr d'" "singleOccurrence c \<longrightarrow> \<not> seen c \<and> length tss \<le> 1" "l \<le> c"
  shows "absScan (map (Card c) tss @ rest) d l seen m =
    absScan rest d' (if tss = [] then l else c) (runSeen c tss seen) (if tss = [] then m else addLetter m c)"
  using assms(2-)
proof (induction tss arbitrary: d l seen m)
  case (Cons ts tss)
  from Cons.prems(1) obtain d1 where d1: "parseCard d c ts = Inr d1" "foldParse c tss d1 = Inr d'"
    by (auto simp: bindE_eq_Inr_iff)
  have one: "singleOccurrence c \<Longrightarrow> tss = []" using Cons.prems(2) by auto
  have IH: "absScan (map (Card c) tss @ rest) d1 c (runSeen c [ts] seen) (addLetter m c) =
      absScan rest d' c (runSeen c (ts # tss) seen) (addLetter m c)"
  proof (cases "singleOccurrence c")
    case True
    with one d1 show ?thesis by simp
  next
    case False
    with Cons.IH [OF d1(2), of seen c "addLetter m c"] show ?thesis by (auto simp: runSeen_def)
  qed
  have "claim seen c = Inr (runSeen c [ts] seen)"
    using claim_ok [OF assms(1), of seen] Cons.prems(2) by (simp add: runSeen_def)
  moreover have "\<not> c < l" using Cons.prems(3) by simp
  ultimately show ?case using IH d1 by (simp add: Let_def)
qed (simp add: runSeen_def)

text \<open>The letters below \<open>b\<close> are done: nothing after \<open>b\<close> was seen.\<close>

definition fresh :: "byte \<Rightarrow> byte \<Rightarrow> seenCards \<Rightarrow> bool" where
  "fresh b l seen \<longleftrightarrow> l \<le> b \<and> (\<forall>x. b < x \<longrightarrow> \<not> seen x)"

definition hasLetters :: "w32 \<Rightarrow> byte set \<Rightarrow> bool" where
  "hasLetters m L \<longleftrightarrow> (\<exists>ls. list_all isLetter ls \<and> set ls = L \<and> letterMask ls = m)"

lemma hasLetters_add: "hasLetters m L \<Longrightarrow> isLetter c \<Longrightarrow> hasLetters (addLetter m c) (insert c L)"
proof -
  assume "hasLetters m L" and c: "isLetter c"
  then obtain ls where ls: "list_all isLetter ls" "set ls = L" "letterMask ls = m" by (auto simp: hasLetters_def)
  have "letterMask (ls @ [c]) = addLetter m c"
    using c ls(3) by (simp add: letterMask_def addLetter_def isLetter_def)
  with ls c show ?thesis unfolding hasLetters_def by (intro exI [of _ "ls @ [c]"]) auto
qed

lemma fresh_run: "fresh b l seen \<Longrightarrow> b < c \<Longrightarrow> fresh c (if tss = [] then l else c) (runSeen c tss seen)"
  by (auto simp: fresh_def runSeen_def)

definition groupsOk :: "(byte \<times> bytes list list) list \<Rightarrow> bool" where
  "groupsOk gs \<longleftrightarrow> sorted_wrt (<) (map fst gs) \<and>
     list_all (\<lambda>(c, tss). isLetter c \<and> (singleOccurrence c \<longrightarrow> length tss \<le> 1)) gs"

definition groupLetters :: "(byte \<times> bytes list list) list \<Rightarrow> byte set" where
  "groupLetters gs = {c. \<exists>ts. (c, ts) \<in> set gs \<and> ts \<noteq> []}"

lemma groupLetters_Cons [simp]:
  "groupLetters ((c, tss) # gs) = (if tss = [] then {} else {c}) \<union> groupLetters gs"
  by (auto simp: groupLetters_def)

lemma absScan_groups:
  assumes "groupsOk gs" "groupsRun gs d = Inr d'" "fresh b l seen" "list_all (\<lambda>g. b < fst g \<and> fst g \<le> e) gs" "b \<le> e"
    and "hasLetters m L"
  shows "\<exists>l' seen' m'. fresh e l' seen' \<and> hasLetters m' (L \<union> groupLetters gs) \<and>
    absScan (groupItems gs @ rest) d l seen m = absScan rest d' l' seen' m'"
  using assms
proof (induction gs arbitrary: d b l seen m L)
  case Nil
  then have "fresh e l seen" by (auto simp: fresh_def)
  with Nil show ?case by (auto simp: groupItems_def groupLetters_def)
next
  case (Cons g gs)
  obtain c tss where g: "g = (c, tss)" by (cases g)
  from Cons.prems g obtain d1 where d1: "foldParse c tss d = Inr d1" "groupsRun gs d1 = Inr d'"
    by (auto simp: bindE_eq_Inr_iff)
  from Cons.prems g have c: "isLetter c" "singleOccurrence c \<longrightarrow> length tss \<le> 1" "b < c" "c \<le> e"
    and gs: "groupsOk gs" "list_all (\<lambda>g. c < fst g \<and> fst g \<le> e) gs"
    by (auto simp: groupsOk_def list_all_iff)
  let ?l = "if tss = [] then l else c" and ?seen = "runSeen c tss seen" and ?m = "if tss = [] then m else addLetter m c"
  have "l \<le> c" "\<not> seen c" using Cons.prems(3) c(3) by (auto simp: fresh_def)
  then have run: "absScan (groupItems (g # gs) @ rest) d l seen m = absScan (groupItems gs @ rest) d1 ?l ?seen ?m"
    using absScan_run [OF c(1) d1(1), of seen l "groupItems gs @ rest" m] c(2) by (simp add: groupItems_def g)
  have L: "hasLetters ?m (L \<union> (if tss = [] then {} else {c}))"
    using hasLetters_add [OF Cons.prems(6) c(1)] Cons.prems(6) by auto
  from Cons.IH [OF gs(1) d1(2) fresh_run [OF Cons.prems(3) c(3)] gs(2) c(4) L] run
  show ?case by (simp add: g Un_assoc)
qed

section \<open>Each letter rebuilds its field\<close>

lemma ascending_ok [simp]:
  "p < q \<Longrightarrow> requireAscending c p q = Inr ()" "tagLess s t \<Longrightarrow> requireTagAscending s t = Inr ()"
  by simp_all

lemma validArtifactHash_token: "validArtifactHash h \<Longrightarrow> is_token h \<and> h \<noteq> []"
  by (auto simp: validArtifactHash_def isHexAnyCase_token)

lemma fileTail_no_slash: "SLASH \<notin> set n \<Longrightarrow> fileTail n = n"
proof -
  assume "SLASH \<notin> set n"
  then have "takeWhile (\<lambda>c. c \<noteq> SLASH) (rev n) = rev n" by (auto simp: takeWhile_eq_all_conv)
  then show ?thesis by (simp only: fileTail_def rev_rev_ident)
qed

lemma foldParse_opt:
  assumes "b \<Longrightarrow> parseCard x c [t] = Inr (f x)" "\<not> b \<Longrightarrow> f x = x"
  shows "foldParse c (optGroup b t) x = Inr (f x)"
  using assms by (cases b) (auto simp: optGroup_def)

lemma runA:
  assumes "wfFields d" "dA x = None"
  shows "foldParse (CHR ''A'') (groupA d) x = Inr (x\<lparr>dA := dA d\<rparr>)"
proof (cases "dA d")
  case (Some a)
  with assms(1) have a: "wfAttachment a" by (simp add: wfFields_def)
  then show ?thesis
    by (auto simp: groupA_def Some parseCard_def parseACard_def Let_def wfAttachment_def fileTail_no_slash)
qed (use assms(2) in \<open>simp add: groupA_def\<close>)

lemma runE:
  assumes "wfFields d" "dE x = None"
  shows "foldParse (CHR ''E'') (groupE d) x = Inr (x\<lparr>dE := dE d\<rparr>)"
proof (cases "dE d")
  case (Some e)
  with assms(1) have "writableTime (eDate e)" "validArtifactHash (eUUID e)" by (simp_all add: wfFields_def)
  then show ?thesis
    by (simp add: groupE_def Some parseCard_def parseECard_def parseTimestamp_marshal)
qed (use assms(2) in \<open>simp add: groupE_def\<close>)

lemma runU:
  assumes "dU d \<noteq> Some []" "dU x = None"
  shows "foldParse (CHR ''U'') (groupU d) x = Inr (x\<lparr>dU := dU d\<rparr>)"
  using assms by (cases "dU d") (auto simp: groupU_def parseCard_def parseUCard_def Let_def)

context field_codec
begin

text \<open>
  A file card through either encoder: the writer is generic in the encoding, and so is its reading, as long as
  the encoding is one the decoder undoes.
\<close>

lemma fileTokens_valid:
  "wfFile b f \<Longrightarrow> list_all is_token (fileTokens enc f) \<and> list_all (\<lambda>t. t \<noteq> []) (butlast (fileTokens enc f)) \<and> fileTokens enc f \<noteq> []"
  using validArtifactHash_token [of "fUUID f"]
  by (auto simp: fileTokens_def wfFile_def enc_token enc_eq_Nil simplePathname_def split: if_splits)

lemma fileTokens_fields:
  assumes "wfFile b f" "dec = FossilDecode"
  shows "fileCardOf (fileTokens enc f) = f" "length (fileTokens enc f) \<le> 4"
    "4 \<le> length (fileTokens enc f) \<Longrightarrow> simplePathname (fOldName f)"
  using assms dec_enc by (auto simp: fileTokens_def fileCardOf_def wfFile_def nth_Cons' split: if_splits)

lemma runF:
  assumes "dec = FossilDecode" "list_all (wfFile (dB x)) fs" "sorted_wrt (\<lambda>f g. fName f < fName g) (dF x @ fs)"
  shows "foldParse (CHR ''F'') (map (fileTokens enc) fs) x = Inr (x\<lparr>dF := dF x @ fs\<rparr>)"
  using assms(2,3)
proof (induction fs arbitrary: x)
  case (Cons f fs)
  have wf: "wfFile (dB x) f" using Cons.prems by simp
  have asc: "dF x \<noteq> [] \<Longrightarrow> fName (last (dF x)) < fName f" using Cons.prems(2) by (auto simp: sorted_wrt_append)
  have "fileTokens enc f \<noteq> []" using fileTokens_valid [OF wf] by simp
  then have "parseCard x (CHR ''F'') (fileTokens enc f) = Inr (x\<lparr>dF := dF x @ [f]\<rparr>)"
    using fileTokens_fields [OF wf assms(1)] wf asc
    by (auto simp: parseCard_def parseFCard_def Let_def wfFile_def not_less split: if_split_asm)
  with Cons.IH [of "x\<lparr>dF := dF x @ [f]\<rparr>"] Cons.prems show ?case by simp
qed simp

end

lemma runFiles:
  assumes "wfFields d" "dF x = []" "dB x = dB d"
  shows "foldParse (CHR ''F'') (map (fileTokens (nameEncode d)) (dF d)) x = Inr (x\<lparr>dF := dF d\<rparr>)"
  using assms fossil.runF [OF refl, of x "dF d"] canonical.runF [OF refl, of x "dF d"]
  by (auto simp: nameEncode_def wfFields_def)

lemma runJ:
  assumes "list_all wfTicket js" "sorted_wrt (\<lambda>i j. jName i < jName j) (dJ x @ js)"
  shows "foldParse (CHR ''J'') (map ticketTokens js) x = Inr (x\<lparr>dJ := dJ x @ js\<rparr>)"
  using assms
proof (induction js arbitrary: x)
  case (Cons j js)
  have asc: "dJ x \<noteq> [] \<Longrightarrow> jName (last (dJ x)) < jName j" using Cons.prems(2) by (auto simp: sorted_wrt_append)
  then have "parseCard x (CHR ''J'') (ticketTokens j) = Inr (x\<lparr>dJ := dJ x @ [j]\<rparr>)"
    by (cases j) (auto simp: parseCard_def parseJCard_def ticketTokens_def Let_def)
  with Cons.IH [of "x\<lparr>dJ := dJ x @ [j]\<rparr>"] Cons.prems show ?case by simp
qed simp

lemma runM:
  assumes "list_all validArtifactHash ms" "sorted_wrt (<) (dM x @ ms)"
  shows "foldParse (CHR ''M'') (map (\<lambda>m. [m]) ms) x = Inr (x\<lparr>dM := dM x @ ms\<rparr>)"
  using assms
proof (induction ms arbitrary: x)
  case (Cons m ms)
  have asc: "dM x \<noteq> [] \<Longrightarrow> last (dM x) < m" using Cons.prems(2) by (auto simp: sorted_wrt_append)
  then have "parseCard x (CHR ''M'') [m] = Inr (x\<lparr>dM := dM x @ [m]\<rparr>)"
    using Cons.prems(1) by (auto simp: parseCard_def parseMCard_def)
  with Cons.IH [of "x\<lparr>dM := dM x @ [m]\<rparr>"] Cons.prems show ?case by simp
qed simp

lemma runS:
  assumes "list_all (\<lambda>s. simplePathname (sName s) \<and> validArtifactHash (sUUID s)) ss"
    and "sorted_wrt (\<lambda>s t. sName s < sName t) (dS x @ ss)"
  shows "foldParse (CHR ''S'') (map (\<lambda>sc. [CanonicalEncode (sName sc), sUUID sc]) ss) x = Inr (x\<lparr>dS := dS x @ ss\<rparr>)"
  using assms
proof (induction ss arbitrary: x)
  case (Cons s ss)
  have asc: "dS x \<noteq> [] \<Longrightarrow> sName (last (dS x)) < sName s" using Cons.prems(2) by (auto simp: sorted_wrt_append)
  then have "parseCard x (CHR ''S'') [CanonicalEncode (sName s), sUUID s] = Inr (x\<lparr>dS := dS x @ [s]\<rparr>)"
    using Cons.prems(1) by (cases s) (auto simp: parseCard_def parseSCard_def Let_def)
  with Cons.IH [of "x\<lparr>dS := dS x @ [s]\<rparr>"] Cons.prems show ?case by simp
qed simp

lemma wfTag_checks:
  assumes "wfTag t"
  shows "(tType t \<noteq> TagSingleton \<and> tType t \<noteq> TagPropagating \<and> tType t \<noteq> TagCancel) = False"
    "(tUUID t \<noteq> ''*'' \<and> \<not> validArtifactHash (tUUID t)) = False" "isHexToken (tName t) = False"
  using assms by (auto simp: wfTag_def)

lemma parseTCard_value:
  assumes "wfTag t" "dT x \<noteq> [] \<Longrightarrow> tagLess (last (dT x)) t" "tValuePresent t"
  shows "parseTCard x [tType t # FossilEncode (tName t), tUUID t, FossilEncode (tValue t)] = Inr (x\<lparr>dT := dT x @ [t]\<rparr>)"
proof -
  have t: "\<lparr>tType = tType t, tName = tName t, tUUID = tUUID t, tValue = tValue t, tValuePresent = True\<rparr> = t"
    using assms(3) by simp
  show ?thesis
    unfolding parseTCard_def Let_def
    using assms(2) by (simp add: t wfTag_checks [OF assms(1)])
qed

lemma parseTCard_plain:
  assumes "wfTag t" "dT x \<noteq> [] \<Longrightarrow> tagLess (last (dT x)) t" "\<not> tValuePresent t"
  shows "parseTCard x [tType t # FossilEncode (tName t), tUUID t] = Inr (x\<lparr>dT := dT x @ [t]\<rparr>)"
proof -
  have t: "\<lparr>tType = tType t, tName = tName t, tUUID = tUUID t, tValue = [], tValuePresent = False\<rparr> = t"
    using assms(1,3) by (cases t) (simp add: wfTag_def)
  show ?thesis
    unfolding parseTCard_def Let_def
    using assms(2) by (simp add: t wfTag_checks [OF assms(1)])
qed

lemma runT:
  assumes "list_all wfTag ts" "sorted_wrt tagLess (dT x @ ts)"
  shows "foldParse (CHR ''T'') (map tagTokens ts) x = Inr (x\<lparr>dT := dT x @ ts\<rparr>)"
  using assms
proof (induction ts arbitrary: x)
  case (Cons t ts)
  have asc: "dT x \<noteq> [] \<Longrightarrow> tagLess (last (dT x)) t" using Cons.prems(2) by (auto simp: sorted_wrt_append)
  have wf: "wfTag t" using Cons.prems(1) by simp
  have "parseCard x (CHR ''T'') (tagTokens t) = Inr (x\<lparr>dT := dT x @ [t]\<rparr>)"
    using asc wf parseTCard_value [of t x] parseTCard_plain [of t x]
    by (cases "tValuePresent t") (simp_all add: parseCard_def tagTokens_def wfTag_def)
  with Cons.IH [of "x\<lparr>dT := dT x @ [t]\<rparr>"] Cons.prems show ?case by simp
qed simp

lemma runQ:
  assumes "list_all wfCherry qs"
  shows "foldParse (CHR ''Q'') (map cherryTokens qs) x = Inr (x\<lparr>dQ := dQ x @ qs\<rparr>)"
  using assms
proof (induction qs arbitrary: x)
  case (Cons q qs)
  have "parseCard x (CHR ''Q'') (cherryTokens q) = Inr (x\<lparr>dQ := dQ x @ [q]\<rparr>)"
    using Cons.prems by (cases q) (auto simp: parseCard_def parseQCard_def cherryTokens_def wfCherry_def Let_def)
  with Cons.IH [of "x\<lparr>dQ := dQ x @ [q]\<rparr>"] Cons.prems show ?case by simp
qed simp

lemma find_None_all: "list_all P xs \<Longrightarrow> List.find (\<lambda>x. \<not> P x) xs = None"
  by (auto simp: find_None_iff list_all_iff)

lemma runP:
  assumes "list_all validArtifactHash (dP d)" "dP d \<noteq> [] \<longrightarrow> pPresent d" "dP x = []" "\<not> pPresent x"
  shows "foldParse (CHR ''P'') (groupP d) x =
    Inr (x\<lparr>pPresent := pPresent d, dP := dP d\<rparr>)"
  using assms by (auto simp: groupP_def parseCard_def parsePCard_def find_None_all)

section \<open>The whole deck\<close>

text \<open>What reading the items yields: the deck, except for the type, which is set afterwards.\<close>

lemma groupsRun_deck:
  assumes "wfFields d"
  shows "groupsRun (deckGroups d) emptyDeck = Inr (d\<lparr>dType := Checkin, dW := None\<rparr>)"
proof -
  note wf = wfFieldsD [OF assms]
  have opt: "foldParse c (optGroup b t) x = Inr y"
    if "b \<Longrightarrow> parseCard x c [t] = Inr y" "\<not> b \<Longrightarrow> x = y" for c b t x y
    using that by (cases b) (auto simp: optGroup_def)
  have B: "foldParse (CHR ''B'') (optGroup (dB d \<noteq> []) (dB d)) x = Inr (x\<lparr>dB := dB d\<rparr>)" if "dB x = []" for x
    using wf(2) that by (intro opt) (auto simp: parseCard_def setHashCard_def)
  have C: "foldParse (CHR ''C'') (optGroup (HasC d) (FossilEncode (dC d))) x = Inr (x\<lparr>cPresent := cPresent d, dC := dC d\<rparr>)"
    if "dC x = []" "\<not> cPresent x" for x
    using wf(3) that by (intro opt) (auto simp: parseCard_def setStringCard_def HasC_def)
  have D: "foldParse (CHR ''D'') (optGroup (dD d \<noteq> 0) (marshalTimestamp (dD d) 3)) x = Inr (x\<lparr>dD := dD d\<rparr>)" if "dD x = 0" for x
    using wf(4) that by (intro opt) (auto simp: parseCard_def parseDCard_def parseTimestamp_marshal)
  have G: "foldParse (CHR ''G'') (optGroup (dG d \<noteq> []) (dG d)) x = Inr (x\<lparr>dG := dG d\<rparr>)" if "dG x = []" for x
    using wf(8) that by (intro opt) (auto simp: parseCard_def setHashCard_def)
  have H: "foldParse (CHR ''H'') (optGroup (dH d \<noteq> []) (FossilEncode (dH d))) x = Inr (x\<lparr>dH := dH d\<rparr>)" if "dH x = []" for x
    using that by (intro opt) (auto simp: parseCard_def setStringCard_def)
  have I: "foldParse (CHR ''I'') (optGroup (dI d \<noteq> []) (dI d)) x = Inr (x\<lparr>dI := dI d\<rparr>)" if "dI x = []" for x
    using wf(9) that by (intro opt) (auto simp: parseCard_def setHashCard_def)
  have K: "foldParse (CHR ''K'') (optGroup (dK d \<noteq> []) (dK d)) x = Inr (x\<lparr>dK := dK d\<rparr>)" if "dK x = []" for x
    using wf(12) that by (intro opt) (auto simp: parseCard_def setHashCard_def lowerHash_def)
  have L: "foldParse (CHR ''L'') (optGroup (dL d \<noteq> []) (FossilEncode (dL d))) x = Inr (x\<lparr>dL := dL d\<rparr>)" if "dL x = []" for x
    using wf(13) that by (intro opt) (auto simp: parseCard_def parseLCard_def)
  have N: "foldParse (CHR ''N'') (optGroup (hasN d) (FossilEncode (dN d))) x = Inr (x\<lparr>nPresent := nPresent d, dN := dN d\<rparr>)"
    if "dN x = []" "\<not> nPresent x" for x
    using wf(16) that by (intro opt) (auto simp: parseCard_def setStringCard_def hasN_def)
  have R: "foldParse (CHR ''R'') (optGroup (dR d \<noteq> []) (dR d)) x = Inr (x\<lparr>dR := dR d\<rparr>)" if "dR x = []" for x
    using wf(20) that by (intro opt) (auto simp: parseCard_def setChecksumCard_def lowerHash_def)
  have J: "foldParse (CHR ''J'') (map ticketTokens (dJ d)) x = Inr (x\<lparr>dJ := dJ d\<rparr>)" if "dJ x = []" for x
    using wf(10,11) that runJ [of "dJ d" x] by simp
  have M: "foldParse (CHR ''M'') (map (\<lambda>m. [m]) (dM d)) x = Inr (x\<lparr>dM := dM d\<rparr>)" if "dM x = []" for x
    using wf(14,15) that runM [of "dM d" x] by simp
  have Q: "foldParse (CHR ''Q'') (map cherryTokens (dQ d)) x = Inr (x\<lparr>dQ := dQ d\<rparr>)" if "dQ x = []" for x
    using wf(19) that runQ [of "dQ d" x] by simp
  have S: "foldParse (CHR ''S'') (map (\<lambda>sc. [CanonicalEncode (sName sc), sUUID sc]) (dS d)) x = Inr (x\<lparr>dS := dS d\<rparr>)" if "dS x = []" for x
    using wf(21,22) that runS [of "dS d" x] by simp
  have T: "foldParse (CHR ''T'') (map tagTokens (dT d)) x = Inr (x\<lparr>dT := dT d\<rparr>)" if "dT x = []" for x
    using wf(23,24) that runT [of "dT d" x] by simp
  have U: "dU d \<noteq> Some []" and P: "list_all validArtifactHash (dP d)" "dP d \<noteq> [] \<longrightarrow> pPresent d" and Z: "dZ d = []"
    using wf(17,18,25,27) by auto
  show ?thesis
    unfolding deckGroups_def groupsRun.simps
    by (simp add: emptyDeck_def runA [OF assms] B C D runE [OF assms] runFiles [OF assms] G H I J K L M N
        runP [OF P] Q R S T runU [OF U] Z)
qed

section \<open>The writer renders the items\<close>

lemma sort_key_sorted: "sorted_wrt (\<lambda>x y. f x \<le> f y) xs \<Longrightarrow> sort_key f xs = xs"
  by (induction xs) (auto simp: insort_is_Cons)

lemma sort_key_strict: "sorted_wrt (\<lambda>x y. f x < f y) xs \<Longrightarrow> sort_key f xs = xs"
  by (rule sort_key_sorted) (auto elim: sorted_wrt_mono_rel [rotated] intro: less_imp_le)

lemma sort_strict: "sorted_wrt (<) xs \<Longrightarrow> sort xs = (xs :: bytes list)"
  using sort_key_strict [of "\<lambda>x. x" xs] by simp

lemma sort_tags: "sorted_wrt tagLess ts \<Longrightarrow> sort_key tagKey ts = ts"
  by (rule sort_key_sorted) (auto elim!: sorted_wrt_mono_rel [rotated] simp: tagLess_def tagKey_def)

definition renderGroup :: "byte \<Rightarrow> bytes list list \<Rightarrow> bytes" where
  "renderGroup c tss = concat (map (\<lambda>ts. render (Card c ts)) tss)"

lemma render_groupItems:
  "concat (map render (groupItems gs)) = concat (map (\<lambda>(c, tss). renderGroup c tss) gs)"
  by (induction gs) (auto simp: groupItems_def renderGroup_def comp_def simp del: render.simps)

lemma render_optGroup: "renderGroup c (optGroup b t) = (if b then [c, SP] @ t @ [LF] else [])"
  by (simp add: optGroup_def renderGroup_def)

lemma writeFileCard_render:
  "wfFile b f \<Longrightarrow> writeFileCard f enc = render (Card (CHR ''F'') (fileTokens enc f))"
  by (auto simp: writeFileCard_def fileTokens_def wfFile_def Let_def)

lemma wfTag_runeString: "wfTag t \<Longrightarrow> runeString (tType t) = [tType t]"
  by (auto simp: wfTag_def runeString_def TagSingleton_def TagPropagating_def TagCancel_def byteval_def)

lemma concat_map_cong: "(\<And>x. x \<in> set xs \<Longrightarrow> f x = g x) \<Longrightarrow> concat (map f xs) = concat (map g xs)"
  by (induction xs) auto

lemma marshalCards_render:
  assumes "wfFields d"
  shows "marshalCards d = concat (map render (deckItems d))"
proof -
  note wf = wfFieldsD [OF assms]
  have F: "marshalCardF d = renderGroup (CHR ''F'') (map (fileTokens (nameEncode d)) (dF d))"
    using wf(6,7) by (auto simp: renderGroup_def marshalCardF_def sort_key_strict nameEncode_def list_all_iff comp_def Let_def
        simp del: render.simps intro!: concat_map_cong writeFileCard_render)
  have T: "concat (map (\<lambda>t. ''T '' @ runeString (tType t) @ FossilEncode (tName t) @ '' '' @ tUUID t @
        (if tValue t \<noteq> [] \<or> tValuePresent t then '' '' @ FossilEncode (tValue t) else []) @ [LF]) (sort_key tagKey (dT d))) =
      renderGroup (CHR ''T'') (map tagTokens (dT d))"
    using wf(23,24) by (auto simp: renderGroup_def sort_tags list_all_iff comp_def wfTag_runeString tagTokens_def intro!: concat_map_cong)
  have J: "concat (map (\<lambda>j. if jValue j \<noteq> [] then ''J '' @ jName j @ '' '' @ FossilEncode (jValue j) @ [LF]
        else ''J '' @ jName j @ [LF]) (sort_key jName (dJ d))) =
      renderGroup (CHR ''J'') (map ticketTokens (dJ d))"
    using wf(11) by (auto simp: renderGroup_def sort_key_strict comp_def ticketTokens_def intro!: concat_map_cong)
  have M: "concat (map (\<lambda>m. ''M '' @ m @ [LF]) (sort (dM d))) = renderGroup (CHR ''M'') (map (\<lambda>m. [m]) (dM d))"
    using wf(15) by (simp add: renderGroup_def sort_strict comp_def)
  have Q: "concat (map (\<lambda>q. let prefix = (if qIsBackout q then ''-'' else ''+'') in
        if qBaseline q \<noteq> [] then ''Q '' @ prefix @ qTarget q @ '' '' @ qBaseline q @ [LF]
        else ''Q '' @ prefix @ qTarget q @ [LF]) (dQ d)) =
      renderGroup (CHR ''Q'') (map cherryTokens (dQ d))"
    by (auto simp: renderGroup_def comp_def cherryTokens_def Let_def intro!: concat_map_cong)
  have S: "marshalCardS d = renderGroup (CHR ''S'') (map (\<lambda>sc. [CanonicalEncode (sName sc), sUUID sc]) (dS d))"
    using wf(22) by (simp add: renderGroup_def marshalCardS_def sort_key_strict comp_def)
  have P: "(if dP d \<noteq> [] then ''P '' @ joinSP (dP d) @ [LF] else if pPresent d then ''P'' @ [LF] else []) =
      renderGroup (CHR ''P'') (groupP d)"
    by (simp add: groupP_def renderGroup_def)
  have K: "dK d \<noteq> [] \<Longrightarrow> map lowerByte (dK d) = dK d" "dR d \<noteq> [] \<Longrightarrow> map lowerByte (dR d) = dR d"
    using wf(12,20) by (auto simp: lowerHash_def)
  have A: "(case dA d of None \<Rightarrow> []
      | Some a \<Rightarrow> ''A '' @ FossilEncode (aFilename a) @ '' '' @ FossilEncode (aTarget a) @
          (if aSource a \<noteq> [] then '' '' @ aSource a else []) @ [LF]) = renderGroup (CHR ''A'') (groupA d)"
    by (simp add: renderGroup_def groupA_def split: option.split)
  have E: "(case dE d of None \<Rightarrow> [] | Some e \<Rightarrow> ''E '' @ marshalTimestamp (eDate e) 0 @ '' '' @ eUUID e @ [LF]) =
      renderGroup (CHR ''E'') (groupE d)"
    by (simp add: renderGroup_def groupE_def split: option.split)
  have U: "(case dU d of Some u \<Rightarrow> (if u \<noteq> [] then ''U '' @ FossilEncode u @ [LF] else []) | None \<Rightarrow> []) =
      renderGroup (CHR ''U'') (groupU d)"
    by (simp add: renderGroup_def groupU_def split: option.split)
  have W: "(case dW d of Some w \<Rightarrow> ''W '' @ decimal (length w) @ [LF] @ w @ [LF] | None \<Rightarrow> []) = concat (map render (bodyItems d))"
    by (simp add: bodyItems_def split: option.split)
  have KR: "(if dK d \<noteq> [] then ''K '' @ map lowerByte (dK d) @ [LF] else []) = (if dK d \<noteq> [] then ''K '' @ dK d @ [LF] else [])"
      "(if dR d \<noteq> [] then ''R '' @ map lowerByte (dR d) @ [LF] else []) = (if dR d \<noteq> [] then ''R '' @ dR d @ [LF] else [])"
    using K by simp_all
  show ?thesis
    unfolding marshalCards_def marshalCardsABCDE_def marshalCardsGHIJKL_def marshalCardsMNPQR_def marshalCardsTUW_def
    unfolding A E F J M P Q S T U W KR deckItems_def
    unfolding map_append concat_append render_groupItems deckGroups_def
      list.map concat.simps prod.case render_optGroup HasC_def hasN_def append_assoc append_Nil2 append.simps
    by (rule refl)
qed

section \<open>The items are valid\<close>

lemma is_token_take: "is_token t \<Longrightarrow> is_token (take n t)"
  by (auto simp: is_token_def dest: in_set_takeD)

lemma digits_token: "list_all isDigit ds \<Longrightarrow> is_token ds"
proof -
  have "\<not> isDigit SP" "\<not> isDigit LF" by code_simp+
  then show "list_all isDigit ds \<Longrightarrow> is_token ds" by (auto simp: is_token_def list_all_iff)
qed

lemma appendInt_token: "is_token (appendInt v w)"
  using digits_token [of "decn w (nat \<bar>v\<bar>)"] decimal_token by (auto simp: appendInt_def Let_def)

lemma fractionDigits_token: "is_token (fractionDigits n k)"
  by (simp add: fractionDigits_def Let_def is_token_take appendInt_token)

lemma formatTime_props: "is_token (formatTime t) \<and> formatTime t \<noteq> []"
  by (auto simp: formatTime_def appendInt_token split: prod.split)

lemma marshalTimestamp_token: "is_token (marshalTimestamp t k) \<and> marshalTimestamp t k \<noteq> []"
  using formatTime_props [of t] by (auto simp: marshalTimestamp_def Let_def fractionDigits_token)

lemma empty_names [simp]: "\<not> wikiNameWellformed []" "\<not> simplePathname []" "\<not> validArtifactHash []"
  by (auto simp: wikiNameWellformed_def simplePathname_def validArtifactHash_def)

lemma list_all_butlast: "list_all P xs \<Longrightarrow> list_all P (butlast xs)"
  by (auto simp: list_all_iff dest: in_set_butlastD)

lemma groupItems_valid:
  "list_all validItem (groupItems [])"
  "list_all validItem (groupItems ((c, tss) # gs)) \<longleftrightarrow>
     list_all validItem (map (Card c) tss) \<and> list_all validItem (groupItems gs)"
  by (simp_all add: groupItems_def del: validItem.simps)

lemma groups_valid:
  assumes "wfFields d"
  shows "list_all validItem (groupItems (deckGroups d))"
proof -
  note wf = wfFieldsD [OF assms] and h = validArtifactHash_token
  have hs: "list_all is_token ps \<and> list_all (\<lambda>t. t \<noteq> []) (butlast ps)" if "list_all validArtifactHash ps" for ps
    using that h by (auto simp: list_all_iff dest: in_set_butlastD)
  have opt: "list_all validItem (map (Card c) (optGroup b t))" if "c \<noteq> NUL" "c \<noteq> CHR ''W''" "b \<Longrightarrow> is_token t" for c b t
    using that by (simp add: optGroup_def)
  have A: "list_all validItem (map (Card (CHR ''A'')) (groupA d))"
    using wf(1) h by (auto simp: groupA_def wfAttachment_def split: option.split)
  have E: "list_all validItem (map (Card (CHR ''E'')) (groupE d))"
    using wf(5) h marshalTimestamp_token by (auto simp: groupE_def split: option.split)
  have "validItem (Card (CHR ''F'') (fileTokens (nameEncode d) f))" if "wfFile (dB d) f" for f
    using fossil.fileTokens_valid [OF that] canonical.fileTokens_valid [OF that]
    by (cases "dType d = Submanifest") (simp_all add: nameEncode_def)
  then have F: "list_all validItem (map (Card (CHR ''F'')) (map (fileTokens (nameEncode d)) (dF d)))"
    using wf(6) by (simp add: list_all_iff del: validItem.simps)
  have J: "list_all validItem (map (Card (CHR ''J'')) (map ticketTokens (dJ d)))"
    using wf(10) by (auto simp: ticketTokens_def wfTicket_def list_all_iff)
  have M: "list_all validItem (map (Card (CHR ''M'')) (map (\<lambda>m. [m]) (dM d)))"
    using wf(14) h by (auto simp: list_all_iff)
  have P: "list_all validItem (map (Card (CHR ''P'')) (groupP d))"
    using hs [OF wf(17)] by (auto simp: groupP_def)
  have Q: "list_all validItem (map (Card (CHR ''Q'')) (map cherryTokens (dQ d)))"
    using wf(19) h by (auto simp: cherryTokens_def wfCherry_def list_all_iff)
  have S: "list_all validItem (map (Card (CHR ''S'')) (map (\<lambda>sc. [CanonicalEncode (sName sc), sUUID sc]) (dS d)))"
    using wf(21) h by (auto simp: list_all_iff)
  have "is_token (tUUID t) \<and> tUUID t \<noteq> []" if "wfTag t" for t using that h by (auto simp: wfTag_def)
  then have T: "list_all validItem (map (Card (CHR ''T'')) (map tagTokens (dT d)))"
    using wf(23) by (fastforce simp: tagTokens_def wfTag_def list_all_iff TagSingleton_def TagPropagating_def TagCancel_def)
  have U: "list_all validItem (map (Card (CHR ''U'')) (groupU d))"
    by (simp add: groupU_def split: option.split)
  have KR: "dK d \<noteq> [] \<Longrightarrow> is_token (dK d)" "dR d \<noteq> [] \<Longrightarrow> is_token (dR d)"
    using wf(12,20) by (auto simp: lowerHash_def isHexAnyCase_token)
  have O:
    "list_all validItem (map (Card (CHR ''B'')) (optGroup (dB d \<noteq> []) (dB d)))"
    "list_all validItem (map (Card (CHR ''C'')) (optGroup (HasC d) (FossilEncode (dC d))))"
    "list_all validItem (map (Card (CHR ''D'')) (optGroup (dD d \<noteq> 0) (marshalTimestamp (dD d) 3)))"
    "list_all validItem (map (Card (CHR ''G'')) (optGroup (dG d \<noteq> []) (dG d)))"
    "list_all validItem (map (Card (CHR ''H'')) (optGroup (dH d \<noteq> []) (FossilEncode (dH d))))"
    "list_all validItem (map (Card (CHR ''I'')) (optGroup (dI d \<noteq> []) (dI d)))"
    "list_all validItem (map (Card (CHR ''K'')) (optGroup (dK d \<noteq> []) (dK d)))"
    "list_all validItem (map (Card (CHR ''L'')) (optGroup (dL d \<noteq> []) (FossilEncode (dL d))))"
    "list_all validItem (map (Card (CHR ''N'')) (optGroup (hasN d) (FossilEncode (dN d))))"
    "list_all validItem (map (Card (CHR ''R'')) (optGroup (dR d \<noteq> []) (dR d)))"
    by (rule opt; use wf(2,8,9) h KR marshalTimestamp_token in auto)+
  show ?thesis
    unfolding deckGroups_def
    by (simp only: groupItems_valid A E F J M P Q S T U O simp_thms)
qed

lemma deckItems_valid: "wfFields d \<Longrightarrow> list_all validItem (deckItems d)"
  using groups_valid [of d] wfFieldsD(26) [of d] by (auto simp: deckItems_def bodyItems_def split: option.splits)

section \<open>Marshal, then parse\<close>

lemma deckGroups_ok: "groupsOk (deckGroups d)"
proof -
  have l: "list_all isLetter ''ABCDEFGHIJKLMNPQRSTU''" "sorted_wrt (<) ''ABCDEFGHIJKLMNPQRSTU''" by code_simp+
  have n: "\<not> singleOccurrence (CHR ''F'')" "\<not> singleOccurrence (CHR ''J'')" "\<not> singleOccurrence (CHR ''M'')"
    "\<not> singleOccurrence (CHR ''P'')" "\<not> singleOccurrence (CHR ''Q'')" "\<not> singleOccurrence (CHR ''S'')"
    "\<not> singleOccurrence (CHR ''T'')"
    by (simp_all add: singleOccurrence_def)
  have o: "length (optGroup b t) \<le> Suc 0" "length (groupA d) \<le> Suc 0" "length (groupE d) \<le> Suc 0" "length (groupU d) \<le> Suc 0" for b t
    by (auto simp: optGroup_def groupA_def groupE_def groupU_def split: option.split)
  have "map fst (deckGroups d) = ''ABCDEFGHIJKLMNPQRSTU''" by (simp add: deckGroups_def)
  then show ?thesis
    using l by (simp add: groupsOk_def) (simp add: deckGroups_def n o)
qed

lemma Zcard_parse: "parseCard x (CHR ''Z'') [computeZ b] = Inr x"
  using computeZ_lower [of b] isHexDigit_props(3)
  by (auto simp: parseCard_def parseZCard_def list_all_iff)

lemma absScan_deck:
  assumes "wfFields d"
  shows "\<exists>m. absScan (deckItems d @ [Card (CHR ''Z'') [computeZ b]]) emptyDeck NUL (\<lambda>_. False) 0 =
      Inr (d\<lparr>dType := Checkin\<rparr>, m) \<and> hasLetters m (deckLetters d)"
proof -
  let ?z = "Card (CHR ''Z'') [computeZ b]"
  have bounds: "list_all (\<lambda>g. NUL < fst g \<and> fst g \<le> CHR ''U'') (deckGroups d)"
    by (simp add: deckGroups_def)
  have "fresh NUL NUL (\<lambda>_. False)" "hasLetters 0 {}" "NUL \<le> CHR ''U''"
    by (simp_all add: fresh_def hasLetters_def letterMask_def)
  from absScan_groups [OF deckGroups_ok groupsRun_deck [OF assms] this(1) bounds this(3,2), of "bodyItems d @ [?z]"]
  obtain l seen m where f: "fresh (CHR ''U'') l seen" and m: "hasLetters m (groupLetters (deckGroups d))"
    and eq: "absScan (deckItems d @ [?z]) emptyDeck NUL (\<lambda>_. False) 0 =
      absScan (bodyItems d @ [?z]) (d\<lparr>dType := Checkin, dW := None\<rparr>) l seen m"
    by (auto simp: deckItems_def)
  have W: "isLetter (CHR ''W'')" "isLetter (CHR ''Z'')" by (simp_all add: isLetter_def)
  have claimZ: "claim s (CHR ''Z'') = Inr s" for s by (simp add: claim_def singleOccurrence_def)
  have lW: "\<not> CHR ''W'' < l" "\<not> CHR ''Z'' < l" "\<not> seen (CHR ''W'')"
    using f order.trans [of l "CHR ''U''" "CHR ''W''"] order.trans [of l "CHR ''U''" "CHR ''Z''"]
    by (auto simp: fresh_def not_less)
  have claimW: "claim seen (CHR ''W'') = Inr (seen(CHR ''W'' := True))"
    using lW(3) by (simp add: claim_def singleOccurrence_def)
  have L: "deckLetters d = (if dW d \<noteq> None then {CHR ''W''} else {}) \<union> groupLetters (deckGroups d) \<union> {CHR ''Z''}"
    by (auto simp: deckLetters_def groupLetters_def)
  show ?thesis
  proof (cases "dW d")
    case None
    then have "absScan (bodyItems d @ [?z]) (d\<lparr>dType := Checkin, dW := None\<rparr>) l seen m =
        Inr (d\<lparr>dType := Checkin\<rparr>, addLetter m (CHR ''Z''))"
      by (simp add: bodyItems_def Let_def claimZ lW Zcard_parse)
    with eq None L hasLetters_add [OF m W(2)] show ?thesis by auto
  next
    case (Some w)
    then have "absScan (bodyItems d @ [?z]) (d\<lparr>dType := Checkin, dW := None\<rparr>) l seen m =
        Inr (d\<lparr>dType := Checkin\<rparr>, addLetter (addLetter m (CHR ''W'')) (CHR ''Z''))"
      by (simp add: bodyItems_def Let_def claimZ claimW lW Zcard_parse)
    with eq Some L hasLetters_add [OF hasLetters_add [OF m W(1)] W(2)] show ?thesis by auto
  qed
qed

lemma groupItems_sorted:
  "sorted_wrt (<) (map fst gs) \<Longrightarrow> sorted_wrt (\<le>) (map letterOf (groupItems gs))"
proof (induction gs)
  case (Cons g gs)
  obtain c tss where g: "g = (c, tss)" by (cases g)
  have items: "letterOf ` set (groupItems gs) \<subseteq> fst ` set gs" by (force simp: groupItems_def)
  have "sorted_wrt (\<le>) (map letterOf (map (Card c) tss))" by (induction tss) auto
  moreover have "c \<le> x" if "x \<in> letterOf ` set (groupItems gs)" for x
  proof -
    from that items have "x \<in> fst ` set gs" by blast
    with Cons.prems show ?thesis by (auto simp: g intro: less_imp_le)
  qed
  moreover have "groupItems (g # gs) = map (Card c) tss @ groupItems gs" by (simp add: groupItems_def g)
  moreover have "sorted_wrt (\<le>) (map letterOf (groupItems gs))" using Cons by simp
  ultimately show ?case by (auto simp: sorted_wrt_append)
qed (simp add: groupItems_def)

lemma bare_card_P: "Card c [] \<in> set (groupItems (deckGroups d)) \<Longrightarrow> c = CHR ''P''"
  by (auto simp: groupItems_def deckGroups_def groupA_def groupE_def groupU_def optGroup_def fileTokens_def
      ticketTokens_def cherryTokens_def tagTokens_def split: if_splits option.splits)

lemma card_in_groups: "Card c ts \<in> set (groupItems gs) \<longleftrightarrow> (\<exists>tss. (c, tss) \<in> set gs \<and> ts \<in> set tss)"
  by (force simp: groupItems_def)

lemma P_needs_D: "CHR ''P'' \<in> set (allowedCards t) \<Longrightarrow> CHR ''D'' \<in> set (requiredCards t)"
  by (cases t) (simp_all add: allowedCards_def requiredCards_def cardRows_def)

lemma D_letter: "CHR ''D'' \<in> deckLetters d \<longleftrightarrow> dD d \<noteq> 0"
  by (auto simp: deckLetters_def deckGroups_def optGroup_def)

lemma first_item:
  assumes "wfDeck d"
  shows "\<exists>c r. concat (map render (deckItems d @ [Card (CHR ''Z'') [z]])) = c # SP # r \<and> isLetter c"
proof (cases "groupItems (deckGroups d)")
  case Nil
  then show ?thesis by (cases "dW d") (simp_all add: deckItems_def bodyItems_def isLetter_def)
next
  case (Cons it its)
  note sorted = groupItems_sorted [of "deckGroups d"] deckGroups_ok [of d, unfolded groupsOk_def]
  have "it \<in> set (groupItems (deckGroups d))" by (simp add: Cons)
  then obtain c ts tss where it: "it = Card c ts" and g: "(c, tss) \<in> set (deckGroups d)" "ts \<in> set tss"
    by (auto simp: groupItems_def)
  then have letter: "isLetter c" using sorted(2) by (auto simp: list_all_iff)
  have "ts \<noteq> []"
  proof
    assume "ts = []"
    with it Cons bare_card_P [of c d] have c: "c = CHR ''P''" by simp
    with g have "CHR ''P'' \<in> deckLetters d" by (auto simp: deckLetters_def)
    with assms have "CHR ''D'' \<in> deckLetters d" using P_needs_D by (auto simp: wfDeck_def)
    then have "dD d \<noteq> 0" by (simp add: D_letter)
    then have "Card (CHR ''D'') [marshalTimestamp (dD d) 3] \<in> set (it # its)"
      unfolding Cons [symmetric] card_in_groups by (auto simp: deckGroups_def optGroup_def)
    then have "letterOf (Card (CHR ''D'') [marshalTimestamp (dD d) 3]) \<in> set (map letterOf (it # its))"
      by (metis image_eqI image_set)
    moreover have "\<forall>y\<in>set (map letterOf (it # its)). letterOf it \<le> y"
      using sorted(1) [OF sorted(2) [THEN conjunct1]] by (simp add: Cons)
    ultimately have "letterOf it \<le> letterOf (Card (CHR ''D'') [marshalTimestamp (dD d) 3])" by blast
    then show False by (simp add: c it)
  qed
  then show ?thesis using letter by (simp add: deckItems_def Cons it)
qed

lemma matchPrefix_letter: "isLetter c \<Longrightarrow> matchPrefix (c # r) clearsignHeaders = None"
  by (auto simp: clearsignHeaders_def isLetter_def)

lemma Marshal_Parse_aux:
  assumes "wfDeck d"
  shows "\<exists>b. Marshal d = Inr b \<and> Parse (Some b) = Inr d"
proof -
  have wf: "wfFields d" using assms by (simp add: wfDeck_def)
  define body where "body = marshalCards d"
  let ?z = "Card (CHR ''Z'') [computeZ body]"
  let ?b = "body @ zCard body"
  have items: "?b = concat (map render (deckItems d @ [?z]))"
    by (simp add: body_def marshalCards_render [OF wf] zCard_def)
  have M: "Marshal d = Inr ?b"
    using wfFieldsD(23) [OF wf] by (auto simp: Marshal_def body_def zCard_def Let_def list_all_iff wfTag_def
        find_None_iff split: option.split)
  obtain c r where b: "?b = c # SP # r" and c: "isLetter c"
    using first_item [OF assms, of "computeZ body"] items by metis
  have strip: "StripClearsign ?b = Inr ?b"
    using stripped_plain matchPrefix_letter [OF c] by (metis StripClearsign_eq b)
  have last: "last ?b = LF" "?b \<noteq> []" "\<not> length ?b < 10" by (simp_all add: zCard_def)
  have frame: "frameArtifact ?b = Inr ?b"
  proof -
    have "\<not> (?b ! 0 < CHR ''A'' \<or> CHR ''Z'' < ?b ! 0 \<or> ?b ! 1 \<noteq> SP)" using c by (auto simp: b isLetter_def)
    then show ?thesis using last by (simp add: frameArtifact_def strip verifyZ_zCard)
  qed
  obtain m where scan: "absScan (deckItems d @ [?z]) emptyDeck NUL (\<lambda>_. False) 0 = Inr (d\<lparr>dType := Checkin\<rparr>, m)"
    and m: "hasLetters m (deckLetters d)" using absScan_deck [OF wf] by blast
  have "scanCards ?b emptyDeck = absScan (deckItems d @ [?z]) emptyDeck NUL (\<lambda>_. False) 0"
    unfolding scanCards_def
  proof (rule scanLoop_render)
    have "is_token (computeZ body)" using computeZ_hex by (rule isHexAnyCase_token)
    then show "list_all validItem (deckItems d @ [?z])" using deckItems_valid [OF wf] by simp
    show "stands \<lparr>sbuf = ?b, spos = 0, satEol = True\<rparr> (concat (map render (deckItems d @ [?z]))) True"
      by (simp only: stands_def manifestScanner.select_convs drop_0 items) simp
  qed simp_all
  then have sc: "scanCards ?b emptyDeck = Inr (d\<lparr>dType := Checkin\<rparr>, m)" using scan by simp
  obtain ls where ls: "list_all isLetter ls" "set ls = deckLetters d" "letterMask ls = m"
    using m by (auto simp: hasLetters_def)
  have "m AND push_bit 3 1 = 0 \<longleftrightarrow> \<not> bit m 3" by (simp add: bit_iff_and_push_bit_not_eq_0)
  also have "\<dots> \<longleftrightarrow> dD d = 0"
    using bit_letterMask_letter [OF ls(1), of "CHR ''D''"] D_letter [of d] ls
    by (simp add: isLetter_def byteval_def)
  finally have D: "m AND push_bit 3 1 = 0 \<longleftrightarrow> dD d = 0" .
  have ty: "finalType (d\<lparr>dType := Checkin\<rparr>) m = dType d"
    using assms D by (simp add: finalType_def wfDeck_def inferType_def)
  have legal: "deckLetters d \<subseteq> set (allowedCards (dType d))" "set (requiredCards (dType d)) \<subseteq> deckLetters d"
      "checkSemantics d = Inr ()"
    using assms unfolding wfDeck_def by blast+
  have "checkType d m = Inr ()"
    using checkType_letters [OF ls(1), of d] ls(2,3) legal by simp
  then have "Parse (Some ?b) = Inr d"
    by (simp add: Parse_def frame sc ty)
  with M show ?thesis by blast
qed

text \<open>What is read back: the writer gives a renamed file without a permission the permission \<^verbatim>\<open>w\<close>, so that the old
  name is the fourth field.\<close>

definition fileReadBack :: "FileCard \<Rightarrow> FileCard" where
  "fileReadBack f = (if fPerm f = [] \<and> fUUID f \<noteq> [] \<and> fOldName f \<noteq> [] then f\<lparr>fPerm := ''w''\<rparr> else f)"

definition readBack :: "Deck \<Rightarrow> Deck" where
  "readBack d = d\<lparr>dF := map fileReadBack (dF d)\<rparr>"

lemma fileReadBack_name [simp]: "fName (fileReadBack f) = fName f"
  by (simp add: fileReadBack_def)

lemma writeFileCard_readBack: "writeFileCard (fileReadBack f) enc = writeFileCard f enc"
  by (simp add: writeFileCard_def fileReadBack_def)

lemma sort_key_map: "(\<And>x. k (g x) = k x) \<Longrightarrow> sort_key k (map g xs) = map g (sort_key k xs)"
proof (induction xs)
  case (Cons x xs)
  have "insort_key k (g x) (map g ys) = map g (insort_key k x ys)" for ys
    using Cons.prems by (induction ys) auto
  then show ?case using Cons by simp
qed simp

lemma Marshal_readBack: "Marshal (readBack d) = Marshal d"
proof -
  have F: "marshalCardF (readBack d) = marshalCardF d"
    by (simp add: marshalCardF_def readBack_def sort_key_map comp_def writeFileCard_readBack Let_def)
  have "marshalCards (readBack d) = marshalCards d"
    unfolding marshalCards_def F
    unfolding marshalCardsABCDE_def marshalCardsGHIJKL_def marshalCardsMNPQR_def marshalCardS_def marshalCardsTUW_def readBack_def
    by simp
  moreover have "dT (readBack d) = dT d" by (simp add: readBack_def)
  ultimately show ?thesis by (simp only: Marshal_def)
qed

lemma readBack_wf: "wfDeck d \<Longrightarrow> readBack d = d"
proof -
  assume "wfDeck d"
  then have "list_all (wfFile (dB d)) (dF d)"
    unfolding wfDeck_def wfFields_def by (elim conjE)
  then have "\<forall>f \<in> set (dF d). fileReadBack f = f"
    by (auto simp: list_all_iff wfFile_def fileReadBack_def)
  then have "map fileReadBack (dF d) = dF d" by (simp add: map_idI)
  then show ?thesis by (simp add: readBack_def)
qed

text \<open>
  C2. The codec round trip: every well-formed deck marshals, and parsing the bytes gives the deck back, every
  field of every card included.  A renamed file may lack its permission: it is read back with the permission \<^verbatim>\<open>w\<close>
  and the rename intact, the rest of the deck unchanged.
\<close>

theorem Marshal_Parse_roundtrip:
  assumes "wfDeck (readBack d)"
  shows "\<exists>b. Marshal d = Inr b \<and> Parse (Some b) = Inr (readBack d) \<and> (wfDeck d \<longrightarrow> Parse (Some b) = Inr d)"
  using Marshal_Parse_aux [OF assms] readBack_wf [of d] by (auto simp: Marshal_readBack)

text \<open>A deck that uses many cards, for the witnesses below.\<close>

definition sampleHash :: bytes where
  "sampleHash = ''da39a3ee5e6b4b0d3255bfef95601890afd80709''"

definition sampleDeck :: Deck where
  "sampleDeck = emptyDeck\<lparr>dType := Checkin, dC := ''initial  commit'', cPresent := True,
     dD := goDate 2024 2 29 13 4 5 120000 0,
     dF := [\<lparr>fName = ''a b.txt'', fUUID = sampleHash, fPerm = ''x'', fOldName = ''old''\<rparr>,
            \<lparr>fName = ''src/m.c'', fUUID = sampleHash, fPerm = [], fOldName = []\<rparr>],
     dP := [sampleHash], pPresent := True,
     dT := [\<lparr>tType = TagPropagating, tName = ''branch'', tUUID = ''*'', tValue = ''my branch'', tValuePresent = True\<rparr>,
            \<lparr>tType = TagPropagating, tName = ''sym-my branch'', tUUID = ''*'', tValue = [], tValuePresent = False\<rparr>],
     dU := Some ''joe user''\<rparr>"

lemma deckLetters_list:
  "deckLetters d = set (map fst (filter (\<lambda>g. snd g \<noteq> []) (deckGroups d))) \<union>
     (if dW d \<noteq> None then {CHR ''W''} else {}) \<union> {CHR ''Z''}"
  by (force simp: deckLetters_def)

lemma sample_names:
  "simplePathname ''a b.txt''" "simplePathname ''old''" "simplePathname ''src/m.c''"
  "\<not> IsReservedName ''a b.txt''" "\<not> IsReservedName ''src/m.c''" "validArtifactHash sampleHash" "sampleHash \<noteq> []"
  "\<not> isHexToken ''branch''" "\<not> isHexToken ''sym-my branch''" "writableTime (goDate 2024 2 29 13 4 5 120000 0)"
  "goDate 2024 2 29 13 4 5 120000 0 \<noteq> 0" "''a b.txt'' < ''src/m.c''"
  by code_simp+

lemma present_letters_cong:
  "map (\<lambda>g. (fst g, snd g = [])) xs = map (\<lambda>g. (fst g, snd g = [])) ys \<Longrightarrow>
     map fst (filter (\<lambda>g. snd g \<noteq> []) xs) = map fst (filter (\<lambda>g. snd g \<noteq> []) ys)"
proof (induction xs arbitrary: ys)
  case (Cons x xs)
  then show ?case by (cases ys) auto
qed simp

lemma deckGroups_files:
  "fs \<noteq> [] \<Longrightarrow> dF d \<noteq> [] \<Longrightarrow>
     map fst (filter (\<lambda>g. snd g \<noteq> []) (deckGroups (d\<lparr>dF := fs\<rparr>))) = map fst (filter (\<lambda>g. snd g \<noteq> []) (deckGroups d))"
  by (rule present_letters_cong)
    (simp add: deckGroups_def groupA_def groupE_def groupP_def groupU_def HasC_def hasN_def)

text \<open>The sample with any permission of its renamed file.\<close>

definition permDeck :: "bytes \<Rightarrow> Deck" where
  "permDeck p = sampleDeck\<lparr>dF := [\<lparr>fName = ''a b.txt'', fUUID = sampleHash, fPerm = p, fOldName = ''old''\<rparr>,
     \<lparr>fName = ''src/m.c'', fUUID = sampleHash, fPerm = [], fOldName = []\<rparr>]\<rparr>"

lemma permDeck_wf:
  assumes "is_token p" "p \<noteq> []"
  shows "wfDeck (permDeck p)"
proof -
  have F: "wfFields (permDeck p)"
    unfolding wfFields_def permDeck_def sampleDeck_def
    by (simp add: emptyDeck_def sample_names assms wfFile_def wfTag_def tagLess_def tagOrderKey_def runeString_def byteval_def
        TagSingleton_def TagPropagating_def TagCancel_def)
  have "map fst (filter (\<lambda>g. snd g \<noteq> []) (deckGroups sampleDeck)) = ''CDFPTU''" "dW (permDeck p) = None"
    by (code_simp, simp add: permDeck_def sampleDeck_def emptyDeck_def)
  moreover have "map fst (filter (\<lambda>g. snd g \<noteq> []) (deckGroups (permDeck p))) =
      map fst (filter (\<lambda>g. snd g \<noteq> []) (deckGroups sampleDeck))"
    unfolding permDeck_def by (rule deckGroups_files) (simp_all add: sampleDeck_def)
  ultimately have L: "deckLetters (permDeck p) = set ''CDFPTU'' \<union> {CHR ''Z''}"
    by (simp only: deckLetters_list not_True_eq_False simp_thms if_False Un_empty_right)
  have t: "inferType (permDeck p) = Checkin" "dType (permDeck p) = Checkin" "dD (permDeck p) \<noteq> 0"
    by (simp_all add: inferType_def permDeck_def sampleDeck_def emptyDeck_def sample_names)
  have "checkSemantics (permDeck p) = Inr ()"
    by (simp add: checkSemantics_def permDeck_def sampleDeck_def emptyDeck_def checkTreeManifest_def)
  with F t show ?thesis
    by (simp add: wfDeck_def L allowedCards_def requiredCards_def cardRows_def)
qed

lemma sample_wfDeck: "wfDeck sampleDeck"
proof -
  have "sampleDeck = permDeck ''x''" by (simp add: permDeck_def sampleDeck_def)
  then show ?thesis using permDeck_wf [of "''x''"] by simp
qed

lemma Marshal_Parse_roundtrip_witness:
  "(\<exists>b. Marshal sampleDeck = Inr b \<and> Parse (Some b) = Inr sampleDeck) \<and>
   (\<exists>b. Marshal (permDeck []) = Inr b \<and> Parse (Some b) = Inr (permDeck ''w''))"
proof -
  have r: "readBack (permDeck []) = permDeck ''w''"
    by (simp add: permDeck_def readBack_def fileReadBack_def sample_names)
  have w: "wfDeck (permDeck ''w'')" by (rule permDeck_wf) simp_all
  show ?thesis
    using Marshal_Parse_roundtrip [of "permDeck []"] Marshal_Parse_roundtrip [of sampleDeck] sample_wfDeck
      readBack_wf [OF sample_wfDeck] r w by auto
qed

end
