(* ===== verification/Deck_Invariant.thy ===== *)
theory Deck_Invariant
  imports Deck_Roundtrip
begin

text \<open>
  What a successful parse guarantees.  One induction rule for the card loop (\<open>scanLoop_invariant\<close>) carries
  three invariants: the scanner never leaves its buffer, so no slice panics; every field a card parser
  stores is well-formed; and the checksum line is the last card of the content.
\<close>

unbundle bit_operations_syntax

section \<open>The induction rule of the card loop\<close>

lemma scanLoop_invariant:
  assumes "scanLoop s d l seen m = Inr (d', m')" "I s d l m"
    and "\<And>s d l seen m c s1 d1 s2 seen1. I s d l m \<Longrightarrow> nextCard s = (c, s1) \<Longrightarrow> c \<noteq> NUL \<Longrightarrow>
       scanStep s1 c d l seen = Inr (d1, s2, seen1) \<Longrightarrow> I s2 d1 c (addLetter m c)"
  shows "\<exists>s l s1. I s d' l m' \<and> nextCard s = (NUL, s1) \<and> length (sbuf s1) \<le> spos s1"
  using assms(1,2)
proof (induction s d l seen m rule: scanLoop.induct)
  case (1 s d l seen m)
  obtain c s1 where n: "nextCard s = (c, s1)" by (cases "nextCard s")
  show ?case
  proof (cases "c = NUL")
    case True
    with n 1(2,3) show ?thesis by (subst (asm) scanLoop.simps) (auto split: if_splits)
  next
    case False
    with n 1(2) obtain d1 s2 seen1 where st: "scanStep s1 c d l seen = Inr (d1, s2, seen1)"
      and r: "scanLoop s2 d1 c seen1 (addLetter m c) = Inr (d', m')"
      by (subst (asm) scanLoop.simps) (auto simp: bindE_eq_Inr_iff)
    from assms(3) [OF 1(3) n False st] 1(1) [OF n [symmetric] False st refl refl r]
    show ?thesis by blast
  qed
qed

lemma scanStep_cases:
  assumes "scanStep s c d l seen = Inr (d', s', seen')"
  obtains (W) "c = CHR ''W''" "parseW s d = Inr (d', s')"
  | (Card) tokens where "c \<noteq> CHR ''W''" "cardTokens s = Inr (tokens, s')" "parseCard d c tokens = Inr d'"
  using assms by (auto simp: scanStep_def bindE_eq_Inr_iff split: if_splits)

lemma scanStep_order:
  assumes "scanStep s c d l seen = Inr (d', s', seen')"
  shows "l \<le> c \<or> c = CHR ''N'' \<and> l = CHR ''P''"
  using assms by (auto simp: scanStep_def bindE_eq_Inr_iff isLegacyTechnoteNAfterP_def not_less split: if_splits)

section \<open>Tokens\<close>

lemma tokenEnd_plain: "is_token (bslice buf pos (tokenEnd buf pos))"
proof (induction buf pos rule: tokenEnd.induct)
  case (1 buf pos)
  show ?case
  proof (cases "pos < length buf \<and> buf ! pos \<noteq> SP \<and> buf ! pos \<noteq> LF")
    case True
    then have te: "tokenEnd buf pos = tokenEnd buf (pos + 1)" by (subst tokenEnd.simps) simp
    have "pos + 1 \<le> tokenEnd buf (pos + 1)" by (rule tokenEnd_ge)
    then obtain k where k: "tokenEnd buf (pos + 1) = Suc (pos + k)" by (auto simp: le_iff_add)
    have "bslice buf pos (Suc (pos + k)) = buf ! pos # bslice buf (pos + 1) (Suc (pos + k))"
      using True by (simp add: bslice_def Cons_nth_drop_Suc [symmetric])
    with True 1 te k show ?thesis by simp
  next
    case False
    then have "tokenEnd buf pos = pos" by (subst tokenEnd.simps) auto
    then show ?thesis by (simp add: bslice_def)
  qed
qed

lemma nextToken_token: "nextToken s = Inr (Some t, s') \<Longrightarrow> is_token t"
  using tokenEnd_plain by (auto simp: nextToken_def Let_def split: if_splits)

lemma tokensLoop_tokens: "tokensLoop s ts = Inr (ts', s') \<Longrightarrow> list_all is_token ts \<Longrightarrow> list_all is_token ts'"
proof (induction s ts rule: tokensLoop.induct)
  case (1 s ts)
  from "1.prems"(1) obtain t s1 where t: "nextToken s = Inr (t, s1)"
      and r: "(case t of None \<Rightarrow> Inr (ts, s1) | Some t \<Rightarrow> tokensLoop s1 (ts @ [t])) = Inr (ts', s')"
    by (subst (asm) tokensLoop.simps) (auto simp: bindE_eq_Inr_iff)
  show ?case
  proof (cases t)
    case None
    with r "1.prems" show ?thesis by simp
  next
    case (Some u)
    with t have "is_token u" using nextToken_token by simp
    with "1.IH" [OF t refl Some] r Some "1.prems"(2) show ?thesis by simp
  qed
qed

definition goodTokens :: "bytes list \<Rightarrow> bool" where
  "goodTokens ts \<longleftrightarrow> list_all is_token ts \<and> list_all (\<lambda>t. t \<noteq> []) (butlast ts)"

lemma cardTokens_good: "cardTokens s = Inr (ts, s') \<Longrightarrow> goodTokens ts"
  using tokensLoop_tokens [of s "[]" ts s']
  by (auto simp: cardTokens_def bindE_eq_Inr_iff goodTokens_def interior_nonempty split: if_splits)

lemma goodTokens_nth:
  assumes "goodTokens ts"
  shows "i < length ts \<Longrightarrow> is_token (ts ! i)" "Suc i < length ts \<Longrightarrow> ts ! i \<noteq> []"
proof -
  show "i < length ts \<Longrightarrow> is_token (ts ! i)" using assms by (simp add: goodTokens_def list_all_length)
  assume "Suc i < length ts"
  with assms show "ts ! i \<noteq> []"
    by (auto simp: goodTokens_def list_all_length nth_butlast dest!: spec [of _ i])
qed

section \<open>No panic\<close>

definition noPanic :: "deck_error + 'a \<Rightarrow> bool" where
  "noPanic r \<longleftrightarrow> (\<forall>p. r \<noteq> Inl (Panic p))"

lemma noPanic_simps [simp]: "noPanic (Inr x)" "noPanic (Inl (Errorf f a))"
  by (simp_all add: noPanic_def)

lemma noPanic_bindE: "noPanic m \<Longrightarrow> (\<And>x. m = Inr x \<Longrightarrow> noPanic (f x)) \<Longrightarrow> noPanic (bindE m f)"
  by (cases m) (auto simp: noPanic_def)

lemma noPanic_if [simp]: "noPanic (if b then r else t) \<longleftrightarrow> (if b then noPanic r else noPanic t)"
  by simp

text \<open>The buffer ends in LF, and inside a card there is a byte left to read.\<close>

definition inBuffer :: "manifestScanner \<Rightarrow> bool" where
  "inBuffer s \<longleftrightarrow> sbuf s \<noteq> [] \<and> last (sbuf s) = LF \<and> (satEol s \<or> spos s < length (sbuf s))"

lemma not_last_SP: "xs \<noteq> [] \<Longrightarrow> last xs = LF \<Longrightarrow> i < length xs \<Longrightarrow> xs ! i = SP \<Longrightarrow> Suc i < length xs"
proof (rule ccontr)
  assume a: "xs \<noteq> []" "last xs = LF" "i < length xs" "xs ! i = SP" "\<not> Suc i < length xs"
  then have "i = length xs - 1" by simp
  with a show False by (simp add: last_conv_nth)
qed

lemma nextCard_inBuffer: "inBuffer s \<Longrightarrow> nextCard s = (c, s') \<Longrightarrow> inBuffer s'"
  using not_last_SP [of "sbuf s" "spos s + 1"]
  by (auto simp: nextCard_def inBuffer_def Let_def split: if_splits)

lemma tokenEnd_sep:
  assumes "buf \<noteq> []" "last buf = LF" "pos < length buf"
  shows "tokenEnd buf pos < length buf \<and> (buf ! tokenEnd buf pos = SP \<or> buf ! tokenEnd buf pos = LF)"
  using assms
proof (induction buf pos rule: tokenEnd.induct)
  case (1 buf pos)
  show ?case
  proof (cases "buf ! pos \<noteq> SP \<and> buf ! pos \<noteq> LF")
    case True
    with "1.prems" have te: "tokenEnd buf pos = tokenEnd buf (pos + 1)" by (subst tokenEnd.simps) simp
    have "pos \<noteq> length buf - 1" using True "1.prems" by (auto simp: last_conv_nth)
    then have "pos + 1 < length buf" using "1.prems"(3) by simp
    with 1 True te show ?thesis by simp
  next
    case False
    with "1.prems" have "tokenEnd buf pos = pos" by (subst tokenEnd.simps) auto
    with False "1.prems" show ?thesis by auto
  qed
qed

lemma nextToken_inBuffer:
  assumes "inBuffer s"
  shows "noPanic (nextToken s)" "nextToken s = Inr (t, s') \<Longrightarrow> inBuffer s' \<and> (t = None \<longleftrightarrow> satEol s)"
proof -
  show "noPanic (nextToken s)" using assms by (auto simp: nextToken_def inBuffer_def Let_def)
  assume n: "nextToken s = Inr (t, s')"
  show "inBuffer s' \<and> (t = None \<longleftrightarrow> satEol s)"
  proof (cases "satEol s")
    case False
    with assms have b: "sbuf s \<noteq> []" "last (sbuf s) = LF" "spos s < length (sbuf s)" by (auto simp: inBuffer_def)
    from tokenEnd_sep [OF this] not_last_SP [OF b(1,2), of "tokenEnd (sbuf s) (spos s)"] n False b
    show ?thesis by (auto simp: nextToken_def inBuffer_def Let_def)
  qed (use n assms in \<open>auto simp: nextToken_def\<close>)
qed

lemma tokensLoop_inBuffer:
  "inBuffer s \<Longrightarrow> noPanic (tokensLoop s ts) \<and> (\<forall>ts' s'. tokensLoop s ts = Inr (ts', s') \<longrightarrow> inBuffer s' \<and> satEol s')"
proof (induction s ts rule: tokensLoop.induct)
  case (1 s ts)
  note nt = nextToken_inBuffer [OF "1.prems"]
  show ?case
  proof (cases "nextToken s")
    case (Inl e)
    with nt(1) show ?thesis by (subst tokensLoop.simps, subst (2) tokensLoop.simps) (auto simp: noPanic_def)
  next
    case (Inr r)
    obtain t s1 where r: "r = (t, s1)" by (cases r)
    note nt2 = nt(2) [of t s1] and step = Inr [unfolded r]
    show ?thesis
    proof (cases t)
      case None
      with step have "tokensLoop s ts = Inr (ts, s1)" by (subst tokensLoop.simps) simp
      with nt2 step None show ?thesis by (auto simp: nextToken_def Let_def split: if_splits)
    next
      case (Some u)
      with step have "tokensLoop s ts = tokensLoop s1 (ts @ [u])" by (subst tokensLoop.simps) simp
      with "1.IH" [OF step refl Some] nt2 step show ?thesis by auto
    qed
  qed
qed

lemma cardTokens_inBuffer:
  assumes "inBuffer s"
  shows "noPanic (cardTokens s)" "cardTokens s = Inr (ts, s') \<Longrightarrow> inBuffer s' \<and> satEol s'"
proof -
  show "noPanic (cardTokens s)"
    using tokensLoop_inBuffer [OF assms, of "[]"] unfolding cardTokens_def by (intro noPanic_bindE) auto
  show "cardTokens s = Inr (ts, s') \<Longrightarrow> inBuffer s' \<and> satEol s'"
    using tokensLoop_inBuffer [OF assms, of "[]"] by (auto simp: cardTokens_def bindE_eq_Inr_iff split: if_splits)
qed

lemma parseW_inBuffer:
  assumes "inBuffer s"
  shows "noPanic (parseW s d)" "parseW s d = Inr (d', s') \<Longrightarrow> inBuffer s' \<and> satEol s'"
proof -
  show "noPanic (parseW s d)"
  proof (cases "nextToken s")
    case (Inl e)
    with nextToken_inBuffer(1) [OF assms] show ?thesis by (simp add: parseW_def noPanic_def)
  next
    case (Inr r)
    obtain t s1 where r: "r = (t, s1)" by (cases r)
    show ?thesis
    proof (cases "t = None \<or> \<not> satEol s1 \<or> wSize 0 (the t) = None")
      case True
      then show ?thesis by (cases t) (auto simp: parseW_def Inr r split: option.split)
    next
      case False
      then obtain u n where "t = Some u" "satEol s1" "wSize 0 u = Some n" by auto
      then show ?thesis by (auto simp: parseW_def Inr r Let_def)
    qed
  qed
  show "parseW s d = Inr (d', s') \<Longrightarrow> inBuffer s' \<and> satEol s'"
    using nextToken_inBuffer(2) [OF assms] by (fastforce dest!: parseW_D simp: inBuffer_def)
qed

lemma scanStep_inBuffer:
  assumes "inBuffer s" "scanStep s c d l seen = Inr (d', s', seen')"
  shows "inBuffer s' \<and> satEol s'"
  using assms(2)
proof (cases rule: scanStep_cases)
  case W
  with parseW_inBuffer(2) [OF assms(1)] show ?thesis by blast
next
  case (Card tokens)
  with cardTokens_inBuffer(2) [OF assms(1)] show ?thesis by blast
qed

lemma noPanic_option: "noPanic a \<Longrightarrow> (\<And>x. noPanic (f x)) \<Longrightarrow> noPanic (case v of None \<Rightarrow> a | Some x \<Rightarrow> f x)"
  by (cases v) auto

lemma noPanic_pair: "(\<And>x y. noPanic (f x y)) \<Longrightarrow> noPanic (case v of (x, y) \<Rightarrow> f x y)"
  by (cases v) auto

lemma parseAfterDay_noPanic: "noPanic (parseAfterDay s y m d c)"
  unfolding parseAfterDay_def badTimestamp_def by (auto intro!: noPanic_option noPanic_pair)

lemma parseDate_noPanic: "noPanic (parseDate s y c)"
  unfolding parseDate_def badTimestamp_def
  by (auto simp: parseAfterDay_noPanic intro!: noPanic_option noPanic_pair)

lemma parseJulian_noPanic: "parseJulianTimestamp s = Some r \<Longrightarrow> noPanic r"
  by (auto simp: parseJulianTimestamp_def Let_def split: if_split_asm intro!: noPanic_option)

lemma parseTimestamp_noPanic: "noPanic (parseTimestamp s)"
proof -
  have "parseCalendarTimestamp s = Some r \<Longrightarrow> noPanic r" for r
    by (auto simp: parseCalendarTimestamp_def Let_def parseDate_noPanic split: option.split_asm if_split_asm)
  with parseJulian_noPanic show ?thesis
    by (auto simp: parseTimestamp_def split: option.split)
qed

lemma ascending_noPanic [simp]: "noPanic (requireAscending c p q)" "noPanic (requireTagAscending t u)"
  by (simp_all add: requireAscending_def requireTagAscending_def Let_def)

lemma parseCard_noPanic: "noPanic (parseCard d c tokens)"
proof -
  have "noPanic (setStringCard tokens w b)" "noPanic (setHashCard tokens w b)" "noPanic (setChecksumCard tokens w)" for w b
    by (auto simp: setStringCard_def setHashCard_def setChecksumCard_def Let_def split: list.split)
  moreover have "noPanic (parseACard d tokens)" by (simp add: parseACard_def Let_def)
  moreover have "noPanic (parseDCard d tokens)"
    by (auto simp: parseDCard_def parseTimestamp_noPanic intro!: noPanic_bindE split: list.split)
  moreover have "noPanic (parseECard d tokens)"
    by (auto simp: parseECard_def parseTimestamp_noPanic intro!: noPanic_bindE split: list.split)
  moreover have "noPanic (parseFCard d tokens)" by (auto simp: parseFCard_def Let_def intro!: noPanic_bindE)
  moreover have "noPanic (parseSCard d tokens)"
    by (auto simp: parseSCard_def Let_def intro!: noPanic_bindE split: list.split)
  moreover have "noPanic (parseLCard d tokens)" by (auto simp: parseLCard_def Let_def split: list.split)
  moreover have "noPanic (parseMCard d tokens)" by (auto simp: parseMCard_def intro!: noPanic_bindE split: list.split)
  moreover have "noPanic (parseJCard d tokens)" by (auto simp: parseJCard_def Let_def intro!: noPanic_bindE)
  moreover have "noPanic (parsePCard d tokens)" by (auto simp: parsePCard_def split: option.split)
  moreover have "noPanic (parseQCard d tokens)" by (simp add: parseQCard_def Let_def)
  moreover have "noPanic (parseTCard d tokens)" by (auto simp: parseTCard_def Let_def intro!: noPanic_bindE)
  moreover have "noPanic (parseUCard d tokens)" by (simp add: parseUCard_def Let_def)
  moreover have "noPanic (parseZCard tokens)" by (auto simp: parseZCard_def split: list.split)
  ultimately show ?thesis
    unfolding parseCard_def by (simp add: noPanic_bindE)
qed

lemma scanStep_noPanic:
  assumes "inBuffer s"
  shows "noPanic (scanStep s c d l seen)"
proof -
  have "noPanic (claim seen c)" by (simp add: claim_def)
  then show ?thesis
    using parseW_inBuffer(1) [OF assms] cardTokens_inBuffer(1) [OF assms] parseCard_noPanic
    by (auto simp: scanStep_def intro!: noPanic_bindE)
qed

lemma scanLoop_noPanic: "inBuffer s \<Longrightarrow> noPanic (scanLoop s d l seen m)"
proof (induction s d l seen m rule: scanLoop.induct)
  case (1 s d l seen m)
  obtain c s1 where n: "nextCard s = (c, s1)" by (cases "nextCard s")
  note b = nextCard_inBuffer [OF "1.prems" n]
  show ?case
  proof (cases "c = NUL")
    case True
    with n show ?thesis by (subst scanLoop.simps) simp
  next
    case False
    have "noPanic (case r of (d', s2, seen') \<Rightarrow> scanLoop s2 d' c seen' (addLetter m c))"
      if r: "scanStep s1 c d l seen = Inr r" for r
    proof -
      obtain d1 s2 seen1 where rr: "r = (d1, s2, seen1)" by (cases r)
      with "1.IH" [OF n [symmetric] False r] scanStep_inBuffer [OF b] r show ?thesis by auto
    qed
    then have "noPanic (bindE (scanStep s1 c d l seen) (\<lambda>(d', s2, seen'). scanLoop s2 d' c seen' (addLetter m c)))"
      by (intro noPanic_bindE scanStep_noPanic [OF b]) simp
    with n False show ?thesis by (subst scanLoop.simps) simp
  qed
qed

lemma frameArtifact_ok:
  assumes "frameArtifact data = Inr content"
  shows "content = stripped data" "content \<noteq> []" "last content = LF" "verifyZ content = Inr ()"
    "isLetter (content ! 0)" "content ! 1 = SP" "10 \<le> length content"
  using assms stripped_last [of data]
  by (auto simp: frameArtifact_def StripClearsign_eq isLetter_def bindE_eq_Inr_iff not_less split: if_splits)

text \<open>
  C8. Parsing arbitrary bytes never panics: no slice or index of the scanner leaves the buffer, and every
  outcome is a deck or a reported error.
\<close>

theorem Parse_no_panic: "Parse (Some data) \<noteq> Inl (Panic p)"
proof -
  have "noPanic (verifyZ x)" for x by (simp add: verifyZ_def Let_def)
  then have f: "noPanic (frameArtifact data)"
    by (auto simp: frameArtifact_def StripClearsign_eq intro!: noPanic_bindE)
  have "noPanic (scanCards content emptyDeck)" if "frameArtifact data = Inr content" for content
    using frameArtifact_ok [OF that] by (auto simp: scanCards_def inBuffer_def intro!: scanLoop_noPanic)
  moreover have "noPanic (checkType d m)" for d m
    by (auto simp: checkType_def cardTables_letters(1) checkSemantics_def checkTreeManifest_def checkSubmanifest_def
        Let_def split: ArtifactType.split)
  ultimately have "noPanic (Parse (Some data))"
    using f by (auto simp: Parse_def Let_def intro!: noPanic_bindE)
  then show ?thesis by (simp add: noPanic_def)
qed

end
