(* ===== verification/Deck_Fields.thy ===== *)
theory Deck_Fields
  imports Deck_Invariant
begin

text \<open>
  The fields of a parsed deck: every card parser stores a well-formed value and appends in order, so the
  deck a scan returns satisfies \<open>fieldsInv\<close>, and the card letters it saw agree with the fields it set
  (\<open>lettersInv\<close>).  Together with the round trip this gives the rewriting theorem: what was parsed can be
  marshalled and parsed again, with the same deck.
\<close>

unbundle bit_operations_syntax

section \<open>The last path component\<close>

lemma fileTail_Cons:
  "fileTail (c # n) = (if SLASH \<in> set n \<or> c = SLASH then fileTail n else c # n)"
proof (cases "SLASH \<in> set n")
  case True
  then show ?thesis by (simp add: fileTail_def takeWhile_append1)
next
  case False
  then have "takeWhile (\<lambda>c. c \<noteq> SLASH) (rev n @ ys) = rev n @ takeWhile (\<lambda>c. c \<noteq> SLASH) ys" for ys
    by (subst takeWhile_append2) auto
  moreover have "rev (takeWhile (\<lambda>c. c \<noteq> SLASH) (rev n)) = n"
    using fileTail_no_slash [OF False] by (simp only: fileTail_def)
  ultimately show ?thesis using False by (simp add: fileTail_def)
qed

lemma pathElements_plain: "SLASH \<notin> set n \<Longrightarrow> pathElements n = [n]"
  by (induction n) auto

lemma tl_pathElements_slash: "SLASH \<in> set n \<Longrightarrow> List.tl (pathElements n) \<noteq> []"
proof (induction n)
  case (Cons c n)
  then show ?case by (cases "c = SLASH") auto
qed simp

lemma fileTail_last: "fileTail n = last (pathElements n)"
proof (induction n)
  case (Cons c n)
  show ?case
  proof (cases "c = SLASH")
    case True
    with Cons show ?thesis by (simp add: fileTail_Cons)
  next
    case False
    show ?thesis
    proof (cases "SLASH \<in> set n")
      case True
      with tl_pathElements_slash [OF True] have "last (pathElements (c # n)) = last (pathElements n)"
        using False by (cases "pathElements n") auto
      with True Cons show ?thesis by (simp add: fileTail_Cons)
    next
      case F: False
      with False pathElements_plain [of "c # n"] show ?thesis by (simp add: fileTail_Cons)
    qed
  qed
qed (simp add: fileTail_def)

lemma fileTail_noslash: "SLASH \<notin> set (fileTail n)"
  by (auto simp: fileTail_def dest: set_takeWhileD)

lemma fileTail_simple: "simplePathname n \<Longrightarrow> simplePathname (fileTail n)"
  by (simp add: simplePathname_iff_elements pathElements_plain [OF fileTail_noslash])
    (simp add: fileTail_last list_all_iff)

section \<open>What each card parser stores\<close>

definition fieldsInv :: "Deck \<Rightarrow> bool" where
  "fieldsInv d \<longleftrightarrow>
     (case dA d of None \<Rightarrow> True | Some a \<Rightarrow> wfAttachment a) \<and>
     (dB d \<noteq> [] \<longrightarrow> validArtifactHash (dB d)) \<and>
     (dC d \<noteq> [] \<longrightarrow> cPresent d) \<and>
     (case dE d of None \<Rightarrow> True | Some e \<Rightarrow> validArtifactHash (eUUID e)) \<and>
     list_all (wfFile (dB d)) (dF d) \<and> sorted_wrt (\<lambda>f g. fName f < fName g) (dF d) \<and>
     (dG d \<noteq> [] \<longrightarrow> validArtifactHash (dG d)) \<and> (dI d \<noteq> [] \<longrightarrow> validArtifactHash (dI d)) \<and>
     list_all wfTicket (dJ d) \<and> sorted_wrt (\<lambda>i j. jName i < jName j) (dJ d) \<and>
     (dK d \<noteq> [] \<longrightarrow> length (dK d) = 40 \<and> isHexAnyCase (dK d)) \<and>
     (dL d \<noteq> [] \<longrightarrow> wikiNameWellformed (dL d)) \<and>
     list_all validArtifactHash (dM d) \<and> sorted_wrt (<) (dM d) \<and>
     (dN d \<noteq> [] \<longrightarrow> nPresent d) \<and>
     list_all validArtifactHash (dP d) \<and> (dP d \<noteq> [] \<longrightarrow> pPresent d) \<and>
     list_all wfCherry (dQ d) \<and>
     (dR d \<noteq> [] \<longrightarrow> length (dR d) = 32 \<and> isHexAnyCase (dR d)) \<and>
     list_all (\<lambda>s. simplePathname (sName s) \<and> validArtifactHash (sUUID s)) (dS d) \<and>
     sorted_wrt (\<lambda>s t. sName s < sName t) (dS d) \<and>
     list_all wfTag (dT d) \<and> sorted_wrt tagLess (dT d) \<and>
     dU d \<noteq> Some [] \<and> dZ d = []"

lemma sorted_snoc:
  assumes "transp R" "sorted_wrt R xs" "xs \<noteq> [] \<Longrightarrow> R (last xs) x"
  shows "sorted_wrt R (xs @ [x])"
proof (cases xs rule: rev_cases)
  case (snoc ys y)
  with assms show ?thesis by (auto simp: sorted_wrt_append dest: transpD)
qed simp

lemma transp_key: "transp (\<lambda>x y. f x < (f y :: bytes))"
  by (auto intro!: transpI)

lemma transp_tagLess: "transp tagLess"
  by (rule transpI) (auto simp: tagLess_def)

lemma wfFile_B: "wfFile b f \<Longrightarrow> b' \<noteq> [] \<Longrightarrow> wfFile b' f"
  by (auto simp: wfFile_def)

lemma parseFCard_D:
  assumes "parseFCard d ts = Inr d'" "goodTokens ts"
  shows "d' = d \<or> (\<exists>f. d' = d\<lparr>dF := dF d @ [f]\<rparr> \<and> wfFile (dB d) f \<and> (dF d \<noteq> [] \<longrightarrow> fName (last (dF d)) < fName f))"
proof -
  have ne: "ts \<noteq> []" "length ts \<le> 4" using assms(1) by (auto simp: parseFCard_def split: if_splits)
  let ?f = "fileCardOf ts"
  have ok: "simplePathname (fName ?f)" "4 \<le> length ts \<Longrightarrow> simplePathname (fOldName ?f)"
    "fUUID ?f = [] \<Longrightarrow> dB d \<noteq> []" "fUUID ?f \<noteq> [] \<Longrightarrow> validArtifactHash (fUUID ?f)"
    and asc: "dF d \<noteq> [] \<Longrightarrow> fName (last (dF d)) < fName ?f"
    and d': "d' = (if IsReservedName (fName ?f) then d else d\<lparr>dF := dF d @ [?f]\<rparr>)"
    using assms(1) ne by (auto simp: parseFCard_def Let_def bindE_eq_Inr_iff split: if_split_asm)
  have "wfFile (dB d) ?f" if "\<not> IsReservedName (fName ?f)"
  proof -
    have "is_token (fPerm ?f)" using goodTokens_nth(1) [OF assms(2), of 2] by (simp add: fileCardOf_def)
    moreover have "fUUID ?f = [] \<Longrightarrow> fPerm ?f = [] \<and> fOldName ?f = []"
      using goodTokens_nth(2) [OF assms(2), of 1] by (auto simp: fileCardOf_def numeral_2_eq_2 numeral_3_eq_3 split: if_splits)
    moreover have "fOldName ?f \<noteq> [] \<Longrightarrow> simplePathname (fOldName ?f) \<and> fPerm ?f \<noteq> []"
      using goodTokens_nth(2) [OF assms(2), of 2] ok(2) by (auto simp: fileCardOf_def split: if_splits)
    ultimately show ?thesis using ok that by (auto simp: wfFile_def)
  qed
  with d' asc show ?thesis by auto
qed

lemma parseJCard_D:
  assumes "parseJCard d ts = Inr d'" "goodTokens ts"
  shows "\<exists>j. d' = d\<lparr>dJ := dJ d @ [j]\<rparr> \<and> wfTicket j \<and> (dJ d \<noteq> [] \<longrightarrow> jName (last (dJ d)) < jName j)"
  using assms(1) goodTokens_nth(1) [OF assms(2), of 0] goodTokens_nth(2) [OF assms(2), of 0]
  by (auto simp: parseJCard_def Let_def bindE_eq_Inr_iff wfTicket_def split: if_split_asm)

lemma parseTCard_D:
  assumes "parseTCard d ts = Inr d'" "goodTokens ts"
  shows "\<exists>t. d' = d\<lparr>dT := dT d @ [t]\<rparr> \<and> wfTag t \<and> (dT d \<noteq> [] \<longrightarrow> tagLess (last (dT d)) t)"
  using assms(1) by (auto simp: parseTCard_def Let_def bindE_eq_Inr_iff wfTag_def split: if_split_asm)

lemma parseQCard_D:
  assumes "parseQCard d ts = Inr d'"
  shows "\<exists>q. d' = d\<lparr>dQ := dQ d @ [q]\<rparr> \<and> wfCherry q"
  using assms by (auto simp: parseQCard_def Let_def wfCherry_def split: if_split_asm)

lemma parseSCard_D:
  assumes "parseSCard d ts = Inr d'"
  shows "\<exists>s. d' = d\<lparr>dS := dS d @ [s]\<rparr> \<and> simplePathname (sName s) \<and> validArtifactHash (sUUID s) \<and>
    (dS d \<noteq> [] \<longrightarrow> sName (last (dS d)) < sName s)"
  using assms by (auto simp: parseSCard_def Let_def bindE_eq_Inr_iff split: if_split_asm list.split_asm)

lemma parseMCard_D:
  assumes "parseMCard d ts = Inr d'"
  shows "\<exists>m. d' = d\<lparr>dM := dM d @ [m]\<rparr> \<and> validArtifactHash m \<and> (dM d \<noteq> [] \<longrightarrow> last (dM d) < m)"
  using assms by (auto simp: parseMCard_def bindE_eq_Inr_iff split: if_split_asm list.split_asm)

lemma parseACard_D:
  assumes "parseACard d ts = Inr d'"
  shows "\<exists>a. d' = d\<lparr>dA := Some a\<rparr> \<and> wfAttachment a"
  using assms by (auto simp: parseACard_def Let_def wfAttachment_def fileTail_simple fileTail_noslash split: if_split_asm)

lemma setHashCard_D: "setHashCard ts w b = Inr h \<Longrightarrow> validArtifactHash h \<and> isHexAnyCase h \<and> h \<noteq> [] \<and> (b \<longrightarrow> length h = 40)"
  by (auto simp: setHashCard_def Let_def validArtifactHash_def split: if_split_asm list.split_asm)

lemma setChecksumCard_D: "setChecksumCard ts w = Inr h \<Longrightarrow> length h = 32 \<and> isHexAnyCase h"
  by (auto simp: setChecksumCard_def split: if_split_asm list.split_asm)

section \<open>Every card keeps the field invariant\<close>

lemma fieldsInv_B: "fieldsInv d \<Longrightarrow> validArtifactHash v \<Longrightarrow> fieldsInv (d\<lparr>dB := v\<rparr>)"
proof -
  assume i: "fieldsInv d" and v: "validArtifactHash v"
  have "v \<noteq> []" using v by auto
  moreover have "list_all (wfFile (dB d)) (dF d)" using i by (simp add: fieldsInv_def)
  ultimately have "list_all (wfFile v) (dF d)" using wfFile_B by (auto simp: list_all_iff)
  with i v show ?thesis by (simp add: fieldsInv_def)
qed

lemma fieldsInv_F:
  "fieldsInv d \<Longrightarrow> wfFile (dB d) f \<Longrightarrow> (dF d \<noteq> [] \<longrightarrow> fName (last (dF d)) < fName f) \<Longrightarrow> fieldsInv (d\<lparr>dF := dF d @ [f]\<rparr>)"
  using sorted_snoc [OF transp_key, of fName "dF d" f] by (simp add: fieldsInv_def)

lemma fieldsInv_J:
  "fieldsInv d \<Longrightarrow> wfTicket j \<Longrightarrow> (dJ d \<noteq> [] \<longrightarrow> jName (last (dJ d)) < jName j) \<Longrightarrow> fieldsInv (d\<lparr>dJ := dJ d @ [j]\<rparr>)"
  using sorted_snoc [OF transp_key, of jName "dJ d" j] by (simp add: fieldsInv_def)

lemma fieldsInv_S:
  "fieldsInv d \<Longrightarrow> simplePathname (sName s) \<Longrightarrow> validArtifactHash (sUUID s) \<Longrightarrow>
   (dS d \<noteq> [] \<longrightarrow> sName (last (dS d)) < sName s) \<Longrightarrow> fieldsInv (d\<lparr>dS := dS d @ [s]\<rparr>)"
  using sorted_snoc [OF transp_key, of sName "dS d" s] by (simp add: fieldsInv_def)

lemma fieldsInv_M:
  "fieldsInv d \<Longrightarrow> validArtifactHash m \<Longrightarrow> (dM d \<noteq> [] \<longrightarrow> last (dM d) < m) \<Longrightarrow> fieldsInv (d\<lparr>dM := dM d @ [m]\<rparr>)"
  using sorted_snoc [OF transp_key, of "\<lambda>x. x" "dM d" m] by (simp add: fieldsInv_def)

lemma fieldsInv_T:
  "fieldsInv d \<Longrightarrow> wfTag t \<Longrightarrow> (dT d \<noteq> [] \<longrightarrow> tagLess (last (dT d)) t) \<Longrightarrow> fieldsInv (d\<lparr>dT := dT d @ [t]\<rparr>)"
  using sorted_snoc [OF transp_tagLess, of "dT d" t] by (simp add: fieldsInv_def)

lemma fieldsInv_simple:
  "fieldsInv d \<Longrightarrow> wfAttachment a \<Longrightarrow> fieldsInv (d\<lparr>dA := Some a\<rparr>)"
  "fieldsInv d \<Longrightarrow> fieldsInv (d\<lparr>cPresent := True, dC := v\<rparr>)"
  "fieldsInv d \<Longrightarrow> fieldsInv (d\<lparr>dD := t\<rparr>)"
  "fieldsInv d \<Longrightarrow> validArtifactHash (eUUID e) \<Longrightarrow> fieldsInv (d\<lparr>dE := Some e\<rparr>)"
  "fieldsInv d \<Longrightarrow> validArtifactHash v \<Longrightarrow> fieldsInv (d\<lparr>dG := v\<rparr>)"
  "fieldsInv d \<Longrightarrow> fieldsInv (d\<lparr>dH := v\<rparr>)"
  "fieldsInv d \<Longrightarrow> validArtifactHash v \<Longrightarrow> fieldsInv (d\<lparr>dI := v\<rparr>)"
  "fieldsInv d \<Longrightarrow> length v = 40 \<Longrightarrow> isHexAnyCase v \<Longrightarrow> fieldsInv (d\<lparr>dK := v\<rparr>)"
  "fieldsInv d \<Longrightarrow> wikiNameWellformed v \<Longrightarrow> fieldsInv (d\<lparr>dL := v\<rparr>)"
  "fieldsInv d \<Longrightarrow> fieldsInv (d\<lparr>nPresent := True, dN := v\<rparr>)"
  "fieldsInv d \<Longrightarrow> list_all validArtifactHash ps \<Longrightarrow> fieldsInv (d\<lparr>pPresent := True, dP := dP d @ ps\<rparr>)"
  "fieldsInv d \<Longrightarrow> wfCherry q \<Longrightarrow> fieldsInv (d\<lparr>dQ := dQ d @ [q]\<rparr>)"
  "fieldsInv d \<Longrightarrow> length v = 32 \<Longrightarrow> isHexAnyCase v \<Longrightarrow> fieldsInv (d\<lparr>dR := v\<rparr>)"
  "fieldsInv d \<Longrightarrow> u \<noteq> [] \<Longrightarrow> fieldsInv (d\<lparr>dU := Some u\<rparr>)"
  "fieldsInv d \<Longrightarrow> fieldsInv (d\<lparr>dW := Some w\<rparr>)"
  by (simp_all add: fieldsInv_def)

text \<open>
  The successful outcomes of \<^verbatim>\<open>parseCard\<close>, letter by letter: the only field that changes and what is known of
  its new value.
\<close>

definition cardEffect :: "Deck \<Rightarrow> byte \<Rightarrow> Deck \<Rightarrow> bool" where
  "cardEffect d c d' \<longleftrightarrow>
     (if c = CHR ''A'' then (\<exists>a. d' = d\<lparr>dA := Some a\<rparr> \<and> wfAttachment a)
     else if c = CHR ''B'' then (\<exists>v. d' = d\<lparr>dB := v\<rparr> \<and> validArtifactHash v)
     else if c = CHR ''C'' then (\<exists>v. d' = d\<lparr>cPresent := True, dC := v\<rparr>)
     else if c = CHR ''D'' then (\<exists>t. d' = d\<lparr>dD := t\<rparr>)
     else if c = CHR ''E'' then (\<exists>e. d' = d\<lparr>dE := Some e\<rparr> \<and> validArtifactHash (eUUID e))
     else if c = CHR ''F'' then (d' = d \<or> (\<exists>f. d' = d\<lparr>dF := dF d @ [f]\<rparr> \<and> wfFile (dB d) f \<and>
        (dF d \<noteq> [] \<longrightarrow> fName (last (dF d)) < fName f)))
     else if c = CHR ''G'' then (\<exists>v. d' = d\<lparr>dG := v\<rparr> \<and> validArtifactHash v)
     else if c = CHR ''H'' then (\<exists>v. d' = d\<lparr>dH := v\<rparr>)
     else if c = CHR ''I'' then (\<exists>v. d' = d\<lparr>dI := v\<rparr> \<and> validArtifactHash v)
     else if c = CHR ''J'' then (\<exists>j. d' = d\<lparr>dJ := dJ d @ [j]\<rparr> \<and> wfTicket j \<and> (dJ d \<noteq> [] \<longrightarrow> jName (last (dJ d)) < jName j))
     else if c = CHR ''K'' then (\<exists>v. d' = d\<lparr>dK := v\<rparr> \<and> length v = 40 \<and> isHexAnyCase v \<and> v \<noteq> [])
     else if c = CHR ''L'' then (\<exists>v. d' = d\<lparr>dL := v\<rparr> \<and> wikiNameWellformed v \<and> v \<noteq> [])
     else if c = CHR ''M'' then (\<exists>m. d' = d\<lparr>dM := dM d @ [m]\<rparr> \<and> validArtifactHash m \<and> (dM d \<noteq> [] \<longrightarrow> last (dM d) < m))
     else if c = CHR ''N'' then (\<exists>v. d' = d\<lparr>nPresent := True, dN := v\<rparr>)
     else if c = CHR ''P'' then (\<exists>ps. d' = d\<lparr>pPresent := True, dP := dP d @ ps\<rparr> \<and> list_all validArtifactHash ps)
     else if c = CHR ''Q'' then (\<exists>q. d' = d\<lparr>dQ := dQ d @ [q]\<rparr> \<and> wfCherry q)
     else if c = CHR ''R'' then (\<exists>v. d' = d\<lparr>dR := v\<rparr> \<and> length v = 32 \<and> isHexAnyCase v)
     else if c = CHR ''S'' then (\<exists>s. d' = d\<lparr>dS := dS d @ [s]\<rparr> \<and> simplePathname (sName s) \<and> validArtifactHash (sUUID s) \<and>
        (dS d \<noteq> [] \<longrightarrow> sName (last (dS d)) < sName s))
     else if c = CHR ''T'' then (\<exists>t. d' = d\<lparr>dT := dT d @ [t]\<rparr> \<and> wfTag t \<and> (dT d \<noteq> [] \<longrightarrow> tagLess (last (dT d)) t))
     else if c = CHR ''U'' then (\<exists>u. d' = d\<lparr>dU := Some u\<rparr> \<and> u \<noteq> [])
     else if c = CHR ''W'' then (\<exists>w. d' = d\<lparr>dW := Some w\<rparr>)
     else if c = CHR ''Z'' then d' = d
     else False)"

lemma find_None_valid: "List.find (\<lambda>p. \<not> P p) ts = None \<Longrightarrow> list_all P ts"
  by (auto simp: find_None_iff list_all_iff)

lemma parseCard_effect:
  assumes "parseCard d c ts = Inr d'" "goodTokens ts"
  shows "cardEffect d c d'"
proof -
  have P: "parsePCard d ts = Inr d' \<Longrightarrow> \<exists>ps. d' = d\<lparr>pPresent := True, dP := dP d @ ps\<rparr> \<and> list_all validArtifactHash ps"
    by (auto simp: parsePCard_def find_None_valid split: option.split_asm)
  have D: "parseDCard d ts = Inr d' \<Longrightarrow> \<exists>t. d' = d\<lparr>dD := t\<rparr>"
    by (auto simp: parseDCard_def bindE_eq_Inr_iff split: list.split_asm)
  have E: "parseECard d ts = Inr d' \<Longrightarrow> \<exists>e. d' = d\<lparr>dE := Some e\<rparr> \<and> validArtifactHash (eUUID e)"
    by (auto simp: parseECard_def bindE_eq_Inr_iff split: list.split_asm if_split_asm)
  have L: "parseLCard d ts = Inr d' \<Longrightarrow> \<exists>v. d' = d\<lparr>dL := v\<rparr> \<and> wikiNameWellformed v \<and> v \<noteq> []"
    by (auto simp: parseLCard_def Let_def split: list.split_asm if_split_asm)
  have U: "parseUCard d ts = Inr d' \<Longrightarrow> \<exists>u. d' = d\<lparr>dU := Some u\<rparr> \<and> u \<noteq> []"
    by (auto simp: parseUCard_def Let_def split: if_split_asm)
  note D' = parseFCard_D [OF _ assms(2)] parseJCard_D [OF _ assms(2)] parseTCard_D [OF _ assms(2)]
  show ?thesis
    using assms(1)
    by (simp only: parseCard_def split: if_split_asm)
      (simp_all add: cardEffect_def D' D E L U P parseACard_D parseMCard_D parseQCard_D parseSCard_D bindE_eq_Inr_iff,
        (use setHashCard_D setChecksumCard_D in blast)+)
qed

lemma cardEffect_fieldsInv: "cardEffect d c d' \<Longrightarrow> fieldsInv d \<Longrightarrow> fieldsInv d'"
  by (simp only: cardEffect_def split: if_split_asm)
    ((elim exE conjE disjE)?; simp add: fieldsInv_simple fieldsInv_B fieldsInv_F fieldsInv_J fieldsInv_M fieldsInv_S
      fieldsInv_T)+

lemma cardEffect_letter: "cardEffect d c d' \<Longrightarrow> isLetter c"
  by (simp only: cardEffect_def split: if_split_asm) (simp_all add: isLetter_def)

definition lettersInv :: "Deck \<Rightarrow> byte set \<Rightarrow> bool" where
  "lettersInv d L \<longleftrightarrow>
     (dA d \<noteq> None \<longleftrightarrow> CHR ''A'' \<in> L) \<and> (dB d \<noteq> [] \<longrightarrow> CHR ''B'' \<in> L) \<and> (cPresent d \<longrightarrow> CHR ''C'' \<in> L) \<and>
     (dD d \<noteq> 0 \<longrightarrow> CHR ''D'' \<in> L) \<and> (dE d \<noteq> None \<longleftrightarrow> CHR ''E'' \<in> L) \<and> (dF d \<noteq> [] \<longrightarrow> CHR ''F'' \<in> L) \<and>
     (dG d \<noteq> [] \<longrightarrow> CHR ''G'' \<in> L) \<and> (dH d \<noteq> [] \<longrightarrow> CHR ''H'' \<in> L) \<and> (dI d \<noteq> [] \<longrightarrow> CHR ''I'' \<in> L) \<and>
     (dJ d \<noteq> [] \<longleftrightarrow> CHR ''J'' \<in> L) \<and> (dK d \<noteq> [] \<longleftrightarrow> CHR ''K'' \<in> L) \<and> (dL d \<noteq> [] \<longleftrightarrow> CHR ''L'' \<in> L) \<and>
     (dM d \<noteq> [] \<longleftrightarrow> CHR ''M'' \<in> L) \<and> (nPresent d \<longrightarrow> CHR ''N'' \<in> L) \<and> (pPresent d \<longrightarrow> CHR ''P'' \<in> L) \<and>
     (dQ d \<noteq> [] \<longrightarrow> CHR ''Q'' \<in> L) \<and> (dR d \<noteq> [] \<longrightarrow> CHR ''R'' \<in> L) \<and> (dS d \<noteq> [] \<longrightarrow> CHR ''S'' \<in> L) \<and>
     (dT d \<noteq> [] \<longleftrightarrow> CHR ''T'' \<in> L) \<and> (dU d \<noteq> None \<longleftrightarrow> CHR ''U'' \<in> L) \<and> (dW d \<noteq> None \<longleftrightarrow> CHR ''W'' \<in> L)"

lemma lettersInvD:
  assumes "lettersInv d L"
  shows "dA d \<noteq> None \<longleftrightarrow> CHR ''A'' \<in> L"
    "dB d \<noteq> [] \<longrightarrow> CHR ''B'' \<in> L"
    "cPresent d \<longrightarrow> CHR ''C'' \<in> L"
    "dD d \<noteq> 0 \<longrightarrow> CHR ''D'' \<in> L"
    "dE d \<noteq> None \<longleftrightarrow> CHR ''E'' \<in> L"
    "dF d \<noteq> [] \<longrightarrow> CHR ''F'' \<in> L"
    "dG d \<noteq> [] \<longrightarrow> CHR ''G'' \<in> L"
    "dH d \<noteq> [] \<longrightarrow> CHR ''H'' \<in> L"
    "dI d \<noteq> [] \<longrightarrow> CHR ''I'' \<in> L"
    "dJ d \<noteq> [] \<longleftrightarrow> CHR ''J'' \<in> L"
    "dK d \<noteq> [] \<longleftrightarrow> CHR ''K'' \<in> L"
    "dL d \<noteq> [] \<longleftrightarrow> CHR ''L'' \<in> L"
    "dM d \<noteq> [] \<longleftrightarrow> CHR ''M'' \<in> L"
    "nPresent d \<longrightarrow> CHR ''N'' \<in> L"
    "pPresent d \<longrightarrow> CHR ''P'' \<in> L"
    "dQ d \<noteq> [] \<longrightarrow> CHR ''Q'' \<in> L"
    "dR d \<noteq> [] \<longrightarrow> CHR ''R'' \<in> L"
    "dS d \<noteq> [] \<longrightarrow> CHR ''S'' \<in> L"
    "dT d \<noteq> [] \<longleftrightarrow> CHR ''T'' \<in> L"
    "dU d \<noteq> None \<longleftrightarrow> CHR ''U'' \<in> L"
    "dW d \<noteq> None \<longleftrightarrow> CHR ''W'' \<in> L"
  by (insert assms, unfold lettersInv_def) (elim conjE, assumption)+

lemma cardEffect_lettersInv: "cardEffect d c d' \<Longrightarrow> lettersInv d L \<Longrightarrow> lettersInv d' (insert c L)"
  by (simp only: cardEffect_def split: if_split_asm)
    ((elim exE conjE disjE)?; simp add: lettersInv_def)+

lemma scanStep_effect:
  assumes "scanStep s c d l seen = Inr (d', s', seen')"
  shows "cardEffect d c d'" "sbuf s' = sbuf s" "dW d' = Some w \<Longrightarrow> dW d = Some w \<or> length w \<le> length (sbuf s)"
proof -
  show "sbuf s' = sbuf s" using scanStep_mono [OF assms] by simp
  have "cardEffect d c d' \<and> (\<forall>w. dW d' = Some w \<longrightarrow> dW d = Some w \<or> length w \<le> length (sbuf s))"
    using assms
  proof (cases rule: scanStep_cases)
    case W
    from parseW_D [OF W(2)] obtain tok s1 n where p: "nextToken s = Inr (Some tok, s1)" "spos s1 + n + 1 < length (sbuf s1)"
      "d' = d\<lparr>dW := Some (bslice (sbuf s1) (spos s1) (spos s1 + n))\<rparr>" by blast
    with nextToken_mono [OF p(1)] W(1) show ?thesis by (auto simp: cardEffect_def bslice_def)
  next
    case (Card tokens)
    from parseCard_effect [OF Card(3) cardTokens_good [OF Card(2)]] have e: "cardEffect d c d'" .
    then have "dW d' = dW d"
      using Card(1) by (simp only: cardEffect_def split: if_split_asm) auto
    with e show ?thesis by simp
  qed
  then show "cardEffect d c d'" "dW d' = Some w \<Longrightarrow> dW d = Some w \<or> length w \<le> length (sbuf s)" by auto
qed

definition scanInv :: "bytes \<Rightarrow> manifestScanner \<Rightarrow> Deck \<Rightarrow> byte \<Rightarrow> w32 \<Rightarrow> bool" where
  "scanInv content s d l m \<longleftrightarrow> sbuf s = content \<and> fieldsInv d \<and> (\<exists>L. hasLetters m L \<and> lettersInv d L) \<and>
     (\<forall>w. dW d = Some w \<longrightarrow> length w \<le> length content)"

lemma scanCards_inv:
  assumes "scanCards content emptyDeck = Inr (d, m)"
  shows "fieldsInv d" "\<exists>L. hasLetters m L \<and> lettersInv d L" "dW d = Some w \<Longrightarrow> length w \<le> length content"
proof -
  have "\<exists>s l s1. scanInv content s d l m \<and> nextCard s = (NUL, s1) \<and> length (sbuf s1) \<le> spos s1"
    using assms unfolding scanCards_def
  proof (rule scanLoop_invariant)
    show "scanInv content \<lparr>sbuf = content, spos = 0, satEol = True\<rparr> emptyDeck NUL 0"
      by (auto simp: scanInv_def emptyDeck_def fieldsInv_def lettersInv_def hasLetters_def letterMask_def intro!: exI [of _ "{}"])
    fix s d l seen m c s1 d1 s2 seen1
    assume i: "scanInv content s d l m" and n: "nextCard s = (c, s1)" "c \<noteq> NUL"
      and st: "scanStep s1 c d l seen = Inr (d1, s2, seen1)"
    note e = scanStep_effect [OF st] and b = nextCard_progress [OF n]
    from i obtain L where "hasLetters m L" "lettersInv d L" by (auto simp: scanInv_def)
    then have "hasLetters (addLetter m c) (insert c L)" "lettersInv d1 (insert c L)"
      using hasLetters_add cardEffect_letter [OF e(1)] cardEffect_lettersInv [OF e(1)] by auto
    then show "scanInv content s2 d1 c (addLetter m c)"
      using i e b cardEffect_fieldsInv [OF e(1)] by (auto simp: scanInv_def)
  qed
  then show "fieldsInv d" "\<exists>L. hasLetters m L \<and> lettersInv d L" "dW d = Some w \<Longrightarrow> length w \<le> length content"
    by (auto simp: scanInv_def)
qed

section \<open>The parsed deck\<close>

lemma Parse_structure:
  assumes "Parse (Some data) = Inr d"
  obtains content d0 m L where "frameArtifact data = Inr content" "scanCards content emptyDeck = Inr (d0, m)"
    "d = d0\<lparr>dType := finalType d0 m\<rparr>" "checkType d m = Inr ()" "hasLetters m L" "lettersInv d0 L" "fieldsInv d0"
proof -
  from assms obtain content d0 m where p: "frameArtifact data = Inr content" "scanCards content emptyDeck = Inr (d0, m)"
    "d = d0\<lparr>dType := finalType d0 m\<rparr>" "checkType d m = Inr ()"
    by (auto simp: Parse_def bindE_eq_Inr_iff Let_def)
  from scanCards_inv [OF p(2)] obtain L where "hasLetters m L" "lettersInv d0 L" "fieldsInv d0" by blast
  with p that show ?thesis by blast
qed

lemma fieldsInv_type [simp]: "fieldsInv (d\<lparr>dType := t\<rparr>) = fieldsInv d"
  by (simp add: fieldsInv_def)

lemma lettersInv_type [simp]: "lettersInv (d\<lparr>dType := t\<rparr>) L = lettersInv d L"
  by (simp add: lettersInv_def)

lemma inferType_type [simp]: "inferType (d\<lparr>dType := t\<rparr>) = inferType d"
  by (simp add: inferType_def)

lemma mask_D: "hasLetters m L \<Longrightarrow> m AND push_bit 3 1 = 0 \<longleftrightarrow> CHR ''D'' \<notin> L"
proof -
  assume "hasLetters m L"
  then obtain ls where ls: "list_all isLetter ls" "set ls = L" "letterMask ls = m" by (auto simp: hasLetters_def)
  have "m AND push_bit 3 1 = 0 \<longleftrightarrow> \<not> bit m 3" by (simp add: bit_iff_and_push_bit_not_eq_0)
  with bit_letterMask_letter [OF ls(1), of "CHR ''D''"] ls show ?thesis by (simp add: isLetter_def byteval_def)
qed

lemma Parse_facts:
  assumes "Parse (Some data) = Inr d"
  shows "fieldsInv d" "checkSemantics d = Inr ()"
    "\<exists>L. lettersInv d L \<and> L \<subseteq> set (allowedCards (dType d)) \<and> set (requiredCards (dType d)) \<subseteq> L \<and>
       dType d = (if inferType d = Checkin \<and> CHR ''D'' \<notin> L then Submanifest else inferType d)"
    "dW d = Some w \<Longrightarrow> length w \<le> length data"
proof -
  from assms obtain content d0 m L where p: "frameArtifact data = Inr content" "scanCards content emptyDeck = Inr (d0, m)"
    "d = d0\<lparr>dType := finalType d0 m\<rparr>" "checkType d m = Inr ()" "hasLetters m L" "lettersInv d0 L" "fieldsInv d0"
    by (rule Parse_structure)
  show "fieldsInv d" using p by simp
  from p(5) obtain ls where ls: "list_all isLetter ls" "set ls = L" "letterMask ls = m" by (auto simp: hasLetters_def)
  from p(4) checkType_letters [OF ls(1), of d] ls
  have legal: "L \<subseteq> set (allowedCards (dType d))" "set (requiredCards (dType d)) \<subseteq> L" "checkSemantics d = Inr ()"
    by (auto split: if_split_asm)
  then show "checkSemantics d = Inr ()" by simp
  have li: "lettersInv d L" using p(3,6) by simp
  have "dType d = (if inferType d = Checkin \<and> CHR ''D'' \<notin> L then Submanifest else inferType d)"
    unfolding p(3) finalType_def mask_D [OF p(5)] by simp
  then show "\<exists>L. lettersInv d L \<and> L \<subseteq> set (allowedCards (dType d)) \<and> set (requiredCards (dType d)) \<subseteq> L \<and>
       dType d = (if inferType d = Checkin \<and> CHR ''D'' \<notin> L then Submanifest else inferType d)"
    using legal li by blast
  have "length content \<le> length data"
    using frameArtifact_ok(1) [OF p(1)] sublist_length_le [OF stripped_sublist] by simp
  then show "dW d = Some w \<Longrightarrow> length w \<le> length data"
    using scanCards_inv(3) [OF p(2), of w] by (simp add: p(3))
qed

text \<open>
  C4. Every parsed artifact is well-formed: names are simple and not reserved, hashes are hashes, the F, J, M and S
  runs are strictly ascending and the T run two-level ascending, the cards present are allowed for the inferred
  type and include the required ones, and the per-type rules hold.
\<close>

theorem Parse_invariant:
  assumes "Parse (Some data) = Inr d"
  shows "fieldsInv d \<and> checkSemantics d = Inr () \<and>
    (\<exists>L. lettersInv d L \<and> L \<subseteq> set (allowedCards (dType d)) \<and> set (requiredCards (dType d)) \<subseteq> L \<and>
       dType d = (if inferType d = Checkin \<and> CHR ''D'' \<notin> L then Submanifest else inferType d))"
  using Parse_facts [OF assms] by blast

lemma Parse_invariant_witness:
  "\<exists>b. Parse (Some b) = Inr sampleDeck \<and> fieldsInv sampleDeck"
  using Marshal_Parse_aux [OF sample_wfDeck] Parse_invariant by blast

section \<open>Parse, marshal, parse\<close>

definition canonDeck :: "Deck \<Rightarrow> Deck" where
  "canonDeck d = d\<lparr>dK := map lowerByte (dK d), dR := map lowerByte (dR d)\<rparr>"

definition timesWritable :: "Deck \<Rightarrow> bool" where
  "timesWritable d \<longleftrightarrow> (dType d = Cluster \<or> dType d = Submanifest \<or> dD d \<noteq> 0 \<and> writableTime (dD d)) \<and>
     (case dE d of None \<Rightarrow> True | Some e \<Rightarrow> writableTime (eDate e))"

lemma lowerHash_map: "isHexAnyCase h \<Longrightarrow> lowerHash (map lowerByte h)"
  by (auto simp: lowerHash_def isHexAnyCase_iff list_all_iff lowerByte_idem dest: isHexDigit_props)

lemma group_empty [simp]:
  "optGroup b t = [] \<longleftrightarrow> \<not> b" "groupA d = [] \<longleftrightarrow> dA d = None" "groupE d = [] \<longleftrightarrow> dE d = None"
  "groupP d = [] \<longleftrightarrow> dP d = [] \<and> \<not> pPresent d"
  by (simp_all add: optGroup_def groupA_def groupE_def groupP_def split: option.split)

lemma groupU_empty: "dU d \<noteq> Some [] \<Longrightarrow> groupU d = [] \<longleftrightarrow> dU d = None"
  by (simp add: groupU_def split: option.split)

lemma groupLetters_Nil [simp]: "groupLetters [] = {}"
  by (simp add: groupLetters_def)

lemma deckLetters_groups:
  "deckLetters d = groupLetters (deckGroups d) \<union> (if dW d \<noteq> None then {CHR ''W''} else {}) \<union> {CHR ''Z''}"
  by (simp add: deckLetters_def groupLetters_def)

lemma deckLetters_sub:
  assumes "lettersInv d L" "fieldsInv d" "CHR ''Z'' \<in> L"
  shows "deckLetters d \<subseteq> L"
proof -
  have u: "dU d \<noteq> Some []" "dC d \<noteq> [] \<longrightarrow> cPresent d" "dN d \<noteq> [] \<longrightarrow> nPresent d" "dP d \<noteq> [] \<longrightarrow> pPresent d"
    using assms(2) unfolding fieldsInv_def by blast+
  have sub: "(if b then {} else {c}) \<subseteq> L \<longleftrightarrow> (\<not> b \<longrightarrow> c \<in> L)" for b and c :: byte by simp
  have C: "HasC d \<Longrightarrow> CHR ''C'' \<in> L" "hasN d \<Longrightarrow> CHR ''N'' \<in> L" "\<not> (dP d = [] \<and> \<not> pPresent d) \<Longrightarrow> CHR ''P'' \<in> L"
    using lettersInvD(3,14,15) [OF assms(1)] u(2-4) by (auto simp: HasC_def hasN_def)
  note D = lettersInvD [OF assms(1)]
  show ?thesis
    unfolding deckLetters_groups deckGroups_def groupLetters_Cons groupLetters_Nil Un_subset_iff sub group_empty
      groupU_empty [OF u(1)]
    using assms(3) D(1,5,20,21) by (intro conjI) (simp_all add: C D(2,4,6-13,16-19))
qed

lemma group_letterI: "(c, ts) \<in> set (deckGroups d) \<Longrightarrow> ts \<noteq> [] \<Longrightarrow> c \<in> deckLetters d"
  by (force simp: deckLetters_def groupLetters_def)

lemma letters_present:
  "dA d \<noteq> None \<Longrightarrow> CHR ''A'' \<in> deckLetters d"
  "dE d \<noteq> None \<Longrightarrow> CHR ''E'' \<in> deckLetters d"
  "dJ d \<noteq> [] \<Longrightarrow> CHR ''J'' \<in> deckLetters d"
  "dK d \<noteq> [] \<Longrightarrow> CHR ''K'' \<in> deckLetters d"
  "dL d \<noteq> [] \<Longrightarrow> CHR ''L'' \<in> deckLetters d"
  "dM d \<noteq> [] \<Longrightarrow> CHR ''M'' \<in> deckLetters d"
  "dT d \<noteq> [] \<Longrightarrow> CHR ''T'' \<in> deckLetters d"
  "dU d \<noteq> Some [] \<Longrightarrow> dU d \<noteq> None \<Longrightarrow> CHR ''U'' \<in> deckLetters d"
  "dW d \<noteq> None \<Longrightarrow> CHR ''W'' \<in> deckLetters d"
  "CHR ''Z'' \<in> deckLetters d"
  by (rule group_letterI [where ts = "groupA d"], simp add: deckGroups_def, simp)
    (rule group_letterI [where ts = "groupE d"], simp add: deckGroups_def, simp,
     rule group_letterI [where ts = "map ticketTokens (dJ d)"], simp add: deckGroups_def, simp,
     rule group_letterI [where ts = "optGroup (dK d \<noteq> []) (dK d)"], simp add: deckGroups_def, simp,
     rule group_letterI [where ts = "optGroup (dL d \<noteq> []) (FossilEncode (dL d))"], simp add: deckGroups_def, simp,
     rule group_letterI [where ts = "map (\<lambda>m. [m]) (dM d)"], simp add: deckGroups_def, simp,
     rule group_letterI [where ts = "map tagTokens (dT d)"], simp add: deckGroups_def, simp,
     rule group_letterI [where ts = "groupU d"], simp add: deckGroups_def, simp add: groupU_empty,
     simp_all add: deckLetters_def)

lemma required_sub:
  assumes "lettersInv d L" "fieldsInv d" "set (requiredCards t) \<subseteq> L" "CHR ''D'' \<in> set (requiredCards t) \<Longrightarrow> dD d \<noteq> 0"
  shows "set (requiredCards t) \<subseteq> deckLetters d"
proof
  fix c assume c: "c \<in> set (requiredCards t)"
  then have cL: "c \<in> L" using assms(3) by blast
  have u: "dU d \<noteq> Some []" using assms(2) unfolding fieldsInv_def by (elim conjE)
  note D = lettersInvD [OF assms(1)]
  have "c \<in> set ''DZLUWJKEMAT''" using c by (cases t) (auto simp: requiredCards_def cardRows_def)
  then consider "c = CHR ''D''" | "c = CHR ''Z''" | "c = CHR ''L''" | "c = CHR ''U''" | "c = CHR ''W''" | "c = CHR ''J''"
    | "c = CHR ''K''" | "c = CHR ''E''" | "c = CHR ''M''" | "c = CHR ''A''" | "c = CHR ''T''" by auto
  then show "c \<in> deckLetters d"
  proof cases
    case 1
    with c assms(4) show ?thesis by (simp add: D_letter)
  qed (use cL D(1,5,10-13,19-21) u in \<open>simp_all only: letters_present simp_thms\<close>)
qed

lemma deckLetters_canon: "deckLetters (canonDeck d) = deckLetters d"
  unfolding deckLetters_groups deckGroups_def groupLetters_Cons group_empty
  by (simp add: canonDeck_def groupA_def groupE_def groupP_def groupU_def HasC_def hasN_def nameEncode_def
      split del: if_split)

lemma wfFields_canon:
  assumes "fieldsInv d" "dD d \<noteq> 0 \<Longrightarrow> writableTime (dD d)" "case dE d of None \<Rightarrow> True | Some e \<Rightarrow> writableTime (eDate e)"
    and "\<And>w. dW d = Some w \<Longrightarrow> length w < 2 ^ 64"
  shows "wfFields (canonDeck d)"
proof -
  have k: "dK d \<noteq> [] \<Longrightarrow> length (dK d) = 40 \<and> lowerHash (map lowerByte (dK d))"
      "dR d \<noteq> [] \<Longrightarrow> length (dR d) = 32 \<and> lowerHash (map lowerByte (dR d))"
    using assms(1) lowerHash_map unfolding fieldsInv_def by blast+
  have w: "case dW d of None \<Rightarrow> True | Some w \<Rightarrow> length w < 2 ^ 64" using assms(4) by (cases "dW d") auto
  have e: "case dE d of None \<Rightarrow> True | Some e \<Rightarrow> writableTime (eDate e) \<and> validArtifactHash (eUUID e)"
    using assms(1,3) by (simp add: fieldsInv_def split: option.split_asm)
  show ?thesis
    using assms(1) k w e assms(2) unfolding wfFields_def fieldsInv_def canonDeck_def
    by (elim conjE, intro conjI) simp_all
qed

lemma Marshal_canon: "Marshal (canonDeck d) = Marshal d"
proof -
  have "map lowerByte (map lowerByte xs) = map lowerByte xs" for xs by (simp add: lowerByte_idem)
  then have "marshalCards (canonDeck d) = marshalCards d"
    unfolding marshalCards_def marshalCardsABCDE_def marshalCardF_def marshalCardsGHIJKL_def marshalCardsMNPQR_def
      marshalCardS_def marshalCardsTUW_def canonDeck_def by simp
  moreover have "dT (canonDeck d) = dT d" by (simp add: canonDeck_def)
  ultimately show ?thesis by (simp only: Marshal_def)
qed

lemma checkSemantics_canon: "checkSemantics (canonDeck d) = checkSemantics d"
  by (simp add: checkSemantics_def canonDeck_def checkTreeManifest_def checkSubmanifest_def cong: ArtifactType.case_cong)

lemma no_D_types: "CHR ''D'' \<notin> set (allowedCards t) \<longleftrightarrow> t = Cluster \<or> t = Submanifest"
    "CHR ''D'' \<in> set (requiredCards t) \<longleftrightarrow> \<not> (t = Cluster \<or> t = Submanifest)" "CHR ''Z'' \<in> set (requiredCards t)"
  by (cases t; simp add: allowedCards_def requiredCards_def cardRows_def)+

lemma Parse_wfDeck:
  assumes p: "Parse (Some data) = Inr d" and t: "timesWritable d" and len: "length data < 2 ^ 64"
  shows "wfDeck (canonDeck d)"
proof -
  note f = Parse_facts [OF p]
  obtain L where L: "lettersInv d L" "L \<subseteq> set (allowedCards (dType d))" "set (requiredCards (dType d)) \<subseteq> L"
    and ty: "dType d = (if inferType d = Checkin \<and> CHR ''D'' \<notin> L then Submanifest else inferType d)"
    using f(3) by blast
  have D0: "dType d = Cluster \<or> dType d = Submanifest \<Longrightarrow> CHR ''D'' \<notin> L" using L(2) no_D_types(1) by blast
  then have noD: "dType d = Cluster \<or> dType d = Submanifest \<Longrightarrow> dD d = 0" using lettersInvD(4) [OF L(1)] by blast
  have D1: "\<not> (dType d = Cluster \<or> dType d = Submanifest) \<Longrightarrow> dD d \<noteq> 0 \<and> CHR ''D'' \<in> L"
    using t L(3) no_D_types(2) by (auto simp: timesWritable_def)
  have DL: "CHR ''D'' \<notin> L \<longleftrightarrow> dD d = 0" using D0 D1 noD by blast
  have "wfFields (canonDeck d)"
    using t noD f(4) len by (intro wfFields_canon f(1)) (force simp: timesWritable_def)+
  moreover have "inferType (canonDeck d) = inferType d" by (simp add: inferType_def canonDeck_def)
  moreover have "dType (canonDeck d) = dType d" "dD (canonDeck d) = dD d" by (simp_all add: canonDeck_def)
  moreover have "deckLetters d \<subseteq> L" using deckLetters_sub [OF L(1) f(1)] L(3) no_D_types(3) by blast
  moreover have "set (requiredCards (dType d)) \<subseteq> deckLetters d"
    using required_sub [OF L(1) f(1) L(3)] D1 no_D_types(2) by blast
  ultimately show ?thesis
    unfolding wfDeck_def deckLetters_canon checkSemantics_canon using f(2) L(2) ty DL by auto
qed

text \<open>
  C20. Rewriting: an artifact that was parsed, and whose timestamps the writer form can carry, marshals, and
  parsing the result gives the same deck (with the ticket id and the R checksum in lower case).
\<close>

theorem Parse_Marshal_Parse:
  assumes "Parse (Some data) = Inr d" "timesWritable d" "length data < 2 ^ 64"
  shows "\<exists>b. Marshal d = Inr b \<and> Parse (Some b) = Inr (canonDeck d)"
  using Marshal_Parse_aux [OF Parse_wfDeck [OF assms]] by (simp add: Marshal_canon)

lemma sample_length: "length (marshalCards sampleDeck) < 1000"
  by code_simp

lemma Parse_Marshal_Parse_witness:
  "\<exists>data b. Parse (Some data) = Inr sampleDeck \<and> timesWritable sampleDeck \<and>
     Marshal sampleDeck = Inr b \<and> Parse (Some b) = Inr (canonDeck sampleDeck)"
proof -
  obtain b where b: "Marshal sampleDeck = Inr b" "Parse (Some b) = Inr sampleDeck"
    using Marshal_Parse_aux [OF sample_wfDeck] by blast
  have "length b < 2 ^ 64"
    using b(1) sample_length by (auto simp: Marshal_def Let_def split: option.split_asm)
  moreover have "timesWritable sampleDeck" by code_simp
  ultimately show ?thesis using b Parse_Marshal_Parse [OF b(2)] by blast
qed

end
