(* ===== verification/Cone_Laws.thy ===== *)
theory Cone_Laws
  imports Cone
begin

text \<open>
  Correctness of the cone: the specification of coverage over parent directories, and what normalization, the
  queries and the serialized form of \<open>Cone\<close> promise about it.
\<close>

section \<open>Covering and parent directories\<close>

definition cov :: "bytes \<Rightarrow> bytes \<Rightarrow> bool" where
  "cov m p \<longleftrightarrow> p = m \<or> (\<exists>r. p = m @ SLASH # r)"

definition parent :: "bytes \<Rightarrow> bytes option" where
  "parent p = (if SLASH \<in> set p then Some (rev (List.tl (dropWhile (\<lambda>c. c \<noteq> SLASH) (rev p)))) else None)"

lemma parent_None: "SLASH \<notin> set p \<Longrightarrow> parent p = None"
  by (simp add: parent_def)

lemma parent_Some: "SLASH \<notin> set s \<Longrightarrow> parent (q @ SLASH # s) = Some q"
  by (simp add: parent_def dropWhile_append)

lemma parent_cases:
  obtains "SLASH \<notin> set p" "parent p = None" | q s where "p = q @ SLASH # s" "SLASH \<notin> set s" "parent p = Some q"
  by (metis parent_None parent_Some split_list_last)

lemma parent_length: "parent p = Some q \<Longrightarrow> length q < length p"
  by (cases p rule: parent_cases) auto

lemma cov_refl [simp]: "cov p p"
  by (simp add: cov_def)

lemma memberCovers_cov [simp]: "m \<noteq> [] \<Longrightarrow> memberCovers m p = Inr (cov m p)"
proof (cases "prefix m p")
  case True
  then obtain zs where "p = m @ zs" by (rule prefixE)
  then show "m \<noteq> [] \<Longrightarrow> ?thesis" by (cases zs) (simp_all add: memberCovers_def cov_def)
next
  case False
  then show "m \<noteq> [] \<Longrightarrow> ?thesis" by (auto simp: memberCovers_def cov_def)
qed

lemma cov_parent: "cov m p \<longleftrightarrow> m = p \<or> (\<exists>q. parent p = Some q \<and> cov m q)"
proof
  assume "cov m p"
  then consider "m = p" | r where "p = m @ SLASH # r" by (auto simp: cov_def)
  then show "m = p \<or> (\<exists>q. parent p = Some q \<and> cov m q)"
  proof cases
    case (2 r)
    show ?thesis
    proof (cases "SLASH \<in> set r")
      case True
      then obtain r1 s where "r = r1 @ SLASH # s" "SLASH \<notin> set s" by (metis split_list_last)
      then have "parent p = Some (m @ SLASH # r1)" using 2 parent_Some [of s "m @ SLASH # r1"] by simp
      then show ?thesis by (auto simp: cov_def)
    next
      case False
      then show ?thesis using 2 parent_Some by auto
    qed
  qed simp
next
  assume "m = p \<or> (\<exists>q. parent p = Some q \<and> cov m q)"
  then show "cov m p" by (cases p rule: parent_cases) (auto simp: cov_def)
qed

lemma cov_trans: "cov a b \<Longrightarrow> cov b c \<Longrightarrow> cov a c"
  by (auto simp: cov_def)

lemma cov_prefix: "cov m p \<Longrightarrow> prefix m p"
  by (auto simp: cov_def prefix_def)

lemma cov_length_eq: "cov m p \<Longrightarrow> cov m' p \<Longrightarrow> length m = length m' \<Longrightarrow> m = m'"
  by (metis cov_prefix prefix_length_prefix prefix_order.dual_order.antisym order_refl)

lemma cov_nested: "cov m p \<Longrightarrow> cov m' p \<Longrightarrow> length m \<le> length m' \<Longrightarrow> cov m m'"
proof -
  assume a: "cov m p" "cov m' p" "length m \<le> length m'"
  then obtain t where t: "m' = m @ t" by (metis cov_prefix prefix_length_prefix prefixE)
  with a(1,2) show "cov m m'" by (cases t) (auto simp: cov_def)
qed

lemma prefix_le: "prefix a b \<Longrightarrow> a \<le> (b :: bytes)"
proof -
  have "a \<le> a @ r" for a r :: bytes by (induction a) auto
  then show "prefix a b \<Longrightarrow> a \<le> b" by (auto simp: prefix_def)
qed

lemma cov_le: "cov m p \<Longrightarrow> m \<le> p"
  using cov_prefix prefix_le by blast

section \<open>The nearest member\<close>

function nearest :: "(bytes \<Rightarrow> bool option) \<Rightarrow> bytes \<Rightarrow> (bytes \<times> bool) option" where
  "nearest M p = (case M p of Some b \<Rightarrow> Some (p, b)
     | None \<Rightarrow> (case parent p of None \<Rightarrow> None | Some q \<Rightarrow> nearest M q))"
  by auto

termination
  by (relation "measure (\<lambda>(M, p). length p)") (auto simp: parent_length)

declare nearest.simps [simp del]

lemma nearest_Some:
  "nearest M p = Some (m, b) \<Longrightarrow>
     M m = Some b \<and> cov m p \<and> (\<forall>m'. M m' \<noteq> None \<longrightarrow> cov m' p \<longrightarrow> length m' \<le> length m)"
proof (induction M p rule: nearest.induct)
  case (1 M p)
  show ?case
  proof (cases "M p")
    case (Some b')
    with 1 show ?thesis by (auto simp: nearest.simps [of M p] cov_def)
  next
    case None
    with "1.prems" obtain q where q: "parent p = Some q" "nearest M q = Some (m, b)"
      by (auto simp: nearest.simps [of M p] split: option.split_asm)
    from "1.IH" [OF None q] q(1) None show ?thesis by (auto simp: cov_parent [of _ p])
  qed
qed

lemma nearest_None: "nearest M p = None \<longleftrightarrow> (\<forall>m. cov m p \<longrightarrow> M m = None)"
proof (induction M p rule: nearest.induct)
  case (1 M p)
  show ?case
  proof (cases "M p")
    case None
    with 1 show ?thesis
      by (subst nearest.simps) (auto simp: cov_parent [of _ p] split: option.split)
  qed (auto simp: nearest.simps [of M p] intro: exI [of _ p])
qed

lemma nearest_eqI:
  assumes "M m = Some b" "cov m p" "\<And>m'. M m' \<noteq> None \<Longrightarrow> cov m' p \<Longrightarrow> length m' \<le> length m"
  shows "nearest M p = Some (m, b)"
proof (cases "nearest M p")
  case None
  with assms show ?thesis by (auto simp: nearest_None)
next
  case (Some r)
  obtain m' b' where r: "r = (m', b')" by force
  note n = nearest_Some [OF Some [unfolded r]]
  then have "length m = length m'" using assms by (metis le_antisym option.discI)
  then have "m = m'" using n assms(2) cov_length_eq by blast
  with n assms Some r show ?thesis by simp
qed

lemma nearest_self: "M p = Some b \<Longrightarrow> nearest M p = Some (p, b)"
  by (simp add: nearest.simps [of M p])

lemma nearest_upd_cov:
  assumes "\<And>m. M m \<noteq> None \<Longrightarrow> \<not> cov x m \<or> m = x" "cov x p"
  shows "nearest (M(x \<mapsto> b)) p = Some (x, b)"
proof (rule nearest_eqI)
  fix m' assume "(M(x \<mapsto> b)) m' \<noteq> None" "cov m' p"
  then show "length m' \<le> length x"
    using assms(1) [of m'] cov_nested [OF assms(2), of m'] by (cases "m' = x"; cases "length x \<le> length m'") auto
qed (use assms in auto)

lemma nearest_upd_ncov: "\<not> cov x p \<Longrightarrow> nearest (M(x \<mapsto> b)) p = nearest M p"
proof (induction M p rule: nearest.induct)
  case (1 M p)
  then have "p \<noteq> x" "\<And>q. parent p = Some q \<Longrightarrow> \<not> cov x q" by (auto simp: cov_parent [of x p])
  with 1 show ?case
    by (subst (1 2) nearest.simps) (auto simp del: fun_upd_apply simp add: fun_upd_other split: option.split)
qed

lemma nearest_below:
  assumes "\<And>m. M m \<noteq> None \<Longrightarrow> \<not> cov x m" "cov x p"
  shows "nearest M p = nearest M x"
proof -
  have above: "cov m x" if "M m \<noteq> None" "cov m p" for m
    using that assms cov_nested [of m p x] cov_nested [of x p m] by force
  show ?thesis
  proof (cases "nearest M x")
    case None
    with above have "nearest M p = None" unfolding nearest_None by blast
    with None show ?thesis by simp
  next
    case (Some r)
    obtain m b where r: "r = (m, b)" by force
    note n = nearest_Some [OF Some [unfolded r]]
    then have "nearest M p = Some (m, b)"
      using above assms(2) by (intro nearest_eqI) (auto intro: cov_trans)
    with Some r show ?thesis by simp
  qed
qed

section \<open>Coverage and normal member maps\<close>

text \<open>The members with their polarity, \<open>True\<close> being an exclusion, as a map.\<close>

definition polarity :: "bytes list \<Rightarrow> bytes list \<Rightarrow> bytes \<Rightarrow> bool option" where
  "polarity inc exc m = (if m \<in> set inc then Some False else if m \<in> set exc then Some True else None)"

lemma polarity_simps [simp]:
  "polarity inc exc m = Some False \<longleftrightarrow> m \<in> set inc" "polarity inc exc m = Some True \<longleftrightarrow> m \<notin> set inc \<and> m \<in> set exc"
  "polarity inc exc m = None \<longleftrightarrow> m \<notin> set inc \<and> m \<notin> set exc"
  by (auto simp: polarity_def)

lemma polarity_Some: "polarity inc exc m = Some b \<longleftrightarrow> m \<in> set (if b then exc else inc) \<and> (b \<longrightarrow> m \<notin> set inc)"
  by (auto simp: polarity_def)

definition covered :: "(bytes \<Rightarrow> bool option) \<Rightarrow> bytes \<Rightarrow> bool" where
  "covered M p \<longleftrightarrow> map_option snd (nearest M p) = Some False"

definition parentCovered :: "(bytes \<Rightarrow> bool option) \<Rightarrow> bytes \<Rightarrow> bool" where
  "parentCovered M p = (case parent p of None \<Rightarrow> False | Some q \<Rightarrow> covered M q)"

definition normal :: "(bytes \<Rightarrow> bool option) \<Rightarrow> bool" where
  "normal M \<longleftrightarrow> (\<forall>m b. M m = Some b \<longrightarrow> b = parentCovered M m)"

lemma covered_rec: "covered M p = (case M p of Some b \<Rightarrow> \<not> b | None \<Rightarrow> parentCovered M p)"
  by (simp add: covered_def parentCovered_def nearest.simps [of M p] split: option.split)

lemma normal_determined:
  assumes "normal M" "normal M'" "covered M = covered M'"
  shows "M = M'"
proof
  fix m
  have form: "N m = (if covered N m = parentCovered N m then None else Some (\<not> covered N m))" if "normal N" for N
    using that by (cases "N m") (auto simp: normal_def covered_rec [of N m])
  have "parentCovered M = parentCovered M'" using assms(3) by (intro ext) (simp add: parentCovered_def split: option.split)
  then show "M m = M' m" using form [OF assms(1)] form [OF assms(2)] assms(3) by metis
qed

text \<open>Coverage as the specification states it: the longest member covering the path is an inclusion.\<close>

definition coversSpec :: "bytes list \<Rightarrow> bytes list \<Rightarrow> bytes \<Rightarrow> bool" where
  "coversSpec inc exc p \<longleftrightarrow> (\<exists>m\<in>set inc. cov m p \<and> (\<forall>x\<in>set exc. cov x p \<longrightarrow> length x \<le> length m))"

lemma covered_polarity: "covered (polarity inc exc) p \<longleftrightarrow> coversSpec inc exc p"
proof
  assume "covered (polarity inc exc) p"
  then obtain m where "nearest (polarity inc exc) p = Some (m, False)" by (auto simp: covered_def)
  from nearest_Some [OF this] show "coversSpec inc exc p"
    unfolding coversSpec_def polarity_simps by blast
next
  assume "coversSpec inc exc p"
  then obtain m where m: "m \<in> set inc" "cov m p" "\<And>x. x \<in> set exc \<Longrightarrow> cov x p \<Longrightarrow> length x \<le> length m"
    by (auto simp: coversSpec_def)
  then have "nearest (polarity inc exc) p \<noteq> None" unfolding nearest_None by (auto intro!: exI [of _ m])
  then obtain m' b where n: "nearest (polarity inc exc) p = Some (m', b)" by force
  note n' = nearest_Some [OF n]
  have "length m \<le> length m'" using n' m(1,2) unfolding polarity_simps by blast
  moreover have "b \<Longrightarrow> length m' \<le> length m" using n' m(3) by (auto simp: polarity_Some)
  ultimately have "b \<Longrightarrow> m' = m" using n' m(2) cov_length_eq le_antisym by blast
  then have "\<not> b" using n' m(1) by (auto simp: polarity_Some)
  with n show "covered (polarity inc exc) p" by (simp add: covered_def)
qed

section \<open>The search for the longest member\<close>

lemma longestLoop_spec:
  "\<exists>m b. longestLoop pol ms path best = Inr (m, b) \<and>
     ((m, b) = best \<or> m \<in> set ms \<and> cov m path \<and> b = pol \<and> length (fst best) < length m) \<and>
     length (fst best) \<le> length m \<and> (\<forall>m'\<in>set ms. cov m' path \<longrightarrow> length m' \<le> length m)"
proof (induction ms arbitrary: best)
  case Nil
  then show ?case by (cases best) auto
next
  case (Cons x ms)
  show ?case
  proof (cases "length (fst best) < length x")
    case True
    then have "x \<noteq> []" by auto
    then have *: "longestLoop pol (x # ms) path best = longestLoop pol ms path (if cov x path then (x, pol) else best)"
      using True by simp
    let ?best = "if cov x path then (x, pol) else best"
    obtain m b where r: "longestLoop pol ms path ?best = Inr (m, b)"
      "(m, b) = ?best \<or> m \<in> set ms \<and> cov m path \<and> b = pol \<and> length (fst ?best) < length m"
      "length (fst ?best) \<le> length m" "\<forall>m'\<in>set ms. cov m' path \<longrightarrow> length m' \<le> length m"
      using Cons [of ?best] by (elim exE conjE) (rule that)
    have "length (fst best) \<le> length (fst ?best)" "cov x path \<Longrightarrow> length x \<le> length (fst ?best)" using True by auto
    then have "length (fst best) \<le> length m" "cov x path \<Longrightarrow> length x \<le> length m" using r(3) by linarith+
    moreover have "(m, b) = best \<or> m \<in> set (x # ms) \<and> cov m path \<and> b = pol \<and> length (fst best) < length m"
      using r(2) True by (cases "cov x path") auto
    ultimately show ?thesis unfolding * r(1) using r(4) by (intro exI [of _ m] exI [of _ b]) (simp only: set_simps insert_iff, blast)
  next
    case False
    obtain m b where r: "longestLoop pol ms path best = Inr (m, b)"
      "(m, b) = best \<or> m \<in> set ms \<and> cov m path \<and> b = pol \<and> length (fst best) < length m"
      "length (fst best) \<le> length m" "\<forall>m'\<in>set ms. cov m' path \<longrightarrow> length m' \<le> length m"
      using Cons [of best] by (elim exE conjE) (rule that)
    have "length x \<le> length m" using r(3) False by simp
    moreover have "longestLoop pol (x # ms) path best = Inr (m, b)" using r(1) False by simp
    ultimately show ?thesis
      using r(2-4) by (intro exI [of _ m] exI [of _ b] conjI) (simp_all only: set_simps insert_iff, blast+)
  qed
qed

definition coneMap :: "Cone \<Rightarrow> bytes \<Rightarrow> bool option" where
  "coneMap c = polarity (cInclude c) (cExclude c)"

definition nonempty :: "Cone \<Rightarrow> bool" where
  "nonempty c \<longleftrightarrow> [] \<notin> set (cInclude c) \<and> [] \<notin> set (cExclude c)"

lemma longestCovering_nearest:
  assumes "nonempty c"
  shows "longestCovering c path True = Inr (case nearest (coneMap c) path of None \<Rightarrow> ([], False) | Some r \<Rightarrow> r)"
proof -
  obtain m1 b1 where 1: "longestLoop False (cInclude c) path ([], False) = Inr (m1, b1)"
    "(m1, b1) = ([], False) \<or> m1 \<in> set (cInclude c) \<and> cov m1 path \<and> b1 = False \<and> length m1 > 0"
    "\<forall>m'\<in>set (cInclude c). cov m' path \<longrightarrow> length m' \<le> length m1"
    using longestLoop_spec [of False "cInclude c" path "([], False)"] by auto
  obtain m b where 2: "longestLoop True (cExclude c) path (m1, b1) = Inr (m, b)"
    "(m, b) = (m1, b1) \<or> m \<in> set (cExclude c) \<and> cov m path \<and> b = True \<and> length m1 < length m"
    "length m1 \<le> length m" "\<forall>m'\<in>set (cExclude c). cov m' path \<longrightarrow> length m' \<le> length m"
    using longestLoop_spec [of True "cExclude c" path "(m1, b1)"] by auto
  have long: "length m' \<le> length m" if "coneMap c m' \<noteq> None" "cov m' path" for m'
    using that 1(3) 2(3,4) le_trans unfolding coneMap_def polarity_simps by blast
  have "(case nearest (coneMap c) path of None \<Rightarrow> ([], False) | Some r \<Rightarrow> r) = (m, b)"
  proof (cases "m = []")
    case True
    have "coneMap c m' = None" if "cov m' path" for m'
      using long [OF _ that] True assms by (cases "m' = []") (auto simp: nonempty_def coneMap_def)
    then have "nearest (coneMap c) path = None" unfolding nearest_None by blast
    with True 1(2) 2(2) show ?thesis by auto
  next
    case False
    have "nearest (coneMap c) path = Some (m, b)"
    proof (rule nearest_eqI [OF _ _ long])
      show "cov m path" using False 1(2) 2(2) by auto
      have "m \<notin> set (cInclude c)" if "b"
        using that 1(2,3) 2(2) False by (auto simp: leD)
      then show "coneMap c m = Some b" using False 1(2) 2(2) by (cases b) (auto simp: coneMap_def)
    qed
    then show ?thesis by simp
  qed
  with 1 2 show ?thesis by (simp add: longestCovering_def)
qed

section \<open>Normalization\<close>

abbreviation polar :: "(bytes \<Rightarrow> bool option) \<Rightarrow> bytes \<Rightarrow> bool option" where
  "polar M p \<equiv> map_option snd (nearest M p)"

text \<open>What the loop keeps: \<open>E\<close> maps the entries seen so far, the cone \<open>c\<close> holds the members kept.\<close>

definition normInv :: "Cone \<Rightarrow> (bytes \<Rightarrow> bool option) \<Rightarrow> bool" where
  "normInv c E \<longleftrightarrow> nonempty c \<and> polar (coneMap c) = polar E \<and> (\<forall>m b. coneMap c m = Some b \<longrightarrow> E m = Some b) \<and>
     normal (coneMap c) \<and> sorted_wrt (<) (cInclude c) \<and> sorted_wrt (<) (cExclude c) \<and>
     set (cInclude c) \<inter> set (cExclude c) = {} \<and> cHorizon c = None"

lemma normInvD:
  assumes "normInv c E"
  shows "nonempty c" "polar (coneMap c) = polar E" "coneMap c m = Some b \<Longrightarrow> E m = Some b" "normal (coneMap c)"
    "sorted_wrt (<) (cInclude c)" "sorted_wrt (<) (cExclude c)" "set (cInclude c) \<inter> set (cExclude c) = {}" "cHorizon c = None"
  using assms unfolding normInv_def by blast+

definition addMember :: "bool \<Rightarrow> bytes \<Rightarrow> Cone \<Rightarrow> Cone" where
  "addMember b x c = (if b then c\<lparr>cExclude := cExclude c @ [x]\<rparr> else c\<lparr>cInclude := cInclude c @ [x]\<rparr>)"

lemma above_not_cov: "(\<And>m. M m \<noteq> None \<Longrightarrow> m < x) \<Longrightarrow> M m \<noteq> None \<Longrightarrow> \<not> cov x m"
  by (meson cov_le leD)

lemma polar_upd:
  assumes "\<And>m. M m \<noteq> None \<Longrightarrow> m < x"
  shows "polar (M(x \<mapsto> b)) = (\<lambda>p. if cov x p then Some b else polar M p)"
proof
  fix p
  have "\<not> cov x m \<or> m = x" if "M m \<noteq> None" for m
    using above_not_cov [of M x m] assms that by blast
  then show "polar (M(x \<mapsto> b)) p = (if cov x p then Some b else polar M p)"
    using nearest_upd_cov [of M x p b] nearest_upd_ncov [of x p M b] by simp
qed

lemma polar_below:
  assumes "\<And>m. M m \<noteq> None \<Longrightarrow> m < x" "cov x p"
  shows "polar M p = polar M x"
  using nearest_below [of M x p] above_not_cov [of M x] assms by metis

lemma coneMap_dom:
  assumes "normInv c E" "\<And>m. E m \<noteq> None \<Longrightarrow> m < x"
  shows "coneMap c m \<noteq> None \<Longrightarrow> m < x"
  using normInvD(3) [OF assms(1)] assms(2) by blast

lemma normInv_skip:
  assumes i: "normInv c E" and E: "\<And>m. E m \<noteq> None \<Longrightarrow> m < x" and n: "nearest (coneMap c) x = Some (m0, b)"
  shows "normInv c (E(x \<mapsto> b))"
proof -
  note d = coneMap_dom [OF i E]
  have "polar (coneMap c) p = polar (E(x \<mapsto> b)) p" for p
  proof -
    have "polar (E(x \<mapsto> b)) p = (if cov x p then Some b else polar E p)" using polar_upd [of E x b, OF E] by metis
    moreover have "polar (coneMap c) p = polar E p" using normInvD(2) [OF i] by metis
    moreover have "cov x p \<Longrightarrow> polar (coneMap c) p = Some b" using polar_below [of "coneMap c" x p, OF d] n by simp
    ultimately show ?thesis by simp
  qed
  moreover have "coneMap c m = Some b' \<Longrightarrow> (E(x \<mapsto> b)) m = Some b'" for m b'
    using normInvD(3) [OF i] d by force
  ultimately show ?thesis using i unfolding normInv_def by blast
qed

lemma coneMap_add: "x \<notin> set (cInclude c) \<Longrightarrow> coneMap (addMember b x c) = (coneMap c)(x \<mapsto> b)"
  by (auto simp: coneMap_def addMember_def polarity_def)

lemma parentCovered_upd:
  assumes "\<not> cov x q \<or> parent m \<noteq> Some q" "parent m = Some q"
  shows "parentCovered (M(x \<mapsto> b)) m = parentCovered M m"
  using assms nearest_upd_ncov [of x q M b] by (simp add: parentCovered_def covered_def)

lemma parentCovered_upd_below:
  assumes "\<not> cov x m \<or> m = x"
  shows "parentCovered (M(x \<mapsto> b)) m = parentCovered M m"
proof (cases "parent m")
  case (Some q)
  have "\<not> cov x q" using assms Some cov_parent [of x m] parent_length [OF Some] cov_prefix [THEN prefix_length_le, of x q] by auto
  then show ?thesis using parentCovered_upd Some by blast
qed (simp add: parentCovered_def)

lemma normInv_add:
  assumes i: "normInv c E" and E: "\<And>m. E m \<noteq> None \<Longrightarrow> m < x" and x: "x \<noteq> []"
    and n: "polar (coneMap c) x = Some (\<not> b) \<or> polar (coneMap c) x = None \<and> \<not> b"
  shows "normInv (addMember b x c) (E(x \<mapsto> b))"
proof -
  let ?K = "coneMap c"
  note d = coneMap_dom [OF i E]
  have new: "m < x" if "m \<in> set (cInclude c) \<or> m \<in> set (cExclude c)" for m
    using d [of m] that by (auto simp: coneMap_def)
  then have K: "coneMap (addMember b x c) = ?K(x \<mapsto> b)" by (intro coneMap_add) blast
  have "polar (?K(x \<mapsto> b)) = polar (E(x \<mapsto> b))"
    using polar_upd [of ?K x b, OF d] polar_upd [of E x b, OF E] normInvD(2) [OF i] by (simp add: fun_eq_iff)
  moreover have "normal (?K(x \<mapsto> b))"
    unfolding normal_def
  proof (intro allI impI)
    fix m b' assume m: "(?K(x \<mapsto> b)) m = Some b'"
    have up: "parentCovered (?K(x \<mapsto> b)) m = parentCovered ?K m"
      using m d above_not_cov [of ?K x m] by (intro parentCovered_upd_below) (auto split: if_splits)
    show "b' = parentCovered (?K(x \<mapsto> b)) m"
    proof (cases "m = x")
      case True
      have "?K x = None" using d [of x] by (metis less_irrefl)
      then have "parentCovered ?K x = covered ?K x" by (simp add: covered_rec)
      then show ?thesis using True m n up by (auto simp: covered_def)
    next
      case False
      then show ?thesis using m up normInvD(4) [OF i] by (simp add: normal_def)
    qed
  qed
  moreover have "(E(x \<mapsto> b)) m = Some b'" if "(?K(x \<mapsto> b)) m = Some b'" for m b'
    using that normInvD(3) [OF i] by (auto split: if_splits)
  moreover have "nonempty (addMember b x c)" "cHorizon (addMember b x c) = None"
    using normInvD(1,8) [OF i] x by (auto simp: nonempty_def addMember_def)
  moreover have "sorted_wrt (<) (cInclude (addMember b x c))" "sorted_wrt (<) (cExclude (addMember b x c))"
    using normInvD(5,6) [OF i] new by (auto simp: addMember_def sorted_wrt_append)
  moreover have "set (cInclude (addMember b x c)) \<inter> set (cExclude (addMember b x c)) = {}"
    using normInvD(7) [OF i] new by (auto simp: addMember_def)
  ultimately show ?thesis unfolding normInv_def K by blast
qed

text \<open>The loop, with the entries still to come in path order and \<open>prev\<close> the last one seen.\<close>

definition loopPre :: "Cone \<Rightarrow> entry option \<Rightarrow> entry list \<Rightarrow> (bytes \<Rightarrow> bool option) \<Rightarrow> bool" where
  "loopPre c prev es E \<longleftrightarrow> normInv c E \<and> sorted (map enPath es) \<and> (\<forall>e\<in>set es. enPath e \<noteq> []) \<and>
     (\<forall>m. E m \<noteq> None \<longrightarrow> (\<exists>pr. prev = Some pr \<and> m \<le> enPath pr)) \<and>
     (\<forall>pr. prev = Some pr \<longrightarrow> E (enPath pr) = Some (enExclude pr) \<and> (\<forall>e\<in>set es. enPath pr \<le> enPath e))"

lemma loopPre_fresh:
  assumes "loopPre c prev (e # es) E" "\<not> (prev \<noteq> None \<and> enPath (the prev) = enPath e)" "E m \<noteq> None"
  shows "m < enPath e"
proof -
  obtain pr where "prev = Some pr" "m \<le> enPath pr" using assms(1,3) unfolding loopPre_def by blast
  moreover from this assms(1,2) have "enPath pr \<le> enPath e" "enPath pr \<noteq> enPath e" by (auto simp: loopPre_def)
  ultimately show ?thesis by simp
qed

lemma loopPre_step:
  assumes "loopPre c prev (e # es) E" "normInv c' (E(enPath e \<mapsto> enExclude e))"
  shows "loopPre c' (Some e) es (E(enPath e \<mapsto> enExclude e))"
proof -
  have "m \<le> enPath e" if "E m \<noteq> None" for m
    using assms(1) that unfolding loopPre_def by (meson list.set_intros(1) order_trans)
  with assms show ?thesis unfolding loopPre_def by (auto split: if_splits)
qed

lemma loopPre_dup:
  assumes "loopPre c (Some pr) (e # es) E" "enPath pr = enPath e" "enExclude pr = enExclude e"
  shows "E(enPath e \<mapsto> enExclude e) = E" "loopPre c (Some e) es E"
proof -
  show *: "E(enPath e \<mapsto> enExclude e) = E" using assms by (auto simp: loopPre_def)
  show "loopPre c (Some e) es E" using loopPre_step [OF assms(1), of c] * assms(1) by (simp add: loopPre_def)
qed

text \<open>One round on a new path: a dead exclusion, a redundant member, or one to keep.\<close>

lemma normalize_round:
  assumes p: "loopPre c prev (e # es) E" and f: "\<not> (prev \<noteq> None \<and> enPath (the prev) = enPath e)"
  obtains (dead) "normalizeLoop c prev (e # es) = Inl (ErrDeadExclusion (enPath e))" "enExclude e" "polar E (enPath e) = None"
  | (go) c' where "normalizeLoop c prev (e # es) = normalizeLoop c' (Some e) es"
      "loopPre c' (Some e) es (E(enPath e \<mapsto> enExclude e))"
proof -
  let ?x = "enPath e" and ?b = "enExclude e"
  have i: "normInv c E" and x: "?x \<noteq> []" using p by (auto simp: loopPre_def)
  note E = loopPre_fresh [OF p f]
  note lc = longestCovering_nearest [OF normInvD(1) [OF i], of ?x]
  have ne: "nearest (coneMap c) ?x = Some (m, b) \<Longrightarrow> m \<noteq> []" for m b
    using nearest_Some [of "coneMap c" ?x m b] normInvD(1) [OF i] by (auto simp: nonempty_def coneMap_def polarity_Some split: if_splits)
  have pol: "polar E ?x = polar (coneMap c) ?x" using normInvD(2) [OF i] by metis
  consider (none) "nearest (coneMap c) ?x = None" | (same) m where "nearest (coneMap c) ?x = Some (m, ?b)"
    | (opp) m where "nearest (coneMap c) ?x = Some (m, \<not> ?b)"
    by (cases "nearest (coneMap c) ?x") auto
  then show thesis
  proof cases
    case none
    show thesis
    proof (cases ?b)
      case True
      then show thesis using none f lc pol by (intro dead) auto
    next
      case False
      then have "normInv (addMember ?b ?x c) (E(?x \<mapsto> ?b))" using none by (intro normInv_add [OF i E x]) auto
      with p have "loopPre (addMember ?b ?x c) (Some e) es (E(?x \<mapsto> ?b))" by (rule loopPre_step)
      then show thesis using none f lc False by (intro go [of "addMember ?b ?x c"]) (auto simp: addMember_def)
    qed
  next
    case same
    have "normInv c (E(?x \<mapsto> ?b))" by (rule normInv_skip [OF i E same])
    with p have "loopPre c (Some e) es (E(?x \<mapsto> ?b))" by (rule loopPre_step)
    then show thesis using same f lc ne [OF same] by (intro go [of c]) auto
  next
    case opp
    then have "normInv (addMember ?b ?x c) (E(?x \<mapsto> ?b))" by (intro normInv_add [OF i E x]) auto
    with p have "loopPre (addMember ?b ?x c) (Some e) es (E(?x \<mapsto> ?b))" by (rule loopPre_step)
    then show thesis using opp f lc ne [OF opp] by (intro go [of "addMember ?b ?x c"]) (auto simp: addMember_def)
  qed
qed

definition isEntry :: "entry list \<Rightarrow> bytes \<Rightarrow> bool \<Rightarrow> bool" where
  "isEntry es m b \<longleftrightarrow> \<lparr>enPath = m, enExclude = b\<rparr> \<in> set es"

lemma isEntry_Cons: "isEntry (e # es) m b \<longleftrightarrow> (m = enPath e \<and> b = enExclude e) \<or> isEntry es m b"
  by (cases e) (auto simp: isEntry_def)

text \<open>An entry already seen or still to come.\<close>

definition present :: "(bytes \<Rightarrow> bool option) \<Rightarrow> entry list \<Rightarrow> bytes \<Rightarrow> bool \<Rightarrow> bool" where
  "present E es m b \<longleftrightarrow> E m = Some b \<or> isEntry es m b"

lemma present_step:
  assumes "E (enPath e) = None \<or> E (enPath e) = Some (enExclude e)"
  shows "present (E(enPath e \<mapsto> enExclude e)) es = present E (e # es)"
  using assms by (intro ext) (auto simp: present_def isEntry_Cons)

lemma normalizeLoop_ok:
  "normalizeLoop c prev es = Inr c' \<Longrightarrow> loopPre c prev es E \<Longrightarrow>
     \<exists>E'. normInv c' E' \<and> (\<forall>m b. E' m = Some b \<longleftrightarrow> present E es m b)"
proof (induction es arbitrary: c prev E)
  case Nil
  then show ?case by (auto simp: loopPre_def isEntry_def present_def)
next
  case (Cons e es)
  show ?case
  proof (cases "prev \<noteq> None \<and> enPath (the prev) = enPath e")
    case True
    then obtain pr where pr: "prev = Some pr" "enPath pr = enPath e" "enExclude pr = enExclude e"
      using Cons.prems(1) by (auto split: if_splits)
    note dup = loopPre_dup [OF Cons.prems(2) [unfolded pr(1)] pr(2,3)]
    have "E (enPath e) = Some (enExclude e)" using dup(1) by (metis fun_upd_same)
    then have "present E es = present E (e # es)" using present_step [of E e es] dup(1) by simp
    moreover have "normalizeLoop c (Some e) es = Inr c'" using Cons.prems(1) pr by simp
    ultimately show ?thesis using Cons.IH [OF _ dup(2)] by simp
  next
    case False
    with Cons.prems(2) show ?thesis
    proof (cases rule: normalize_round)
      case dead
      with Cons.prems(1) show ?thesis by simp
    next
      case (go c1)
      have "E (enPath e) = None" using loopPre_fresh [OF Cons.prems(2) False, of "enPath e"] by (metis less_irrefl)
      then have "present (E(enPath e \<mapsto> enExclude e)) es = present E (e # es)" by (intro present_step) simp
      moreover have "normalizeLoop c1 (Some e) es = Inr c'" using Cons.prems(1) go(1) by metis
      ultimately show ?thesis using Cons.IH [OF _ go(2)] by (simp del: fun_upd_apply)
    qed
  qed
qed

text \<open>Success: no contradiction, and every exclusion is covered by an inclusion.\<close>

definition live :: "(bytes \<Rightarrow> bool option) \<Rightarrow> entry list \<Rightarrow> bool" where
  "live E es \<longleftrightarrow> (\<forall>m. \<not> (present E es m False \<and> present E es m True)) \<and>
     (\<forall>x. isEntry es x True \<longrightarrow> (\<exists>m. cov m x \<and> present E es m False))"

lemma live_step:
  assumes "live E (e # es)" "E (enPath e) = None \<or> E (enPath e) = Some (enExclude e)"
  shows "live (E(enPath e \<mapsto> enExclude e)) es"
  using assms(1) unfolding live_def present_step [of E e es, OF assms(2)] by (auto simp: isEntry_Cons)

lemma live_not_dead:
  assumes l: "live E (e # es)" and p: "loopPre c prev (e # es) E" and e: "enExclude e"
  shows "polar E (enPath e) \<noteq> None"
proof -
  have x: "isEntry (e # es) (enPath e) True" using e by (simp add: isEntry_Cons)
  then obtain m where m: "cov m (enPath e)" "present E (e # es) m False"
    and n: "m \<noteq> enPath e"
    using l unfolding live_def present_def by metis
  have "\<not> isEntry es m False"
  proof
    assume "isEntry es m False"
    then have "enPath e \<le> m" using p by (force simp: loopPre_def isEntry_def)
    with cov_le [OF m(1)] n show False by simp
  qed
  then have "E m \<noteq> None" using m(2) e by (auto simp: isEntry_Cons present_def)
  with m(1) show ?thesis by (auto simp: nearest_None)
qed

lemma normalizeLoop_live: "live E es \<Longrightarrow> loopPre c prev es E \<Longrightarrow> is_ok (normalizeLoop c prev es)"
proof (induction es arbitrary: c prev E)
  case (Cons e es)
  show ?case
  proof (cases "prev \<noteq> None \<and> enPath (the prev) = enPath e")
    case True
    then obtain pr where pr: "prev = Some pr" "enPath pr = enPath e" by auto
    then have E: "E (enPath e) = Some (enExclude pr)" using Cons.prems(2) by (auto simp: loopPre_def)
    have same: "enExclude pr = enExclude e"
    proof (rule ccontr)
      assume "enExclude pr \<noteq> enExclude e"
      then have "present E (e # es) (enPath e) (enExclude e)" "present E (e # es) (enPath e) (\<not> enExclude e)"
        using E by (auto simp: present_def isEntry_Cons)
      then show False using Cons.prems(1) unfolding live_def by (cases "enExclude e") auto
    qed
    note dup = loopPre_dup [OF Cons.prems(2) [unfolded pr(1)] pr(2) same]
    have "live E es" using live_step [OF Cons.prems(1)] E same dup(1) by simp
    from Cons.IH [OF this dup(2)] show ?thesis using pr same by simp
  next
    case False
    have N: "E (enPath e) = None" using loopPre_fresh [OF Cons.prems(2) False, of "enPath e"] by (metis less_irrefl)
    from Cons.prems(2) False show ?thesis
    proof (cases rule: normalize_round)
      case dead
      with live_not_dead [OF Cons.prems] show ?thesis by blast
    next
      case (go c1)
      from Cons.IH [OF live_step [OF Cons.prems(1)] go(2)] N go(1) show ?thesis by simp
    qed
  qed
qed simp

section \<open>Building a cone\<close>

lemma isEntry_entriesOf: "isEntry (sort_key enPath (entriesOf inc exc)) m b \<longleftrightarrow> m \<in> set (if b then exc else inc)"
  by (auto simp: isEntry_def entriesOf_def)

definition validMember :: "bytes \<Rightarrow> bool" where
  "validMember m \<longleftrightarrow> length m \<le> MaxMemberLen \<and> WorktreePathname m \<and> \<not> IsReservedName m"

lemma validateMember_iff: "validateMember m = Inr () \<longleftrightarrow> validMember m"
  by (auto simp: validateMember_def validMember_def)

lemma validateAll_iff: "validateAll ms = Inr () \<longleftrightarrow> list_all validMember ms"
  by (induction ms) (auto simp: bindE_eq_Inr_iff validateMember_iff)

lemma validMember_nonempty: "validMember m \<Longrightarrow> m \<noteq> []"
  by (auto simp: validMember_def WorktreePathname_def simplePathname_def)

lemma normalize_pre:
  assumes "list_all validMember (inc @ exc)"
  shows "loopPre emptyCone None (sort_key enPath (entriesOf inc exc)) (\<lambda>_. None)"
proof -
  have "enPath e \<noteq> []" if "e \<in> set (entriesOf inc exc)" for e
    using that assms validMember_nonempty by (auto simp: entriesOf_def list_all_iff)
  moreover have "coneMap emptyCone = (\<lambda>_. None)"
    by (auto simp: coneMap_def emptyCone_def polarity_def)
  ultimately show ?thesis
    by (auto simp: loopPre_def normInv_def nonempty_def normal_def emptyCone_def)
qed

text \<open>The members a call of \<^verbatim>\<open>build\<close> is given are legal, and what a cone it returns satisfies.\<close>

definition legalMembers :: "bytes list \<Rightarrow> bytes list \<Rightarrow> bool" where
  "legalMembers inc exc \<longleftrightarrow> length inc + length exc \<le> MaxMembers \<and> list_all validMember (inc @ exc) \<and>
     set inc \<inter> set exc = {} \<and> (\<forall>x\<in>set exc. \<exists>m\<in>set inc. cov m x)"

definition normalCone :: "Cone \<Rightarrow> bool" where
  "normalCone c \<longleftrightarrow> normal (coneMap c) \<and> sorted_wrt (<) (cInclude c) \<and> sorted_wrt (<) (cExclude c) \<and>
     legalMembers (cInclude c) (cExclude c) \<and> (cInclude c = [] \<longrightarrow> cHorizon c \<noteq> None)"

lemma normInv_facts:
  assumes i: "normInv c E" and E: "\<And>m b. E m = Some b \<longleftrightarrow> m \<in> set (if b then exc else inc)"
    and v: "list_all validMember (inc @ exc)"
  shows "covered (coneMap c) = coversSpec inc exc" "list_all validMember (cInclude c @ cExclude c)"
    "set (cInclude c) \<subseteq> set inc" "set (cExclude c) \<subseteq> set exc" "inc \<noteq> [] \<Longrightarrow> cInclude c \<noteq> []"
    "set inc \<inter> set exc = {}" "x \<in> set exc \<Longrightarrow> \<exists>m\<in>set (cInclude c). cov m x"
proof -
  have disj: "set inc \<inter> set exc = {}"
  proof -
    have "\<not> (E m = Some False \<and> E m = Some True)" for m by simp
    then show ?thesis unfolding E by auto
  qed
  then show "set inc \<inter> set exc = {}" .
  have "E = polarity inc exc"
  proof
    fix m show "E m = polarity inc exc m"
      using E [of m False] E [of m True] by (cases "E m") (auto simp: polarity_def)
  qed
  then show cv: "covered (coneMap c) = coversSpec inc exc"
    using normInvD(2) [OF i] covered_polarity [of inc exc] by (intro ext) (metis covered_def)
  show sub: "set (cInclude c) \<subseteq> set inc" "set (cExclude c) \<subseteq> set exc"
  proof -
    have "E m = Some b" if "m \<in> set (if b then cExclude c else cInclude c)" for m b
      using that normInvD(3) [OF i, of m b] normInvD(7) [OF i] by (auto simp: coneMap_def polarity_Some split: if_splits)
    from this [of _ False] this [of _ True] show "set (cInclude c) \<subseteq> set inc" "set (cExclude c) \<subseteq> set exc"
      unfolding E by auto
  qed
  then show "list_all validMember (cInclude c @ cExclude c)" using v by (auto simp: list_all_iff)
  have covd: "\<exists>m\<in>set (cInclude c). cov m x" if "covered (coneMap c) x" for x
    using that nearest_Some [of "coneMap c" x _ False] by (force simp: covered_def coneMap_def)
  show "inc \<noteq> [] \<Longrightarrow> cInclude c \<noteq> []"
  proof -
    assume "inc \<noteq> []"
    then obtain m where "m \<in> set inc" by (cases inc) auto
    then have "polar E m = Some False" using E [of m False] nearest_self [of E m False] by simp
    then have "covered (coneMap c) m" using normInvD(2) [OF i] unfolding covered_def by metis
    from covd [OF this] show ?thesis by auto
  qed
  show "\<exists>m\<in>set (cInclude c). cov m x" if x: "x \<in> set exc"
  proof -
    have "polar E x = Some True" using x E [of x True] nearest_self [of E x True] by simp
    then obtain y where y: "nearest (coneMap c) x = Some (y, True)"
      using fun_cong [OF normInvD(2) [OF i], of x] by auto
    note ny = nearest_Some [OF y]
    then have "parentCovered (coneMap c) y" using normInvD(4) [OF i] by (auto simp: normal_def)
    then obtain q where q: "parent y = Some q" "covered (coneMap c) q" by (auto simp: parentCovered_def split: option.split_asm)
    from covd [OF q(2)] q(1) ny show ?thesis using cov_trans cov_parent [of _ y] by blast
  qed
qed

lemma sorted_strict_length: "sorted_wrt (<) (xs :: bytes list) \<Longrightarrow> set xs \<subseteq> set ys \<Longrightarrow> length xs \<le> length ys"
  by (metis card_length card_mono distinct_card finite_set le_trans strict_sorted_iff)

lemma build_ok:
  assumes b: "build inc exc h = Inr c"
  shows "legalMembers inc exc" "normalCone c" "covered (coneMap c) = coversSpec inc exc" "cHorizon c = h"
    "inc = [] \<longleftrightarrow> cInclude c = []" "inc = [] \<Longrightarrow> h \<noteq> None"
proof -
  let ?es = "sort_key enPath (entriesOf inc exc)"
  obtain c0 where bd: "\<not> (inc = [] \<and> h = None)" "length inc + length exc \<le> MaxMembers"
    and v: "list_all validMember (inc @ exc)" and n: "normalize ?es = Inr c0" and c: "c = c0\<lparr>cHorizon := h\<rparr>"
    using b by (auto simp: build_def bindE_eq_Inr_iff validateAll_iff not_less split: if_splits)
  obtain E where i: "normInv c0 E" and "\<forall>m b. E m = Some b \<longleftrightarrow> present (\<lambda>_. None) ?es m b"
    using normalizeLoop_ok [OF n [unfolded normalize_def] normalize_pre [OF v]] by blast
  then have E: "E m = Some b \<longleftrightarrow> m \<in> set (if b then exc else inc)" for m b
    by (simp only: present_def isEntry_entriesOf option.simps simp_thms)
  note f = normInv_facts [OF i E v]
  have cm: "coneMap c = coneMap c0" by (simp add: c coneMap_def)
  show "covered (coneMap c) = coversSpec inc exc" unfolding cm by (rule f(1))
  show "cHorizon c = h" "inc = [] \<Longrightarrow> h \<noteq> None" using bd(1) by (simp_all add: c)
  show "inc = [] \<longleftrightarrow> cInclude c = []" using f(3,5) by (auto simp: c)
  show leg: "legalMembers inc exc" unfolding legalMembers_def using bd v f(3,6,7) by blast
  have "length (cInclude c0) + length (cExclude c0) \<le> MaxMembers"
    using sorted_strict_length [OF normInvD(5) [OF i] f(3)] sorted_strict_length [OF normInvD(6) [OF i] f(4)] bd(2) by linarith
  then have "legalMembers (cInclude c0) (cExclude c0)"
    unfolding legalMembers_def using f(2,4,7) normInvD(7) [OF i] by blast
  then show "normalCone c"
    unfolding normalCone_def cm using normInvD(4-6) [OF i] f(5) bd(1) by (auto simp: c)
qed

lemma build_live:
  assumes "legalMembers inc exc" "inc \<noteq> [] \<or> h \<noteq> None"
  shows "is_ok (build inc exc h)"
proof -
  let ?es = "sort_key enPath (entriesOf inc exc)"
  have v: "list_all validMember (inc @ exc)" using assms(1) by (simp add: legalMembers_def)
  have "live (\<lambda>_. None) ?es"
    unfolding live_def present_def isEntry_entriesOf using assms(1) by (auto simp: legalMembers_def)
  from normalizeLoop_live [OF this normalize_pre [OF v]]
  obtain c where c: "normalize ?es = Inr c" by (auto simp: normalize_def is_ok_iff)
  obtain E where i: "normInv c E" and "\<forall>m b. E m = Some b \<longleftrightarrow> present (\<lambda>_. None) ?es m b"
    using normalizeLoop_ok [OF c [unfolded normalize_def] normalize_pre [OF v]] by blast
  then have E: "E m = Some b \<longleftrightarrow> m \<in> set (if b then exc else inc)" for m b
    by (simp only: present_def isEntry_entriesOf option.simps simp_thms)
  from normInv_facts(5) [OF i E v] have "inc \<noteq> [] \<Longrightarrow> cInclude c \<noteq> []" .
  then show ?thesis
    using assms c v by (auto simp: build_def legalMembers_def validateAll_iff [THEN iffD2])
qed

lemma normalCone_eqI:
  assumes "normalCone c" "normalCone c'" "covered (coneMap c) = covered (coneMap c')" "cHorizon c = cHorizon c'"
  shows "c = c'"
proof -
  have "coneMap c = coneMap c'" using assms(1-3) by (intro normal_determined) (auto simp: normalCone_def)
  moreover have "m \<in> set (cInclude d) \<longleftrightarrow> coneMap d m = Some False" "m \<in> set (cExclude d) \<longleftrightarrow> coneMap d m = Some True"
    if "normalCone d" for d m
    using that by (auto simp: coneMap_def normalCone_def legalMembers_def)
  ultimately have "set (cInclude c) = set (cInclude c')" "set (cExclude c) = set (cExclude c')"
    using assms(1,2) by (intro set_eqI; simp)+
  then have "cInclude c = cInclude c'" "cExclude c = cExclude c'"
    using assms(1,2) unfolding normalCone_def by (blast intro: strict_sorted_equal)+
  with assms(4) show ?thesis by simp
qed

lemma build_self:
  assumes "normalCone c"
  shows "build (cInclude c) (cExclude c) (cHorizon c) = Inr c"
proof -
  obtain c' where c': "build (cInclude c) (cExclude c) (cHorizon c) = Inr c'"
    using build_live [of "cInclude c" "cExclude c" "cHorizon c"] assms by (auto simp: normalCone_def is_ok_iff)
  note b = build_ok [OF c']
  have "covered (coneMap c) = coversSpec (cInclude c) (cExclude c)"
    unfolding coneMap_def using covered_polarity by blast
  then show ?thesis using c' normalCone_eqI [OF b(2) assms] b(3,4) by simp
qed

section \<open>Reading the serialized form back\<close>

lemma byteval_char_of [simp]: "n < 256 \<Longrightarrow> byteval (char_of n) = n"
  by (simp add: byteval_def)

lemma u16_roundtrip:
  assumes "n < 65536"
  shows "u16read (pre @ u16le n @ post) (length pre) = n"
proof -
  have "n div 256 < 256" using assms by (simp add: div_less_iff_less_mult)
  moreover have "byteval (char_of n) = n mod 256" by (simp add: byteval_def)
  ultimately show ?thesis
    using assms mod_mult_div_eq [of n 256] by (simp add: u16read_def u16le_def nth_append)
qed

lemma length_u16le [simp]: "length (u16le n) = 2"
  by (simp add: u16le_def)

lemma parseMember_write:
  assumes "m \<noteq> []" "length m < 65536" "flagged \<or> \<not> ex"
  shows "parseMember (pre @ writeMember flagged (m, ex) @ post) (length pre) flagged =
    Inr ((m, ex), length pre + length (writeMember flagged (m, ex)))"
proof -
  let ?f = "if flagged then [if ex then CHR 0x01 else CHR 0x00] else []"
  let ?d = "pre @ writeMember flagged (m, ex) @ post" and ?o1 = "length (pre @ ?f)"
  have d: "?d = (pre @ ?f) @ u16le (length m) @ (m @ post)" by (simp add: writeMember_def)
  have n: "u16read ?d ?o1 = length m" unfolding d using assms(2) by (rule u16_roundtrip)
  have b: "bslice ?d (?o1 + 2) (?o1 + 2 + length m) = m" unfolding d by (simp add: bslice_def)
  have flag: "flagged \<Longrightarrow> ?d ! length pre = (if ex then CHR 0x01 else CHR 0x00)" unfolding d by (simp add: nth_append)
  have len: "length pre < length ?d" "?o1 + 2 \<le> length ?d" "?o1 + 2 + length m \<le> length ?d" unfolding d by simp_all
  show ?thesis
    using n b flag len assms
    by (cases flagged; cases ex) (simp_all add: parseMember_def Let_def writeMember_def)
qed

lemma memberLoop_write:
  "list_all (\<lambda>(m, ex). m \<noteq> [] \<and> length m < 65536 \<and> (flagged \<or> \<not> ex)) ms \<Longrightarrow>
   memberLoop (pre @ concat (map (writeMember flagged) ms)) flagged (length ms) (length pre) inc exc =
     Inr (inc @ map fst (filter (\<lambda>x. \<not> snd x) ms), exc @ map fst (filter snd ms))"
proof (induction ms arbitrary: pre inc exc)
  case (Cons x ms)
  obtain m ex where x: "x = (m, ex)" by force
  let ?pre = "pre @ writeMember flagged (m, ex)"
  have "parseMember (pre @ writeMember flagged (m, ex) @ concat (map (writeMember flagged) ms)) (length pre) flagged =
      Inr ((m, ex), length ?pre)"
    using parseMember_write [of m flagged ex pre "concat (map (writeMember flagged) ms)"] Cons.prems x by auto
  then show ?case
    using Cons.IH [of ?pre] Cons.prems x by auto
qed simp

lemma eachMember_split:
  "map fst (filter (\<lambda>x. \<not> snd x) (eachMember inc exc)) = inc" "map fst (filter snd (eachMember inc exc)) = exc"
  by (induction inc exc rule: eachMember.induct) auto

lemma eachMember_set: "set (eachMember inc exc) = {(m, False) |m. m \<in> set inc} \<union> {(m, True) |m. m \<in> set exc}"
  by (induction inc exc rule: eachMember.induct) auto

lemma length_eachMember: "length (eachMember inc exc) = length inc + length exc"
  by (induction inc exc rule: eachMember.induct) auto

definition wfHorizon :: "Horizon \<Rightarrow> bool" where
  "wfHorizon h \<longleftrightarrow> (length (hHash h) = 40 \<or> length (hHash h) = 64) \<and> list_all isHexDigit (hHash h) \<and>
     map lowerByte (hHash h) = hHash h \<and> ruleValid (hRule h) \<and> depthValid (hDepth h)"

lemma lowerByte_hex: "isHexDigit c \<Longrightarrow> isHexDigit (lowerByte c)"
proof -
  have "\<forall>c. isHexDigit c \<le> isHexDigit (lowerByte c)" by code_simp
  then show "isHexDigit c \<Longrightarrow> isHexDigit (lowerByte c)" by (simp add: le_bool_def)
qed

lemma NewHorizon_wf: "NewHorizon x r d = Inr h \<Longrightarrow> wfHorizon h"
  by (auto simp: NewHorizon_def wfHorizon_def list_all_iff lowerByte_idem lowerByte_hex split: if_splits)

lemma NewHorizon_self: "wfHorizon h \<Longrightarrow> NewHorizon (hHash h) (hRule h) (hDepth h) = Inr h"
  by (auto simp: NewHorizon_def wfHorizon_def)

text \<open>The header of the three versions.\<close>

definition headerOf :: "Cone \<Rightarrow> bytes" where
  "headerOf c = (let n = length (cInclude c) + length (cExclude c) in
     case cHorizon c of
       Some h \<Rightarrow> [CHR 0x00, CHR 0x03, char_of n, hRule h, hDepth h, char_of (length (hHash h))] @ hHash h
     | None \<Rightarrow> if cExclude c \<noteq> [] then [CHR 0x00, CHR 0x02, char_of n] else [char_of n])"

definition flaggedForm :: "Cone \<Rightarrow> bool" where
  "flaggedForm c \<longleftrightarrow> cExclude c \<noteq> [] \<or> cHorizon c \<noteq> None"

lemma Serialize_normal:
  assumes "normalCone c"
  shows "Serialize c = Inr (headerOf c @ concat (map (writeMember (flaggedForm c)) (eachMember (cInclude c) (cExclude c))))"
  using assms by (auto simp: Serialize_def headerOf_def flaggedForm_def Let_def normalCone_def legalMembers_def split: option.split)

lemma parseHeader_header:
  assumes "normalCone c" "\<And>h. cHorizon c = Some h \<Longrightarrow> wfHorizon h"
  shows "parseHeader (headerOf c @ rest) = Inr (cHorizon c, length (headerOf c), length (cInclude c) + length (cExclude c))"
    "(headerOf c @ rest) ! 0 = CHR 0x00 \<longleftrightarrow> flaggedForm c" "headerOf c \<noteq> []"
proof -
  let ?n = "length (cInclude c) + length (cExclude c)"
  have n: "?n < 256" using assms(1) by (simp add: normalCone_def legalMembers_def MaxMembers_def)
  have nz: "char_of ?n \<noteq> CHR 0x00" if "cHorizon c = None"
  proof
    assume "char_of ?n = CHR 0x00"
    then have "byteval (char_of ?n) = byteval (CHR 0x00)" by simp
    then have "?n = 0" using n by (simp add: byteval_def)
    then show False using that assms(1) by (auto simp: normalCone_def)
  qed
  show "headerOf c \<noteq> []" by (auto simp: headerOf_def Let_def split: option.split)
  show "(headerOf c @ rest) ! 0 = CHR 0x00 \<longleftrightarrow> flaggedForm c"
    using nz by (auto simp: headerOf_def flaggedForm_def Let_def split: option.split)
  show "parseHeader (headerOf c @ rest) = Inr (cHorizon c, length (headerOf c), ?n)"
  proof (cases "cHorizon c")
    case None
    then show ?thesis using n nz by (auto simp: parseHeader_def headerOf_def Let_def)
  next
    case (Some h)
    then have w: "wfHorizon h" by (rule assms(2))
    then have l: "length (hHash h) = 40 \<or> length (hHash h) = 64" "length (hHash h) < 256" by (auto simp: wfHorizon_def)
    have b: "bslice (headerOf c @ rest) 6 (6 + length (hHash h)) = hHash h"
      by (simp add: headerOf_def Some bslice_def Let_def)
    show ?thesis
      using n l b NewHorizon_self [OF w] by (auto simp: parseHeader_def headerOf_def Some Let_def)
  qed
qed

lemma Parse_Serialize:
  assumes c: "normalCone c" and h: "\<And>h. cHorizon c = Some h \<Longrightarrow> wfHorizon h"
  shows "\<exists>b. Serialize c = Inr b \<and> Parse b = Inr c"
proof -
  let ?f = "flaggedForm c" and ?ms = "eachMember (cInclude c) (cExclude c)" and ?n = "length (cInclude c) + length (cExclude c)"
  let ?d = "headerOf c @ concat (map (writeMember ?f) ?ms)"
  note s = Serialize_normal [OF c] and p = parseHeader_header [OF c h]
  have leg: "legalMembers (cInclude c) (cExclude c)" using c by (simp add: normalCone_def)
  have "m \<noteq> [] \<and> length m < 65536" if "m \<in> set (cInclude c) \<union> set (cExclude c)" for m
  proof -
    have "validMember m" using that leg by (auto simp: legalMembers_def list_all_iff)
    then show ?thesis using validMember_nonempty [of m] by (auto simp: validMember_def MaxMemberLen_def)
  qed
  then have "list_all (\<lambda>(m, ex). m \<noteq> [] \<and> length m < 65536 \<and> (?f \<or> \<not> ex)) ?ms"
    by (auto simp: list_all_iff eachMember_set flaggedForm_def)
  from memberLoop_write [OF this, of "headerOf c" "[]" "[]"]
  have "memberLoop ?d ?f ?n (length (headerOf c)) [] [] = Inr (cInclude c, cExclude c)"
    by (simp add: eachMember_split length_eachMember)
  then have m: "parseMembers ?d (length (headerOf c)) ?n ?f = Inr (cInclude c, cExclude c)"
    using leg by (simp add: parseMembers_def legalMembers_def)
  have nn: "\<not> (?n = 0 \<and> cHorizon c = None)" using c by (auto simp: normalCone_def)
  have "Parse ?d = Inr c"
    unfolding Parse_def using p nn m build_self [OF c] s by auto
  with s show ?thesis by blast
qed

section \<open>Coverage queries on a built cone\<close>

lemma normalCone_nonempty: "normalCone c \<Longrightarrow> nonempty c"
  using validMember_nonempty by (force simp: normalCone_def legalMembers_def nonempty_def list_all_iff)

lemma Covers_normal:
  assumes "normalCone c"
  shows "Covers c p = Inr (cInclude c = [] \<or> covered (coneMap c) p)"
proof -
  have ne: "nearest (coneMap c) p = Some (m, b) \<Longrightarrow> m \<noteq> []" for m b
    using nearest_Some [of "coneMap c" p m b] normalCone_nonempty [OF assms]
    by (auto simp: nonempty_def coneMap_def polarity_Some split: if_splits)
  show ?thesis
    using longestCovering_nearest [OF normalCone_nonempty [OF assms], of p] ne
    by (cases "nearest (coneMap c) p") (auto simp: Covers_def Decide_def pathDense_def covered_def)
qed

lemma covered_include: "covered (coneMap c) p \<Longrightarrow> \<exists>m\<in>set (cInclude c). cov m p"
  using nearest_Some [of "coneMap c" p _ False] by (force simp: covered_def coneMap_def)

lemma cov_interval: "cov m p \<Longrightarrow> m \<le> p \<and> p < m @ ''0''"
proof
  have "x < x @ y # ys" "x @ SLASH # r < x @ ''0''" for x r ys :: bytes and y by (induction x) (auto simp: less_char_def)
  then show "cov m p \<Longrightarrow> p < m @ ''0''" by (auto simp: cov_def)
qed (rule cov_le)

lemma anyInside_ex: "dir \<noteq> [] \<Longrightarrow> anyInside dir ms = Inr (\<exists>m\<in>set ms. cov dir m)"
  by (induction ms) auto

lemma cov_linear: "cov a p \<Longrightarrow> cov b p \<Longrightarrow> cov a b \<or> cov b a"
  using cov_nested [of a p b] cov_nested [of b p a] by linarith

lemma covered_outside:
  assumes "covered M p" "cov d p" "\<And>m. M m = Some False \<Longrightarrow> \<not> cov d m"
  shows "covered M d"
proof -
  obtain m where m: "nearest M p = Some (m, False)" using assms(1) by (auto simp: covered_def)
  note n = nearest_Some [OF m]
  then have md: "cov m d" using cov_linear [of m p d] assms(2,3) by blast
  have "nearest M d = Some (m, False)"
    using n md assms(2) by (intro nearest_eqI) (auto intro: cov_trans)
  then show ?thesis by (simp add: covered_def)
qed

lemma normalizeLoop_no_panic: "loopPre c prev es E \<Longrightarrow> normalizeLoop c prev es \<noteq> Inl (ConePanic msg)"
proof (induction es arbitrary: c prev E)
  case (Cons e es)
  show ?case
  proof (cases "prev \<noteq> None \<and> enPath (the prev) = enPath e")
    case True
    then obtain pr where "prev = Some pr" "enPath pr = enPath e" by auto
    then show ?thesis using Cons.IH [OF loopPre_dup(2)] Cons.prems by (cases "enExclude pr = enExclude e") auto
  next
    case False
    from Cons.prems False show ?thesis by (cases rule: normalize_round) (use Cons.IH in \<open>metis cone_error.distinct sum.inject(1)\<close>)+
  qed
qed simp

lemma validateAll_no_panic: "validateAll ms \<noteq> Inl (ConePanic msg)"
  by (induction ms) (auto simp: bindE_eq_Inl_iff validateMember_def)

lemma MayCover_complete:
  assumes "normalCone c" "cInclude c = [] \<or> covered (coneMap c) p" "first \<le> p" "limit = [] \<or> p < limit"
  shows "MayCover c first limit"
proof (cases "cInclude c = []")
  case False
  then obtain m where m: "m \<in> set (cInclude c)" "cov m p" using assms(2) covered_include by blast
  from cov_interval [OF m(2)] assms(3,4) m(1) show ?thesis by (force simp: MayCover_def list_ex_iff)
qed (simp add: MayCover_def pathDense_def)

lemma IntersectsSubtree_complete:
  assumes "normalCone c" "cInclude c = [] \<or> covered (coneMap c) p" "dir \<noteq> []" "memberCovers dir p = Inr True"
  shows "IntersectsSubtree c dir = Inr True"
proof (cases "cInclude c = [] \<or> covered (coneMap c) dir \<or> (\<exists>m\<in>set (cInclude c). cov dir m)")
  case True
  then show ?thesis using assms(3) Covers_normal [OF assms(1), of dir] anyInside_ex [OF assms(3)]
    by (auto simp: IntersectsSubtree_def pathDense_def)
next
  case False
  then have "covered (coneMap c) dir"
    using assms by (intro covered_outside [of "coneMap c" p dir]) (auto simp: coneMap_def)
  with False show ?thesis by simp
qed

section \<open>Properties\<close>

text \<open>
  Which member lists make a cone: \<^verbatim>\<open>New\<close> succeeds exactly when there is an inclusion, at most 255 members in
  all, every member a valid tracked path that is not reserved, no path of both polarities, and every exclusion
  covered by an inclusion; it never panics.
\<close>

theorem New_accepts_iff:
  "is_ok (New inc exc) = (inc \<noteq> [] \<and> legalMembers inc exc) \<and> New inc exc \<noteq> Inl (ConePanic msg)"
proof
  show "is_ok (New inc exc) = (inc \<noteq> [] \<and> legalMembers inc exc)"
    using build_ok [of inc exc None] build_live [of inc exc None] by (auto simp: New_def is_ok_iff)
  show "New inc exc \<noteq> Inl (ConePanic msg)"
  proof
    assume p: "New inc exc = Inl (ConePanic msg)"
    then have v: "list_all validMember (inc @ exc)" and ne: "inc \<noteq> []"
      using validateAll_no_panic [of "inc @ exc" msg] by (auto simp: New_def build_def bindE_eq_Inl_iff validateAll_iff split: if_splits)
    obtain c where c: "normalize (sort_key enPath (entriesOf inc exc)) = Inr c" "cInclude c = []"
      using p normalizeLoop_no_panic [OF normalize_pre [OF v], of msg] validateAll_no_panic [of "inc @ exc" msg]
      by (auto simp: New_def build_def bindE_eq_Inl_iff normalize_def split: if_splits)
    obtain E where i: "normInv c E"
      and E: "\<forall>m b. E m = Some b \<longleftrightarrow> present (\<lambda>_. None) (sort_key enPath (entriesOf inc exc)) m b"
      using normalizeLoop_ok [OF c(1) [unfolded normalize_def] normalize_pre [OF v]] by blast
    from E have "E m = Some b \<longleftrightarrow> m \<in> set (if b then exc else inc)" for m b
      by (simp only: present_def isEntry_entriesOf option.simps simp_thms)
    from normInv_facts(5) [OF i this v ne] c(2) show False by simp
  qed
qed

text \<open>
  C18. Normalization keeps the coverage: a path is covered by the cone exactly when the longest of the members
  given, not only of those kept, that covers the path is an inclusion; a cone without inclusions has a horizon
  and covers every path.
\<close>

theorem cone_coverage:
  assumes "build inc exc h = Inr c"
  shows "Covers c p = Inr (inc = [] \<or> coversSpec inc exc p)"
  using build_ok [OF assms] Covers_normal [of c p] by simp

lemma cone_coverage_witness:
  "\<exists>c. build [''src'', ''src/a'', ''doc''] [''src/v''] None = Inr c \<and> Covers c ''src/v/x.c'' = Inr False"
proof -
  have b: "build [''src'', ''src/a'', ''doc''] [''src/v''] None =
      Inr \<lparr>cInclude = [''doc'', ''src''], cExclude = [''src/v''], cHorizon = None\<rparr>" by code_simp
  have n: "\<not> coversSpec [''src'', ''src/a'', ''doc''] [''src/v''] ''src/v/x.c''"
    by (simp add: coversSpec_def cov_def)
  show ?thesis using b n cone_coverage [OF b, of "''src/v/x.c''"] by auto
qed

lemma Covers_root:
  assumes "normalCone c"
  shows "Covers c [] = Inr (cInclude c = [])"
proof -
  have "\<not> covered (coneMap c) []"
    using nearest_Some [of "coneMap c" "[]"] normalCone_nonempty [OF assms]
    by (auto simp: covered_def nonempty_def coneMap_def polarity_Some cov_def split: if_splits)
  then show ?thesis by (simp add: Covers_normal [OF assms])
qed

lemma covered_no_include:
  assumes "cInclude c = []"
  shows "\<not> covered (coneMap c) p"
proof
  assume "covered (coneMap c) p"
  then obtain m where "nearest (coneMap c) p = Some (m, False)" by (auto simp: covered_def)
  from nearest_Some [OF this] show False using assms by (auto simp: coneMap_def polarity_Some)
qed

text \<open>
  C7. The serialized form is canonical: two cones built from any members, with or without a horizon, serialize to the
  same bytes exactly when they cover the same paths and have the same horizon.
\<close>

theorem cone_canonical:
  assumes "build inc exc h = Inr c" "build inc' exc' h' = Inr c'"
    and "\<forall>x. h = Some x \<longrightarrow> wfHorizon x" "\<forall>x. h' = Some x \<longrightarrow> wfHorizon x"
  shows "(Serialize c = Serialize c') = (Covers c = Covers c' \<and> h = h')"
proof
  note n = build_ok [OF assms(1)] and n' = build_ok [OF assms(2)]
  assume "Serialize c = Serialize c'"
  then have "c = c'"
    using Parse_Serialize [OF n(2)] Parse_Serialize [OF n'(2)] n(4) n'(4) assms(3,4) by fastforce
  then show "Covers c = Covers c' \<and> h = h'" using n(4) n'(4) by simp
next
  note n = build_ok [OF assms(1)] and n' = build_ok [OF assms(2)]
  assume e: "Covers c = Covers c' \<and> h = h'"
  then have i: "cInclude c = [] \<longleftrightarrow> cInclude c' = []"
    using Covers_root [OF n(2)] Covers_root [OF n'(2)] by simp
  have "covered (coneMap c) p = covered (coneMap c') p" for p
  proof (cases "cInclude c = []")
    case True
    then show ?thesis using i covered_no_include by blast
  next
    case False
    then show ?thesis
      using i e fun_cong [of "Covers c" "Covers c'" p] Covers_normal [OF n(2), of p] Covers_normal [OF n'(2), of p] by simp
  qed
  then have "c = c'" using n n' e by (intro normalCone_eqI ext) auto
  then show "Serialize c = Serialize c'" by simp
qed

lemma cone_canonical_witness:
  "\<exists>c c' c''. build [''a'', ''a/b''] [] None = Inr c \<and> build [''a''] [] None = Inr c' \<and> Serialize c = Serialize c' \<and>
     build [''a''] [''a/b''] None = Inr c'' \<and> Serialize c \<noteq> Serialize c''"
proof -
  have 1: "build [''a'', ''a/b''] [] None = Inr \<lparr>cInclude = [''a''], cExclude = [], cHorizon = None\<rparr>" by code_simp
  have 2: "build [''a''] [] None = Inr \<lparr>cInclude = [''a''], cExclude = [], cHorizon = None\<rparr>" by code_simp
  have 3: "build [''a''] [''a/b''] None = Inr \<lparr>cInclude = [''a''], cExclude = [''a/b''], cHorizon = None\<rparr>" by code_simp
  have "Covers \<lparr>cInclude = [''a''], cExclude = [], cHorizon = None\<rparr> ''a/b'' = Inr True"
    "Covers \<lparr>cInclude = [''a''], cExclude = [''a/b''], cHorizon = None\<rparr> ''a/b'' = Inr False" by code_simp+
  then show ?thesis using 1 2 3 cone_canonical [OF 1 2] cone_canonical [OF 1 3] by auto
qed

text \<open>
  C19. Stored cones are read back exactly, in all three versions of the form: what \<^verbatim>\<open>Serialize\<close> writes for a cone
  built with or without a horizon, \<^verbatim>\<open>Parse\<close> accepts and returns the same cone.
\<close>

theorem cone_roundtrip:
  assumes "build inc exc h = Inr c" "h = None \<or> (\<exists>x r d. NewHorizon x r d = Inr (the h))"
  shows "\<exists>b. Serialize c = Inr b \<and> Parse b = Inr c"
  using Parse_Serialize [OF build_ok(2) [OF assms(1)]] build_ok(4) [OF assms(1)] assms(2) NewHorizon_wf by force

lemma cone_roundtrip_witness:
  "\<exists>hz c b. NewHorizon (replicate 40 (CHR ''A'')) RuleLeaves DepthContent = Inr hz \<and>
     build [''src''] [''src/v''] (Some hz) = Inr c \<and> Serialize c = Inr b \<and> Parse b = Inr c"
proof -
  let ?h = "\<lparr>hHash = replicate 40 (CHR ''a''), hRule = RuleLeaves, hDepth = DepthContent\<rparr>"
  have 1: "NewHorizon (replicate 40 (CHR ''A'')) RuleLeaves DepthContent = Inr ?h" by code_simp
  have 2: "build [''src''] [''src/v''] (Some ?h) = Inr \<lparr>cInclude = [''src''], cExclude = [''src/v''], cHorizon = Some ?h\<rparr>"
    by code_simp
  show ?thesis using cone_roundtrip [OF 2] 1 2 by auto
qed

text \<open>
  C22. Pruning never loses a file: a range of paths or a directory that holds a covered path is reported as one
  that may.
\<close>

theorem prune_conservative:
  assumes "build inc exc h = Inr c" "Covers c p = Inr True"
    and "first \<le> p" "limit = [] \<or> p < limit" and "dir \<noteq> []" "memberCovers dir p = Inr True"
  shows "MayCover c first limit \<and> IntersectsSubtree c dir = Inr True"
proof -
  note n = build_ok(2) [OF assms(1)]
  have "cInclude c = [] \<or> covered (coneMap c) p" using Covers_normal [OF n, of p] assms(2) by simp
  then show ?thesis using MayCover_complete [OF n _ assms(3,4)] IntersectsSubtree_complete [OF n _ assms(5,6)] by blast
qed

lemma prune_conservative_witness:
  "\<exists>c. build [''src/v''] [] None = Inr c \<and> MayCover c ''src'' ''src/w'' \<and> IntersectsSubtree c ''src'' = Inr True"
proof -
  let ?c = "\<lparr>cInclude = [''src/v''], cExclude = [], cHorizon = None\<rparr>"
  have 1: "build [''src/v''] [] None = Inr ?c" by code_simp
  have 2: "Covers ?c ''src/v/x'' = Inr True" by code_simp
  have 3: "''src'' \<le> ''src/v/x''" "''src/v/x'' < ''src/w''" by code_simp+
  have 4: "memberCovers ''src'' ''src/v/x'' = Inr True" by code_simp
  show ?thesis using prune_conservative [OF 1 2 3(1) _ _ 4, of "''src/w''"] 1 3(2) by auto
qed

end
