(* ===== verification/Hash.thy ===== *)
theory Hash
  imports Timestamp
begin

text \<open>
  Artifact names, \<^verbatim>\<open>src/internal/hash\<close>: SHA-1 as FIPS 180-4 defines it (what \<^verbatim>\<open>crypto/sha1\<close> computes),
  the name checks, and the hash policy that decides which algorithm names a new artifact.  SHA-3 comes from a
  third-party package and is the parameter \<open>sha3\<close>.  The repository is seen through the two tables the policy
  reads: the \<^verbatim>\<open>hash-policy\<close> row of \<^verbatim>\<open>config\<close> and the names in \<^verbatim>\<open>blob\<close>.  A panic is its message,
  as the left result.
\<close>

unbundle bit_operations_syntax

section \<open>SHA-1\<close>

definition beWord :: "bytes \<Rightarrow> w32" where
  "beWord bs = of_nat (foldl (\<lambda>v c. 256 * v + byteval c) 0 bs)"

definition beBytes :: "nat \<Rightarrow> nat \<Rightarrow> bytes" where
  "beBytes k v = rev (leBytes k v)"

definition sha1Pad :: "bytes \<Rightarrow> bytes" where
  "sha1Pad msg = msg @ CHR 0x80 # replicate ((119 - length msg mod 64) mod 64) (CHR 0x00) @ beBytes 8 (8 * length msg)"

text \<open>The schedule: each round takes the head of the sixteen-word window and appends the next word.\<close>

definition sha1Expand :: "w32 list \<Rightarrow> w32 list" where
  "sha1Expand w = List.tl w @ [rotl 1 (w ! 13 XOR w ! 8 XOR w ! 2 XOR w ! 0)]"

type_synonym sha1state = "w32 \<times> w32 \<times> w32 \<times> w32 \<times> w32"

definition sha1Step :: "sha1state \<times> w32 list \<Rightarrow> nat \<Rightarrow> sha1state \<times> w32 list" where
  "sha1Step sw i =
     (case sw of ((a, b, c, d, e), w) \<Rightarrow>
      let (f, k) = (if i < 20 then ((b AND c) OR (NOT b AND d), 0x5A827999)
                    else if i < 40 then (b XOR c XOR d, 0x6ED9EBA1)
                    else if i < 60 then ((b AND c) OR (b AND d) OR (c AND d), 0x8F1BBCDC)
                    else (b XOR c XOR d, 0xCA62C1D6))
      in ((rotl 5 a + f + e + k + w ! 0, a, rotl 30 b, c, d), sha1Expand w))"

definition sha1Block :: "sha1state \<Rightarrow> bytes \<Rightarrow> sha1state" where
  "sha1Block st blk =
     (case (st, fst (foldl sha1Step (st, map beWord (chunks 4 blk)) [0..<80])) of
       ((a, b, c, d, e), (a', b', c', d', e')) \<Rightarrow> (a + a', b + b', c + c', d + d', e + e'))"

definition sha1Sum :: "bytes \<Rightarrow> bytes" where
  "sha1Sum msg =
     (case foldl sha1Block (0x67452301, 0xEFCDAB89, 0x98BADCFE, 0x10325476, 0xC3D2E1F0) (chunks 64 (sha1Pad msg)) of
       (a, b, c, d, e) \<Rightarrow> concat (map (\<lambda>x. beBytes 4 (unat x)) [a, b, c, d, e]))"

definition sha1Hex :: "bytes \<Rightarrow> bytes" where
  "sha1Hex data = hexEncode (sha1Sum data)"

section \<open>Names\<close>

definition SHA1 :: "bytes option \<Rightarrow> string + bytes" where
  "SHA1 data = (case data of None \<Rightarrow> Inl ''hash.SHA1: data must not be nil'' | Some d \<Rightarrow> Inr (sha1Hex d))"

definition SHA3 :: "(bytes \<Rightarrow> bytes) \<Rightarrow> bytes option \<Rightarrow> string + bytes" where
  "SHA3 sha3 data = (case data of None \<Rightarrow> Inl ''hash.SHA3: data must not be nil'' | Some d \<Rightarrow> Inr (hexEncode (sha3 d)))"

definition HashSize :: "bytes \<Rightarrow> string + nat" where
  "HashSize hashType =
     (if hashType = [] then Inl ''hash.HashSize: hashType must not be empty''
      else if hashType = ''sha1'' then Inr (20 * 2)
      else if hashType = ''sha3'' then Inr 64
      else Inr 0)"

definition ContentHash :: "(bytes \<Rightarrow> bytes) \<Rightarrow> bytes option \<Rightarrow> bytes \<Rightarrow> string + bytes" where
  "ContentHash sha3 content referenceHash =
     (if content = None then Inl ''hash.ContentHash: content must not be nil''
      else if referenceHash = [] then Inl ''hash.ContentHash: referenceHash must not be empty''
      else if length referenceHash > 40 then SHA3 sha3 content
      else SHA1 content)"

definition IsValidHash :: "bytes \<Rightarrow> string + bool" where
  "IsValidHash h =
     (if h = [] then Inl ''hash.IsValidHash: h must not be empty''
      else if length h \<noteq> 40 \<and> length h \<noteq> 64 then Inr False
      else Inr (list_all isLowerHex h))"

section \<open>Integers as \<^verbatim>\<open>strconv\<close> reads and \<^verbatim>\<open>fmt\<close> writes them\<close>

definition isDecimal :: "bytes \<Rightarrow> bool" where
  "isDecimal s \<longleftrightarrow> s \<noteq> [] \<and> list_all isDigit s"

text \<open>
  \<^verbatim>\<open>strconv.ParseInt(s, 10, 64)\<close>, which \<^verbatim>\<open>strconv.Atoi\<close> equals on a 64-bit platform: an optional sign and decimal
  digits, \<open>None\<close> on a syntax or range error.  On a range error Go also returns the nearest bound, which \<open>atoiValue\<close>
  gives.
\<close>

definition signedValue :: "bytes \<Rightarrow> int option" where
  "signedValue s =
     (let d = stripSign s in
      if \<not> isDecimal d then None
      else Some (if hd s = CHR ''-'' then - int (digitsVal d) else int (digitsVal d)))"

definition parseInt64 :: "bytes \<Rightarrow> int option" where
  "parseInt64 s =
     (case signedValue s of None \<Rightarrow> None
      | Some v \<Rightarrow> if - (2 ^ 63) \<le> v \<and> v < 2 ^ 63 then Some v else None)"

definition atoiValue :: "bytes \<Rightarrow> int" where
  "atoiValue s = (case signedValue s of None \<Rightarrow> 0 | Some v \<Rightarrow> max (- (2 ^ 63)) (min (2 ^ 63 - 1) v))"

definition intDecimal :: "int \<Rightarrow> bytes" where
  "intDecimal z = (if z < 0 then CHR ''-'' # decimal (nat (- z)) else decimal (nat z))"

section \<open>The hash policy\<close>

datatype Alg = AlgSHA1 | AlgSHA3

definition algHash :: "(bytes \<Rightarrow> bytes) \<Rightarrow> Alg \<Rightarrow> bytes option \<Rightarrow> string + bytes" where
  "algHash sha3 a content =
     (let c = (case content of None \<Rightarrow> Some [] | Some x \<Rightarrow> Some x) in
      if a = AlgSHA3 then SHA3 sha3 c else SHA1 c)"

definition Other :: "Alg \<Rightarrow> Alg" where
  "Other a = (if a = AlgSHA3 then AlgSHA1 else AlgSHA3)"

definition algString :: "Alg \<Rightarrow> bytes" where
  "algString a = (if a = AlgSHA3 then ''sha3'' else ''sha1'')"

record Naming =
  nNew :: Alg
  nReuseLegacy :: bool

definition HashPolicySHA1 :: int where "HashPolicySHA1 = 0"
definition HashPolicyAuto :: int where "HashPolicyAuto = 1"
definition HashPolicySHA3 :: int where "HashPolicySHA3 = 2"
definition HashPolicySHA3Only :: int where "HashPolicySHA3Only = 3"
definition HashPolicyShunSHA1 :: int where "HashPolicyShunSHA1 = 4"

definition sha1Len :: nat where "sha1Len = 40"

record repoNames =
  policyRow :: "bytes option"
  blobNames :: "bytes list"

definition hasSHA3Artifact :: "repoNames \<Rightarrow> bool" where
  "hasSHA3Artifact q = list_ex (\<lambda>u. sha1Len < length u) (blobNames q)"

definition hasSHA1Artifact :: "repoNames \<Rightarrow> bool" where
  "hasSHA1Artifact q = list_ex (\<lambda>u. length u = sha1Len) (blobNames q)"

datatype hash_error = BadPolicy bytes | UnknownPolicy bytes

definition policyFor :: "repoNames \<Rightarrow> hash_error + int \<times> bool" where
  "policyFor q =
     (case policyRow q of
        Some raw \<Rightarrow>
          (case parseInt64 raw of
             None \<Rightarrow> Inl (BadPolicy raw)
           | Some n \<Rightarrow> if n < HashPolicySHA1 \<or> n > HashPolicyShunSHA1 then Inl (BadPolicy raw) else Inr (n, True))
      | None \<Rightarrow>
          if hasSHA3Artifact q \<or> \<not> hasSHA1Artifact q then Inr (HashPolicySHA3, False)
          else Inr (HashPolicyAuto, False))"

definition effectivePolicy :: "repoNames \<Rightarrow> hash_error + int" where
  "effectivePolicy q = bindE (policyFor q) (\<lambda>(policy, _). Inr policy)"

definition NamingFor :: "repoNames \<Rightarrow> hash_error + Naming" where
  "NamingFor q =
     bindE (policyFor q) (\<lambda>(policy, fromRow).
       Inr \<lparr>nNew = (if policy \<ge> HashPolicySHA3 then AlgSHA3
                     else if policy = HashPolicyAuto \<and> fromRow \<and> hasSHA3Artifact q then AlgSHA3
                     else AlgSHA1),
            nReuseLegacy = policy < HashPolicySHA3Only\<rparr>)"

definition policyNames :: "bytes list" where
  "policyNames = [''sha1'', ''auto'', ''sha3'', ''sha3-only'', ''shun-sha1'']"

fun policyIndex :: "bytes \<Rightarrow> int \<Rightarrow> bytes list \<Rightarrow> hash_error + int" where
  "policyIndex name ordinal [] = Inl (UnknownPolicy name)"
| "policyIndex name ordinal (known # rest) = (if name = known then Inr ordinal else policyIndex name (ordinal + 1) rest)"

definition PolicyByName :: "bytes \<Rightarrow> hash_error + int" where
  "PolicyByName name = policyIndex name 0 policyNames"

definition PromoteFor :: "repoNames \<Rightarrow> bytes \<Rightarrow> hash_error + repoNames" where
  "PromoteFor q uuid =
     (if length uuid \<le> sha1Len then Inr q
      else bindE (effectivePolicy q) (\<lambda>policy.
        if policy \<noteq> HashPolicyAuto then Inr q
        else Inr (q\<lparr>policyRow := Some (intDecimal HashPolicySHA3)\<rparr>)))"

section \<open>How naming evolves\<close>

text \<open>
  An artifact enters the repository: \<^verbatim>\<open>PromoteFor\<close> runs first, then the name is in the blob table.
\<close>

inductive arrival :: "repoNames \<Rightarrow> repoNames \<Rightarrow> bool" where
  arrive: "PromoteFor q uuid = Inr q' \<Longrightarrow> arrival q (q'\<lparr>blobNames := uuid # blobNames q'\<rparr>)"

inductive_cases arrivalE: "arrival q r"

definition settled :: "bool \<Rightarrow> repoNames \<Rightarrow> bool" where
  "settled reuse q \<longleftrightarrow> NamingFor q = Inr \<lparr>nNew = AlgSHA3, nReuseLegacy = reuse\<rparr> \<and> (policyRow q \<noteq> None \<or> hasSHA3Artifact q)"

lemma parse_two: "parseInt64 (intDecimal HashPolicySHA3) = Some 2"
  by code_simp

lemmas policy_defs = HashPolicySHA1_def HashPolicyAuto_def HashPolicySHA3_def HashPolicySHA3Only_def HashPolicyShunSHA1_def

lemma PromoteFor_cases:
  assumes "PromoteFor q uuid = Inr q'"
  obtains "q' = q" "length uuid \<le> sha1Len \<or> effectivePolicy q \<noteq> Inr HashPolicyAuto"
  | "q' = q\<lparr>policyRow := Some (intDecimal HashPolicySHA3)\<rparr>" "effectivePolicy q = Inr HashPolicyAuto" "sha1Len < length uuid"
  using assms by (auto simp: PromoteFor_def bindE_eq_Inr_iff not_le split: if_splits)

lemma hasSHA3_insert: "hasSHA3Artifact (q\<lparr>blobNames := uuid # ns\<rparr>) \<longleftrightarrow> sha1Len < length uuid \<or> list_ex (\<lambda>u. sha1Len < length u) ns"
  by (simp add: hasSHA3Artifact_def)

lemma settled_policy:
  assumes "settled reuse q"
  shows "\<exists>p fr. policyFor q = Inr (p, fr) \<and> reuse = (p < 3) \<and> (2 \<le> p \<or> p = 1 \<and> fr \<and> hasSHA3Artifact q)"
  using assms by (auto simp: settled_def NamingFor_def bindE_eq_Inr_iff policy_defs split: if_splits)

lemma policyFor_row: "policyRow q \<noteq> None \<Longrightarrow> policyFor (q\<lparr>blobNames := ns\<rparr>) = policyFor q"
  by (auto simp: policyFor_def)

lemma policyFor_no_row: "policyRow q = None \<Longrightarrow> hasSHA3Artifact q \<Longrightarrow> policyFor q = Inr (2, False)"
  by (simp add: policyFor_def policy_defs)

lemma settled_step: "arrival q r \<Longrightarrow> settled reuse q \<Longrightarrow> settled reuse r"
proof (elim arrivalE)
  fix uuid q' assume s: "settled reuse q" and r: "r = q'\<lparr>blobNames := uuid # blobNames q'\<rparr>" and p: "PromoteFor q uuid = Inr q'"
  obtain k fr where k: "policyFor q = Inr (k, fr)" "reuse = (k < 3)" "2 \<le> k \<or> k = 1 \<and> fr \<and> hasSHA3Artifact q"
    using settled_policy [OF s] by blast
  from p show "settled reuse r"
  proof (cases rule: PromoteFor_cases)
    case 1
    have h: "hasSHA3Artifact q \<Longrightarrow> hasSHA3Artifact r" using r 1 by (simp add: hasSHA3_insert hasSHA3Artifact_def)
    have "policyFor r = Inr (k, fr)"
    proof (cases "policyRow q")
      case None
      then have "hasSHA3Artifact q" using s by (simp add: settled_def)
      then show ?thesis using policyFor_no_row [of q] policyFor_no_row [of r] None h r 1 k(1) by simp
    next
      case (Some raw)
      then show ?thesis using policyFor_row [of q] r 1 k(1) by simp
    qed
    then show ?thesis using k h s r 1 by (auto simp: settled_def NamingFor_def policy_defs)
  next
    case 2
    have "policyFor r = Inr (2, True)" using 2 r parse_two by (simp add: policyFor_def policy_defs)
    moreover have "k = 1" using 2(2) k(1) by (simp add: effectivePolicy_def policy_defs)
    ultimately show ?thesis using k(2) r 2 by (auto simp: settled_def NamingFor_def policy_defs)
  qed
qed

text \<open>
  C30. Naming moves to SHA3 and stays there: from a repository that has a policy row or a SHA3 artifact and names
  new artifacts with SHA3, any number of arrivals leads to one that still does, with the same rule for legacy
  names; and under the auto policy the arrival of a SHA3-named artifact makes the promotion durable.
\<close>

theorem naming_settles:
  assumes "arrival\<^sup>*\<^sup>* q r" "NamingFor q = Inr n" "nNew n = AlgSHA3" "policyRow q \<noteq> None \<or> hasSHA3Artifact q"
    and "effectivePolicy a = Inr HashPolicyAuto" "sha1Len < length uuid"
  shows "NamingFor r = Inr n \<and> (\<exists>a'. PromoteFor a uuid = Inr a' \<and> effectivePolicy a' = Inr HashPolicySHA3)"
proof
  have n: "n = \<lparr>nNew = AlgSHA3, nReuseLegacy = nReuseLegacy n\<rparr>" using assms(3) by (cases n) simp
  then have "settled (nReuseLegacy n) q" using assms(2,4) by (simp add: settled_def)
  with assms(1) have "settled (nReuseLegacy n) r" by (induction rule: rtranclp_induct) (auto intro: settled_step)
  then show "NamingFor r = Inr n" using n by (simp add: settled_def)
  show "\<exists>a'. PromoteFor a uuid = Inr a' \<and> effectivePolicy a' = Inr HashPolicySHA3"
    using assms(5,6) parse_two by (simp add: PromoteFor_def effectivePolicy_def policyFor_def policy_defs)
qed

text \<open>The witness: under the auto policy with a SHA3 artifact, a SHA1 name arrives and then another SHA3 name.\<close>

lemma naming_settles_witness:
  "\<exists>r. arrival\<^sup>*\<^sup>* \<lparr>policyRow = Some ''1'', blobNames = [replicate 64 (CHR ''a'')]\<rparr> r \<and>
     blobNames r = [replicate 64 (CHR ''c''), replicate 40 (CHR ''b''), replicate 64 (CHR ''a'')] \<and>
     policyRow r = Some ''2'' \<and> NamingFor r = Inr \<lparr>nNew = AlgSHA3, nReuseLegacy = True\<rparr>"
proof -
  let ?u = "replicate 64 (CHR ''c'')" and ?v = "replicate 40 (CHR ''b'')" and ?a = "replicate 64 (CHR ''a'')"
  let ?q = "\<lparr>policyRow = Some ''1'', blobNames = [?a]\<rparr>"
  let ?m = "\<lparr>policyRow = Some ''1'', blobNames = [?v, ?a]\<rparr>" and ?r = "\<lparr>policyRow = Some ''2'', blobNames = [?u, ?v, ?a]\<rparr>"
  have "PromoteFor ?q ?v = Inr ?q" "PromoteFor ?m ?u = Inr \<lparr>policyRow = Some ''2'', blobNames = [?v, ?a]\<rparr>" by code_simp+
  then have "arrival ?q ?m" "arrival ?m ?r" using arrive [of ?q ?v] arrive [of ?m ?u] by fastforce+
  then have r: "arrival\<^sup>*\<^sup>* ?q ?r" by (meson converse_rtranclp_into_rtranclp r_into_rtranclp)
  have 1: "NamingFor ?q = Inr \<lparr>nNew = AlgSHA3, nReuseLegacy = True\<rparr>" by code_simp
  have 2: "effectivePolicy ?q = Inr HashPolicyAuto" "sha1Len < length ?u" by code_simp+
  have "NamingFor ?r = Inr \<lparr>nNew = AlgSHA3, nReuseLegacy = True\<rparr>" using naming_settles [OF r 1 _ _ 2] by simp
  with r show ?thesis by (intro exI [of _ ?r]) simp
qed

section \<open>Names of content\<close>

lemma length_sha1Hex [simp]: "length (sha1Hex d) = 40"
  by (simp add: sha1Hex_def sha1Sum_def beBytes_def split: prod.splits)

lemma sha1Hex_nonempty [simp]: "sha1Hex d \<noteq> []"
  using length_sha1Hex [of d] by (metis list.size(3) zero_neq_numeral)

text \<open>
  A name made with either algorithm is a valid artifact name of the size promised for it, and content is re-hashed
  with the algorithm its reference name was made with.
\<close>

lemma content_names:
  assumes "\<And>d. length (sha3 d) = 32"
  shows "\<exists>h. algHash sha3 a (Some d) = Inr h \<and> HashSize (algString a) = Inr (length h) \<and> IsValidHash h = Inr True \<and>
    (\<forall>d'. ContentHash sha3 (Some d') h = algHash sha3 a (Some d'))"
proof -
  have "list_all isLowerHex (sha1Hex d)" by (simp add: sha1Hex_def hexEncode_lower)
  moreover have "length (hexEncode (sha3 d)) = 64" by (simp add: assms)
  moreover from this have "hexEncode (sha3 d) \<noteq> []" by (metis list.size(3) zero_neq_numeral)
  ultimately show ?thesis
    by (cases a) (auto simp: algHash_def SHA1_def SHA3_def HashSize_def IsValidHash_def ContentHash_def algString_def hexEncode_lower)
qed

end
