(* ===== verification/Go_Strings.thy ===== *)
theory Go_Strings
  imports Hash
begin

text \<open>
  What the code uses of Go's \<^verbatim>\<open>strings\<close>, \<^verbatim>\<open>unicode\<close> and \<^verbatim>\<open>net/url\<close> packages beyond bytes: a string as
  its runes, \<^verbatim>\<open>unicode.IsSpace\<close>, \<^verbatim>\<open>strings.TrimSpace\<close>, \<^verbatim>\<open>strings.Fields\<close>, \<^verbatim>\<open>strings.EqualFold\<close> against
  an ASCII word, and query escaping.
\<close>

section \<open>Runes\<close>

text \<open>The runes of a string, each with the bytes it was decoded from.\<close>

function runes :: "bytes \<Rightarrow> (nat \<times> bytes) list" where
  "runes s = (if s = [] then [] else
     case decodeRune s of (r, w) \<Rightarrow> (r, take w s) # (if w = 0 then [] else runes (drop w s)))"
  by auto

termination
  by (relation "measure length") auto

declare runes.simps [simp del]

definition isSpaceRune :: "nat \<Rightarrow> bool" where
  "isSpaceRune r \<longleftrightarrow> (0x09 \<le> r \<and> r \<le> 0x0D) \<or> r = 0x20 \<or> r = 0x85 \<or> r = 0xA0 \<or> r = 0x1680 \<or>
     (0x2000 \<le> r \<and> r \<le> 0x200A) \<or> r = 0x2028 \<or> r = 0x2029 \<or> r = 0x202F \<or> r = 0x205F \<or> r = 0x3000"

definition TrimSpace :: "bytes \<Rightarrow> bytes" where
  "TrimSpace s = concat (map snd (rev (dropWhile (isSpaceRune \<circ> fst) (rev (dropWhile (isSpaceRune \<circ> fst) (runes s))))))"

fun fieldsLoop :: "bytes \<Rightarrow> (nat \<times> bytes) list \<Rightarrow> bytes list" where
  "fieldsLoop cur [] = (if cur = [] then [] else [cur])"
| "fieldsLoop cur ((r, b) # rs) =
     (if isSpaceRune r then (if cur = [] then fieldsLoop [] rs else cur # fieldsLoop [] rs)
      else fieldsLoop (cur @ b) rs)"

definition Fields :: "bytes \<Rightarrow> bytes list" where
  "Fields s = fieldsLoop [] (runes s)"

text \<open>
  The representative of a rune's folding orbit, for orbits that meet ASCII: the letters, the long s and the
  Kelvin sign.
\<close>

definition foldRune :: "nat \<Rightarrow> nat" where
  "foldRune r = (if 65 \<le> r \<and> r \<le> 90 then r + 32 else if r = 0x17F then 115 else if r = 0x212A then 107 else r)"

definition EqualFoldASCII :: "bytes \<Rightarrow> bytes \<Rightarrow> bool" where
  "EqualFoldASCII s t \<longleftrightarrow> map (foldRune \<circ> fst) (runes s) = map (foldRune \<circ> fst) (runes t)"

section \<open>Query escaping\<close>

definition upperHexDigit :: "nat \<Rightarrow> byte" where
  "upperHexDigit n = (if n < 10 then char_of (48 + n) else char_of (55 + n))"

definition isUnreserved :: "byte \<Rightarrow> bool" where
  "isUnreserved c \<longleftrightarrow> (CHR ''a'' \<le> c \<and> c \<le> CHR ''z'') \<or> (CHR ''A'' \<le> c \<and> c \<le> CHR ''Z'') \<or> isDigit c \<or>
     c = CHR ''-'' \<or> c = CHR ''_'' \<or> c = CHR ''.'' \<or> c = CHR ''~''"

definition escapeByte :: "byte \<Rightarrow> bytes" where
  "escapeByte c =
     (if isUnreserved c then [c]
      else if c = SP then ''+''
      else [CHR ''%'', upperHexDigit (byteval c div 16), upperHexDigit (byteval c mod 16)])"

definition QueryEscape :: "bytes \<Rightarrow> bytes" where
  "QueryEscape s = concat (map escapeByte s)"

definition hexValue :: "byte \<Rightarrow> nat" where
  "hexValue c =
     (if isDigit c then byteval c - 48
      else if CHR ''a'' \<le> c \<and> c \<le> CHR ''f'' then byteval c - 87
      else byteval c - 55)"

fun QueryUnescape :: "bytes \<Rightarrow> bytes option" where
  "QueryUnescape [] = Some []"
| "QueryUnescape (c # s) =
     (if c = CHR ''%'' then
        (case s of h # l # s' \<Rightarrow>
           (if isHexDigit h \<and> isHexDigit l
            then map_option (\<lambda>r. char_of (16 * hexValue h + hexValue l) # r) (QueryUnescape s')
            else None)
         | _ \<Rightarrow> None)
      else map_option (\<lambda>r. (if c = CHR ''+'' then SP else c) # r) (QueryUnescape s))"

lemma nibble_table: "\<forall>n\<in>{0..<16}. isHexDigit (upperHexDigit n) \<and> hexValue (upperHexDigit n) = n"
  by code_simp

lemma unreserved_table: "\<forall>c. isUnreserved c \<le> (c \<noteq> CHR ''%'' \<and> c \<noteq> CHR ''+'')"
  by code_simp

lemma QueryUnescape_escapeByte: "QueryUnescape (escapeByte c @ r) = map_option (\<lambda>s. c # s) (QueryUnescape r)"
proof -
  have lt: "byteval c < 256" by (simp add: byteval_def)
  then have "byteval c div 16 < 16" by (simp add: div_less_iff_less_mult)
  then have n: "isHexDigit (upperHexDigit (byteval c div 16))" "hexValue (upperHexDigit (byteval c div 16)) = byteval c div 16"
    "isHexDigit (upperHexDigit (byteval c mod 16))" "hexValue (upperHexDigit (byteval c mod 16)) = byteval c mod 16"
    using nibble_table by auto
  have "char_of (16 * (byteval c div 16) + byteval c mod 16) = c" by (simp add: byteval_def)
  then show ?thesis
    using n spec [OF unreserved_table, of c] by (auto simp: escapeByte_def)
qed

lemma QueryUnescape_QueryEscape: "QueryUnescape (QueryEscape s) = Some s"
  by (induction s) (auto simp: QueryEscape_def QueryUnescape_escapeByte)

section \<open>ASCII strings\<close>

definition isASCII :: "bytes \<Rightarrow> bool" where
  "isASCII s \<longleftrightarrow> list_all (\<lambda>c. byteval c < 128) s"

lemma decodeRune_ASCII: "byteval c < 128 \<Longrightarrow> decodeRune (c # s) = (byteval c, 1)"
  by (simp add: decodeRune_def runeWidth_def)

lemma runes_ASCII: "isASCII s \<Longrightarrow> runes s = map (\<lambda>c. (byteval c, [c])) s"
  by (induction s) (auto simp: runes.simps [of "_ # _"] runes.simps [of "[]"] isASCII_def decodeRune_ASCII)

end
