(* ===== verification/Xfer.thy ===== *)
theory Xfer
  imports Go_Strings
begin

text \<open>
  The card codec of the sync protocol, \<^verbatim>\<open>src/internal/xfer\<close>: the cards of \<^verbatim>\<open>card.go\<close> and
  \<^verbatim>\<open>card_tablesync.go\<close>, the decoder of \<^verbatim>\<open>decode.go\<close>, the encoder of \<^verbatim>\<open>encode.go\<close>, the message container of
  \<^verbatim>\<open>message.go\<close> and the login cookie of \<^verbatim>\<open>login_cookie.go\<close>.  A buffered reader over the message is the list of
  the bytes not yet read, so the only read error is the end of input.  The zlib implementation is the
  parameter \<open>zl\<close>: \<open>zDeflate\<close> is what the writer produces, \<open>zInflate\<close> is \<open>None\<close> when \<^verbatim>\<open>NewReader\<close> refuses the
  header, and otherwise the bytes the reader yields with a flag saying whether it then reports a clean end.
  A nil \<^verbatim>\<open>Content\<close> is the empty list, which every use treats the same.
\<close>

record zlib =
  zDeflate :: "bytes \<Rightarrow> bytes"
  zInflate :: "bytes \<Rightarrow> (bytes \<times> bool) option"

datatype xfer_error =
    XError string "bytes list"
  | XWrap string "bytes list" xfer_error
  | ReadPayloadEOF
  | XPanic string

section \<open>Cards\<close>

datatype Card =
    FileCard (fcUUID: bytes) (fcDeltaSrc: bytes) (fcContent: bytes)
  | CFileCard (cfUUID: bytes) (cfDeltaSrc: bytes) (cfUSize: nat) (cfContent: bytes) (cfStoredBlob: "bytes option")
  | IGotCard bytes bool
  | GimmeCard bytes
  | LoginCard (lcUser: bytes) (lcNonce: bytes) (lcSignature: bytes) (lcTailSHA1: bytes)
  | CommentCard bytes
  | PushCard bytes bytes
  | PullCard bytes bytes
  | CookieCard bytes
  | CloneCard int int bool
  | CloneSeqNoCard int bytes
  | ConfigCard bytes bytes
  | ReqConfigCard bytes
  | PrivateCard
  | UVFileCard (uvName: bytes) (uvMTime: int) (uvHash: bytes) (uvSize: int) (uvFlags: int) (uvContent: bytes)
  | UVGimmeCard bytes
  | UVIGotCard bytes int bytes int
  | PragmaCard bytes "bytes list"
  | ErrorCard bytes bytes
  | MessageCard bytes bytes
  | UnknownCard bytes "bytes list" bytes
  | BadCommandCard bytes
  | BadFileCard bytes
  | SchemaCard bytes int bytes int bytes
  | XIGotCard bytes bytes int
  | XGimmeCard bytes bytes
  | XRowCard bytes bytes int bytes
  | XDeleteCard bytes bytes int bytes

fun cardType :: "Card \<Rightarrow> nat" where
  "cardType (FileCard _ _ _) = 0" | "cardType (CFileCard _ _ _ _ _) = 1" | "cardType (IGotCard _ _) = 2"
| "cardType (GimmeCard _) = 3" | "cardType (LoginCard _ _ _ _) = 4" | "cardType (PushCard _ _) = 5"
| "cardType (PullCard _ _) = 6" | "cardType (CookieCard _) = 7" | "cardType (CloneCard _ _ _) = 8"
| "cardType (CloneSeqNoCard _ _) = 9" | "cardType (ConfigCard _ _) = 10" | "cardType (ReqConfigCard _) = 11"
| "cardType PrivateCard = 12" | "cardType (UVFileCard _ _ _ _ _ _) = 13" | "cardType (UVGimmeCard _) = 14"
| "cardType (UVIGotCard _ _ _ _) = 15" | "cardType (PragmaCard _ _) = 16" | "cardType (ErrorCard _ _) = 17"
| "cardType (MessageCard _ _) = 18" | "cardType (UnknownCard _ _ _) = 19" | "cardType (SchemaCard _ _ _ _ _) = 20"
| "cardType (XIGotCard _ _ _) = 21" | "cardType (XGimmeCard _ _) = 22" | "cardType (XRowCard _ _ _ _) = 23"
| "cardType (XDeleteCard _ _ _ _) = 24" | "cardType (CommentCard _) = 25" | "cardType (BadCommandCard _) = 26"
| "cardType (BadFileCard _) = 27"

definition NonceCoversTail :: "Card \<Rightarrow> bool" where
  "NonceCoversTail c \<longleftrightarrow> lcTailSHA1 c \<noteq> [] \<and> lcNonce c = lcTailSHA1 c"

section \<open>Reading sizes and payloads\<close>

definition maxPayloadSize :: nat where "maxPayloadSize = 2 ^ 31 - 1"
definition payloadChunk :: nat where "payloadChunk = 65536"
definition MaxDecompressedBytes :: nat where "MaxDecompressedBytes = 67108864"
definition MaxBodyBytes :: nat where "MaxBodyBytes = MaxDecompressedBytes + 1048576"
definition MaxCFileInflateBytes :: nat where "MaxCFileInflateBytes = 1073741824"

definition parseSize :: "bytes \<Rightarrow> xfer_error + nat" where
  "parseSize tok =
     (if \<not> isDecimal tok then Inl (XError ''%q is not a decimal'' [tok])
      else case parseInt64 tok of
             None \<Rightarrow> Inl (XError ''%q exceeds %d'' [tok, decimal maxPayloadSize])
           | Some n \<Rightarrow> if n > int maxPayloadSize then Inl (XError ''%q exceeds %d'' [tok, decimal maxPayloadSize])
                       else Inr (nat n))"

definition readPayload :: "bytes \<Rightarrow> nat \<Rightarrow> xfer_error + bytes \<times> bytes" where
  "readPayload rest n =
     (if n > maxPayloadSize then Inl (XPanic ''xfer.readPayload: size out of range'')
      else if length rest < n then Inl ReadPayloadEOF
      else Inr (take n rest, drop n rest))"

text \<open>
  The same read as the code does it, in a buffer of capacity \<open>c\<close> that \<^verbatim>\<open>slices.Grow\<close> enlarges: \<open>grow c need\<close> is
  the new capacity, at least \<open>need\<close>.  The result is paired with the capacity last held.  A round that reads
  nothing would not end in Go; it is a panic here, and the equivalence below shows it is not reached.
\<close>

function readPayloadLoop :: "(nat \<Rightarrow> nat \<Rightarrow> nat) \<Rightarrow> nat \<Rightarrow> bytes \<Rightarrow> nat \<Rightarrow> bytes \<Rightarrow> (xfer_error + bytes \<times> bytes) \<times> nat" where
  "readPayloadLoop grow n buf c rest =
     (if n \<le> length buf then (Inr (buf, rest), c)
      else let c' = (if length buf = c then max (min n (2 * c)) (grow c (min n (2 * c))) else c);
               want = min n c' - length buf in
           if want = 0 then (Inl (XPanic ''no progress''), c')
           else if length rest < want then (Inl ReadPayloadEOF, c')
           else readPayloadLoop grow n (buf @ take want rest) c' (drop want rest))"
  by auto

termination
proof (relation "measure (\<lambda>(grow, n, buf, c, rest). n - length buf)", simp, simp only: in_measure prod.case)
  fix n :: nat and buf rest :: bytes and want
  show "\<not> n \<le> length buf \<Longrightarrow> want \<noteq> 0 \<Longrightarrow> \<not> length rest < want \<Longrightarrow> n - length (buf @ take want rest) < n - length buf"
    by (simp add: not_le not_less)
qed

declare readPayloadLoop.simps [simp del]

definition readPayloadBuffered :: "(nat \<Rightarrow> nat \<Rightarrow> nat) \<Rightarrow> bytes \<Rightarrow> nat \<Rightarrow> (xfer_error + bytes \<times> bytes) \<times> nat" where
  "readPayloadBuffered grow rest n =
     (if n > maxPayloadSize then (Inl (XPanic ''xfer.readPayload: size out of range''), 0)
      else readPayloadLoop grow n [] (min n payloadChunk) rest)"

definition cutShort :: "xfer_error \<Rightarrow> bool" where
  "cutShort e \<longleftrightarrow> e = ReadPayloadEOF"

definition readPayloadWithTrailingNewline :: "bytes \<Rightarrow> nat \<Rightarrow> xfer_error + bytes \<times> bytes" where
  "readPayloadWithTrailingNewline rest n =
     bindE (readPayload rest n) (\<lambda>(buf, rest').
       Inr (buf, (case rest' of [] \<Rightarrow> [] | b # r \<Rightarrow> if b = LF then r else rest')))"

definition uvFileOmitsContent :: "int \<Rightarrow> bool" where
  "uvFileOmitsContent flags \<longleftrightarrow> and flags 1 \<noteq> 0 \<or> and flags 4 \<noteq> 0"

section \<open>Tokens\<close>

definition cardTokenWindow :: nat where "cardTokenWindow = 6"

definition isCardSpace :: "byte \<Rightarrow> bool" where
  "isCardSpace c \<longleftrightarrow> c = SP \<or> (CHR 0x09 \<le> c \<and> c \<le> CHR 0x0D)"

text \<open>\<open>k\<close> tokens of the window are still free.\<close>

fun tokenizeLoop :: "nat \<Rightarrow> bytes \<Rightarrow> bytes list" where
  "tokenizeLoop 0 s = []"
| "tokenizeLoop (Suc k) s =
     (let s1 = dropWhile isCardSpace s in
      if s1 = [] then [] else takeWhile (\<lambda>c. \<not> isCardSpace c) s1 # tokenizeLoop k (dropWhile (\<lambda>c. \<not> isCardSpace c) s1))"

definition tokenizeCard :: "bytes \<Rightarrow> bytes list" where
  "tokenizeCard line = tokenizeLoop cardTokenWindow line"

section \<open>Cards without a payload\<close>

definition parseClone :: "bytes list \<Rightarrow> Card option" where
  "parseClone args =
     (if length args \<noteq> 0 \<and> length args \<noteq> 2 then None
      else if args = [] then Some (CloneCard 0 0 False)
      else case (parseInt64 (args ! 0), parseInt64 (args ! 1)) of
             (Some v, Some s) \<Rightarrow> Some (CloneCard v s (isDecimal (args ! 1)))
           | _ \<Rightarrow> Some (UnknownCard ''clone'' args []))"

definition parseCloneSeqNo :: "bytes list \<Rightarrow> Card option" where
  "parseCloneSeqNo args =
     (if length args \<noteq> 1 then None
      else if \<not> isDecimal (args ! 0) then Some (UnknownCard ''clone_seqno'' args [])
      else Some (CloneSeqNoCard (atoiValue (args ! 0)) []))"

definition parsePragma :: "bytes list \<Rightarrow> Card option" where
  "parsePragma args = (if length args < 1 then None else Some (PragmaCard (args ! 0) (drop 1 args)))"

definition parseUVIGot :: "bytes list \<Rightarrow> Card option" where
  "parseUVIGot args =
     (if length args \<noteq> 4 then None
      else case parseInt64 (args ! 1) of None \<Rightarrow> None
           | Some mtime \<Rightarrow> (case parseInt64 (args ! 3) of None \<Rightarrow> None
               | Some sz \<Rightarrow> Some (UVIGotCard (FossilDecode (args ! 0)) mtime (args ! 2) sz)))"

definition parseXIGot :: "bytes list \<Rightarrow> Card option" where
  "parseXIGot args =
     (if length args \<noteq> 3 then None
      else case parseInt64 (args ! 2) of None \<Rightarrow> None | Some mtime \<Rightarrow> Some (XIGotCard (args ! 0) (args ! 1) mtime))"

definition parseXGimme :: "bytes list \<Rightarrow> Card option" where
  "parseXGimme args = (if length args \<noteq> 2 then None else Some (XGimmeCard (args ! 0) (args ! 1)))"

definition parseControlCard :: "bytes \<Rightarrow> bytes list \<Rightarrow> Card option" where
  "parseControlCard cmd args =
     (if cmd = ''igot'' then
        (if length args < 1 then None else Some (IGotCard (args ! 0) (2 \<le> length args \<and> args ! 1 = ''1'')))
      else if cmd = ''gimme'' then (if length args \<noteq> 1 then None else Some (GimmeCard (args ! 0)))
      else if cmd = ''push'' then (if length args \<noteq> 2 then None else Some (PushCard (args ! 0) (args ! 1)))
      else if cmd = ''pull'' then (if length args \<noteq> 2 then None else Some (PullCard (args ! 0) (args ! 1)))
      else if cmd = ''cookie'' then (if length args \<noteq> 1 then None else Some (CookieCard (args ! 0)))
      else if cmd = ''reqconfig'' then (if length args \<noteq> 1 then None else Some (ReqConfigCard (args ! 0)))
      else if cmd = ''private'' then Some PrivateCard
      else if cmd = ''clone'' then parseClone args
      else if cmd = ''clone_seqno'' then parseCloneSeqNo args
      else if cmd = ''uvgimme'' then (if length args \<noteq> 1 then None else Some (UVGimmeCard (FossilDecode (args ! 0))))
      else if cmd = ''pragma'' then parsePragma args
      else if cmd = ''login'' then
        (if length args \<noteq> 3 then None else Some (LoginCard (FossilDecode (args ! 0)) (args ! 1) (args ! 2) []))
      else if cmd = ''error'' then (if length args \<noteq> 1 then None else Some (ErrorCard (FossilDecode (args ! 0)) []))
      else if cmd = ''message'' then (if length args \<noteq> 1 then None else Some (MessageCard (FossilDecode (args ! 0)) []))
      else if cmd = ''uvigot'' then parseUVIGot args
      else if cmd = ''xigot'' then parseXIGot args
      else if cmd = ''xgimme'' then parseXGimme args
      else None)"

definition keepRawLine :: "Card \<Rightarrow> bytes \<Rightarrow> Card" where
  "keepRawLine c rawLine0 =
     (let rawLine = (if rawLine0 \<noteq> [] \<and> last rawLine0 = LF then rawLine0 else rawLine0 @ [LF]) in
      case c of
        CloneSeqNoCard s _ \<Rightarrow> CloneSeqNoCard s rawLine
      | ErrorCard m _ \<Rightarrow> ErrorCard m rawLine
      | MessageCard m _ \<Rightarrow> MessageCard m rawLine
      | UnknownCard cmd args _ \<Rightarrow> UnknownCard cmd args rawLine
      | _ \<Rightarrow> c)"

section \<open>Cards with a payload\<close>

text \<open>A payload cut short makes the handler's malformed-line card; the reader is then at the end.\<close>

definition badFile :: "string \<Rightarrow> bytes \<Rightarrow> xfer_error + Card \<times> bytes" where
  "badFile msg rest = Inr (BadFileCard msg, rest)"

definition framed :: "string \<Rightarrow> string \<Rightarrow> xfer_error + bytes \<times> bytes \<Rightarrow> (bytes \<Rightarrow> Card) \<Rightarrow> xfer_error + Card \<times> bytes" where
  "framed malformed what r mk =
     (case r of
        Inl e \<Rightarrow> if cutShort e then badFile malformed [] else Inl (XWrap what [] e)
      | Inr (content, rest) \<Rightarrow> Inr (mk content, rest))"

definition parseFile :: "bytes \<Rightarrow> bytes list \<Rightarrow> xfer_error + Card \<times> bytes" where
  "parseFile rest args =
     (if length args \<noteq> 2 \<and> length args \<noteq> 3 then badFile ''malformed file line'' rest
      else let src = (if length args = 3 then args ! 1 else []); sizeStr = (if length args = 3 then args ! 2 else args ! 1) in
           case parseSize sizeStr of
             Inl _ \<Rightarrow> badFile ''malformed file line'' rest
           | Inr n \<Rightarrow> framed ''malformed file line'' ''xfer: file payload: %w'' (readPayload rest n) (FileCard (args ! 0) src))"

definition cfileInflateLimit :: "nat \<Rightarrow> bool \<Rightarrow> xfer_error + nat" where
  "cfileInflateLimit usize isDelta =
     (if usize > maxPayloadSize then Inl (XPanic ''xfer.cfileInflateLimit: usize out of range'')
      else if \<not> isDelta then Inr usize
      else Inr (usize + usize div 2 + 64))"

text \<open>\<^verbatim>\<open>io.ReadAll(io.LimitReader(zr, n))\<close>: at most \<open>n\<close> bytes; an error past them is not reached.\<close>

definition readAllLimited :: "bytes \<times> bool \<Rightarrow> nat \<Rightarrow> bytes option" where
  "readAllLimited s n = (case s of (out, ok) \<Rightarrow> if n \<le> length out then Some (take n out) else if ok then Some out else None)"

datatype inflated = Inflated bytes | OverLimit | ZlibError

definition inflateBounded :: "zlib \<Rightarrow> bytes \<Rightarrow> nat \<Rightarrow> inflated" where
  "inflateBounded zl data limit =
     (case zInflate zl data of None \<Rightarrow> ZlibError
      | Some s \<Rightarrow> (case readAllLimited s (limit + 1) of None \<Rightarrow> ZlibError
          | Some out \<Rightarrow> if length out > limit then OverLimit else Inflated out))"

definition beNat :: "bytes \<Rightarrow> nat" where
  "beNat bs = foldl (\<lambda>v c. 256 * v + byteval c) 0 bs"

definition sizePrefix :: "nat \<Rightarrow> bytes" where
  "sizePrefix n = beBytes 4 (n mod 2 ^ 32)"

definition decompressCFile :: "zlib \<Rightarrow> bytes \<Rightarrow> nat \<Rightarrow> xfer_error + bytes \<times> bytes" where
  "decompressCFile zl data limit =
     (case inflateBounded zl data limit of
        Inflated out \<Rightarrow> Inr (out, sizePrefix (length out) @ data)
      | r \<Rightarrow>
        let r2 = (if length data > 4 then inflateBounded zl (drop 4 data) (min limit (beNat (take 4 data))) else ZlibError) in
        case r2 of
          Inflated out \<Rightarrow> Inr (out, data)
        | _ \<Rightarrow> if r = OverLimit \<or> r2 = OverLimit
               then Inl (XError ''xfer: cfile payload inflates past %d bytes, its declared size or the message budget'' [decimal limit])
               else Inl (XError ''xfer: cfile zlib init: could not decompress payload (%d bytes)'' [decimal (length data)]))"

definition parseCFile :: "zlib \<Rightarrow> bytes \<Rightarrow> bytes list \<Rightarrow> nat \<Rightarrow> xfer_error + Card \<times> bytes \<times> nat" where
  "parseCFile zl rest args budget =
     (if length args \<noteq> 3 \<and> length args \<noteq> 4 then Inr (BadFileCard ''malformed cfile line'', rest, budget)
      else let d = (length args = 4); src = (if d then args ! 1 else []);
               usizeStr = (if d then args ! 2 else args ! 1); csizeStr = (if d then args ! 3 else args ! 2) in
           case (parseSize usizeStr, parseSize csizeStr) of
             (Inr usize, Inr csize) \<Rightarrow>
               (case readPayload rest csize of
                  Inl e \<Rightarrow> if cutShort e then Inr (BadFileCard ''malformed cfile line'', [], budget)
                           else Inl (XWrap ''xfer: cfile payload: %w'' [] e)
                | Inr (compressed, rest') \<Rightarrow>
                    bindE (cfileInflateLimit usize (src \<noteq> [])) (\<lambda>lim.
                    bindE (decompressCFile zl compressed (min lim budget)) (\<lambda>(out, stored).
                      Inr (CFileCard (args ! 0) src usize out (Some stored), rest', budget - length out))))
           | _ \<Rightarrow> Inr (BadFileCard ''malformed cfile line'', rest, budget))"

definition parseConfig :: "bytes \<Rightarrow> bytes \<Rightarrow> bytes list \<Rightarrow> xfer_error + Card \<times> bytes" where
  "parseConfig rest rawLine args =
     (if length args \<noteq> 2 then Inr (BadCommandCard rawLine, rest)
      else case parseSize (args ! 1) of
             Inl _ \<Rightarrow> Inr (BadCommandCard rawLine, rest)
           | Inr n \<Rightarrow> (case readPayload rest n of
                 Inl e \<Rightarrow> Inl (XWrap ''xfer: config payload: %w'' [] e)
               | Inr (content, rest') \<Rightarrow> Inr (ConfigCard (args ! 0) content, drop 1 rest')))"

definition parseUVFile :: "bytes \<Rightarrow> bytes list \<Rightarrow> xfer_error + Card \<times> bytes" where
  "parseUVFile rest args =
     (let bad = badFile ''malformed uvfile line'' rest in
      if length args \<noteq> 5 then bad
      else let name = FossilDecode (args ! 0) in
           if \<not> StrictPathname name then bad
           else case (if args ! 2 = ''-'' then Inr True else IsValidHash (args ! 2)) of
                  Inl p \<Rightarrow> Inl (XPanic p)
                | Inr valid \<Rightarrow>
                    if \<not> valid then bad
                    else case parseInt64 (args ! 1) of
                           None \<Rightarrow> bad
                         | Some mtime \<Rightarrow>
                             if mtime < 0 then bad
                             else (case (parseSize (args ! 3), parseSize (args ! 4)) of
                                (Inr n, Inr flags) \<Rightarrow>
                                  if uvFileOmitsContent (int flags)
                                  then Inr (UVFileCard name mtime (args ! 2) (int n) (int flags) [], rest)
                                  else framed ''malformed uvfile line'' ''xfer: uvfile payload: %w'' (readPayload rest n)
                                         (UVFileCard name mtime (args ! 2) (int n) (int flags))
                              | _ \<Rightarrow> bad))"

definition maxTableSize :: nat where "maxTableSize = 67108864"

text \<open>The common tail of the table cards: the size, its bound and the payload.\<close>

definition parseTablePayload :: "string \<Rightarrow> string \<Rightarrow> string \<Rightarrow> bytes \<Rightarrow> bytes \<Rightarrow> (bytes \<Rightarrow> Card) \<Rightarrow> xfer_error + Card \<times> bytes" where
  "parseTablePayload sizeErr boundErr payloadErr rest tok mk =
     (case parseSize tok of
        Inl e \<Rightarrow> Inl (XWrap sizeErr [] e)
      | Inr n \<Rightarrow>
          if n > maxTableSize then Inl (XError boundErr [decimal n])
          else case readPayloadWithTrailingNewline rest n of
                 Inl e \<Rightarrow> Inl (XWrap payloadErr [] e)
               | Inr (content, rest') \<Rightarrow> Inr (mk content, rest'))"

definition parseSchema :: "bytes \<Rightarrow> bytes list \<Rightarrow> xfer_error + Card \<times> bytes" where
  "parseSchema rest args =
     (if length args \<noteq> 5 then Inl (XError ''xfer: schema requires 5 args, got %d'' [decimal (length args)])
      else case parseInt64 (args ! 1) of
             None \<Rightarrow> Inl (XError ''xfer: schema version: %w'' [args ! 1])
           | Some version \<Rightarrow> (case parseInt64 (args ! 3) of
                 None \<Rightarrow> Inl (XError ''xfer: schema mtime: %w'' [args ! 3])
               | Some mtime \<Rightarrow>
                   parseTablePayload ''xfer: schema size: %w'' ''xfer: schema size out of bounds: %d'' ''xfer: schema payload: %w''
                     rest (args ! 4) (SchemaCard (args ! 0) version (args ! 2) mtime)))"

definition parseXDelete :: "bytes \<Rightarrow> bytes list \<Rightarrow> xfer_error + Card \<times> bytes" where
  "parseXDelete rest args =
     (if length args \<noteq> 4 then Inl (XError ''xfer: xdelete requires 4 args, got %d'' [decimal (length args)])
      else case parseInt64 (args ! 2) of
             None \<Rightarrow> Inl (XError ''xfer: xdelete mtime: %w'' [args ! 2])
           | Some mtime \<Rightarrow>
               parseTablePayload ''xfer: xdelete size: %w'' ''xfer: xdelete size out of range: %d'' ''xfer: xdelete payload: %w''
                 rest (args ! 3) (XDeleteCard (args ! 0) (args ! 1) mtime))"

definition parseXRow :: "bytes \<Rightarrow> bytes list \<Rightarrow> xfer_error + Card \<times> bytes" where
  "parseXRow rest args =
     (if length args \<noteq> 4 then Inl (XError ''xfer: xrow requires 4 args, got %d'' [decimal (length args)])
      else case parseInt64 (args ! 2) of
             None \<Rightarrow> Inl (XError ''xfer: xrow mtime: %w'' [args ! 2])
           | Some mtime \<Rightarrow>
               parseTablePayload ''xfer: xrow size: %w'' ''xfer: xrow size out of bounds: %d'' ''xfer: xrow payload: %w''
                 rest (args ! 3) (XRowCard (args ! 0) (args ! 1) mtime))"

section \<open>Decoding\<close>

definition keepBudget :: "nat \<Rightarrow> xfer_error + Card \<times> bytes \<Rightarrow> xfer_error + Card \<times> bytes \<times> nat" where
  "keepBudget budget r = bindE r (\<lambda>(c, rest). Inr (c, rest, budget))"

definition parseLine :: "zlib \<Rightarrow> bytes \<Rightarrow> bytes \<Rightarrow> bytes \<Rightarrow> nat \<Rightarrow> xfer_error + Card \<times> bytes \<times> nat" where
  "parseLine zl rest rawLine line budget =
     (case tokenizeCard line of
        [] \<Rightarrow> Inr (BadCommandCard rawLine, rest, budget)
      | cmd # args \<Rightarrow>
          if cmd = ''file'' then keepBudget budget (parseFile rest args)
          else if cmd = ''cfile'' then parseCFile zl rest args budget
          else if cmd = ''uvfile'' then keepBudget budget (parseUVFile rest args)
          else if cmd = ''config'' then keepBudget budget (parseConfig rest rawLine args)
          else if cmd = ''schema'' then keepBudget budget (parseSchema rest args)
          else if cmd = ''xrow'' then keepBudget budget (parseXRow rest args)
          else if cmd = ''xdelete'' then keepBudget budget (parseXDelete rest args)
          else case parseControlCard cmd args of
                 Some c \<Rightarrow> Inr (keepRawLine c rawLine, rest, budget)
               | None \<Rightarrow> Inr (BadCommandCard rawLine, rest, budget))"

text \<open>\<^verbatim>\<open>ReadString\<close>: the line with its LF, or the rest of the input and the end of it.\<close>

definition readString :: "bytes \<Rightarrow> bytes \<times> bytes \<times> bool" where
  "readString rest =
     (let l = takeWhile (\<lambda>c. c \<noteq> LF) rest; r = dropWhile (\<lambda>c. c \<noteq> LF) rest in
      if r = [] then (l, [], True) else (l @ [LF], drop 1 r, False))"

definition trimEOL :: "bytes \<Rightarrow> bytes" where
  "trimEOL s = rev (dropWhile (\<lambda>c. c = LF \<or> c = CHR 0x0D) (rev s))"

lemma readString_shrinks: "readString rest = (raw, rest', False) \<Longrightarrow> length rest' < length rest"
proof -
  assume a: "readString rest = (raw, rest', False)"
  then have "dropWhile (\<lambda>c. c \<noteq> LF) rest \<noteq> []" "rest' = drop 1 (dropWhile (\<lambda>c. c \<noteq> LF) rest)"
    by (auto simp: readString_def Let_def split: if_splits)
  moreover have "length (dropWhile (\<lambda>c. c \<noteq> LF) rest) \<le> length rest" by (simp add: length_dropWhile_le)
  ultimately show ?thesis by (cases "dropWhile (\<lambda>c. c \<noteq> LF) rest") auto
qed

text \<open>\<open>Inr None\<close> is \<^verbatim>\<open>io.EOF\<close>.\<close>

function decodeCard :: "zlib \<Rightarrow> bytes \<Rightarrow> nat \<Rightarrow> xfer_error + (Card \<times> bytes \<times> nat) option" where
  "decodeCard zl rest budget =
     (case readString rest of (rawLine, rest', eof) \<Rightarrow>
        let line = trimEOL rawLine in
        if eof \<and> line = [] then Inr None
        else if line = [] \<or> hd line = CHR ''#'' then (if eof then Inr None else decodeCard zl rest' budget)
        else bindE (parseLine zl rest' rawLine line budget) (\<lambda>r. Inr (Some r)))"
  by auto

termination
  by (relation "measure (\<lambda>(zl, rest, budget). length rest)") (auto dest: readString_shrinks [OF sym])

declare decodeCard.simps [simp del]

definition DecodeCard :: "zlib \<Rightarrow> bytes \<Rightarrow> xfer_error + (Card \<times> bytes) option" where
  "DecodeCard zl rest =
     bindE (decodeCard zl rest MaxCFileInflateBytes) (\<lambda>r. Inr (map_option (\<lambda>(c, rest', _). (c, rest')) r))"

end
