(* ===== verification/Xfer_Message.thy ===== *)
theory Xfer_Message
  imports Xfer
begin

text \<open>
  The encoder of \<^verbatim>\<open>encode.go\<close>, the message container of \<^verbatim>\<open>message.go\<close> and the login cookie of
  \<^verbatim>\<open>login_cookie.go\<close>.  An encoder returns the bytes it appends to the buffer.
\<close>

section \<open>Encoding cards\<close>

definition encodeIGot :: "bytes \<Rightarrow> bool \<Rightarrow> bytes" where
  "encodeIGot uuid isPrivate = ''igot '' @ uuid @ (if isPrivate then '' 1'' else []) @ [LF]"

definition encodePush :: "bytes \<Rightarrow> bytes \<Rightarrow> xfer_error + bytes" where
  "encodePush server project =
     (if project = [] then Inl (XPanic ''xfer: encodePush: ProjectCode must not be empty'')
      else if server = [] then Inl (XPanic ''xfer: encodePush: ServerCode must not be empty'')
      else Inr (''push '' @ server @ '' '' @ project @ [LF]))"

definition encodePull :: "bytes \<Rightarrow> bytes \<Rightarrow> xfer_error + bytes" where
  "encodePull server project =
     (if project = [] then Inl (XPanic ''xfer: encodePull: ProjectCode must not be empty'')
      else if server = [] then Inl (XPanic ''xfer: encodePull: ServerCode must not be empty'')
      else Inr (''pull '' @ server @ '' '' @ project @ [LF]))"

definition encodeClone :: "int \<Rightarrow> int \<Rightarrow> bool \<Rightarrow> bytes" where
  "encodeClone version seqNo seqNoIsDecimal =
     (if \<not> seqNoIsDecimal \<and> version = 0 \<and> seqNo = 0 then ''clone'' @ [LF]
      else ''clone '' @ intDecimal version @ '' '' @ intDecimal seqNo @ [LF])"

definition encodePragma :: "bytes \<Rightarrow> bytes list \<Rightarrow> bytes" where
  "encodePragma name vals = ''pragma '' @ name @ concat (map (\<lambda>v. SP # v) vals) @ [LF]"

definition encodeLogin :: "bytes \<Rightarrow> bytes \<Rightarrow> bytes \<Rightarrow> bytes" where
  "encodeLogin user nonce signature = ''login '' @ FossilEncode user @ '' '' @ nonce @ '' '' @ signature @ [LF]"

definition encodeComment :: "bytes \<Rightarrow> xfer_error + bytes" where
  "encodeComment txt =
     (if LF \<in> set txt \<or> CHR 0x0D \<in> set txt then Inl (XPanic ''xfer: encodeComment: Text must not contain a newline'')
      else Inr (''# '' @ txt @ [LF]))"

definition encodeUVIGot :: "bytes \<Rightarrow> int \<Rightarrow> bytes \<Rightarrow> int \<Rightarrow> bytes" where
  "encodeUVIGot name mtime h sz =
     ''uvigot '' @ FossilEncode name @ '' '' @ intDecimal mtime @ '' '' @ h @ '' '' @ intDecimal sz @ [LF]"

definition encodeUnknown :: "bytes \<Rightarrow> bytes list \<Rightarrow> bytes" where
  "encodeUnknown command args = command @ concat (map (\<lambda>a. SP # a) args) @ [LF]"

definition encodeFile :: "bytes \<Rightarrow> bytes \<Rightarrow> bytes \<Rightarrow> bytes" where
  "encodeFile uuid deltaSrc content =
     ''file '' @ uuid @ (if deltaSrc \<noteq> [] then SP # deltaSrc else []) @ '' '' @ decimal (length content) @ [LF] @ content"

definition cfilePayload :: "zlib \<Rightarrow> bytes \<Rightarrow> bytes option \<Rightarrow> bytes" where
  "cfilePayload zl content stored =
     (case stored of Some b \<Rightarrow> b | None \<Rightarrow> sizePrefix (length content) @ zDeflate zl content)"

definition encodeCFile :: "zlib \<Rightarrow> bytes \<Rightarrow> bytes \<Rightarrow> nat \<Rightarrow> bytes \<Rightarrow> bytes option \<Rightarrow> bytes" where
  "encodeCFile zl uuid deltaSrc usize0 content stored =
     (let payload = cfilePayload zl content stored; usize = (if usize0 = 0 then length content else usize0) in
      ''cfile '' @ uuid @ (if deltaSrc \<noteq> [] then SP # deltaSrc else []) @ '' '' @ decimal usize @ '' '' @
      decimal (length payload) @ [LF] @ payload @ (if payload = [] \<or> last payload \<noteq> LF then [LF] else []))"

definition encodeConfig :: "bytes \<Rightarrow> bytes \<Rightarrow> bytes" where
  "encodeConfig name content = ''config '' @ name @ '' '' @ decimal (length content) @ [LF] @ content @ [LF]"

definition encodeUVFile :: "bytes \<Rightarrow> int \<Rightarrow> bytes \<Rightarrow> int \<Rightarrow> int \<Rightarrow> bytes \<Rightarrow> bytes" where
  "encodeUVFile name mtime h sz flags content =
     ''uvfile '' @ FossilEncode name @ '' '' @ intDecimal mtime @ '' '' @ h @ '' '' @ intDecimal sz @ '' '' @
     intDecimal flags @ [LF] @ (if \<not> uvFileOmitsContent flags then content else [])"

definition encodeSchema :: "bytes \<Rightarrow> int \<Rightarrow> bytes \<Rightarrow> int \<Rightarrow> bytes \<Rightarrow> bytes" where
  "encodeSchema table version h mtime content =
     ''schema '' @ table @ '' '' @ intDecimal version @ '' '' @ h @ '' '' @ intDecimal mtime @ '' '' @
     decimal (length content) @ [LF] @ content @ [LF]"

text \<open>The two empty-field checks the table cards share.\<close>

definition requireRow :: "string \<Rightarrow> bytes \<Rightarrow> bytes \<Rightarrow> bytes \<Rightarrow> xfer_error + bytes" where
  "requireRow fn table pkHash out =
     (if table = [] then Inl (XPanic (fn @ '': Table must not be empty''))
      else if pkHash = [] then Inl (XPanic (fn @ '': PKHash must not be empty''))
      else Inr out)"

definition encodeXIGot :: "bytes \<Rightarrow> bytes \<Rightarrow> int \<Rightarrow> xfer_error + bytes" where
  "encodeXIGot table pkHash mtime =
     requireRow ''encodeXIGot'' table pkHash (''xigot '' @ table @ '' '' @ pkHash @ '' '' @ intDecimal mtime @ [LF])"

definition encodeXGimme :: "bytes \<Rightarrow> bytes \<Rightarrow> xfer_error + bytes" where
  "encodeXGimme table pkHash =
     requireRow ''encodeXGimme'' table pkHash (''xgimme '' @ table @ '' '' @ pkHash @ [LF])"

definition encodeXRow :: "bytes \<Rightarrow> bytes \<Rightarrow> int \<Rightarrow> bytes \<Rightarrow> xfer_error + bytes" where
  "encodeXRow table pkHash mtime content =
     requireRow ''encodeXRow'' table pkHash
       (''xrow '' @ table @ '' '' @ pkHash @ '' '' @ intDecimal mtime @ '' '' @ decimal (length content) @ [LF] @ content @ [LF])"

definition encodeXDelete :: "bytes \<Rightarrow> bytes \<Rightarrow> int \<Rightarrow> bytes \<Rightarrow> xfer_error + bytes" where
  "encodeXDelete table pkHash mtime pkData =
     requireRow ''encodeXDelete'' table pkHash
       (''xdelete '' @ table @ '' '' @ pkHash @ '' '' @ intDecimal mtime @ '' '' @ decimal (length pkData) @ [LF] @ pkData @ [LF])"

fun EncodeCard :: "zlib \<Rightarrow> Card \<Rightarrow> xfer_error + bytes" where
  "EncodeCard zl (IGotCard uuid isPrivate) = Inr (encodeIGot uuid isPrivate)"
| "EncodeCard zl (GimmeCard uuid) = Inr (''gimme '' @ uuid @ [LF])"
| "EncodeCard zl (PushCard server project) = encodePush server project"
| "EncodeCard zl (PullCard server project) = encodePull server project"
| "EncodeCard zl (CookieCard v) = Inr (''cookie '' @ v @ [LF])"
| "EncodeCard zl (ReqConfigCard name) = Inr (''reqconfig '' @ name @ [LF])"
| "EncodeCard zl PrivateCard = Inr (''private'' @ [LF])"
| "EncodeCard zl (CloneCard version seqNo dec) = Inr (encodeClone version seqNo dec)"
| "EncodeCard zl (CloneSeqNoCard seqNo raw) = Inr (''clone_seqno '' @ intDecimal seqNo @ [LF])"
| "EncodeCard zl (UVGimmeCard name) = Inr (''uvgimme '' @ FossilEncode name @ [LF])"
| "EncodeCard zl (PragmaCard name vals) = Inr (encodePragma name vals)"
| "EncodeCard zl (LoginCard user nonce signature tail) = Inr (encodeLogin user nonce signature)"
| "EncodeCard zl (CommentCard txt) = encodeComment txt"
| "EncodeCard zl (ErrorCard msg raw) = Inr (''error '' @ FossilEncode msg @ [LF])"
| "EncodeCard zl (MessageCard msg raw) = Inr (''message '' @ FossilEncode msg @ [LF])"
| "EncodeCard zl (UVIGotCard name mtime h sz) = Inr (encodeUVIGot name mtime h sz)"
| "EncodeCard zl (FileCard uuid src content) = Inr (encodeFile uuid src content)"
| "EncodeCard zl (CFileCard uuid src usize content stored) = Inr (encodeCFile zl uuid src usize content stored)"
| "EncodeCard zl (ConfigCard name content) = Inr (encodeConfig name content)"
| "EncodeCard zl (UVFileCard name mtime h sz flags content) = Inr (encodeUVFile name mtime h sz flags content)"
| "EncodeCard zl (SchemaCard table version h mtime content) = Inr (encodeSchema table version h mtime content)"
| "EncodeCard zl (XIGotCard table pk mtime) = encodeXIGot table pk mtime"
| "EncodeCard zl (XGimmeCard table pk) = encodeXGimme table pk"
| "EncodeCard zl (XRowCard table pk mtime content) = encodeXRow table pk mtime content"
| "EncodeCard zl (XDeleteCard table pk mtime pkData) = encodeXDelete table pk mtime pkData"
| "EncodeCard zl (UnknownCard command args raw) = Inr (encodeUnknown command args)"
| "EncodeCard zl (BadCommandCard line) = Inl (XError ''xfer: cannot encode %T'' [''*xfer.BadCommandCard''])"
| "EncodeCard zl (BadFileCard msg) = Inl (XError ''xfer: cannot encode %T'' [''*xfer.BadFileCard''])"

section \<open>Messages\<close>

record Message =
  mCards :: "Card list"
  mUncompressed :: bool
  mLoginCookieOK :: bool

definition message :: "Card list \<Rightarrow> Message" where
  "message cards = \<lparr>mCards = cards, mUncompressed = False, mLoginCookieOK = False\<rparr>"

fun encodeCards :: "zlib \<Rightarrow> nat \<Rightarrow> Card list \<Rightarrow> xfer_error + bytes" where
  "encodeCards zl i [] = Inr []"
| "encodeCards zl i (c # cs) =
     (case EncodeCard zl c of
        Inl e \<Rightarrow> Inl (XWrap ''xfer: encode card %d (%T): %w'' [decimal i] e)
      | Inr b \<Rightarrow> bindE (encodeCards zl (i + 1) cs) (\<lambda>bs. Inr (b @ bs)))"

definition EncodeUncompressed :: "zlib \<Rightarrow> Message \<Rightarrow> xfer_error + bytes" where
  "EncodeUncompressed zl m = encodeCards zl 0 (mCards m)"

definition Encode :: "zlib \<Rightarrow> Message \<Rightarrow> xfer_error + bytes" where
  "Encode zl m = bindE (EncodeUncompressed zl m) (\<lambda>raw. Inr (sizePrefix (length raw) @ zDeflate zl raw))"

text \<open>
  A login card records the digest of what follows its line; \<^verbatim>\<open>len(data) - src.Len() - r.Buffered()\<close> is the number of
  bytes read, so the rest is what \<open>decodeCard\<close> left.
\<close>

definition bindTail :: "Card \<Rightarrow> bytes \<Rightarrow> xfer_error + Card" where
  "bindTail c rest =
     (case c of
        LoginCard u n s _ \<Rightarrow> (case SHA1 (Some rest) of Inl p \<Rightarrow> Inl (XPanic p) | Inr h \<Rightarrow> Inr (LoginCard u n s h))
      | _ \<Rightarrow> Inr c)"

definition isBadFile :: "Card \<Rightarrow> bool" where
  "isBadFile c = (case c of BadFileCard _ \<Rightarrow> True | _ \<Rightarrow> False)"

lemma readPayload_length: "readPayload rest n = Inr (x, rest') \<Longrightarrow> length rest' \<le> length rest"
  by (auto simp: readPayload_def split: if_splits)

lemma framed_length:
  "framed m w (readPayload rest n) mk = Inr (c, rest') \<Longrightarrow> length rest' \<le> length rest"
  by (auto simp: framed_def badFile_def dest: readPayload_length split: sum.split_asm if_splits)

lemma table_length: "parseTablePayload a b d rest tok mk = Inr (c, rest') \<Longrightarrow> length rest' \<le> length rest"
  by (auto simp: parseTablePayload_def readPayloadWithTrailingNewline_def bindE_eq_Inr_iff
      dest: readPayload_length split: sum.split_asm if_splits list.split_asm)

lemma parseLine_length:
  assumes "parseLine zl rest raw line budget = Inr (c, rest', budget')"
  shows "length rest' \<le> length rest"
proof -
  have u: "parseUVFile rest args = Inr (c, rest') \<Longrightarrow> length rest' \<le> length rest" for args
    by (auto simp: parseUVFile_def Let_def badFile_def dest: framed_length split: if_splits sum.split_asm option.split_asm)
  have f: "parseFile rest args = Inr (c, rest') \<Longrightarrow> length rest' \<le> length rest" for args
    by (auto simp: parseFile_def Let_def badFile_def dest: framed_length split: if_splits sum.split_asm)
  have cf: "parseCFile zl rest args budget = Inr (c, rest', budget') \<Longrightarrow> length rest' \<le> length rest" for args
    by (auto simp: parseCFile_def Let_def bindE_eq_Inr_iff dest: readPayload_length split: if_splits sum.split_asm)
  have co: "parseConfig rest raw args = Inr (c, rest') \<Longrightarrow> length rest' \<le> length rest" for args
    by (auto simp: parseConfig_def dest!: readPayload_length split: if_splits sum.split_asm)
  have t: "parseSchema rest args = Inr (c, rest') \<Longrightarrow> length rest' \<le> length rest"
    "parseXRow rest args = Inr (c, rest') \<Longrightarrow> length rest' \<le> length rest"
    "parseXDelete rest args = Inr (c, rest') \<Longrightarrow> length rest' \<le> length rest" for args
    by (auto simp: parseSchema_def parseXRow_def parseXDelete_def dest: table_length split: if_splits option.split_asm)
  have kb: "keepBudget budget r = Inr (c, rest', budget') \<longleftrightarrow> r = Inr (c, rest') \<and> budget' = budget" for r
    by (auto simp: keepBudget_def bindE_eq_Inr_iff)
  show ?thesis
    using assms u f cf co t
    by (auto simp: parseLine_def kb split: list.split_asm if_split_asm option.split_asm)
qed

lemma readString_length: "readString rest = (raw, rest', eof) \<Longrightarrow> rest \<noteq> [] \<Longrightarrow> length rest' < length rest"
  using readString_shrinks [of rest raw rest'] by (cases eof) (simp_all add: readString_def Let_def split: if_splits)

lemma decodeCard_shrinks: "decodeCard zl rest budget = Inr (Some (c, rest', budget')) \<Longrightarrow> length rest' < length rest"
proof (induction zl rest budget rule: decodeCard.induct)
  case (1 zl rest budget)
  obtain raw r1 eof where r: "readString rest = (raw, r1, eof)" by (cases "readString rest")
  have "rest \<noteq> []"
    using "1.prems" by (subst (asm) decodeCard.simps) (auto simp: readString_def trimEOL_def)
  then have l: "length r1 < length rest" using readString_length [OF r] by simp
  show ?case
  proof (cases "trimEOL raw = [] \<or> hd (trimEOL raw) = CHR ''#''")
    case True
    then have "\<not> eof \<and> decodeCard zl r1 budget = Inr (Some (c, rest', budget'))"
      using "1.prems" r by (subst (asm) decodeCard.simps) (auto simp: Let_def split: if_splits)
    with "1.IH" [OF r [symmetric] refl refl _ True] l show ?thesis by force
  next
    case False
    then have "parseLine zl r1 raw (trimEOL raw) budget = Inr (c, rest', budget')"
      using "1.prems" r by (subst (asm) decodeCard.simps) (auto simp: Let_def bindE_eq_Inr_iff)
    then show ?thesis using parseLine_length l by (meson le_less_trans)
  qed
qed

function decodeLoop :: "zlib \<Rightarrow> bytes \<Rightarrow> nat \<Rightarrow> Card list \<Rightarrow> xfer_error + Card list" where
  "decodeLoop zl rest budget cards =
     (case decodeCard zl rest budget of
        Inl e \<Rightarrow> Inl (XWrap ''xfer: decode card %d: %w'' [decimal (length cards)] e)
      | Inr None \<Rightarrow> Inr cards
      | Inr (Some (cd, rest', budget')) \<Rightarrow>
          bindE (bindTail cd rest') (\<lambda>cd'.
            if isBadFile cd' then Inr (cards @ [cd'])
            else decodeLoop zl rest' budget' (cards @ [cd'])))"
  by auto

termination
  by (relation "measure (\<lambda>(zl, rest, budget, cards). length rest)") (auto simp: decodeCard_shrinks)

declare decodeLoop.simps [simp del]

definition decodeMessage :: "zlib \<Rightarrow> bytes \<Rightarrow> nat \<Rightarrow> xfer_error + Message" where
  "decodeMessage zl data budget = bindE (decodeLoop zl data budget []) (\<lambda>cs. Inr (message cs))"

definition DecodeUncompressed :: "zlib \<Rightarrow> bytes \<Rightarrow> xfer_error + Message" where
  "DecodeUncompressed zl data = decodeMessage zl data MaxCFileInflateBytes"

definition decompressBounded :: "zlib \<Rightarrow> bytes \<Rightarrow> xfer_error + bytes" where
  "decompressBounded zl data =
     (case zInflate zl data of
        None \<Rightarrow> Inl (XError ''xfer: compressed body is not a valid zlib stream: %w'' [])
      | Some s \<Rightarrow>
          (case readAllLimited s (MaxDecompressedBytes + 1) of
             None \<Rightarrow> Inl (XError ''xfer: decompress message: %w'' [])
           | Some raw \<Rightarrow>
               if length raw > MaxDecompressedBytes
               then Inl (XError ''xfer: decompressed message exceeds %d bytes'' [decimal MaxDecompressedBytes])
               else Inr raw))"

definition decompressContainer :: "zlib \<Rightarrow> bytes \<Rightarrow> xfer_error + bytes" where
  "decompressContainer zl data =
     (if length data < 4
      then Inl (XError ''xfer: compressed body is %d bytes, too short for a 4-byte length prefix'' [decimal (length data)])
      else let declared = beNat (take 4 data) in
           if declared > MaxDecompressedBytes
           then Inl (XError ''xfer: declared container length %d exceeds %d bytes'' [decimal declared, decimal MaxDecompressedBytes])
           else decompressBounded zl (drop 4 data))"

definition DecodeCompressed :: "zlib \<Rightarrow> bytes \<Rightarrow> xfer_error + Message" where
  "DecodeCompressed zl data = bindE (decompressContainer zl data) (DecodeUncompressed zl)"

definition ContentTypeCompressed :: bytes where "ContentTypeCompressed = ''application/x-fossil''"
definition ContentTypeUncompressed :: bytes where "ContentTypeUncompressed = ''application/x-fossil-uncompressed''"
definition ContentTypeDebug :: bytes where "ContentTypeDebug = ''application/x-fossil-debug''"

definition mediaType :: "bytes \<Rightarrow> bytes" where
  "mediaType contentType = TrimSpace (takeWhile (\<lambda>c. c \<noteq> CHR '';'') contentType)"

definition contentTypeIsCompressed :: "bytes \<Rightarrow> bool" where
  "contentTypeIsCompressed contentType = EqualFoldASCII (mediaType contentType) ContentTypeCompressed"

definition KnownContentType :: "bytes \<Rightarrow> bool" where
  "KnownContentType contentType =
     (let mt = mediaType contentType in
      EqualFoldASCII mt ContentTypeCompressed \<or> EqualFoldASCII mt ContentTypeUncompressed \<or> EqualFoldASCII mt ContentTypeDebug)"

definition Decode :: "zlib \<Rightarrow> bytes \<Rightarrow> bytes \<Rightarrow> xfer_error + Message" where
  "Decode zl data contentType =
     (if data = [] then Inr (message [])
      else if contentTypeIsCompressed contentType then DecodeCompressed zl data
      else DecodeUncompressed zl data)"

definition hasPrefixFold :: "bytes \<Rightarrow> bytes \<Rightarrow> bool" where
  "hasPrefixFold s pre \<longleftrightarrow> length pre \<le> length s \<and> EqualFoldASCII (take (length pre) s) pre"

definition DecodeReply :: "zlib \<Rightarrow> bytes \<Rightarrow> bytes \<Rightarrow> xfer_error + Message" where
  "DecodeReply zl data contentType =
     (if hasPrefixFold contentType ContentTypeDebug \<or> hasPrefixFold contentType ContentTypeUncompressed
      then Decode zl data ContentTypeUncompressed
      else if contentType = [] \<or> hasPrefixFold contentType ContentTypeCompressed
      then Decode zl data ContentTypeCompressed
      else Inl (XError ''xfer: reply Content-Type %q is not a sync reply'' [contentType]))"

text \<open>\<^verbatim>\<open>ReadBody\<close> of a reader that yields the given bytes and then a clean end or an error.\<close>

definition ReadBody :: "bytes \<times> bool \<Rightarrow> xfer_error + bytes" where
  "ReadBody r =
     (case readAllLimited r (MaxBodyBytes + 1) of
        None \<Rightarrow> Inl (XError ''read error'' [])
      | Some body \<Rightarrow>
          if length body > MaxBodyBytes then Inl (XError ''xfer: reply body exceeds %d bytes'' [decimal MaxBodyBytes])
          else Inr body)"

section \<open>The login cookie\<close>

definition parseLoginCookie :: "bytes \<Rightarrow> Card option" where
  "parseLoginCookie v =
     (if v = [] then None
      else case QueryUnescape v of None \<Rightarrow> None
           | Some line \<Rightarrow>
               let tokens = Fields line in
               if length tokens \<noteq> 4 \<or> tokens ! 0 \<noteq> ''login'' then None
               else Some (LoginCard (FossilDecode (tokens ! 1)) (tokens ! 2) (tokens ! 3) []))"

text \<open>The body is \<^verbatim>\<open>nil\<close> when \<open>None\<close>.\<close>

definition DecodeRequest :: "zlib \<Rightarrow> bytes option \<Rightarrow> bytes \<Rightarrow> bytes \<Rightarrow> xfer_error + Message" where
  "DecodeRequest zl data contentType loginCookie =
     bindE (if data \<noteq> None \<and> the data \<noteq> [] \<and> contentTypeIsCompressed contentType
            then bindE (decompressContainer zl (the data)) (\<lambda>raw. Inr (Some raw)) else Inr data) (\<lambda>raw.
     bindE (DecodeUncompressed zl (case raw of None \<Rightarrow> [] | Some r \<Rightarrow> r)) (\<lambda>msg.
       case parseLoginCookie loginCookie of
         None \<Rightarrow> Inr msg
       | Some lc \<Rightarrow>
           (case SHA1 raw of
              Inl p \<Rightarrow> Inl (XPanic p)
            | Inr h \<Rightarrow> Inr (msg\<lparr>mCards := LoginCard (lcUser lc) (lcNonce lc) (lcSignature lc) h # mCards msg\<rparr>))))"

definition SplitLoginCookie :: "Message \<Rightarrow> Message \<times> bytes" where
  "SplitLoginCookie m =
     (if \<not> mLoginCookieOK m \<or> mCards m = [] then (m, [])
      else case mCards m ! 0 of
             LoginCard user nonce signature _ \<Rightarrow>
               (message (drop 1 (mCards m)),
                QueryEscape (''login '' @ FossilEncode user @ '' '' @ nonce @ '' '' @ signature))
           | _ \<Rightarrow> (m, []))"

end
