(* ===== verification/Xfer_Laws.thy ===== *)
theory Xfer_Laws
  imports Xfer_Message
begin

text \<open>
  The laws of the card codec: what the encoder writes the decoder reads back, for whole messages; the decoder
  is safe on arbitrary bytes; the inflation budget is kept; a login is bound to the bytes that follow it.
\<close>

section \<open>Words and lines\<close>

definition word :: "bytes \<Rightarrow> bool" where
  "word t \<longleftrightarrow> t \<noteq> [] \<and> list_all (\<lambda>c. \<not> isCardSpace c) t"

fun lineOf :: "bytes list \<Rightarrow> bytes" where
  "lineOf [] = []"
| "lineOf (t # ts) = t @ concat (map (\<lambda>v. SP # v) ts)"

lemma space_facts [simp]: "isCardSpace SP" "isCardSpace LF" "isCardSpace (CHR 0x0D)"
  by (code_simp)+

lemma takeWhile_word: "word t \<Longrightarrow> r = [] \<or> isCardSpace (hd r) \<Longrightarrow> takeWhile (\<lambda>c. \<not> isCardSpace c) (t @ r) = t"
  by (cases r) (auto simp: word_def takeWhile_tail list_all_iff)

lemma dropWhile_word: "word t \<Longrightarrow> r = [] \<or> isCardSpace (hd r) \<Longrightarrow> dropWhile (\<lambda>c. \<not> isCardSpace c) (t @ r) = r"
  by (cases r) (auto simp: word_def dropWhile_append list_all_iff)

lemma tokenizeLoop_words: "list_all word ts \<Longrightarrow> tokenizeLoop k (concat (map (\<lambda>v. SP # v) ts)) = take k ts"
proof (induction ts arbitrary: k)
  case Nil
  then show ?case by (cases k) simp_all
next
  case (Cons t ts)
  let ?r = "concat (map (\<lambda>v. SP # v) ts)"
  have r: "?r = [] \<or> isCardSpace (hd ?r)" by (cases ts) simp_all
  have t: "word t" "t \<noteq> []" "\<not> isCardSpace (hd t)" using Cons.prems by (auto simp: word_def list_all_iff)
  then have "dropWhile isCardSpace (SP # t @ ?r) = t @ ?r" by (cases t) auto
  then show ?case
    using t r Cons by (cases k) (simp_all add: Let_def takeWhile_word dropWhile_word)
qed

lemma tokenizeCard_lineOf:
  assumes "list_all word ts"
  shows "tokenizeCard (lineOf ts) = take 6 ts"
proof (cases ts)
  case Nil
  then show ?thesis by (simp add: tokenizeCard_def cardTokenWindow_def eval_nat_numeral)
next
  case (Cons t us)
  have "tokenizeCard (lineOf ts) = tokenizeLoop 6 (concat (map (\<lambda>v. SP # v) ts))"
  proof -
    have "\<not> isCardSpace (hd t)" "t \<noteq> []" using assms Cons by (auto simp: word_def list_all_iff)
    then have "dropWhile isCardSpace (t @ x) = t @ x" for x by (cases t) auto
    then show ?thesis by (simp add: tokenizeCard_def cardTokenWindow_def eval_nat_numeral Cons)
  qed
  then show ?thesis using tokenizeLoop_words [OF assms] by simp
qed

lemma word_no_eol: "word t \<Longrightarrow> LF \<notin> set t \<and> CHR 0x0D \<notin> set t"
  by (auto simp: word_def list_all_iff)

lemma lineOf_no_LF: "list_all word ts \<Longrightarrow> LF \<notin> set (lineOf ts)"
  by (cases ts) (auto simp: list_all_iff dest: word_no_eol)

lemma lineOf_snoc: "ts \<noteq> [] \<Longrightarrow> lineOf (ts @ [t]) = lineOf ts @ SP # t"
  by (cases ts) simp_all

lemma lineOf_last:
  assumes "list_all word ts" "ts \<noteq> []"
  shows "lineOf ts \<noteq> []" "\<not> isCardSpace (last (lineOf ts))"
proof -
  from assms(2) obtain us t where ts: "ts = us @ [t]" by (metis rev_exhaust)
  then have t: "t \<noteq> []" "\<not> isCardSpace (last t)" using assms(1) by (auto simp: word_def list_all_iff)
  have "lineOf ts = (if us = [] then t else lineOf us @ SP # t)" using ts lineOf_snoc [of us t] by auto
  then show "lineOf ts \<noteq> []" "\<not> isCardSpace (last (lineOf ts))" using t by auto
qed

lemma trimEOL_line: "l \<noteq> [] \<Longrightarrow> \<not> isCardSpace (last l) \<Longrightarrow> trimEOL (l @ [LF]) = l"
proof -
  assume l: "l \<noteq> []" "\<not> isCardSpace (last l)"
  then have "last l \<noteq> LF" "last l \<noteq> CHR 0x0D" by auto
  with l(1) show ?thesis
    by (cases l rule: rev_cases) (auto simp: trimEOL_def)
qed

lemma readString_line: "LF \<notin> set l \<Longrightarrow> readString (l @ LF # rest) = (l @ [LF], rest, False)"
proof -
  assume "LF \<notin> set l"
  then have "takeWhile (\<lambda>c. c \<noteq> LF) (l @ LF # rest) = l" "dropWhile (\<lambda>c. c \<noteq> LF) (l @ LF # rest) = LF # rest"
    by (auto simp: takeWhile_tail dropWhile_append intro!: takeWhile_append2 [THEN trans])
  then show ?thesis by (simp add: readString_def)
qed

lemma decodeCard_line:
  assumes "list_all word ts" "ts \<noteq> []" "hd (hd ts) \<noteq> CHR ''#''"
  shows "decodeCard zl (lineOf ts @ LF # rest) budget =
    bindE (parseLine zl rest (lineOf ts @ [LF]) (lineOf ts) budget) (\<lambda>r. Inr (Some r))"
proof -
  note l = lineOf_last [OF assms(1,2)]
  have "hd (lineOf ts) = hd (hd ts)" using assms by (cases ts) (auto simp: word_def)
  then show ?thesis
    using assms l readString_line [OF lineOf_no_LF [OF assms(1)]]
    by (subst decodeCard.simps) (simp add: trimEOL_line Let_def)
qed

lemma decodeCard_blank: "decodeCard zl (LF # rest) budget = decodeCard zl rest budget"
  by (subst decodeCard.simps) (simp add: readString_def trimEOL_def)

lemma decodeCard_comment:
  assumes "LF \<notin> set txt" "CHR 0x0D \<notin> set txt"
  shows "decodeCard zl (''# '' @ txt @ LF # rest) budget = decodeCard zl rest budget"
proof -
  have "trimEOL (''# '' @ txt @ [LF]) = ''# '' @ txt"
    using assms by (cases "txt" rule: rev_cases) (auto simp: trimEOL_def)
  moreover have "readString ((''# '' @ txt) @ LF # rest) = ((''# '' @ txt) @ [LF], rest, False)"
    using assms(1) by (intro readString_line) auto
  ultimately show ?thesis by (subst decodeCard.simps) simp
qed

section \<open>Numbers\<close>

lemma digit_not_space: "isDigit c \<Longrightarrow> \<not> isCardSpace c \<and> c \<noteq> CHR ''-'' \<and> c \<noteq> CHR ''+''"
proof -
  have "\<forall>c. isDigit c \<le> (\<not> isCardSpace c \<and> c \<noteq> CHR ''-'' \<and> c \<noteq> CHR ''+'')" by code_simp
  then show "isDigit c \<Longrightarrow> \<not> isCardSpace c \<and> c \<noteq> CHR ''-'' \<and> c \<noteq> CHR ''+''" by (simp add: le_bool_def)
qed

lemma isDecimal_decimal [simp]: "isDecimal (decimal n)"
  using decimal_props [of n] by (simp add: isDecimal_def)

lemma isDecimal_word: "isDecimal t \<Longrightarrow> word t"
  by (auto simp: isDecimal_def word_def list_all_iff digit_not_space)

lemma isDecimal_hd: "isDecimal t \<Longrightarrow> hd t \<noteq> CHR ''-'' \<and> hd t \<noteq> CHR ''+''"
  by (cases t) (auto simp: isDecimal_def digit_not_space)

lemma signedValue_decimal: "isDecimal t \<Longrightarrow> signedValue t = Some (int (digitsVal t))"
  using isDecimal_hd [of t] by (simp add: signedValue_def stripSign_def Let_def)

lemma signedValue_intDecimal: "signedValue (intDecimal z) = Some z"
proof (cases "z < 0")
  case True
  then show ?thesis
    using decimal_props [of "nat (- z)"] by (simp add: signedValue_def stripSign_def Let_def intDecimal_def)
next
  case False
  then show ?thesis
    using decimal_props [of "nat z"] signedValue_decimal [OF isDecimal_decimal] by (simp add: intDecimal_def)
qed

definition int64 :: "int \<Rightarrow> bool" where
  "int64 z \<longleftrightarrow> - (2 ^ 63) \<le> z \<and> z < 2 ^ 63"

lemma parseInt64_intDecimal [simp]: "int64 z \<Longrightarrow> parseInt64 (intDecimal z) = Some z"
  by (simp add: parseInt64_def signedValue_intDecimal int64_def)

lemma intDecimal_nat: "intDecimal (int n) = decimal n"
  by (simp add: intDecimal_def)

lemma isDecimal_intDecimal: "isDecimal (intDecimal z) \<longleftrightarrow> 0 \<le> z"
proof (cases "z < 0")
  case True
  have "\<not> isDigit (CHR ''-'')" by code_simp
  with True show ?thesis by (simp add: intDecimal_def isDecimal_def)
qed (simp add: intDecimal_def)

lemma word_intDecimal: "word (intDecimal z)"
proof -
  have "\<not> isCardSpace (CHR ''-'')" by code_simp
  then show ?thesis
    using isDecimal_word [OF isDecimal_decimal] by (auto simp: intDecimal_def word_def)
qed

lemma word_decimal: "word (decimal n)"
  by (rule isDecimal_word) simp

lemma parseSize_decimal [simp]: "n \<le> maxPayloadSize \<Longrightarrow> parseSize (decimal n) = Inr n"
proof -
  assume n: "n \<le> maxPayloadSize"
  then have "int64 (int n)" by (simp add: int64_def maxPayloadSize_def)
  then have "parseInt64 (decimal n) = Some (int n)" using parseInt64_intDecimal [of "int n"] by (simp add: intDecimal_nat)
  with n show ?thesis by (simp add: parseSize_def)
qed

lemma atoiValue_decimal: "0 \<le> z \<Longrightarrow> z < 2 ^ 63 \<Longrightarrow> atoiValue (intDecimal z) = z"
  by (simp add: atoiValue_def signedValue_intDecimal)

lemma word_FossilEncode: "s \<noteq> [] \<Longrightarrow> word (FossilEncode s)"
proof -
  have "\<forall>c. isCardSpace c = (c \<in> {LF, SP, CHR 0x09, CHR 0x0D, CHR 0x0B, CHR 0x0C})" by code_simp
  then have "list_all (\<lambda>c. \<not> isCardSpace c) (FossilEncode s)" by (induction s) auto
  then show "s \<noteq> [] \<Longrightarrow> word (FossilEncode s)" by (auto simp: word_def)
qed

section \<open>What a card is on the wire\<close>

text \<open>The tokens of a card's line and the bytes after the LF; a comment card has no tokens.\<close>

fun tokensOf :: "zlib \<Rightarrow> Card \<Rightarrow> bytes list" where
  "tokensOf zl (IGotCard u p) = [''igot'', u] @ (if p then [''1''] else [])"
| "tokensOf zl (GimmeCard u) = [''gimme'', u]"
| "tokensOf zl (PushCard sc pc) = [''push'', sc, pc]"
| "tokensOf zl (PullCard sc pc) = [''pull'', sc, pc]"
| "tokensOf zl (CookieCard v) = [''cookie'', v]"
| "tokensOf zl (ReqConfigCard n) = [''reqconfig'', n]"
| "tokensOf zl PrivateCard = [''private'']"
| "tokensOf zl (CloneCard v sq dc) =
     (if \<not> dc \<and> v = 0 \<and> sq = 0 then [''clone''] else [''clone'', intDecimal v, intDecimal sq])"
| "tokensOf zl (CloneSeqNoCard sq raw) = [''clone_seqno'', intDecimal sq]"
| "tokensOf zl (UVGimmeCard n) = [''uvgimme'', FossilEncode n]"
| "tokensOf zl (PragmaCard n vs) = [''pragma'', n] @ vs"
| "tokensOf zl (LoginCard u n sg th) = [''login'', FossilEncode u, n, sg]"
| "tokensOf zl (ErrorCard m raw) = [''error'', FossilEncode m]"
| "tokensOf zl (MessageCard m raw) = [''message'', FossilEncode m]"
| "tokensOf zl (UVIGotCard n mt h sz) = [''uvigot'', FossilEncode n, intDecimal mt, h, intDecimal sz]"
| "tokensOf zl (FileCard u src c) = [''file'', u] @ (if src \<noteq> [] then [src] else []) @ [decimal (length c)]"
| "tokensOf zl (CFileCard u src us c st) = [''cfile'', u] @ (if src \<noteq> [] then [src] else []) @
     [decimal (if us = 0 then length c else us), decimal (length (cfilePayload zl c st))]"
| "tokensOf zl (ConfigCard n c) = [''config'', n, decimal (length c)]"
| "tokensOf zl (UVFileCard n mt h sz fl c) =
     [''uvfile'', FossilEncode n, intDecimal mt, h, intDecimal sz, intDecimal fl]"
| "tokensOf zl (SchemaCard t v h mt c) = [''schema'', t, intDecimal v, h, intDecimal mt, decimal (length c)]"
| "tokensOf zl (XIGotCard t k mt) = [''xigot'', t, k, intDecimal mt]"
| "tokensOf zl (XGimmeCard t k) = [''xgimme'', t, k]"
| "tokensOf zl (XRowCard t k mt c) = [''xrow'', t, k, intDecimal mt, decimal (length c)]"
| "tokensOf zl (XDeleteCard t k mt c) = [''xdelete'', t, k, intDecimal mt, decimal (length c)]"
| "tokensOf zl (UnknownCard cmd args raw) = cmd # args"
| "tokensOf zl _ = []"

fun payloadOf :: "zlib \<Rightarrow> Card \<Rightarrow> bytes" where
  "payloadOf zl (FileCard u src c) = c"
| "payloadOf zl (CFileCard u src us c st) =
     (let p = cfilePayload zl c st in p @ (if p = [] \<or> last p \<noteq> LF then [LF] else []))"
| "payloadOf zl (ConfigCard n c) = c @ [LF]"
| "payloadOf zl (UVFileCard n mt h sz fl c) = (if \<not> uvFileOmitsContent fl then c else [])"
| "payloadOf zl (SchemaCard t v h mt c) = c @ [LF]"
| "payloadOf zl (XRowCard t k mt c) = c @ [LF]"
| "payloadOf zl (XDeleteCard t k mt c) = c @ [LF]"
| "payloadOf zl _ = []"

text \<open>The laws of zlib the codec relies on: a written stream inflates to its input, and an empty input or a header whose method is not deflate is refused.\<close>

definition zlibLaws :: "zlib \<Rightarrow> bool" where
  "zlibLaws zl \<longleftrightarrow> (\<forall>x. zInflate zl (zDeflate zl x) = Some (x, True)) \<and>
     (\<forall>d. d = [] \<or> byteval (hd d) mod 16 \<noteq> 8 \<longrightarrow> zInflate zl d = None)"

definition validName :: "bytes \<Rightarrow> bool" where
  "validName h \<longleftrightarrow> h = ''-'' \<or> IsValidHash h = Inr True"

text \<open>The cards that survive the wire, one condition per field.\<close>

fun wfCard :: "zlib \<Rightarrow> Card \<Rightarrow> bool" where
  "wfCard zl (IGotCard u p) = word u"
| "wfCard zl (GimmeCard u) = word u"
| "wfCard zl (PushCard sc pc) = (word sc \<and> word pc)"
| "wfCard zl (PullCard sc pc) = (word sc \<and> word pc)"
| "wfCard zl (CookieCard v) = word v"
| "wfCard zl (ReqConfigCard n) = word n"
| "wfCard zl PrivateCard = True"
| "wfCard zl (CloneCard v sq dc) = (int64 v \<and> int64 sq \<and> (dc = (0 \<le> sq) \<or> \<not> dc \<and> v = 0 \<and> sq = 0))"
| "wfCard zl (CloneSeqNoCard sq raw) = (0 \<le> sq \<and> int64 sq)"
| "wfCard zl (UVGimmeCard n) = (n \<noteq> [])"
| "wfCard zl (PragmaCard n vs) = (word n \<and> list_all word vs \<and> length vs \<le> 4)"
| "wfCard zl (LoginCard u n sg th) = (u \<noteq> [] \<and> word n \<and> word sg)"
| "wfCard zl (CommentCard t) = (LF \<notin> set t \<and> CHR 0x0D \<notin> set t)"
| "wfCard zl (ErrorCard m raw) = (m \<noteq> [])"
| "wfCard zl (MessageCard m raw) = (m \<noteq> [])"
| "wfCard zl (UVIGotCard n mt h sz) = (n \<noteq> [] \<and> int64 mt \<and> word h \<and> int64 sz)"
| "wfCard zl (FileCard u src c) = (word u \<and> (src = [] \<or> word src) \<and> length c \<le> maxPayloadSize)"
| "wfCard zl (CFileCard u src us c st) = (word u \<and> (src = [] \<or> word src) \<and> us \<le> maxPayloadSize \<and> length c < 2 ^ 27 \<and>
     length (cfilePayload zl c st) \<le> maxPayloadSize \<and>
     (st = None \<or> st = Some (sizePrefix (length c) @ zDeflate zl c)) \<and>
     (us = 0 \<or> (if src = [] then length c \<le> us else length c \<le> us + us div 2 + 64)))"
| "wfCard zl (ConfigCard n c) = (word n \<and> length c \<le> maxPayloadSize)"
| "wfCard zl (UVFileCard n mt h sz fl c) = (StrictPathname n \<and> 0 \<le> mt \<and> int64 mt \<and> validName h \<and>
     0 \<le> sz \<and> sz \<le> int maxPayloadSize \<and> 0 \<le> fl \<and> fl \<le> int maxPayloadSize \<and>
     (if uvFileOmitsContent fl then c = [] else int (length c) = sz))"
| "wfCard zl (SchemaCard t v h mt c) = (word t \<and> int64 v \<and> word h \<and> int64 mt \<and> length c \<le> maxTableSize)"
| "wfCard zl (XIGotCard t k mt) = (word t \<and> word k \<and> int64 mt)"
| "wfCard zl (XGimmeCard t k) = (word t \<and> word k)"
| "wfCard zl (XRowCard t k mt c) = (word t \<and> word k \<and> int64 mt \<and> length c \<le> maxTableSize)"
| "wfCard zl (XDeleteCard t k mt c) = (word t \<and> word k \<and> int64 mt \<and> length c \<le> maxTableSize)"
| "wfCard zl (UnknownCard cmd args raw) = (list_all word args \<and>
     (cmd = ''clone'' \<and> length args = 2 \<and> (parseInt64 (args ! 0) = None \<or> parseInt64 (args ! 1) = None) \<or>
      cmd = ''clone_seqno'' \<and> length args = 1 \<and> \<not> isDecimal (args ! 0)))"
| "wfCard zl _ = False"

fun isComment :: "Card \<Rightarrow> bool" where
  "isComment (CommentCard _) = True"
| "isComment _ = False"

text \<open>The bytes of a card.\<close>

definition wire :: "zlib \<Rightarrow> Card \<Rightarrow> bytes" where
  "wire zl c = (case c of CommentCard t \<Rightarrow> ''# '' @ t @ [LF] | _ \<Rightarrow> lineOf (tokensOf zl c) @ [LF] @ payloadOf zl c)"

lemma EncodeCard_wire: "wfCard zl c \<Longrightarrow> EncodeCard zl c = Inr (wire zl c)"
  by (cases c) (auto simp: wire_def word_def Let_def encodeIGot_def encodePush_def encodePull_def encodeClone_def
      encodePragma_def encodeLogin_def encodeComment_def encodeUVIGot_def encodeUnknown_def encodeFile_def
      encodeCFile_def encodeConfig_def encodeUVFile_def encodeSchema_def requireRow_def encodeXIGot_def
      encodeXGimme_def encodeXRow_def encodeXDelete_def)

lemma word_consts [simp]:
  "word ''igot''" "word ''1''" "word ''gimme''" "word ''push''" "word ''pull''" "word ''cookie''" "word ''reqconfig''"
  "word ''private''" "word ''clone''" "word ''clone_seqno''" "word ''uvgimme''" "word ''pragma''" "word ''login''"
  "word ''error''" "word ''message''" "word ''uvigot''" "word ''file''" "word ''cfile''" "word ''config''"
  "word ''uvfile''" "word ''schema''" "word ''xigot''" "word ''xgimme''" "word ''xrow''" "word ''xdelete''" "word ''-''"
  by code_simp+

lemma validName_word: "validName h \<Longrightarrow> word h"
proof -
  have "\<forall>c. isLowerHex c \<le> (\<not> isCardSpace c)" by code_simp
  then show "validName h \<Longrightarrow> word h"
    by (auto simp: validName_def IsValidHash_def word_def list_all_iff le_bool_def isCardSpace_def split: if_splits)
qed

lemma StrictPathname_nonempty: "StrictPathname n \<Longrightarrow> n \<noteq> []"
  by (auto simp: StrictPathname_def simplePathname_def)

lemma tokensOf_words:
  assumes "wfCard zl c" "\<not> isComment c"
  shows "list_all word (tokensOf zl c)" "tokensOf zl c \<noteq> []" "hd (hd (tokensOf zl c)) \<noteq> CHR ''#''"
    "length (tokensOf zl c) \<le> 6"
proof -
  show "list_all word (tokensOf zl c)"
    using assms by (cases c) (auto simp: word_intDecimal word_decimal word_FossilEncode validName_word StrictPathname_nonempty)
  show "tokensOf zl c \<noteq> []" "hd (hd (tokensOf zl c)) \<noteq> CHR ''#''" "length (tokensOf zl c) \<le> 6"
    using assms by (cases c; auto)+
qed

section \<open>One card read back\<close>

text \<open>The card as the decoder delivers it from the line \<open>raw\<close>: the raw line kept, the stored blob filled in.\<close>

fun received :: "zlib \<Rightarrow> bytes \<Rightarrow> Card \<Rightarrow> Card" where
  "received zl raw (CloneSeqNoCard sq _) = CloneSeqNoCard sq raw"
| "received zl raw (ErrorCard m _) = ErrorCard m raw"
| "received zl raw (MessageCard m _) = MessageCard m raw"
| "received zl raw (UnknownCard cmd args _) = UnknownCard cmd args raw"
| "received zl raw (LoginCard u n sg _) = LoginCard u n sg []"
| "received zl raw (CFileCard u src us c st) =
     CFileCard u src (if us = 0 then length c else us) c (Some (sizePrefix (length c) @ zDeflate zl c))"
| "received zl raw c = c"

fun inflates :: "Card \<Rightarrow> nat" where
  "inflates (CFileCard u src us c st) = length c"
| "inflates _ = 0"

lemma readPayload_append [simp]:
  "length c \<le> maxPayloadSize \<Longrightarrow> readPayload (c @ rest) (length c) = Inr (c, rest)"
  by (simp add: readPayload_def)

lemma table_append:
  "length c \<le> maxTableSize \<Longrightarrow>
   parseTablePayload a b d (c @ LF # rest) (decimal (length c)) mk = Inr (mk c, rest)"
  by (simp add: parseTablePayload_def readPayloadWithTrailingNewline_def maxTableSize_def maxPayloadSize_def)

lemma sizePrefix_bytes:
  assumes "n < 2 ^ 32"
  shows "sizePrefix n = [char_of (n div 256 div 256 div 256), char_of (n div 256 div 256), char_of (n div 256), char_of n]"
proof -
  have four: "(4 :: nat) = Suc (Suc (Suc (Suc 0)))" by simp
  have "char_of (k mod 256) = char_of k" for k :: nat by simp
  then have "leBytes 4 n = [char_of n, char_of (n div 256), char_of (n div 256 div 256), char_of (n div 256 div 256 div 256)]"
    by (simp only: four leBytes.simps)
  moreover have "n mod 2 ^ 32 = n" using assms by (rule mod_less)
  ultimately show ?thesis by (simp only: sizePrefix_def beBytes_def rev.simps append.simps)
qed

lemma byteval_mod: "byteval (char_of k) = k mod 256"
  by (simp add: byteval_def)

lemma beNat_sizePrefix:
  assumes n: "n < 2 ^ 32"
  shows "beNat (sizePrefix n) = n"
proof -
  define a b c where abc: "a = n div 256" "b = a div 256" "c = b div 256"
  have "n div (256 * 256 * 256) < 256" using n by (subst div_less_iff_less_mult) simp_all
  then have "c < 256" by (simp add: abc div_mult2_eq)
  then have c: "c mod 256 = c" by (rule mod_less)
  have "256 * a + n mod 256 = n" "256 * b + a mod 256 = a" "256 * c + b mod 256 = b"
    by (simp_all add: abc)
  then show ?thesis
    unfolding sizePrefix_bytes [OF n] beNat_def by (simp add: byteval_mod c flip: abc)
qed

lemma sizePrefix_shape: "length (sizePrefix n) = 4" "n < 2 ^ 27 \<Longrightarrow> byteval (hd (sizePrefix n)) mod 16 \<noteq> 8"
proof -
  show "length (sizePrefix n) = 4" by (simp add: sizePrefix_def beBytes_def)
  assume n: "n < 2 ^ 27"
  then have n': "n < 2 ^ 32" by (rule less_le_trans) simp
  have "n div (256 * 256 * 256) < 8" using n by (subst div_less_iff_less_mult) simp_all
  then have lt: "n div 256 div 256 div 256 < 8" by (simp only: div_mult2_eq)
  then have "byteval (char_of (n div 256 div 256 div 256)) < 8" by (simp only: byteval_mod)
  then show "byteval (hd (sizePrefix n)) mod 16 \<noteq> 8" by (simp only: sizePrefix_bytes [OF n'] list.sel)
qed

lemma decompressCFile_stored:
  assumes z: "zlibLaws zl" and c: "length c < 2 ^ 27" "length c \<le> limit"
  shows "decompressCFile zl (sizePrefix (length c) @ zDeflate zl c) limit = Inr (c, sizePrefix (length c) @ zDeflate zl c)"
proof -
  let ?d = "sizePrefix (length c) @ zDeflate zl c"
  note sp = sizePrefix_shape [of "length c"]
  have "?d \<noteq> []" "hd ?d = hd (sizePrefix (length c))" using sp(1) by (cases "sizePrefix (length c)"; simp)+
  then have "zInflate zl ?d = None" using z sp(2) [OF c(1)] by (simp add: zlibLaws_def)
  then have 1: "inflateBounded zl ?d limit = ZlibError" by (simp add: inflateBounded_def)
  have inf: "zInflate zl (zDeflate zl c) = Some (c, True)" using z by (simp add: zlibLaws_def)
  have "zDeflate zl c \<noteq> []"
  proof
    assume "zDeflate zl c = []"
    with inf z show False by (simp add: zlibLaws_def)
  qed
  then have 2: "length ?d > 4" using sp(1) by simp
  have "beNat (take 4 ?d) = length c" using sp(1) c(1) by (simp add: beNat_sizePrefix)
  then have 3: "inflateBounded zl (drop 4 ?d) (min limit (beNat (take 4 ?d))) = Inflated c"
    using inf c(2) sp(1) by (simp add: inflateBounded_def readAllLimited_def)
  show ?thesis using 1 2 3 by (simp add: decompressCFile_def)
qed

lemma keepRaw_line [simp]: "keepRawLine c (l @ [LF]) =
    (case c of CloneSeqNoCard sq _ \<Rightarrow> CloneSeqNoCard sq (l @ [LF]) | ErrorCard m _ \<Rightarrow> ErrorCard m (l @ [LF])
     | MessageCard m _ \<Rightarrow> MessageCard m (l @ [LF]) | UnknownCard cmd args _ \<Rightarrow> UnknownCard cmd args (l @ [LF]) | _ \<Rightarrow> c)"
  by (simp add: keepRawLine_def Let_def)

text \<open>The kinds of card, for the case analysis below.\<close>

fun framedCard :: "Card \<Rightarrow> bool" where
  "framedCard (FileCard _ _ _) = True" | "framedCard (CFileCard _ _ _ _ _) = True" | "framedCard (ConfigCard _ _) = True"
| "framedCard (UVFileCard _ _ _ _ _ _) = True" | "framedCard (SchemaCard _ _ _ _ _) = True"
| "framedCard (XRowCard _ _ _ _) = True" | "framedCard (XDeleteCard _ _ _ _) = True" | "framedCard _ = False"

lemma control_simps:
  "parseControlCard ''igot'' [u] = Some (IGotCard u False)"
  "parseControlCard ''igot'' [u, ''1''] = Some (IGotCard u True)"
  "parseControlCard ''gimme'' [u] = Some (GimmeCard u)"
  "parseControlCard ''push'' [a, b] = Some (PushCard a b)"
  "parseControlCard ''pull'' [a, b] = Some (PullCard a b)"
  "parseControlCard ''cookie'' [v] = Some (CookieCard v)"
  "parseControlCard ''reqconfig'' [v] = Some (ReqConfigCard v)"
  "parseControlCard ''private'' [] = Some PrivateCard"
  "parseControlCard ''clone'' args = parseClone args"
  "parseControlCard ''clone_seqno'' args = parseCloneSeqNo args"
  "parseControlCard ''uvgimme'' [v] = Some (UVGimmeCard (FossilDecode v))"
  "parseControlCard ''pragma'' args = parsePragma args"
  "parseControlCard ''login'' [a, b, d] = Some (LoginCard (FossilDecode a) b d [])"
  "parseControlCard ''error'' [v] = Some (ErrorCard (FossilDecode v) [])"
  "parseControlCard ''message'' [v] = Some (MessageCard (FossilDecode v) [])"
  "parseControlCard ''uvigot'' args = parseUVIGot args"
  "parseControlCard ''xigot'' args = parseXIGot args"
  "parseControlCard ''xgimme'' args = parseXGimme args"
  by (simp_all add: parseControlCard_def)

lemma parseClone_wire:
  assumes "wfCard zl (CloneCard v sq dc)" "tokensOf zl (CloneCard v sq dc) = cmd # args"
  shows "parseClone args = Some (CloneCard v sq dc)"
  using assms by (auto simp: parseClone_def isDecimal_intDecimal split: if_splits)

lemma parseUnknown_wire:
  assumes "wfCard zl (UnknownCard cmd args raw)"
  shows "parseControlCard cmd args = Some (UnknownCard cmd args [])"
  using assms by (auto simp: control_simps parseClone_def parseCloneSeqNo_def split: option.split)

lemma parseControl_wire:
  assumes "wfCard zl c" "\<not> isComment c" "\<not> framedCard c" "tokensOf zl c = cmd # args"
  shows "\<exists>c0. parseControlCard cmd args = Some c0 \<and> keepRawLine c0 (l @ [LF]) = received zl (l @ [LF]) c"
proof (cases c)
  case (IGotCard u p)
  with assms show ?thesis by (cases p) (auto simp: control_simps)
next
  case (CloneCard v sq dc)
  then show ?thesis using parseClone_wire [of zl v sq dc cmd args] assms by (auto simp: control_simps split: if_splits)
next
  case (UnknownCard cm ar raw)
  then show ?thesis using parseUnknown_wire [of zl cm ar raw] assms by auto
qed (use assms in \<open>auto simp: control_simps parseCloneSeqNo_def parsePragma_def parseUVIGot_def parseXIGot_def
      parseXGimme_def isDecimal_intDecimal atoiValue_decimal int64_def\<close>)

lemma parseCFile_eq:
  assumes "args = u # (if src = [] then [] else [src]) @ [a, b]" "parseSize a = Inr us" "parseSize b = Inr cs"
    and "readPayload rest0 cs = Inr (cdata, rest')" "cfileInflateLimit us (src \<noteq> []) = Inr lm"
    and "decompressCFile zl cdata (min lm budget) = Inr (out, stored)"
  shows "parseCFile zl rest0 args budget = Inr (CFileCard u src us out (Some stored), rest', budget - length out)"
  using assms by (cases "src = []") (simp_all add: parseCFile_def Let_def)

lemma parseCFile_wire:
  assumes z: "zlibLaws zl" and w: "wfCard zl (CFileCard u src us c st)" and b: "length c \<le> budget"
    and t: "tokensOf zl (CFileCard u src us c st) = cmd # args"
  shows "\<exists>pad. (pad = [] \<or> pad = [LF]) \<and>
    parseCFile zl (payloadOf zl (CFileCard u src us c st) @ rest) args budget =
      Inr (received zl raw (CFileCard u src us c st), pad @ rest, budget - length c)"
proof -
  let ?p = "sizePrefix (length c) @ zDeflate zl c" and ?us = "if us = 0 then length c else us"
  let ?pad = "if ?p = [] \<or> last ?p \<noteq> LF then [LF] else []"
  let ?lim = "if src = [] then ?us else ?us + ?us div 2 + 64"
  have p: "cfilePayload zl c st = ?p" using w by (auto simp: cfilePayload_def)
  have us: "?us \<le> maxPayloadSize" "length ?p \<le> maxPayloadSize" using w p by (auto simp: maxPayloadSize_def)
  have lim: "cfileInflateLimit ?us (src \<noteq> []) = Inr ?lim" using us(1) by (simp add: cfileInflateLimit_def)
  have "length c \<le> ?lim" using w by auto
  then have d: "decompressCFile zl ?p (min ?lim budget) = Inr (c, ?p)" using w b by (intro decompressCFile_stored [OF z]) auto
  have r: "readPayload (?p @ ?pad @ rest) (length ?p) = Inr (?p, ?pad @ rest)" using us(2) by (rule readPayload_append)
  have pay: "payloadOf zl (CFileCard u src us c st) @ rest = ?p @ ?pad @ rest" using p by (simp add: Let_def)
  have ps: "parseSize (decimal ?us) = Inr ?us" "parseSize (decimal (length ?p)) = Inr (length ?p)" using us by simp_all
  have "args = u # (if src = [] then [] else [src]) @ [decimal ?us, decimal (length ?p)]" using t p by auto
  from parseCFile_eq [OF this ps r lim d]
  have "parseCFile zl (?p @ ?pad @ rest) args budget = Inr (received zl raw (CFileCard u src us c st), ?pad @ rest, budget - length c)"
    by (simp only: received.simps)
  then show ?thesis unfolding pay by (intro exI [of _ ?pad]) auto
qed

lemma parseUVFile_wire:
  assumes w: "wfCard zl (UVFileCard n mt h sz fl c)" and t: "tokensOf zl (UVFileCard n mt h sz fl c) = cmd # args"
  shows "parseUVFile (payloadOf zl (UVFileCard n mt h sz fl c) @ rest) args = Inr (UVFileCard n mt h sz fl c, rest)"
proof -
  obtain k f where k: "sz = int k" "fl = int f" "k \<le> maxPayloadSize" "f \<le> maxPayloadSize"
    using w by (metis wfCard.simps(20) zero_le_imp_eq_int of_nat_le_iff)
  have v: "h \<noteq> ''-'' \<Longrightarrow> IsValidHash h = Inr True" using w by (auto simp: validName_def)
  have ps: "parseSize (intDecimal sz) = Inr k" "parseSize (intDecimal fl) = Inr f" using k by (simp_all add: intDecimal_nat)
  have a: "args = [FossilEncode n, intDecimal mt, h, intDecimal sz, intDecimal fl]" using t by simp
  have o: "uvFileOmitsContent fl \<Longrightarrow> c = []" "\<not> uvFileOmitsContent fl \<Longrightarrow> length c = k" using w k by auto
  show ?thesis
  proof (cases "uvFileOmitsContent fl")
    case True
    then show ?thesis using w v ps a o k(1,2) by (simp add: parseUVFile_def Let_def)
  next
    case False
    moreover have "readPayload (c @ rest) k = Inr (c, rest)" using o(2) [OF False] k(3) by (simp add: readPayload_def)
    ultimately show ?thesis using w v ps a k(1,2) by (simp add: parseUVFile_def Let_def framed_def)
  qed
qed

lemma parseLine_wire:
  assumes z: "zlibLaws zl" and w: "wfCard zl c" "\<not> isComment c" and b: "inflates c \<le> budget"
    and t: "tokenizeCard line = tokensOf zl c"
  shows "\<exists>pad. (pad = [] \<or> pad = [LF]) \<and>
    parseLine zl (payloadOf zl c @ rest) (l @ [LF]) line budget = Inr (received zl (l @ [LF]) c, pad @ rest, budget - inflates c)"
proof (cases "framedCard c")
  case False
  obtain cmd args where ca: "tokensOf zl c = cmd # args" using tokensOf_words(2) [OF w] by (cases "tokensOf zl c") auto
  have nf: "cmd \<notin> {''file'', ''cfile'', ''uvfile'', ''config'', ''schema'', ''xrow'', ''xdelete''}"
    using False w ca by (cases c) (auto split: if_splits)
  from parseControl_wire [OF w False ca, of l] nf t ca
  have "parseLine zl rest (l @ [LF]) line budget = Inr (received zl (l @ [LF]) c, rest, budget)"
    by (auto simp: parseLine_def)
  moreover have "payloadOf zl c = []" "inflates c = 0" using False by (cases c; simp)+
  ultimately show ?thesis by (intro exI [of _ "[]"]) simp
next
  case True
  show ?thesis
  proof (cases c)
    case (CFileCard u src us x st)
    then show ?thesis
      using parseCFile_wire [OF z, of u src us x st budget "''cfile''" _ rest "l @ [LF]"] w b t by (simp add: parseLine_def)
  next
    case (UVFileCard n mt h sz fl x)
    then show ?thesis
      using parseUVFile_wire [of zl n mt h sz fl x "''uvfile''"] w t by (simp add: parseLine_def keepBudget_def)
  next
    case (FileCard u src x)
    then show ?thesis
      using w t by (cases "src = []") (simp_all add: parseLine_def keepBudget_def parseFile_def framed_def)
  qed (use True w t in \<open>simp_all add: parseLine_def keepBudget_def parseConfig_def parseSchema_def parseXRow_def parseXDelete_def table_append\<close>)
qed

section \<open>Messages read back\<close>

lemma decodeLoop_skip: "(\<And>b. decodeCard zl r b = decodeCard zl r' b) \<Longrightarrow> decodeLoop zl r budget acc = decodeLoop zl r' budget acc"
  by (subst (1 2) decodeLoop.simps) simp

text \<open>The cards delivered for a message: comments vanish and every login is bound to the bytes after it.\<close>

fun bound :: "bytes \<Rightarrow> Card \<Rightarrow> Card" where
  "bound rest (LoginCard u n sg _) = LoginCard u n sg (sha1Hex rest)"
| "bound rest c = c"

fun delivered :: "zlib \<Rightarrow> Card list \<Rightarrow> Card list" where
  "delivered zl [] = []"
| "delivered zl (c # cs) =
     (if isComment c then [] else [bound (concat (map (wire zl) cs)) (received zl (lineOf (tokensOf zl c) @ [LF]) c)]) @
     delivered zl cs"

lemma bindTail_bound: "bindTail c rest = Inr (bound rest c)"
  by (cases c) (simp_all add: bindTail_def SHA1_def)

lemma login_no_pad: "received zl raw c = LoginCard u n sg h \<Longrightarrow> payloadOf zl c = [] \<and> inflates c = 0"
  by (cases c) auto

lemma bound_other: "(\<And>u n sg h. c \<noteq> LoginCard u n sg h) \<Longrightarrow> bound r c = c"
  by (cases c) auto

lemma received_good: "wfCard zl c \<Longrightarrow> \<not> isBadFile (bound rest (received zl raw c))"
  by (cases c) (auto simp: isBadFile_def)

lemma parseLine_wire_bound:
  assumes "zlibLaws zl" "wfCard zl c" "\<not> isComment c" "inflates c \<le> budget"
  shows "\<exists>pad. (pad = [] \<or> pad = [LF]) \<and>
    decodeCard zl (wire zl c @ rest) budget =
      Inr (Some (received zl (lineOf (tokensOf zl c) @ [LF]) c, pad @ rest, budget - inflates c)) \<and>
    bound (pad @ rest) (received zl (lineOf (tokensOf zl c) @ [LF]) c) = bound rest (received zl (lineOf (tokensOf zl c) @ [LF]) c)"
proof -
  let ?l = "lineOf (tokensOf zl c)"
  note w = tokensOf_words [OF assms(2,3)]
  have t: "tokenizeCard ?l = tokensOf zl c" using tokenizeCard_lineOf [OF w(1)] w(4) by simp
  from parseLine_wire [OF assms t, of rest ?l] obtain pad where pad: "pad = [] \<or> pad = [LF]"
    and p: "parseLine zl (payloadOf zl c @ rest) (?l @ [LF]) ?l budget = Inr (received zl (?l @ [LF]) c, pad @ rest, budget - inflates c)"
    by blast
  have wi: "wire zl c @ rest = ?l @ LF # payloadOf zl c @ rest" using assms(3) by (cases c) (simp_all add: wire_def)
  have d: "decodeCard zl (wire zl c @ rest) budget = Inr (Some (received zl (?l @ [LF]) c, pad @ rest, budget - inflates c))"
    unfolding wi using decodeCard_line [OF w(1-3), of zl "payloadOf zl c @ rest" budget] p by simp
  have "bound (pad @ rest) (received zl (?l @ [LF]) c) = bound rest (received zl (?l @ [LF]) c)"
  proof (cases "\<exists>u n sg h. received zl (?l @ [LF]) c = LoginCard u n sg h")
    case True
    then have "\<not> framedCard c" by (cases c) auto
    then obtain cmd args where "tokensOf zl c = cmd # args" "cmd \<noteq> ''cfile''" using True w(2) by (cases c) auto
    have "length (pad @ rest) = length rest"
      using p True login_no_pad [of zl "?l @ [LF]" c] t by (cases c) (auto simp: parseLine_def parseControlCard_def split: if_splits)
    then show ?thesis using pad by auto
  next
    case False
    then show ?thesis using bound_other by metis
  qed
  with pad d show ?thesis by blast
qed

lemma decodeLoop_wire:
  "zlibLaws zl \<Longrightarrow> list_all (wfCard zl) cs \<Longrightarrow> sum_list (map inflates cs) \<le> budget \<Longrightarrow>
   decodeLoop zl (concat (map (wire zl) cs)) budget acc = Inr (acc @ delivered zl cs)"
proof (induction cs arbitrary: budget acc)
  case Nil
  have "decodeCard zl [] budget = Inr None" by (subst decodeCard.simps) (simp add: readString_def trimEOL_def)
  then show ?case by (subst decodeLoop.simps) simp
next
  case (Cons c cs)
  let ?rest = "concat (map (wire zl) cs)"
  show ?case
  proof (cases "isComment c")
    case True
    then obtain t where c: "c = CommentCard t" by (cases c) auto
    then have "decodeCard zl (wire zl c @ ?rest) b = decodeCard zl ?rest b" for b
      using Cons.prems decodeCard_comment [of t zl ?rest b] by (simp add: wire_def)
    then have "decodeLoop zl (wire zl c @ ?rest) budget acc = decodeLoop zl ?rest budget acc" by (rule decodeLoop_skip)
    then show ?thesis using Cons c by simp
  next
    case False
    have w: "wfCard zl c" "inflates c \<le> budget" "sum_list (map inflates cs) \<le> budget - inflates c" using Cons.prems by auto
    let ?r = "received zl (lineOf (tokensOf zl c) @ [LF]) c"
    obtain pad where pad: "pad = [] \<or> pad = [LF]"
      and d: "decodeCard zl (wire zl c @ ?rest) budget = Inr (Some (?r, pad @ ?rest, budget - inflates c))"
      and b: "bound (pad @ ?rest) ?r = bound ?rest ?r"
      using parseLine_wire_bound [OF Cons.prems(1) w(1) False w(2), of ?rest] by blast
    have sk: "decodeLoop zl (pad @ ?rest) bu ac = decodeLoop zl ?rest bu ac" for bu ac
      using pad decodeCard_blank [of zl ?rest] by (auto intro!: decodeLoop_skip)
    have "decodeLoop zl (wire zl c @ ?rest) budget acc = decodeLoop zl ?rest (budget - inflates c) (acc @ [bound ?rest ?r])"
      using received_good [OF w(1)] by (subst decodeLoop.simps) (simp add: d bindTail_bound b sk)
    then show ?thesis using Cons.IH [OF Cons.prems(1) _ w(3)] Cons.prems False by simp
  qed
qed

lemma encodeCards_wire: "list_all (wfCard zl) cs \<Longrightarrow> encodeCards zl i cs = Inr (concat (map (wire zl) cs))"
  by (induction cs arbitrary: i) (simp_all add: EncodeCard_wire)

section \<open>Arbitrary input\<close>

fun panics :: "xfer_error \<Rightarrow> bool" where
  "panics (XWrap _ _ e) = panics e"
| "panics (XPanic _) = True"
| "panics _ = False"

text \<open>What one step of the decoder may do with the bytes and the budget it is given.\<close>

definition stepOK :: "bytes \<Rightarrow> nat \<Rightarrow> xfer_error + Card \<times> bytes \<times> nat \<Rightarrow> bool" where
  "stepOK rest budget r =
     (case r of Inl e \<Rightarrow> \<not> panics e
      | Inr (c, rest', budget') \<Rightarrow> suffix rest' rest \<and> inflates c + budget' = budget)"

definition plainOK :: "bytes \<Rightarrow> xfer_error + Card \<times> bytes \<Rightarrow> bool" where
  "plainOK rest r = (case r of Inl e \<Rightarrow> \<not> panics e | Inr (c, rest') \<Rightarrow> suffix rest' rest \<and> inflates c = 0)"

lemma plainOK_simps [simp]:
  "plainOK rest (Inl e) \<longleftrightarrow> \<not> panics e"
  "plainOK rest (Inr (c, rest')) \<longleftrightarrow> suffix rest' rest \<and> inflates c = 0"
  by (simp_all add: plainOK_def)

lemma stepOK_keepBudget: "plainOK rest r \<Longrightarrow> stepOK rest budget (keepBudget budget r)"
  by (cases r) (auto simp: stepOK_def keepBudget_def)

lemma parseSize_bound: "parseSize tok = Inr n \<Longrightarrow> n \<le> maxPayloadSize"
  by (auto simp: parseSize_def split: if_splits option.split_asm)

lemma readPayload_ok:
  assumes "n \<le> maxPayloadSize"
  shows "readPayload rest n = Inl ReadPayloadEOF \<or> (\<exists>c rest'. readPayload rest n = Inr (c, rest') \<and> suffix rest' rest)"
  using assms suffix_drop [of n rest] by (simp add: readPayload_def)

lemma framed_ok:
  assumes "n \<le> maxPayloadSize" "\<And>c. inflates (mk c) = 0"
  shows "plainOK rest (framed m w (readPayload rest n) mk)"
  using readPayload_ok [OF assms(1), of rest] assms(2) by (auto simp: framed_def badFile_def cutShort_def)

lemma table_ok:
  assumes "\<And>c. inflates (mk c) = 0"
  shows "plainOK rest (parseTablePayload a b d rest tok mk)"
proof (cases "parseSize tok")
  case (Inl e)
  then have "\<not> panics e" by (auto simp: parseSize_def split: if_splits option.split_asm)
  with Inl show ?thesis by (simp add: parseTablePayload_def)
next
  case (Inr n)
  have step: "suffix (case r of [] \<Rightarrow> [] | x # xs \<Rightarrow> if x = LF then xs else r) rest" if "suffix r rest" for r
    using that by (auto split: list.split intro: suffix_ConsD)
  from readPayload_ok [OF parseSize_bound [OF Inr], of rest] show ?thesis
    using assms step Inr by (auto simp: parseTablePayload_def readPayloadWithTrailingNewline_def)
qed

lemma parseFile_ok: "plainOK rest (parseFile rest args)"
  by (auto simp: parseFile_def Let_def badFile_def dest: parseSize_bound intro!: framed_ok split: sum.split)

lemma parseUVFile_ok: "list_all (\<lambda>t. t \<noteq> []) args \<Longrightarrow> plainOK rest (parseUVFile rest args)"
  by (auto simp: parseUVFile_def Let_def badFile_def IsValidHash_def list_all_iff
      dest: parseSize_bound intro!: framed_ok split: sum.split option.split)

lemma parseConfig_ok: "plainOK rest (parseConfig rest raw args)"
proof (cases "length args = 2 \<and> is_ok (parseSize (args ! 1))")
  case True
  then obtain n where n: "parseSize (args ! 1) = Inr n" by (auto simp: is_ok_iff)
  have "suffix (drop 1 r) rest" if "suffix r rest" for r using that suffix_drop suffix_order.trans by blast
  with readPayload_ok [OF parseSize_bound [OF n], of rest] n True show ?thesis by (auto simp: parseConfig_def)
next
  case False
  then show ?thesis by (auto simp: parseConfig_def is_ok_iff split: sum.split)
qed

lemma parseTable_ok: "plainOK rest (parseSchema rest args)" "plainOK rest (parseXRow rest args)" "plainOK rest (parseXDelete rest args)"
  by (auto simp: parseSchema_def parseXRow_def parseXDelete_def intro!: table_ok split: option.split)

lemma inflateBounded_length: "inflateBounded zl data limit = Inflated out \<Longrightarrow> length out \<le> limit"
  by (auto simp: inflateBounded_def split: option.split_asm if_splits)

lemma decompressCFile_ok:
  "case decompressCFile zl data limit of Inl e \<Rightarrow> \<not> panics e | Inr (out, st) \<Rightarrow> length out \<le> limit"
  by (auto simp: decompressCFile_def Let_def dest!: inflateBounded_length split: inflated.split if_splits)

lemma parseCFile_ok: "stepOK rest budget (parseCFile zl rest args budget)"
proof (cases "(length args = 3 \<or> length args = 4) \<and> is_ok (parseSize (args ! (length args - 2))) \<and> is_ok (parseSize (args ! (length args - 1)))")
  case True
  let ?src = "if length args = 4 then args ! 1 else []"
  obtain us cs where n: "parseSize (args ! (length args - 2)) = Inr us" "parseSize (args ! (length args - 1)) = Inr cs"
    using True by (auto simp: is_ok_iff)
  have "\<exists>lm. cfileInflateLimit us dl = Inr lm" for dl using parseSize_bound [OF n(1)] by (simp add: cfileInflateLimit_def)
  then obtain lm where lm: "cfileInflateLimit us (?src \<noteq> []) = Inr lm" by blast
  have e: "parseCFile zl rest args budget =
      (case readPayload rest cs of Inl e \<Rightarrow> if cutShort e then Inr (BadFileCard ''malformed cfile line'', [], budget)
           else Inl (XWrap ''xfer: cfile payload: %w'' [] e)
         | Inr (x, rest') \<Rightarrow> bindE (decompressCFile zl x (min lm budget)) (\<lambda>(out, stored).
              Inr (CFileCard (args ! 0) ?src us out (Some stored), rest', budget - length out)))"
    using True n lm by (auto simp: parseCFile_def Let_def numeral_eq_Suc split: sum.split)
  from readPayload_ok [OF parseSize_bound [OF n(2)], of rest] show ?thesis
  proof
    assume "\<exists>c rest'. readPayload rest cs = Inr (c, rest') \<and> suffix rest' rest"
    then obtain x rest' where r: "readPayload rest cs = Inr (x, rest')" "suffix rest' rest" by blast
    show ?thesis
      using decompressCFile_ok [where zl = zl and data = x and limit = "min lm budget"] r unfolding e
      by (cases "decompressCFile zl x (min lm budget)") (auto simp: stepOK_def)
  qed (simp add: e cutShort_def stepOK_def)
next
  case False
  then have "parseCFile zl rest args budget = Inr (BadFileCard ''malformed cfile line'', rest, budget)"
    by (auto simp: parseCFile_def Let_def is_ok_def numeral_eq_Suc split: sum.split_asm sum.split)
  then show ?thesis by (simp add: stepOK_def)
qed

lemma tokenizeLoop_nonempty: "list_all (\<lambda>t. t \<noteq> []) (tokenizeLoop k s)"
proof (induction k s rule: tokenizeLoop.induct)
  case (2 k s)
  have "takeWhile (\<lambda>c. \<not> isCardSpace c) (dropWhile isCardSpace s) \<noteq> []" if "dropWhile isCardSpace s \<noteq> []"
    using that hd_dropWhile [of isCardSpace s] by (cases "dropWhile isCardSpace s") auto
  with 2 show ?case by (simp add: Let_def)
qed simp

lemma parseControl_inflates: "parseControlCard cmd args = Some c \<Longrightarrow> inflates (keepRawLine c raw) = 0"
proof -
  have "inflates (keepRawLine c raw) = inflates c" for c by (cases c) (simp_all add: keepRawLine_def Let_def)
  moreover have "parseControlCard cmd args = Some c \<Longrightarrow> inflates c = 0"
    by (auto simp: parseControlCard_def parseClone_def parseCloneSeqNo_def parsePragma_def parseUVIGot_def parseXIGot_def
        parseXGimme_def split: if_split_asm option.split_asm)
  ultimately show "parseControlCard cmd args = Some c \<Longrightarrow> inflates (keepRawLine c raw) = 0" by simp
qed

lemma parseLine_ok: "stepOK rest budget (parseLine zl rest raw line budget)"
proof (cases "tokenizeCard line")
  case Nil
  then show ?thesis by (simp add: parseLine_def stepOK_def)
next
  case (Cons cmd args)
  then have "list_all (\<lambda>t. t \<noteq> []) args"
    using tokenizeLoop_nonempty [of cardTokenWindow line] by (simp add: tokenizeCard_def)
  then show ?thesis
    unfolding parseLine_def Cons list.case
    using stepOK_keepBudget parseFile_ok parseUVFile_ok parseConfig_ok parseTable_ok parseCFile_ok
    by (auto simp: stepOK_def parseControl_inflates split: option.split)
qed

lemma readString_suffix: "readString rest = (raw, rest', eof) \<Longrightarrow> suffix rest' rest"
proof -
  have "suffix (drop 1 (dropWhile P rest)) rest" for P
    using suffix_drop suffix_dropWhile suffix_order.trans by blast
  then show "readString rest = (raw, rest', eof) \<Longrightarrow> suffix rest' rest" by (auto simp: readString_def Let_def split: if_splits)
qed

lemma decodeCard_ok:
  "case decodeCard zl rest budget of Inl e \<Rightarrow> \<not> panics e
   | Inr None \<Rightarrow> True
   | Inr (Some (c, rest', budget')) \<Rightarrow> suffix rest' rest \<and> inflates c + budget' = budget"
proof (induction zl rest budget rule: decodeCard.induct)
  case (1 zl rest budget)
  obtain raw r1 eof where r: "readString rest = (raw, r1, eof)" by (cases "readString rest")
  note sf = readString_suffix [OF r]
  show ?case
  proof (cases "trimEOL raw = [] \<or> hd (trimEOL raw) = CHR ''#''")
    case True
    show ?thesis
    proof (cases eof)
      case False
      then have "decodeCard zl rest budget = decodeCard zl r1 budget"
        using r True by (subst decodeCard.simps) (auto simp: Let_def)
      moreover have "case decodeCard zl r1 budget of Inl e \<Rightarrow> \<not> panics e | Inr None \<Rightarrow> True
          | Inr (Some (c, rest', budget')) \<Rightarrow> suffix rest' r1 \<and> inflates c + budget' = budget"
        using "1.IH" [OF r [symmetric] refl refl _ True] False by simp
      ultimately show ?thesis using sf by (auto split: sum.split option.split)
    qed (use r True in \<open>subst decodeCard.simps, auto simp: Let_def\<close>)
  next
    case False
    then have "decodeCard zl rest budget = bindE (parseLine zl r1 raw (trimEOL raw) budget) (\<lambda>r. Inr (Some r))"
      using r by (subst decodeCard.simps) (auto simp: Let_def)
    then show ?thesis
      using parseLine_ok [of r1 budget zl raw "trimEOL raw"] sf
      by (cases "parseLine zl r1 raw (trimEOL raw) budget") (auto simp: stepOK_def)
  qed
qed

text \<open>
  The whole decode: no panic, the budget, and for every login card delivered the digest of exactly the input that
  the later cards were read from.
\<close>

definition tailBound :: "zlib \<Rightarrow> bytes \<Rightarrow> Card list \<Rightarrow> bool" where
  "tailBound zl data cs \<longleftrightarrow>
     (\<forall>i<length cs. \<forall>u n s h. cs ! i = LoginCard u n s h \<longrightarrow>
        (\<exists>rest b. suffix rest data \<and> h = sha1Hex rest \<and> decodeLoop zl rest b [] = Inr (drop (Suc i) cs)))"

lemma decodeLoop_acc: "decodeLoop zl rest budget (acc @ cs) = Inr (acc @ ds) \<longleftrightarrow> decodeLoop zl rest budget cs = Inr ds"
proof (induction zl rest budget cs arbitrary: ds rule: decodeLoop.induct)
  case (1 zl rest budget cs)
  show ?case
  proof (cases "decodeCard zl rest budget")
    case (Inr r)
    show ?thesis
    proof (cases r)
      case (Some q)
      then obtain c r1 b1 where q: "decodeCard zl rest budget = Inr (Some (c, r1, b1))" using Inr by (cases q) auto
      show ?thesis
      proof (cases "isBadFile (bound r1 c)")
        case False
        with "1.IH" [OF q refl refl refl bindTail_bound False, of ds] q show ?thesis
          by (subst (1 2) decodeLoop.simps) (simp add: bindTail_bound)
      qed (use q in \<open>subst (1 2) decodeLoop.simps, simp add: bindTail_bound\<close>)
    qed (use Inr in \<open>subst (1 2) decodeLoop.simps, simp\<close>)
  qed (subst (1 2) decodeLoop.simps, simp)
qed

lemma decodeLoop_ok:
  "case decodeLoop zl rest budget acc of Inl e \<Rightarrow> \<not> panics e
   | Inr cs \<Rightarrow> (\<exists>new. cs = acc @ new \<and> sum_list (map inflates new) \<le> budget \<and> tailBound zl rest new)"
proof (induction zl rest budget acc rule: decodeLoop.induct)
  case (1 zl rest budget acc)
  note ok = decodeCard_ok [where zl = zl and rest = rest and budget = budget]
  consider (err) e where "decodeCard zl rest budget = Inl e" | (eof) "decodeCard zl rest budget = Inr None"
    | (crd) c r1 b1 where "decodeCard zl rest budget = Inr (Some (c, r1, b1))"
    by (metis option.exhaust prod.exhaust sum.exhaust)
  then show ?case
  proof cases
    case err
    then show ?thesis using ok by (subst decodeLoop.simps) simp
  next
    case eof
    then show ?thesis by (subst decodeLoop.simps) (simp add: tailBound_def)
  next
    case crd
    have c: "suffix r1 rest" "inflates (bound r1 c) + b1 = budget" using ok crd by (cases c; simp)+
    show ?thesis
    proof (cases "isBadFile (bound r1 c)")
      case True
      then have "bound r1 c \<noteq> LoginCard u n s h" for u n s h by (auto simp: isBadFile_def)
      with True crd c(2) show ?thesis
        by (subst decodeLoop.simps) (simp add: bindTail_bound tailBound_def)
    next
      case False
      have step: "decodeLoop zl rest budget acc = decodeLoop zl r1 b1 (acc @ [bound r1 c])"
        using crd False by (subst decodeLoop.simps) (simp add: bindTail_bound)
      show ?thesis
      proof (cases "decodeLoop zl r1 b1 (acc @ [bound r1 c])")
        case (Inr cs)
        then obtain new where new: "cs = (acc @ [bound r1 c]) @ new" "sum_list (map inflates new) \<le> b1" "tailBound zl r1 new"
          using "1.IH" [OF crd refl refl refl bindTail_bound False] by auto
        have tl: "decodeLoop zl r1 b1 [] = Inr new"
          using Inr new(1) decodeLoop_acc [of zl r1 b1 "acc @ [bound r1 c]" "[]" new] by simp
        have "tailBound zl rest (bound r1 c # new)"
          unfolding tailBound_def
        proof (intro allI impI)
          fix i u n s h
          assume i: "i < length (bound r1 c # new)" "(bound r1 c # new) ! i = LoginCard u n s h"
          show "\<exists>rst b. suffix rst rest \<and> h = sha1Hex rst \<and> decodeLoop zl rst b [] = Inr (drop (Suc i) (bound r1 c # new))"
          proof (cases i)
            case 0
            then have "h = sha1Hex r1" using i(2) by (cases c) auto
            then show ?thesis using 0 c(1) tl by auto
          next
            case (Suc j)
            with i new(3) obtain rst b where "suffix rst r1" "h = sha1Hex rst" "decodeLoop zl rst b [] = Inr (drop (Suc j) new)"
              unfolding tailBound_def by (metis Suc_less_eq length_Cons nth_Cons_Suc)
            then show ?thesis using Suc c(1) suffix_order.trans by fastforce
          qed
        qed
        then show ?thesis using step Inr new c(2) by (auto intro!: exI [of _ "bound r1 c # new"])
      next
        case (Inl e)
        then show ?thesis using "1.IH" [OF crd refl refl refl bindTail_bound False] step by simp
      qed
    qed
  qed
qed

end
