(* ===== verification/Xfer_Properties.thy ===== *)
theory Xfer_Properties
  imports Xfer_Laws
begin

text \<open>The properties of the card codec, over the laws of \<open>Xfer_Laws\<close>.\<close>

section \<open>A zlib instance\<close>

text \<open>
  A concrete function pair that satisfies the laws, for the witnesses: the stream is the header byte of a
  zlib stream followed by the data.
\<close>

definition storedZlib :: zlib where
  "storedZlib = \<lparr>zDeflate = (\<lambda>x. CHR 0x78 # x),
     zInflate = (\<lambda>d. case d of [] \<Rightarrow> None | c # x \<Rightarrow> if c = CHR 0x78 then Some (x, True) else None)\<rparr>"

lemma storedZlib_laws: "zlibLaws storedZlib"
proof -
  have "byteval (CHR 0x78) mod 16 = 8" by code_simp
  then show ?thesis by (auto simp: zlibLaws_def storedZlib_def split: list.split)
qed

section \<open>Round trip\<close>

lemma EqualFold_self: "EqualFoldASCII s s"
  by (simp add: EqualFoldASCII_def)

lemma Decode_compressed_type: "data \<noteq> [] \<Longrightarrow> Decode zl data ContentTypeCompressed = DecodeCompressed zl data"
proof -
  have "mediaType ContentTypeCompressed = ContentTypeCompressed" by code_simp
  then show "data \<noteq> [] \<Longrightarrow> ?thesis" by (simp add: Decode_def contentTypeIsCompressed_def EqualFold_self)
qed

lemma DecodeCompressed_Encode:
  assumes "zlibLaws zl" "EncodeUncompressed zl m = Inr raw" "length raw \<le> MaxDecompressedBytes"
  shows "\<exists>b. Encode zl m = Inr b \<and> b \<noteq> [] \<and> DecodeCompressed zl b = DecodeUncompressed zl raw"
proof -
  let ?b = "sizePrefix (length raw) @ zDeflate zl raw"
  have n: "length raw < 2 ^ 32" using assms(3) by (simp add: MaxDecompressedBytes_def)
  have l: "length (sizePrefix (length raw)) = 4" by (rule sizePrefix_shape(1))
  have "zInflate zl (zDeflate zl raw) = Some (raw, True)" using assms(1) by (simp add: zlibLaws_def)
  then have "decompressContainer zl ?b = Inr raw"
    using assms(3) l beNat_sizePrefix [OF n]
    by (simp add: decompressContainer_def decompressBounded_def readAllLimited_def Let_def)
  then show ?thesis using assms(2) l by (intro exI [of _ ?b]) (auto simp: Encode_def DecodeCompressed_def)
qed

text \<open>
  C3. What one end encodes the other end reads: a message of well-formed cards of every kind encodes, and decoding
  the bytes, as plain card text or in the compressed container under its media type, delivers the same cards in
  order.  Comments are dropped, a received cfile carries the blob form of its content, cards that a peer may
  quote keep their raw line, and a login records the digest of the bytes after it.
\<close>

theorem message_roundtrip:
  assumes "zlibLaws zl" "list_all (wfCard zl) cs" "sum_list (map inflates cs) \<le> MaxCFileInflateBytes"
    and "sum_list (map (\<lambda>c. length (wire zl c)) cs) \<le> MaxDecompressedBytes"
  shows "\<exists>raw b. EncodeUncompressed zl (message cs) = Inr raw \<and> Encode zl (message cs) = Inr b \<and>
    DecodeUncompressed zl raw = Inr (message (delivered zl cs)) \<and>
    Decode zl b ContentTypeCompressed = Inr (message (delivered zl cs))"
proof -
  let ?raw = "concat (map (wire zl) cs)"
  have e: "EncodeUncompressed zl (message cs) = Inr ?raw"
    using encodeCards_wire [OF assms(2)] by (simp add: EncodeUncompressed_def message_def)
  have d: "DecodeUncompressed zl ?raw = Inr (message (delivered zl cs))"
    using decodeLoop_wire [OF assms(1-3), of "[]"] by (simp add: DecodeUncompressed_def decodeMessage_def)
  have "length ?raw \<le> MaxDecompressedBytes" using assms(4) by (simp add: length_concat comp_def)
  from DecodeCompressed_Encode [OF assms(1) e this] obtain b where
    "Encode zl (message cs) = Inr b" "b \<noteq> []" "DecodeCompressed zl b = DecodeUncompressed zl ?raw" by blast
  with e d show ?thesis using Decode_compressed_type by metis
qed

definition sampleCards :: "Card list" where
  "sampleCards = [PragmaCard ''client-version'' [''22800''], LoginCard ''joe b'' ''n1'' ''s1'' [], CommentCard ''x'',
     FileCard ''abc'' [] (''hi'' @ [LF]), CFileCard ''abd'' ''abc'' 9 ''delta'' None, CloneCard 3 (- 1) False, PrivateCard]"

lemma message_roundtrip_witness:
  "\<exists>raw. EncodeUncompressed storedZlib (message sampleCards) = Inr raw \<and>
     DecodeUncompressed storedZlib raw = Inr (message (delivered storedZlib sampleCards))"
proof -
  have w: "list_all (wfCard storedZlib) sampleCards" by code_simp
  have s: "sum_list (map inflates sampleCards) \<le> MaxCFileInflateBytes" by code_simp
  have l: "sum_list (map (\<lambda>c. length (wire storedZlib c)) sampleCards) \<le> MaxDecompressedBytes" by code_simp
  show ?thesis using message_roundtrip [OF storedZlib_laws w s l] by blast
qed

section \<open>Safety on arbitrary input\<close>

text \<open>
  C10. Decoding arbitrary bytes with any inflater never panics, and what all compressed cards of an accepted
  message inflate to stays within the message budget.
\<close>

theorem decode_budget:
  "case decodeMessage zl data budget of Inl e \<Rightarrow> \<not> panics e
   | Inr m \<Rightarrow> sum_list (map inflates (mCards m)) \<le> budget"
  using decodeLoop_ok [where zl = zl and rest = data and budget = budget and acc = "[]"]
  by (auto simp: decodeMessage_def message_def split: sum.split_asm)

text \<open>
  C11. A login is bound to its body: for every login card of a decoded message, the recorded digest is the SHA-1 of a
  tail of the message, that tail is what the later cards were decoded from, and the nonce covers the tail exactly
  when it is that digest.
\<close>

theorem login_bound:
  assumes "decodeMessage zl data budget = Inr m" "i < length (mCards m)" "mCards m ! i = LoginCard u n s h"
  shows "\<exists>pre rest b. data = pre @ rest \<and> h = sha1Hex rest \<and>
    decodeMessage zl rest b = Inr (message (drop (Suc i) (mCards m))) \<and>
    NonceCoversTail (mCards m ! i) = (n = sha1Hex rest)"
proof -
  have "tailBound zl data (mCards m)"
    using assms(1) decodeLoop_ok [where zl = zl and rest = data and budget = budget and acc = "[]"]
    by (auto simp: decodeMessage_def message_def bindE_eq_Inr_iff)
  then obtain rest b where r: "suffix rest data" "h = sha1Hex rest" "decodeLoop zl rest b [] = Inr (drop (Suc i) (mCards m))"
    using assms(2,3) unfolding tailBound_def by blast
  from r(1) obtain pre where "data = pre @ rest" by (auto simp: suffix_def)
  with r assms(3) sha1Hex_nonempty show ?thesis
    by (intro exI [of _ pre] exI [of _ rest] exI [of _ b]) (simp add: decodeMessage_def NonceCoversTail_def)
qed

lemma login_bound_witness:
  "\<exists>pre rest. ''login u n s'' @ [LF] @ ''private'' = pre @ rest \<and>
     decodeMessage storedZlib (''login u n s'' @ [LF] @ ''private'') 0 = Inr (message [LoginCard ''u'' ''n'' ''s'' (sha1Hex rest), PrivateCard])"
proof -
  let ?d = "''login u n s'' @ [LF] @ ''private''"
  have 1: "decodeCard storedZlib ?d 0 = Inr (Some (LoginCard ''u'' ''n'' ''s'' [], ''private'', 0))" by code_simp
  have 2: "decodeCard storedZlib ''private'' 0 = Inr (Some (PrivateCard, [], 0))" by code_simp
  have 3: "decodeCard storedZlib [] 0 = Inr None" by code_simp
  have d: "decodeMessage storedZlib ?d 0 = Inr (message [LoginCard ''u'' ''n'' ''s'' (sha1Hex ''private''), PrivateCard])"
    unfolding decodeMessage_def
    by (subst decodeLoop.simps, unfold 1, simp add: bindTail_bound isBadFile_def,
        subst decodeLoop.simps, unfold 2, simp add: bindTail_bound isBadFile_def, subst decodeLoop.simps, simp add: 3)
  from login_bound [OF d, of 0 "''u''" "''n''" "''s''" "sha1Hex ''private''"]
  obtain pre rest where "?d = pre @ rest" "sha1Hex ''private'' = sha1Hex rest" by (auto simp: message_def)
  with d show ?thesis by auto
qed

section \<open>The payload buffer\<close>

text \<open>One round: the capacity after a possible growth, the bytes asked for, and what comes of it.\<close>

lemma readPayloadLoop_round:
  assumes "length buf < n" "length buf \<le> c" "0 < c"
  obtains c' w where "length buf < c'" "0 < w" "length buf + w \<le> n" "length buf + w \<le> c'"
    "c' = c \<or> length buf = c \<and> c' = max (min n (2 * c)) (grow c (min n (2 * c)))"
    "readPayloadLoop grow n buf c rest =
       (if length rest < w then (Inl ReadPayloadEOF, c') else readPayloadLoop grow n (buf @ take w rest) c' (drop w rest))"
proof -
  define c' where "c' = (if length buf = c then max (min n (2 * c)) (grow c (min n (2 * c))) else c)"
  define w where "w = min n c' - length buf"
  have "length buf < min n (2 * c)" if "length buf = c" using that assms by simp
  then have c: "length buf < c'" using assms(2) by (auto simp: c'_def less_max_iff_disj)
  then have w: "0 < w" "length buf + w \<le> n" "length buf + w \<le> c'" using assms(1) by (auto simp: w_def)
  have "readPayloadLoop grow n buf c rest =
      (if w = 0 then (Inl (XPanic ''no progress''), c') else if length rest < w then (Inl ReadPayloadEOF, c')
       else readPayloadLoop grow n (buf @ take w rest) c' (drop w rest))"
    using assms(1) by (subst readPayloadLoop.simps) (simp only: Let_def c'_def [symmetric] w_def [symmetric] not_le [symmetric] if_False)
  then show thesis using that [of c' w] c w by (auto simp: c'_def)
qed

lemma take_drop_split:
  assumes "w \<le> k" "w \<le> length xs"
  shows "take w xs @ take (k - w) (drop w xs) = take k xs" "drop (k - w) (drop w xs) = drop k xs"
proof -
  have "k = w + (k - w)" using assms by simp
  then show "take w xs @ take (k - w) (drop w xs) = take k xs" by (metis take_add)
  show "drop (k - w) (drop w xs) = drop k xs" using assms by simp
qed

lemma readPayloadLoop_result:
  "length buf \<le> n \<Longrightarrow> length buf \<le> c \<Longrightarrow> 0 < c \<or> n = 0 \<Longrightarrow>
   fst (readPayloadLoop grow n buf c rest) =
     (if length rest < n - length buf then Inl ReadPayloadEOF
      else Inr (buf @ take (n - length buf) rest, drop (n - length buf) rest))"
proof (induction "n - length buf" arbitrary: buf c rest rule: less_induct)
  case less
  show ?case
  proof (cases "length buf = n")
    case True
    then show ?thesis by (subst readPayloadLoop.simps) simp
  next
    case False
    then have "length buf < n" "0 < c" using less.prems by auto
    from readPayloadLoop_round [OF this(1) less.prems(2) this(2), of grow rest]
    obtain c' w where w: "length buf < c'" "0 < w" "length buf + w \<le> n" "length buf + w \<le> c'"
      and r: "readPayloadLoop grow n buf c rest =
        (if length rest < w then (Inl ReadPayloadEOF, c') else readPayloadLoop grow n (buf @ take w rest) c' (drop w rest))"
      by blast
    show ?thesis
    proof (cases "length rest < w")
      case True
      then show ?thesis using r w(3) by simp
    next
      case F: False
      then have l: "length (buf @ take w rest) = length buf + w" by simp
      have IH: "fst (readPayloadLoop grow n (buf @ take w rest) c' (drop w rest)) =
          (if length (drop w rest) < n - length (buf @ take w rest) then Inl ReadPayloadEOF
           else Inr ((buf @ take w rest) @ take (n - length (buf @ take w rest)) (drop w rest),
                     drop (n - length (buf @ take w rest)) (drop w rest)))"
        using w l by (intro less.hyps) auto
      have k: "n - length (buf @ take w rest) = n - length buf - w" using l by simp
      have e: "(length (drop w rest) < n - length buf - w) = (length rest < n - length buf)"
        using F w(3) by (simp add: length_drop) linarith
      have le: "w \<le> n - length buf" "w \<le> length rest" using F w(3) by linarith+
      show ?thesis
        unfolding r if_not_P [OF F] IH k e using take_drop_split [OF le] by (simp only: append_assoc)
    qed
  qed
qed

lemma readPayloadLoop_cap:
  "length buf \<le> c \<Longrightarrow> 0 < c \<or> n = 0 \<Longrightarrow> c \<le> max payloadChunk (2 * (length buf + length rest)) \<Longrightarrow>
   snd (readPayloadLoop (\<lambda>c need. need) n buf c rest) \<le> max payloadChunk (2 * (length buf + length rest))"
proof (induction "n - length buf" arbitrary: buf c rest rule: less_induct)
  case less
  show ?case
  proof (cases "n \<le> length buf")
    case True
    then show ?thesis using less.prems by (subst readPayloadLoop.simps) simp
  next
    case False
    then have "length buf < n" "0 < c" using less.prems by auto
    from readPayloadLoop_round [OF this(1) less.prems(1) this(2), of "\<lambda>c need. need" rest]
    obtain c' w where w: "length buf < c'" "0 < w" "length buf + w \<le> n" "length buf + w \<le> c'"
      and c': "c' = c \<or> length buf = c \<and> c' = max (min n (2 * c)) (min n (2 * c))"
      and r: "readPayloadLoop (\<lambda>c need. need) n buf c rest =
        (if length rest < w then (Inl ReadPayloadEOF, c') else readPayloadLoop (\<lambda>c need. need) n (buf @ take w rest) c' (drop w rest))"
      by blast
    have m: "c' \<le> max payloadChunk (2 * (length buf + length rest))" using c' less.prems(3) by auto
    show ?thesis
    proof (cases "length rest < w")
      case True
      then show ?thesis using r m by simp
    next
      case F: False
      then have l: "length (buf @ take w rest) + length (drop w rest) = length buf + length rest" by simp
      have "snd (readPayloadLoop (\<lambda>c need. need) n (buf @ take w rest) c' (drop w rest)) \<le>
          max payloadChunk (2 * (length (buf @ take w rest) + length (drop w rest)))"
        by (rule less.hyps) (use w F l m in auto)
      then show ?thesis using r F l by simp
    qed
  qed
qed

text \<open>
  The growing read buffer: whatever capacities the runtime picks, the chunked read returns exactly what a plain
  read of the declared size would, and with growth as requested the buffer never holds more than the larger of
  64 KiB and twice the bytes the message really has, however large the declared size is.
\<close>

theorem readPayload_buffered:
  "fst (readPayloadBuffered grow rest n) = readPayload rest n \<and>
   snd (readPayloadBuffered (\<lambda>c need. need) rest n) \<le> max payloadChunk (2 * length rest)"
proof (cases "n > maxPayloadSize")
  case False
  have "0 < min n payloadChunk \<or> n = 0" by (auto simp: payloadChunk_def)
  then show ?thesis
    using False readPayloadLoop_result [of "[]" n "min n payloadChunk" grow rest]
      readPayloadLoop_cap [of "[]" "min n payloadChunk" n rest]
    by (simp add: readPayloadBuffered_def readPayload_def)
qed (simp add: readPayloadBuffered_def readPayload_def)

section \<open>The login cookie\<close>

lemma ascii_space: "byteval c < 128 \<Longrightarrow> isSpaceRune (byteval c) = isCardSpace c"
proof -
  have "\<forall>c. (byteval c < 128) \<le> (isSpaceRune (byteval c) = isCardSpace c)" by code_simp
  then show "byteval c < 128 \<Longrightarrow> isSpaceRune (byteval c) = isCardSpace c" by (simp add: le_bool_def)
qed

lemma fieldsLoop_word:
  assumes "word t" "isASCII t"
  shows "fieldsLoop cur (map (\<lambda>c. (byteval c, [c])) t @ rs) = fieldsLoop (cur @ t) rs"
proof -
  have "list_all (\<lambda>c. \<not> isSpaceRune (byteval c)) t"
    using assms by (auto simp: word_def isASCII_def list_all_iff ascii_space)
  then show ?thesis by (induction t arbitrary: cur) auto
qed

lemma Fields_words:
  assumes "list_all word ts" "list_all isASCII ts" "ts \<noteq> []"
  shows "Fields (lineOf ts) = ts"
proof -
  let ?f = "map (\<lambda>c. (byteval c, [c]))"
  have sp: "byteval SP < 128" "isSpaceRune (byteval SP)" by code_simp+
  have loop: "fieldsLoop t (?f (concat (map (\<lambda>v. SP # v) us))) = t # us" if "t \<noteq> []" "list_all word us" "list_all isASCII us" for t us
    using that
  proof (induction us arbitrary: t)
    case (Cons u us)
    have "u \<noteq> []" using Cons.prems(2) by (simp add: word_def)
    then show ?case using Cons fieldsLoop_word [of u "[]"] sp(2) by simp
  qed simp
  obtain t us where ts: "ts = t # us" using assms(3) by (cases ts) auto
  have t: "word t" "isASCII t" "t \<noteq> []" using assms ts by (auto simp: word_def)
  have "isASCII (lineOf ts)" using assms(2) ts sp(1) by (auto simp: isASCII_def list_all_iff)
  then have "Fields (lineOf ts) = fieldsLoop [] (?f t @ ?f (concat (map (\<lambda>v. SP # v) us)))"
    by (simp add: Fields_def runes_ASCII ts)
  also have "\<dots> = t # us" using fieldsLoop_word [OF t(1,2)] loop [OF t(3)] assms ts by simp
  finally show ?thesis using ts by simp
qed

lemma FossilEncode_ASCII: "isASCII s \<Longrightarrow> isASCII (FossilEncode s)"
proof -
  have "byteval BSL < 128" "byteval (CHR ''n'') < 128" "byteval (CHR ''s'') < 128" "byteval (CHR ''t'') < 128" "byteval (CHR ''r'') < 128"
    "byteval (CHR ''v'') < 128" "byteval (CHR ''f'') < 128" "byteval (CHR ''0'') < 128" by code_simp+
  then show "isASCII s \<Longrightarrow> isASCII (FossilEncode s)" by (induction s) (auto simp: isASCII_def)
qed

lemma parseLoginCookie_ascii:
  assumes "u \<noteq> []" "isASCII u" "word n" "isASCII n" "word s" "isASCII s"
  shows "parseLoginCookie (QueryEscape (''login '' @ FossilEncode u @ '' '' @ n @ '' '' @ s)) = Some (LoginCard u n s [])"
proof -
  let ?ts = "[''login'', FossilEncode u, n, s]"
  have a: "isASCII ''login''" by code_simp
  have f: "Fields (lineOf ?ts) = ?ts" using assms a FossilEncode_ASCII [of u] word_FossilEncode [of u] by (intro Fields_words) auto
  have l: "lineOf ?ts = ''login '' @ FossilEncode u @ '' '' @ n @ '' '' @ s" by simp
  have "QueryEscape (c # x) \<noteq> []" for c x by (simp add: QueryEscape_def escapeByte_def)
  then have "QueryEscape (''login '' @ FossilEncode u @ '' '' @ n @ '' '' @ s) \<noteq> []" by simp
  moreover have "QueryUnescape (QueryEscape (lineOf ?ts)) = Some (lineOf ?ts)" by (rule QueryUnescape_QueryEscape)
  ultimately show ?thesis unfolding parseLoginCookie_def l [symmetric] using f by simp
qed

text \<open>
  C21. Moving the login to the cookie loses nothing: a request that opens with a login of ASCII fields, split into body
  and cookie and decoded by the server, has that login first, bound to the whole body, then the other cards.
\<close>

theorem login_cookie_roundtrip:
  assumes "zlibLaws zl" "list_all (wfCard zl) cs" "sum_list (map inflates cs) \<le> MaxCFileInflateBytes"
    and "m = \<lparr>mCards = LoginCard u n s h # cs, mUncompressed = un, mLoginCookieOK = True\<rparr>"
    and "u \<noteq> []" "isASCII u" "word n" "isASCII n" "word s" "isASCII s"
  shows "\<exists>body cookie raw. SplitLoginCookie m = (body, cookie) \<and> EncodeUncompressed zl body = Inr raw \<and>
    DecodeRequest zl (Some raw) ContentTypeUncompressed cookie = Inr (message (LoginCard u n s (sha1Hex raw) # delivered zl cs))"
proof -
  let ?raw = "concat (map (wire zl) cs)" and ?ck = "QueryEscape (''login '' @ FossilEncode u @ '' '' @ n @ '' '' @ s)"
  have sp: "SplitLoginCookie m = (message cs, ?ck)" unfolding assms(4) SplitLoginCookie_def by simp
  have e: "EncodeUncompressed zl (message cs) = Inr ?raw"
    using encodeCards_wire [OF assms(2)] by (simp add: EncodeUncompressed_def message_def)
  have d: "DecodeUncompressed zl ?raw = Inr (message (delivered zl cs))"
    using decodeLoop_wire [OF assms(1-3), of "[]"] by (simp add: DecodeUncompressed_def decodeMessage_def)
  have nc: "\<not> contentTypeIsCompressed ContentTypeUncompressed" by code_simp
  have "DecodeRequest zl (Some ?raw) ContentTypeUncompressed ?ck = Inr (message (LoginCard u n s (sha1Hex ?raw) # delivered zl cs))"
    unfolding DecodeRequest_def parseLoginCookie_ascii [OF assms(5-10)] using d nc by (simp add: SHA1_def message_def)
  with sp e show ?thesis by blast
qed

lemma login_cookie_roundtrip_witness:
  "\<exists>body cookie raw. SplitLoginCookie \<lparr>mCards = [LoginCard ''joe'' ''n'' ''s'' [], PrivateCard], mUncompressed = False, mLoginCookieOK = True\<rparr> =
       (body, cookie) \<and> EncodeUncompressed storedZlib body = Inr raw \<and>
     DecodeRequest storedZlib (Some raw) ContentTypeUncompressed cookie =
       Inr (message (LoginCard ''joe'' ''n'' ''s'' (sha1Hex raw) # delivered storedZlib [PrivateCard]))"
proof -
  have a: "isASCII ''joe''" "isASCII ''n''" "isASCII ''s''" "word ''n''" "word ''s''" by code_simp+
  have w: "list_all (wfCard storedZlib) [PrivateCard]" "sum_list (map inflates [PrivateCard]) \<le> MaxCFileInflateBytes" by simp_all
  show ?thesis by (rule login_cookie_roundtrip [OF storedZlib_laws w refl _ a(1) a(4) a(2) a(5) a(3)]) simp
qed

text \<open>
  Two departures from what the comments promise: a user name holding a no-break space logs in from the body but is
  ignored from the cookie, whose tokens are split on Unicode white space rather than on card spaces; and a decimal
  \<^verbatim>\<open>clone_seqno\<close> past the 64-bit range is recorded as the largest 64-bit integer.
\<close>

theorem cookie_and_seqno_edges:
  "parseLoginCookie (QueryEscape (''login '' @ [CHR ''j'', CHR 0xC2, CHR 0xA0, CHR ''b''] @ '' n s'')) = None \<and>
   decodeCard zl (''login '' @ [CHR ''j'', CHR 0xC2, CHR 0xA0, CHR ''b''] @ '' n s'' @ [LF]) 0 =
     Inr (Some (LoginCard [CHR ''j'', CHR 0xC2, CHR 0xA0, CHR ''b''] ''n'' ''s'' [], [], 0)) \<and>
   parseCloneSeqNo [''9223372036854775808''] = Some (CloneSeqNoCard (2 ^ 63 - 1) [])"
proof (intro conjI)
  show "parseLoginCookie (QueryEscape (''login '' @ [CHR ''j'', CHR 0xC2, CHR 0xA0, CHR ''b''] @ '' n s'')) = None" by code_simp
  show "decodeCard zl (''login '' @ [CHR ''j'', CHR 0xC2, CHR 0xA0, CHR ''b''] @ '' n s'' @ [LF]) 0 =
     Inr (Some (LoginCard [CHR ''j'', CHR 0xC2, CHR 0xA0, CHR ''b''] ''n'' ''s'' [], [], 0))" by code_simp
  show "parseCloneSeqNo [''9223372036854775808''] = Some (CloneSeqNoCard (2 ^ 63 - 1) [])" by code_simp
qed

end
