(* ===== verification/Delta.thy ===== *)
theory Delta
  imports Prelude "HOL-Library.Word"
begin

text \<open>
  \<^verbatim>\<open>internal/delta/delta.go\<close>: the fossil delta format.  A delta is a header
  \<^verbatim>\<open><len>\n\<close>, a stream of commands \<^verbatim>\<open>cnt@off,\<close> (copy from the source),
  \<^verbatim>\<open>cnt:bytes\<close> (insert) and a terminator \<^verbatim>\<open>checksum;\<close>.  The theory models the reader, both
  walks over the command stream (\<open>scanOutputSize\<close> and \<open>ApplyInto\<close>, the latter with the
  capacity of its output buffer), the checksum, and the encoder \<open>Create\<close> with its hash
  table and match search.
\<close>

section \<open>Errors, digits and the reader\<close>

datatype delta_error = ErrInvalidDelta string | ErrChecksum | ErrTooLarge | DeltaPanic string

definition maxDeltaTargetSize :: nat where
  "maxDeltaTargetSize = 2 ^ 32"

definition digits :: "int list" where
  "digits = [
    -1, -1, -1, -1, -1, -1, -1, -1, -1, -1, -1, -1, -1, -1, -1, -1,
    -1, -1, -1, -1, -1, -1, -1, -1, -1, -1, -1, -1, -1, -1, -1, -1,
    -1, -1, -1, -1, -1, -1, -1, -1, -1, -1, -1, -1, -1, -1, -1, -1,
    0, 1, 2, 3, 4, 5, 6, 7, 8, 9, -1, -1, -1, -1, -1, -1,
    -1, 10, 11, 12, 13, 14, 15, 16, 17, 18, 19, 20, 21, 22, 23, 24,
    25, 26, 27, 28, 29, 30, 31, 32, 33, 34, 35, -1, -1, -1, -1, 36,
    -1, 37, 38, 39, 40, 41, 42, 43, 44, 45, 46, 47, 48, 49, 50, 51,
    52, 53, 54, 55, 56, 57, 58, 59, 60, 61, 62, -1, -1, -1, 63, -1]"

definition zDigitsEnc :: bytes where
  "zDigitsEnc = ''0123456789ABCDEFGHIJKLMNOPQRSTUVWXYZ_abcdefghijklmnopqrstuvwxyz~''"

record reader =
  rdata :: bytes
  rpos :: nat

abbreviation rest :: "reader \<Rightarrow> bytes" where
  "rest r \<equiv> drop (rpos r) (rdata r)"

text \<open>The digit loop of \<open>getInt\<close> over the unread bytes; \<open>pos\<close> is \<^verbatim>\<open>r.pos\<close>.\<close>

fun getInt_loop :: "bytes \<Rightarrow> nat \<Rightarrow> nat \<Rightarrow> bool \<Rightarrow> delta_error + (nat \<times> bool \<times> nat)" where
  "getInt_loop [] pos v started = Inr (v, started, pos)"
| "getInt_loop (c # cs) pos v started =
     (if 128 \<le> (of_char c :: nat) \<or> digits ! of_char c < 0 then Inr (v, started, pos)
      else let d = nat (digits ! of_char c) in
        if v > (max_u64 - d) div 64 then Inl (ErrInvalidDelta ''integer overflow'')
        else getInt_loop cs (Suc pos) (u64 (v * 64 + d)) True)"

definition getInt :: "reader \<Rightarrow> delta_error + (nat \<times> reader)" where
  "getInt r = bindE (getInt_loop (rest r) (rpos r) 0 False) (\<lambda>(v, started, pos).
     if \<not> started then Inl (ErrInvalidDelta ''expected integer'')
     else Inr (v, r\<lparr>rpos := pos\<rparr>))"

definition getChar :: "reader \<Rightarrow> delta_error + (byte \<times> reader)" where
  "getChar r = (if length (rdata r) \<le> rpos r then Inl (ErrInvalidDelta ''unexpected end'')
     else Inr (rdata r ! rpos r, r\<lparr>rpos := rpos r + 1\<rparr>))"

definition parseTargetLen :: "reader \<Rightarrow> delta_error + (nat \<times> reader)" where
  "parseTargetLen r =
     bindE (getInt r) (\<lambda>(targetLen, r1).
     bindE (getChar r1) (\<lambda>(trm, r2).
       if trm \<noteq> CHR 0x0A then Inl (ErrInvalidDelta ''expected newline after target length'')
       else if maxDeltaTargetSize \<le> targetLen
         then Inl (ErrInvalidDelta ''target length exceeds maximum'')
       else Inr (targetLen, r2)))"

definition OutputSize :: "bytes \<Rightarrow> delta_error + nat" where
  "OutputSize deltaBytes =
     (if deltaBytes = [] then Inl (ErrInvalidDelta ''empty delta'')
      else bindE (parseTargetLen \<lparr>rdata = deltaBytes, rpos = 0\<rparr>) (\<lambda>(n, _). Inr n))"

section \<open>Checksum\<close>

definition u32b :: "byte \<Rightarrow> 32 word" where
  "u32b b = of_nat (of_char b)"

fun Checksum_loop :: "32 word \<Rightarrow> bytes \<Rightarrow> 32 word" where
  "Checksum_loop acc (a # b # c # d # xs) =
     Checksum_loop
       (acc + or (or (or (push_bit 24 (u32b a)) (push_bit 16 (u32b b))) (push_bit 8 (u32b c)))
                 (u32b d)) xs"
| "Checksum_loop acc [a, b, c] =
     acc + push_bit 8 (u32b c) + push_bit 16 (u32b b) + push_bit 24 (u32b a)"
| "Checksum_loop acc [a, b] = acc + push_bit 16 (u32b b) + push_bit 24 (u32b a)"
| "Checksum_loop acc [a] = acc + push_bit 24 (u32b a)"
| "Checksum_loop acc [] = acc"

definition Checksum :: "bytes \<Rightarrow> 32 word" where
  "Checksum data = Checksum_loop 0 data"

section \<open>Scanning the command stream\<close>

text \<open>Reading an integer or a byte moves the reader forward inside its data.\<close>

lemma getInt_loop_pos:
  "getInt_loop cs pos v started = Inr (v', started', pos') \<Longrightarrow>
     pos \<le> pos' \<and> pos' \<le> pos + length cs \<and> (started' \<longrightarrow> started \<or> pos < pos')"
  by (induction cs pos v started rule: getInt_loop.induct)
     (auto split: if_splits simp: Let_def)

lemma getInt_progress:
  assumes "getInt r = Inr (v, r')"
  shows "rdata r' = rdata r \<and> rpos r < rpos r' \<and> (rpos r < length (rdata r) \<longrightarrow> rpos r' \<le> length (rdata r))"
  using assms
  by (auto simp: getInt_def bindE_eq_Inr_iff split: if_splits dest!: getInt_loop_pos)

lemma getChar_progress:
  "getChar r = Inr (c, r') \<Longrightarrow>
     rdata r' = rdata r \<and> rpos r' = Suc (rpos r) \<and> rpos r < length (rdata r)"
  by (auto simp: getChar_def split: if_splits)

definition scanCopy :: "nat \<Rightarrow> nat \<Rightarrow> reader \<Rightarrow> reader option" where
  "scanCopy srcLen cnt r =
     (case getInt r of Inl _ \<Rightarrow> None | Inr (offset, r1) \<Rightarrow>
       (case getChar r1 of Inl _ \<Rightarrow> None | Inr (trm, r2) \<Rightarrow>
         (if trm \<noteq> CHR '','' then None
          else if offset > srcLen \<or> cnt > srcLen \<or> u64 (offset + cnt) > srcLen then None
          else Some r2)))"

definition scanInsert :: "nat \<Rightarrow> reader \<Rightarrow> reader option" where
  "scanInsert cnt r =
     (if cnt > length (rdata r) \<or> int (rpos r) + to_int cnt > int (length (rdata r)) then None
      else Some (r\<lparr>rpos := rpos r + cnt\<rparr>))"

definition scanCommand :: "nat \<Rightarrow> byte \<Rightarrow> nat \<Rightarrow> reader \<Rightarrow> reader option" where
  "scanCommand srcLen cmd cnt r =
     (if cmd = CHR ''@'' then scanCopy srcLen cnt r
      else if cmd = CHR '':'' then scanInsert cnt r else None)"

lemma scanCommand_progress:
  "scanCommand srcLen cmd cnt r = Some r' \<Longrightarrow> rdata r' = rdata r \<and> rpos r \<le> rpos r'"
  by (auto simp: scanCommand_def scanCopy_def scanInsert_def
      split: sum.splits prod.splits if_splits dest!: getInt_progress getChar_progress)

function scanLoop :: "nat \<Rightarrow> nat \<Rightarrow> reader \<Rightarrow> nat \<Rightarrow> nat option" where
  "scanLoop srcLen targetLen r tot =
    (if length (rdata r) \<le> rpos r then None
     else case getInt r of Inl _ \<Rightarrow> None | Inr (cnt, r1) \<Rightarrow>
      (case getChar r1 of Inl _ \<Rightarrow> None | Inr (cmd, r2) \<Rightarrow>
        (if cmd = CHR '';'' then (if tot \<noteq> targetLen then None else Some tot)
         else case scanCommand srcLen cmd cnt r2 of
             None \<Rightarrow> None
           | Some r3 \<Rightarrow>
               if u64 (tot + cnt) > targetLen then None
               else scanLoop srcLen targetLen r3 (u64 (tot + cnt)))))"
  by pat_completeness auto
termination
  by (relation "measure (\<lambda>(srcLen, targetLen, r, tot). length (rdata r) - rpos r)")
     (auto dest!: getInt_progress getChar_progress scanCommand_progress)

definition scanOutputSize :: "bytes \<Rightarrow> nat \<Rightarrow> nat \<Rightarrow> nat option" where
  "scanOutputSize cmds srcLen targetLen =
     (if targetLen > 2 ^ 63 - 1 then None
      else scanLoop srcLen targetLen \<lparr>rdata = cmds, rpos = 0\<rparr> 0)"

section \<open>Replaying a delta\<close>

text \<open>
  A Go slice as \<open>ApplyInto\<close> uses it: its bytes and its capacity.  How far \<^verbatim>\<open>append\<close>
  over-allocates when the capacity is exhausted is the runtime's choice (the parameter
  \<open>grow cap needed\<close>); the language promises only that the result fits.
\<close>

record gobuf =
  bbytes :: bytes
  bcap :: nat

definition go_make :: "bytes \<Rightarrow> nat \<Rightarrow> delta_error + gobuf" where
  "go_make content capacity =
     (if capacity < length content then Inl (DeltaPanic ''makeslice: cap out of range'')
      else Inr \<lparr>bbytes = content, bcap = capacity\<rparr>)"

definition go_append :: "(nat \<Rightarrow> nat \<Rightarrow> nat) \<Rightarrow> gobuf \<Rightarrow> bytes \<Rightarrow> gobuf" where
  "go_append grow b xs =
     (let n = length (bbytes b) + length xs
      in \<lparr>bbytes = bbytes b @ xs, bcap = (if n \<le> bcap b then bcap b else grow (bcap b) n)\<rparr>)"

definition go_slice :: "bytes \<Rightarrow> nat \<Rightarrow> nat \<Rightarrow> delta_error + bytes" where
  "go_slice xs lo hi =
     (if lo \<le> hi \<and> hi \<le> length xs then Inr (bslice xs lo hi)
      else Inl (DeltaPanic ''slice bounds out of range''))"

definition deltaGrowthFactor :: nat where
  "deltaGrowthFactor = 64"

definition deltaInitialCap :: nat where
  "deltaInitialCap = 64 * 1024"

definition growOutputCap :: "gobuf \<Rightarrow> nat \<Rightarrow> nat \<Rightarrow> delta_error + gobuf" where
  "growOutputCap output targetLen deltaLen =
     (let next0 = u64 (deltaLen * deltaGrowthFactor);
          next = (if next0 > targetLen then targetLen else next0)
      in if next \<le> bcap output then Inr output
         else go_make (bbytes output) next)"

text \<open>The one-time upgrade after the first executed command.\<close>

definition upgradeCap :: "bool \<Rightarrow> bool \<Rightarrow> nat \<Rightarrow> nat \<Rightarrow> gobuf \<Rightarrow> delta_error + (gobuf \<times> bool)" where
  "upgradeCap capped grown targetLen deltaLen output =
     (if capped \<and> \<not> grown
      then bindE (growOutputCap output targetLen deltaLen) (\<lambda>b. Inr (b, True))
      else Inr (output, grown))"

definition applyCopy ::
  "(nat \<Rightarrow> nat \<Rightarrow> nat) \<Rightarrow> bytes \<Rightarrow> nat \<Rightarrow> nat \<Rightarrow> reader \<Rightarrow> gobuf \<Rightarrow> delta_error + (reader \<times> gobuf)" where
  "applyCopy grow source targetLen cnt r output =
     bindE (getInt r) (\<lambda>(offset, r1).
     bindE (getChar r1) (\<lambda>(trm, r2).
       if trm \<noteq> CHR '','' then Inl (ErrInvalidDelta ''expected comma in copy command'')
       else if offset > length source \<or> cnt > length source
         then Inl (ErrInvalidDelta ''copy offset/count overflow'')
       else if to_int (u64 (offset + cnt)) > int (length source)
         then Inl (ErrInvalidDelta ''copy exceeds source bounds'')
       else if u64 (length (bbytes output) + cnt) > targetLen
         then Inl (ErrInvalidDelta ''output exceeds declared target size during copy command'')
       else bindE (go_slice source offset (u64 (offset + cnt)))
              (\<lambda>piece. Inr (r2, go_append grow output piece))))"

definition applyInsert ::
  "(nat \<Rightarrow> nat \<Rightarrow> nat) \<Rightarrow> nat \<Rightarrow> nat \<Rightarrow> reader \<Rightarrow> gobuf \<Rightarrow> delta_error + (reader \<times> gobuf)" where
  "applyInsert grow targetLen cnt r output =
     (if cnt > length (rdata r) then Inl (ErrInvalidDelta ''insert count overflow'')
      else if int (rpos r) + to_int cnt > int (length (rdata r))
        then Inl (ErrInvalidDelta ''insert exceeds delta bounds'')
      else if u64 (length (bbytes output) + cnt) > targetLen
        then Inl (ErrInvalidDelta ''output exceeds declared target size during insert command'')
      else bindE (go_slice (rdata r) (rpos r) (rpos r + cnt))
             (\<lambda>piece. Inr (r\<lparr>rpos := rpos r + cnt\<rparr>, go_append grow output piece)))"

definition applyFinish :: "nat \<Rightarrow> nat \<Rightarrow> gobuf \<Rightarrow> delta_error + gobuf" where
  "applyFinish targetLen cnt output =
     (if length (bbytes output) \<noteq> targetLen
        then Inl (ErrInvalidDelta ''output size differs from target size'')
      else if cnt \<noteq> unat (Checksum (bbytes output)) then Inl ErrChecksum
      else Inr output)"

text \<open>The \<^verbatim>\<open>switch cmd\<close> on everything but the terminator.\<close>

definition applyCommand ::
  "(nat \<Rightarrow> nat \<Rightarrow> nat) \<Rightarrow> bytes \<Rightarrow> nat \<Rightarrow> byte \<Rightarrow> nat \<Rightarrow> reader \<Rightarrow> gobuf \<Rightarrow>
     delta_error + (reader \<times> gobuf)" where
  "applyCommand grow source targetLen cmd cnt r output =
     (if cmd = CHR ''@'' then applyCopy grow source targetLen cnt r output
      else if cmd = CHR '':'' then applyInsert grow targetLen cnt r output
      else Inl (ErrInvalidDelta ''unknown command''))"

lemma applyCommand_progress:
  "applyCommand grow source targetLen cmd cnt r output = Inr (r', output') \<Longrightarrow>
     rdata r' = rdata r \<and> rpos r \<le> rpos r'"
  by (auto simp: applyCommand_def applyCopy_def applyInsert_def bindE_eq_Inr_iff
      split: if_splits dest!: getInt_progress getChar_progress)

function applyLoop ::
  "(nat \<Rightarrow> nat \<Rightarrow> nat) \<Rightarrow> bytes \<Rightarrow> nat \<Rightarrow> bool \<Rightarrow> reader \<Rightarrow> gobuf \<Rightarrow> bool \<Rightarrow> delta_error + gobuf" where
  "applyLoop grow source targetLen capped r output grown =
    (if length (rdata r) \<le> rpos r then Inl (ErrInvalidDelta ''missing terminator'')
     else
       bindE (getInt r) (\<lambda>(cnt, r1).
       bindE (getChar r1) (\<lambda>(cmd, r2).
         if cmd = CHR '';'' then applyFinish targetLen cnt output
         else
           bindE (applyCommand grow source targetLen cmd cnt r2 output) (\<lambda>(r3, out1).
           bindE (upgradeCap capped grown targetLen (length (rdata r)) out1) (\<lambda>(out2, grown').
             applyLoop grow source targetLen capped r3 out2 grown')))))"
  by pat_completeness auto
termination
  by (relation "measure (\<lambda>(grow, source, targetLen, capped, r, output, grown). length (rdata r) - rpos r)")
     (auto dest!: getInt_progress getChar_progress applyCommand_progress)

text \<open>
  The buffer \<open>ApplyInto\<close> starts from.  \<open>dstCap\<close> is the capacity of the (empty) \<^verbatim>\<open>dst\<close>
  argument, 0 for a nil one.
\<close>

definition initialOutput :: "nat \<Rightarrow> bytes \<Rightarrow> bytes \<Rightarrow> nat \<Rightarrow> gobuf \<times> bool" where
  "initialOutput dstCap cmds source targetLen =
     (case scanOutputSize cmds (length source) targetLen of
        Some proven \<Rightarrow>
          (\<lparr>bbytes = [], bcap = (if dstCap > 0 \<and> dstCap \<ge> proven then dstCap else proven)\<rparr>, False)
      | None \<Rightarrow>
          if dstCap = 0 then
            if targetLen > deltaInitialCap then (\<lparr>bbytes = [], bcap = deltaInitialCap\<rparr>, True)
            else (\<lparr>bbytes = [], bcap = targetLen\<rparr>, False)
          else (\<lparr>bbytes = [], bcap = dstCap\<rparr>, dstCap < targetLen))"

definition ApplyInto :: "(nat \<Rightarrow> nat \<Rightarrow> nat) \<Rightarrow> nat \<Rightarrow> bytes \<Rightarrow> bytes \<Rightarrow> delta_error + gobuf" where
  "ApplyInto grow dstCap source delta =
     (if delta = [] then Inl (ErrInvalidDelta ''empty delta'')
      else bindE (parseTargetLen \<lparr>rdata = delta, rpos = 0\<rparr>) (\<lambda>(targetLen, r).
        case initialOutput dstCap (rest r) source targetLen of (output, capped) \<Rightarrow>
          applyLoop grow source targetLen capped r output False))"

text \<open>\<open>Apply\<close> is \<open>ApplyInto\<close> with a nil destination; its result is a byte string.\<close>

definition Apply :: "(nat \<Rightarrow> nat \<Rightarrow> nat) \<Rightarrow> bytes \<Rightarrow> bytes \<Rightarrow> delta_error + bytes" where
  "Apply grow source delta = bindE (ApplyInto grow 0 source delta) (\<lambda>b. Inr (bbytes b))"

section \<open>Integers: the value read and the absence of wrap-around\<close>

definition isDigit :: "byte \<Rightarrow> bool" where
  "isDigit c \<longleftrightarrow> (of_char c :: nat) < 128 \<and> 0 \<le> digits ! of_char c"

definition digitVal :: "byte \<Rightarrow> nat" where
  "digitVal c = nat (digits ! of_char c)"

definition b64val :: "nat \<Rightarrow> bytes \<Rightarrow> nat" where
  "b64val v ds = fold (\<lambda>c w. w * 64 + digitVal c) ds v"

lemma b64val_simps [simp]:
  "b64val v [] = v" "b64val v (c # ds) = b64val (v * 64 + digitVal c) ds"
  "b64val v (ds @ es) = b64val (b64val v ds) es"
  by (simp_all add: b64val_def)

lemma b64val_ge: "v \<le> b64val v ds"
proof (induction ds arbitrary: v)
  case (Cons c ds)
  have "v \<le> v * 64 + digitVal c" by simp
  also have "\<dots> \<le> b64val (v * 64 + digitVal c) ds" by (rule Cons.IH)
  finally show ?case by simp
qed simp

lemma digits_bound: "\<forall>i < 128. digits ! i < 64"
proof -
  have "list_all (\<lambda>d. d < 64) digits" by (simp add: digits_def)
  moreover have "length digits = 128" by (simp add: digits_def)
  ultimately show ?thesis by (simp add: list_all_length)
qed

lemma digitVal_less: "isDigit c \<Longrightarrow> digitVal c < 64"
  using digits_bound by (auto simp: isDigit_def digitVal_def)

text \<open>The overflow guard \<^verbatim>\<open>v > (math.MaxUint64-d)/64\<close> fires exactly when the step would wrap.\<close>

lemma overflow_guard:
  assumes "d < 64"
  shows "(max_u64 - d) div 64 < v \<longleftrightarrow> 2 ^ 64 \<le> v * 64 + d"
proof -
  have "(max_u64 - d) div 64 < v \<longleftrightarrow> max_u64 - d < v * 64"
    by (simp add: div_less_iff_less_mult)
  with assms show ?thesis by (auto simp: max_u64_def)
qed

lemma getInt_loop_eq:
  "v < 2 ^ 64 \<Longrightarrow> getInt_loop cs pos v started =
     (let ds = takeWhile isDigit cs in
      if 2 ^ 64 \<le> b64val v ds then Inl (ErrInvalidDelta ''integer overflow'')
      else Inr (b64val v ds, started \<or> ds \<noteq> [], pos + length ds))"
proof (induction cs arbitrary: pos v started)
  case Nil
  then show ?case by simp
next
  case (Cons c cs)
  show ?case
  proof (cases "isDigit c")
    case False
    then show ?thesis using Cons.prems by (auto simp: isDigit_def)
  next
    case True
    note dig = digitVal_less [OF True]
    have stop: "\<not> (128 \<le> (of_char c :: nat) \<or> digits ! of_char c < 0)"
      using True by (auto simp: isDigit_def)
    show ?thesis
    proof (cases "2 ^ 64 \<le> v * 64 + digitVal c")
      case over: True
      then have "2 ^ 64 \<le> b64val (v * 64 + digitVal c) (takeWhile isDigit cs)"
        using b64val_ge le_trans by blast
      then show ?thesis using stop over dig True
        by (simp add: Let_def overflow_guard digitVal_def [symmetric])
    next
      case False
      then have "u64 (v * 64 + digitVal c) = v * 64 + digitVal c" by simp
      then show ?thesis using stop False dig True Cons.IH [of "v * 64 + digitVal c" "Suc pos" True]
        by (simp add: Let_def overflow_guard digitVal_def [symmetric])
    qed
  qed
qed

lemma getInt_eq:
  "getInt r =
     (let ds = takeWhile isDigit (rest r) in
      if 2 ^ 64 \<le> b64val 0 ds then Inl (ErrInvalidDelta ''integer overflow'')
      else if ds = [] then Inl (ErrInvalidDelta ''expected integer'')
      else Inr (b64val 0 ds, r\<lparr>rpos := rpos r + length ds\<rparr>))"
  by (simp add: getInt_def getInt_loop_eq Let_def)

lemma drop_length_takeWhile: "drop (n + length (takeWhile P (drop n xs))) xs = dropWhile P (drop n xs)"
  by (metis add.commute drop_drop dropWhile_eq_drop)

lemma getInt_rest:
  assumes "getInt r = Inr (v, r')"
  shows "rest r' = dropWhile isDigit (rest r) \<and> rdata r' = rdata r \<and> v < 2 ^ 64"
  using assms by (auto simp: getInt_eq Let_def drop_length_takeWhile split: if_splits)

lemma getInt_same_rest:
  assumes "getInt r = Inr (v, r')" and "rest q = rest r"
  shows "\<exists>q'. getInt q = Inr (v, q') \<and> rest q' = rest r' \<and> rdata q' = rdata q"
  using assms by (auto simp: getInt_eq Let_def drop_length_takeWhile split: if_splits)
    (metis drop_length_takeWhile)

lemma getChar_rest: "rest r = c # cs \<Longrightarrow> getChar r = Inr (c, r\<lparr>rpos := Suc (rpos r)\<rparr>)"
  by (auto simp: getChar_def dest: drop_eq_Cons_nth)

lemma getChar_same_rest:
  assumes "getChar r = Inr (c, r')" and "rest q = rest r"
  shows "\<exists>q'. getChar q = Inr (c, q') \<and> rest q' = rest r' \<and> rdata q' = rdata q"
proof -
  from assms(1) have lt: "rpos r < length (rdata r)" and r': "r' = r\<lparr>rpos := Suc (rpos r)\<rparr>"
    and c: "c = rdata r ! rpos r"
    by (auto simp: getChar_def split: if_splits)
  from lt c have "rest r = c # rest r'" by (simp add: r' Cons_nth_drop_Suc)
  with assms(2) have "rest q = c # rest r'" by simp
  then show ?thesis using drop_eq_Cons_nth [of "rpos q" "rdata q"] by (auto dest: getChar_rest)
qed

section \<open>The replay specification\<close>

text \<open>
  What a command stream means, without buffers and positions: \<open>replay source T N xs out\<close> runs
  the unread commands \<open>xs\<close> of a delta of length \<open>N\<close> after the output \<open>out\<close>.
\<close>

definition readInt :: "bytes \<Rightarrow> delta_error + (nat \<times> bytes)" where
  "readInt xs =
     (let ds = takeWhile isDigit xs in
      if 2 ^ 64 \<le> b64val 0 ds then Inl (ErrInvalidDelta ''integer overflow'')
      else if ds = [] then Inl (ErrInvalidDelta ''expected integer'')
      else Inr (b64val 0 ds, dropWhile isDigit xs))"

definition readChar :: "bytes \<Rightarrow> delta_error + (byte \<times> bytes)" where
  "readChar xs = (case xs of [] \<Rightarrow> Inl (ErrInvalidDelta ''unexpected end'') | c # cs \<Rightarrow> Inr (c, cs))"

lemma readInt_shorter: "readInt xs = Inr (v, ys) \<Longrightarrow> length ys < length xs"
proof -
  assume *: "readInt xs = Inr (v, ys)"
  then have "takeWhile isDigit xs \<noteq> []" and ys: "ys = dropWhile isDigit xs"
    by (auto simp: readInt_def Let_def split: if_splits)
  then have "length (takeWhile isDigit xs) \<noteq> 0" by (simp only: length_0_conv not_False_eq_True)
  moreover have "length (takeWhile isDigit xs) + length (dropWhile isDigit xs) = length xs"
    by (metis length_append takeWhile_dropWhile_id)
  ultimately show ?thesis unfolding ys by linarith
qed

lemma readChar_shorter: "readChar xs = Inr (c, ys) \<Longrightarrow> xs = c # ys"
  by (auto simp: readChar_def split: list.splits)

definition specCopy :: "bytes \<Rightarrow> nat \<Rightarrow> nat \<Rightarrow> bytes \<Rightarrow> bytes \<Rightarrow> delta_error + (bytes \<times> bytes)" where
  "specCopy source T cnt zs out =
     bindE (readInt zs) (\<lambda>(offset, us).
     bindE (readChar us) (\<lambda>(trm, vs).
       if trm \<noteq> CHR '','' then Inl (ErrInvalidDelta ''expected comma in copy command'')
       else if offset > length source \<or> cnt > length source
         then Inl (ErrInvalidDelta ''copy offset/count overflow'')
       else if offset + cnt > length source
         then Inl (ErrInvalidDelta ''copy exceeds source bounds'')
       else if length out + cnt > T
         then Inl (ErrInvalidDelta ''output exceeds declared target size during copy command'')
       else Inr (vs, out @ bslice source offset (offset + cnt))))"

definition specInsert :: "nat \<Rightarrow> nat \<Rightarrow> nat \<Rightarrow> bytes \<Rightarrow> bytes \<Rightarrow> delta_error + (bytes \<times> bytes)" where
  "specInsert T N cnt zs out =
     (if cnt > N then Inl (ErrInvalidDelta ''insert count overflow'')
      else if cnt > length zs then Inl (ErrInvalidDelta ''insert exceeds delta bounds'')
      else if length out + cnt > T
        then Inl (ErrInvalidDelta ''output exceeds declared target size during insert command'')
      else Inr (drop cnt zs, out @ take cnt zs))"

definition specFinish :: "nat \<Rightarrow> nat \<Rightarrow> bytes \<Rightarrow> delta_error + bytes" where
  "specFinish T cnt out =
     (if length out \<noteq> T then Inl (ErrInvalidDelta ''output size differs from target size'')
      else if cnt \<noteq> unat (Checksum out) then Inl ErrChecksum
      else Inr out)"

definition specCommand ::
  "bytes \<Rightarrow> nat \<Rightarrow> nat \<Rightarrow> byte \<Rightarrow> nat \<Rightarrow> bytes \<Rightarrow> bytes \<Rightarrow> delta_error + (bytes \<times> bytes)" where
  "specCommand source T N cmd cnt zs out =
     (if cmd = CHR ''@'' then specCopy source T cnt zs out
      else if cmd = CHR '':'' then specInsert T N cnt zs out
      else Inl (ErrInvalidDelta ''unknown command''))"

lemma specCommand_shorter:
  "specCommand source T N cmd cnt zs out = Inr (vs, out') \<Longrightarrow> length vs \<le> length zs"
  by (auto simp: specCommand_def specCopy_def specInsert_def bindE_eq_Inr_iff split: if_splits
      dest!: readInt_shorter readChar_shorter)

lemma specCommand_length:
  "specCommand source T N cmd cnt zs out = Inr (vs, out') \<Longrightarrow>
     length out' \<le> T \<and> length out' = length out + cnt"
  by (auto simp: specCommand_def specCopy_def specInsert_def bindE_eq_Inr_iff split: if_splits)

function replay :: "bytes \<Rightarrow> nat \<Rightarrow> nat \<Rightarrow> bytes \<Rightarrow> bytes \<Rightarrow> delta_error + bytes" where
  "replay source T N xs out =
    (if xs = [] then Inl (ErrInvalidDelta ''missing terminator'')
     else
       bindE (readInt xs) (\<lambda>(cnt, ys).
       bindE (readChar ys) (\<lambda>(cmd, zs).
         if cmd = CHR '';'' then specFinish T cnt out
         else bindE (specCommand source T N cmd cnt zs out) (\<lambda>(vs, out'). replay source T N vs out'))))"
  by pat_completeness auto
termination
  by (relation "measure (\<lambda>(source, T, N, xs, out). length xs)")
     (auto dest!: readInt_shorter readChar_shorter specCommand_shorter)

declare replay.simps [simp del] applyLoop.simps [simp del] scanLoop.simps [simp del]

definition grows_enough :: "(nat \<Rightarrow> nat \<Rightarrow> nat) \<Rightarrow> bool" where
  "grows_enough grow \<longleftrightarrow> (\<forall>c n. n \<le> grow c n)"

definition wf_buf :: "gobuf \<Rightarrow> bool" where
  "wf_buf b \<longleftrightarrow> length (bbytes b) \<le> bcap b"

lemma getInt_readInt:
  "getInt r = bindE (readInt (rest r)) (\<lambda>(v, ys). Inr (v, r\<lparr>rpos := rpos r + (length (rest r) - length ys)\<rparr>))"
proof -
  have "length (takeWhile isDigit xs) = length xs - length (dropWhile isDigit xs)" for xs
    by (metis add_diff_cancel_right' length_append takeWhile_dropWhile_id)
  then show ?thesis by (auto simp: getInt_eq readInt_def Let_def)
qed

lemma getChar_readChar:
  "getChar r = bindE (readChar (rest r)) (\<lambda>(c, ys). Inr (c, r\<lparr>rpos := Suc (rpos r)\<rparr>))"
proof (cases "rest r")
  case Nil
  then show ?thesis by (simp add: getChar_def readChar_def)
next
  case (Cons c cs)
  then show ?thesis by (simp add: getChar_rest readChar_def)
qed

lemma rest_advance:
  assumes "ys = drop k (rest r)" and "k \<le> length (rest r)"
  shows "drop (rpos r + (length (rest r) - length ys)) (rdata r) = ys"
proof -
  have "length (rest r) - length ys = k" using assms by simp
  then show ?thesis using assms(1) by (simp add: add.commute)
qed

lemma readInt_drop: "readInt xs = Inr (v, ys) \<Longrightarrow> \<exists>k. ys = drop k xs \<and> 0 < k \<and> k \<le> length xs"
  using readInt_shorter [of xs v ys]
  by (auto simp: readInt_def Let_def dropWhile_eq_drop length_takeWhile_le split: if_splits)

lemma go_append_wf: "grows_enough grow \<Longrightarrow> wf_buf (go_append grow b xs)"
  by (simp add: go_append_def wf_buf_def Let_def grows_enough_def)

lemma bbytes_go_append [simp]: "bbytes (go_append grow b xs) = bbytes b @ xs"
  by (simp add: go_append_def Let_def)

lemma upgradeCap_ok:
  assumes "wf_buf b"
  shows "\<exists>b' g'. upgradeCap capped g T n b = Inr (b', g') \<and> bbytes b' = bbytes b \<and> wf_buf b'"
  using assms
  by (auto simp: upgradeCap_def growOutputCap_def go_make_def wf_buf_def Let_def
      res_simps split: if_splits)

lemma upgradeCap_uncapped [simp]: "upgradeCap False g T n b = Inr (b, g)"
  by (simp add: upgradeCap_def)

lemma getInt_step:
  assumes "readInt (rest r) = Inr (v, ys)"
  obtains r' where "getInt r = Inr (v, r')" "rest r' = ys" "rdata r' = rdata r"
    "rpos r \<le> length (rdata r) \<Longrightarrow> rpos r' \<le> length (rdata r)"
proof
  let ?r = "r\<lparr>rpos := rpos r + (length (rest r) - length ys)\<rparr>"
  obtain k where k: "ys = drop k (rest r)" "k \<le> length (rest r)"
    using readInt_drop [OF assms] by blast
  show "getInt r = Inr (v, ?r)" using assms by (simp add: getInt_readInt)
  show "rest ?r = ys" using rest_advance [OF k] by simp
  show "rdata ?r = rdata r" by simp
  show "rpos r \<le> length (rdata r) \<Longrightarrow> rpos ?r \<le> length (rdata r)" by simp
qed

lemma getChar_step:
  assumes "readChar (rest r) = Inr (c, ys)"
  obtains r' where "getChar r = Inr (c, r')" "rest r' = ys" "rdata r' = rdata r"
    "rpos r' \<le> length (rdata r)"
proof
  have "rest r = c # ys" using assms by (rule readChar_shorter)
  then show "getChar r = Inr (c, r\<lparr>rpos := Suc (rpos r)\<rparr>)"
    and "rest (r\<lparr>rpos := Suc (rpos r)\<rparr>) = ys" and "rpos (r\<lparr>rpos := Suc (rpos r)\<rparr>) \<le> length (rdata r)"
    using drop_eq_Cons_nth [of "rpos r" "rdata r" c ys] by (auto simp: getChar_rest)
qed simp

lemma getIntD:
  assumes "getInt r = Inr (v, r')"
  shows "readInt (rest r) = Inr (v, rest r')" and "rdata r' = rdata r"
proof -
  from assms obtain ys where ys: "readInt (rest r) = Inr (v, ys)"
    by (auto simp: getInt_readInt res_simps)
  from ys obtain q where "getInt r = Inr (v, q)" "rest q = ys" "rdata q = rdata r"
    by (rule getInt_step)
  with assms ys show "readInt (rest r) = Inr (v, rest r')" and "rdata r' = rdata r" by simp_all
qed

lemma getCharD:
  assumes "getChar r = Inr (c, r')"
  shows "readChar (rest r) = Inr (c, rest r')" and "rdata r' = rdata r"
    and "rpos r' \<le> length (rdata r)" and "rest r = c # rest r'"
proof -
  from assms obtain ys where ys: "readChar (rest r) = Inr (c, ys)"
    by (auto simp: getChar_readChar res_simps)
  from ys obtain q where "getChar r = Inr (c, q)" "rest q = ys" "rdata q = rdata r" "rpos q \<le> length (rdata r)"
    by (rule getChar_step)
  with assms ys show *: "readChar (rest r) = Inr (c, rest r')" and "rdata r' = rdata r"
    and "rpos r' \<le> length (rdata r)" by simp_all
  from * show "rest r = c # rest r'" by (rule readChar_shorter)
qed

lemma getInt_error: "readInt (rest r) = Inl e \<Longrightarrow> getInt r = Inl e"
  by (simp add: getInt_readInt)

lemma getChar_error: "readChar (rest r) = Inl e \<Longrightarrow> getChar r = Inl e"
  by (simp add: getChar_readChar)

text \<open>One command of the loop against its specification.\<close>

definition refines_step :: "reader \<Rightarrow> delta_error + (reader \<times> gobuf) \<Rightarrow> delta_error + (bytes \<times> bytes) \<Rightarrow> bool" where
  "refines_step r impl spec \<longleftrightarrow>
     (case spec of
        Inl e \<Rightarrow> impl = Inl e
      | Inr (vs, out') \<Rightarrow> \<exists>r' b'. impl = Inr (r', b') \<and> rest r' = vs \<and> rdata r' = rdata r \<and>
          rpos r' \<le> length (rdata r) \<and> bbytes b' = out' \<and> wf_buf b')"

lemma readInt_bound: "readInt xs = Inr (v, ys) \<Longrightarrow> v < 2 ^ 64"
  by (auto simp: readInt_def Let_def split: if_splits)

lemma applyCopy_refines:
  assumes "grows_enough grow" and "length source < 2 ^ 62" and "length (bbytes b) \<le> T" and "T < 2 ^ 32"
    and "rpos r \<le> length (rdata r)"
  shows "refines_step r (applyCopy grow source T cnt r b) (specCopy source T cnt (rest r) (bbytes b))"
proof (cases "readInt (rest r)")
  case (Inl e)
  then show ?thesis by (simp add: refines_step_def applyCopy_def specCopy_def getInt_error)
next
  case (Inr p)
  then obtain off us where off: "readInt (rest r) = Inr (off, us)" by (cases p) auto
  from off obtain r1 where r1: "getInt r = Inr (off, r1)" "rest r1 = us" "rdata r1 = rdata r"
    by (rule getInt_step)
  show ?thesis
  proof (cases "readChar us")
    case (Inl e)
    then show ?thesis using off r1
      by (simp add: refines_step_def applyCopy_def specCopy_def getChar_error)
  next
    case (Inr p)
    then obtain trm vs where trm: "readChar (rest r1) = Inr (trm, vs)" using r1 by (cases p) auto
    then obtain r2 where r2: "getChar r1 = Inr (trm, r2)" "rest r2 = vs" "rdata r2 = rdata r1"
        "rpos r2 \<le> length (rdata r1)"
      by (rule getChar_step)
    have w: "off \<le> length source \<Longrightarrow> cnt \<le> length source \<Longrightarrow> u64 (off + cnt) = off + cnt \<and>
        to_int (off + cnt) = int (off + cnt) \<and> u64 (length (bbytes b) + cnt) = length (bbytes b) + cnt"
      using assms by simp
    show ?thesis using off r1 trm r2 w go_append_wf [OF assms(1)]
      by (auto simp: refines_step_def applyCopy_def specCopy_def go_slice_def)
  qed
qed

lemma applyInsert_refines:
  assumes "grows_enough grow" and "length (rdata r) < 2 ^ 62" and "length (bbytes b) \<le> T" and "T < 2 ^ 32"
    and "rpos r \<le> length (rdata r)"
  shows "refines_step r (applyInsert grow T cnt r b)
           (specInsert T (length (rdata r)) cnt (rest r) (bbytes b))"
proof (cases "cnt > length (rdata r)")
  case True
  then show ?thesis by (simp add: refines_step_def applyInsert_def specInsert_def)
next
  case False
  then have w: "to_int cnt = int cnt" "u64 (length (bbytes b) + cnt) = length (bbytes b) + cnt"
    using assms by simp_all
  show ?thesis using False w assms go_append_wf [OF assms(1)]
    by (auto simp: refines_step_def applyInsert_def specInsert_def go_slice_def bslice_def add.commute)
qed

lemma applyCommand_refines:
  assumes "grows_enough grow" and "length source < 2 ^ 62" and "length (rdata r) < 2 ^ 62"
    and "length (bbytes b) \<le> T" and "T < 2 ^ 32" and "rpos r \<le> length (rdata r)"
  shows "refines_step r (applyCommand grow source T cmd cnt r b)
           (specCommand source T (length (rdata r)) cmd cnt (rest r) (bbytes b))"
  using assms applyCopy_refines [OF assms(1,2,4,5,6)] applyInsert_refines [OF assms(1,3-6)]
  by (simp add: applyCommand_def specCommand_def) (simp add: refines_step_def)

lemma applyFinish_refines:
  "bindE (applyFinish T cnt b) (\<lambda>b. Inr (bbytes b)) = specFinish T cnt (bbytes b)"
  by (simp add: applyFinish_def specFinish_def)

text \<open>
  The continuation of one executed command: the capacity upgrade and the rest of the loop.
\<close>

lemma applyLoop_continue:
  assumes step: "refines_step r impl spec"
    and IH: "\<And>r' b' g'. wf_buf b' \<Longrightarrow> rdata r' = rdata r \<Longrightarrow> rpos r' \<le> length (rdata r) \<Longrightarrow>
        spec = Inr (rest r', bbytes b') \<Longrightarrow>
        bindE (loop r' b' g') (\<lambda>b. Inr (bbytes b)) = rep (rest r') (bbytes b')"
  shows "bindE (bindE impl (\<lambda>(r3, out1). bindE (upgradeCap capped grown T N out1)
            (\<lambda>(out2, grown'). loop r3 out2 grown'))) (\<lambda>b. Inr (bbytes b))
         = bindE spec (\<lambda>(vs, out'). rep vs out')"
proof (cases spec)
  case (Inl e)
  then show ?thesis using step by (simp add: refines_step_def)
next
  case (Inr p)
  then obtain r' b where impl: "impl = Inr (r', b)" and p: "p = (rest r', bbytes b)"
    and r': "rdata r' = rdata r" "rpos r' \<le> length (rdata r)" and "wf_buf b"
    using step by (cases p) (auto simp: refines_step_def)
  from \<open>wf_buf b\<close> obtain b' g' where up: "upgradeCap capped grown T N b = Inr (b', g')"
      "bbytes b' = bbytes b" "wf_buf b'"
    using upgradeCap_ok by blast
  show ?thesis using Inr impl p up IH [OF up(3) r'] by simp
qed

lemma applyLoop_replay:
  assumes g: "grows_enough grow" and src: "length source < 2 ^ 62" and T: "T < 2 ^ 32"
  shows "wf_buf b0 \<Longrightarrow> length (bbytes b0) \<le> T \<Longrightarrow> length (rdata r) < 2 ^ 62 \<Longrightarrow>
     bindE (applyLoop grow source T capped r b0 grown) (\<lambda>b. Inr (bbytes b)) =
     replay source T (length (rdata r)) (rest r) (bbytes b0)"
proof (induction "length (rest r)" arbitrary: r b0 grown rule: less_induct)
  case less
  note loop = applyLoop.simps [of grow source T capped r b0 grown]
  note rep = replay.simps [of source T "length (rdata r)" "rest r" "bbytes b0"]
  show ?case
  proof (cases "getInt r")
    case (Inl e)
    then show ?thesis unfolding loop rep by (auto simp: getInt_readInt res_simps)
  next
    case (Inr p)
    then obtain cnt r1 where i: "getInt r = Inr (cnt, r1)" by (cases p) auto
    note i' = getIntD [OF i]
    show ?thesis
    proof (cases "getChar r1")
      case (Inl e)
      then show ?thesis using i i' unfolding loop rep by (auto simp: getChar_readChar res_simps)
    next
      case (Inr p)
      then obtain cmd r2 where c: "getChar r1 = Inr (cmd, r2)" by (cases p) auto
      note c' = getCharD [OF c]
      have short: "length (rest r2) < length (rest r)"
        using readInt_shorter [OF i'(1)] c'(4) by simp
      have "refines_step r2 (applyCommand grow source T cmd cnt r2 b0)
              (specCommand source T (length (rdata r2)) cmd cnt (rest r2) (bbytes b0))"
        using g src less.prems T i'(2) c'(2,3) by (intro applyCommand_refines) auto
      then have "bindE (bindE (applyCommand grow source T cmd cnt r2 b0) (\<lambda>(r3, out1).
            bindE (upgradeCap capped grown T (length (rdata r)) out1) (\<lambda>(out2, grown').
              applyLoop grow source T capped r3 out2 grown'))) (\<lambda>b. Inr (bbytes b)) =
          bindE (specCommand source T (length (rdata r2)) cmd cnt (rest r2) (bbytes b0))
            (\<lambda>(vs, out'). replay source T (length (rdata r)) vs out')"
      proof (rule applyLoop_continue)
        fix r' b' g'
        assume a: "wf_buf b'" "rdata r' = rdata r2"
          "specCommand source T (length (rdata r2)) cmd cnt (rest r2) (bbytes b0) = Inr (rest r', bbytes b')"
        have "length (rest r') < length (rest r)"
          using specCommand_shorter [OF a(3)] short by (rule le_less_trans)
        from less.hyps [OF this a(1)] specCommand_length [OF a(3)] a(2) less.prems(3) i' c'
        show "bindE (applyLoop grow source T capped r' b' g') (\<lambda>b. Inr (bbytes b)) =
            replay source T (length (rdata r)) (rest r') (bbytes b')" by simp
      qed
      then show ?thesis using i i' c c' applyFinish_refines [of T cnt b0] unfolding loop rep by simp
    qed
  qed
qed

section \<open>The size scan agrees with the replay\<close>

lemma scanCommand_spec:
  assumes "scanCommand (length source) cmd cnt r = Some r'" and "length source < 2 ^ 62"
    and "length (rdata r) \<le> N" and "N < 2 ^ 62" and "length out + cnt \<le> T"
    and "rpos r \<le> length (rdata r)"
  obtains out' where "specCommand source T N cmd cnt (rest r) out = Inr (rest r', out')"
    and "rdata r' = rdata r"
proof (cases "cmd = CHR ''@''")
  case True
  with assms(1) obtain off r1 where i: "getInt r = Inr (off, r1)" and c: "getChar r1 = Inr (CHR '','', r')"
    and b: "off \<le> length source" "cnt \<le> length source" "u64 (off + cnt) \<le> length source"
    by (auto simp: scanCommand_def scanCopy_def split: sum.splits prod.splits if_splits)
  from b assms(2) have "u64 (off + cnt) = off + cnt" by simp
  then show ?thesis
    using True that [of "out @ bslice source off (off + cnt)"] getIntD [OF i] getCharD [OF c] b assms(5)
    by (simp add: specCommand_def specCopy_def)
next
  case False
  with assms(1) have cmd: "cmd = CHR '':''" and b: "cnt \<le> length (rdata r)"
      "int (rpos r) + to_int cnt \<le> int (length (rdata r))"
    and r': "r' = r\<lparr>rpos := rpos r + cnt\<rparr>"
    by (auto simp: scanCommand_def scanInsert_def split: if_splits)
  from b(1) assms(3,4) have "to_int cnt = int cnt" by simp
  with b(2) have "rpos r + cnt \<le> length (rdata r)" by linarith
  then show ?thesis
    using cmd that [of "out @ take cnt (rest r)"] assms(3-6) b(1)
    by (simp add: specCommand_def specInsert_def r' add.commute)
qed

lemma scanCommand_cnt:
  "scanCommand srcLen cmd cnt r = Some r' \<Longrightarrow> cnt \<le> srcLen \<or> cnt \<le> length (rdata r)"
  by (auto simp: scanCommand_def scanCopy_def scanInsert_def split: sum.splits prod.splits if_splits)

lemma scanLoop_replay:
  assumes src: "length source < 2 ^ 62" and T: "T < 2 ^ 32" and N: "N < 2 ^ 62"
  shows "scanLoop (length source) T q (length out) = Some n \<Longrightarrow> length out \<le> T \<Longrightarrow>
     length (rdata q) \<le> N \<Longrightarrow>
     n = T \<and> (replay source T N (rest q) out = Inl ErrChecksum \<or>
       (\<exists>res. replay source T N (rest q) out = Inr res \<and> length res = T))"
proof (induction "length (rest q)" arbitrary: q out rule: less_induct)
  case less
  from less.prems(1) obtain cnt q1 cmd q2 where i: "getInt q = Inr (cnt, q1)"
    and c: "getChar q1 = Inr (cmd, q2)" and lt: "\<not> length (rdata q) \<le> rpos q"
    by (subst (asm) scanLoop.simps) (auto split: if_splits sum.splits prod.splits)
  note i' = getIntD [OF i] and c' = getCharD [OF c]
  note scan = less.prems(1) [unfolded scanLoop.simps [of "length source" T q]]
  note rep = replay.simps [of source T N "rest q" out]
  have short: "length (rest q2) < length (rest q)"
    using readInt_shorter [OF i'(1)] c'(4) by simp
  show ?case
  proof (cases "cmd = CHR '';''")
    case True
    then show ?thesis using scan i c i' c' lt rep by (simp add: specFinish_def split: if_splits)
  next
    case False
    with scan i c lt obtain q3 where q3: "scanCommand (length source) cmd cnt q2 = Some q3"
      and fits: "u64 (length out + cnt) \<le> T"
      and rec: "scanLoop (length source) T q3 (u64 (length out + cnt)) = Some n"
      by (auto split: option.splits if_splits)
    from scanCommand_cnt [OF q3] have w: "u64 (length out + cnt) = length out + cnt"
      using src N T less.prems(2,3) i'(2) c'(2) by auto
    obtain out' where sc: "specCommand source T N cmd cnt (rest q2) out = Inr (rest q3, out')"
        "rdata q3 = rdata q2"
      using q3 src N fits less.prems(3) i'(2) c'(2,3) by (auto simp: w elim: scanCommand_spec)
    from sc(1) have len: "length out' = length out + cnt" "length (rest q3) < length (rest q)"
      using specCommand_length specCommand_shorter [OF sc(1)] short by auto
    have "replay source T N (rest q) out = replay source T N (rest q3) out'"
      using rep i' c' sc(1) lt False by simp
    then show ?thesis using less.hyps [OF len(2), of out'] rec w fits len sc(2) i' c' less.prems(3)
      by simp
  qed
qed

text \<open>The other direction: a successful replay has a scan that measures it exactly.\<close>

lemma specCommand_scan:
  assumes "specCommand source T N cmd cnt (rest q) out = Inr (vs, out')" and "length source < 2 ^ 62"
    and "length (rdata q) < 2 ^ 62" and "rpos q \<le> length (rdata q)"
  obtains q' where "scanCommand (length source) cmd cnt q = Some q'" "rest q' = vs" "rdata q' = rdata q"
proof (cases "cmd = CHR ''@''")
  case True
  with assms(1) obtain off us where i: "readInt (rest q) = Inr (off, us)"
    and c: "readChar us = Inr (CHR '','', vs)"
    and b: "off \<le> length source" "cnt \<le> length source" "off + cnt \<le> length source"
    by (auto simp: specCommand_def specCopy_def bindE_eq_Inr_iff split: if_splits)
  from i obtain q1 where q1: "getInt q = Inr (off, q1)" "rest q1 = us" "rdata q1 = rdata q"
    by (rule getInt_step)
  with c have "readChar (rest q1) = Inr (CHR '','', vs)" by simp
  then obtain q2 where "getChar q1 = Inr (CHR '','', q2)" "rest q2 = vs" "rdata q2 = rdata q1"
    by (rule getChar_step)
  then show ?thesis using that [of q2] True q1 b assms(2) by (simp add: scanCommand_def scanCopy_def)
next
  case False
  with assms(1) have cmd: "cmd = CHR '':''" and b: "cnt \<le> length (rest q)" and vs: "vs = drop cnt (rest q)"
    by (auto simp: specCommand_def specInsert_def split: if_splits)
  from b assms(3) have "to_int cnt = int cnt" by simp
  moreover from b assms(4) have "rpos q + cnt \<le> length (rdata q)" by simp
  ultimately show ?thesis using that [of "q\<lparr>rpos := rpos q + cnt\<rparr>"] cmd vs
    by (simp add: scanCommand_def scanInsert_def add.commute)
qed

text \<open>Only the terminator reports the checksum.\<close>

lemma step_not_checksum [simp]:
  "readInt xs \<noteq> Inl ErrChecksum" "readChar xs \<noteq> Inl ErrChecksum" "specCommand source T N cmd cnt zs out \<noteq> Inl ErrChecksum"
  by (auto simp: readInt_def readChar_def specCommand_def specCopy_def specInsert_def bindE_eq_Inl_iff Let_def split: list.splits)

definition completes :: "delta_error + bytes \<Rightarrow> bool" where
  "completes w \<longleftrightarrow> is_ok w \<or> w = Inl ErrChecksum"

lemma completes_simps [simp]: "completes (Inr x)" "completes (Inl e) \<longleftrightarrow> e = ErrChecksum"
  by (simp_all add: completes_def)

lemma completes_bindE:
  assumes "completes (bindE m f)" "m \<noteq> Inl ErrChecksum"
  obtains x where "m = Inr x" "completes (f x)"
  using assms by (cases m) auto

lemma replay_scanLoop:
  assumes src: "length source < 2 ^ 62" and T: "T < 2 ^ 32"
  shows "completes (replay source T N (rest q) out) \<Longrightarrow> length out \<le> T \<Longrightarrow>
     length (rdata q) < 2 ^ 62 \<Longrightarrow>
     scanLoop (length source) T q (length out) = Some T \<and> (\<forall>res. replay source T N (rest q) out = Inr res \<longrightarrow> length res = T)"
proof (induction "length (rest q)" arbitrary: q out rule: less_induct)
  case less
  from less.prems(1) have ne: "rest q \<noteq> []"
    by (subst (asm) replay.simps) (auto split: if_splits)
  note rep = less.prems(1) [unfolded replay.simps [of source T N "rest q"]]
  from rep ne obtain cnt ys cmd zs where i: "readInt (rest q) = Inr (cnt, ys)"
    and c: "readChar ys = Inr (cmd, zs)"
    by (fastforce elim!: completes_bindE)
  from i obtain q1 where q1: "getInt q = Inr (cnt, q1)" "rest q1 = ys" "rdata q1 = rdata q"
    by (rule getInt_step)
  with c have "readChar (rest q1) = Inr (cmd, zs)" by simp
  then obtain q2 where q2: "getChar q1 = Inr (cmd, q2)" "rest q2 = zs" "rdata q2 = rdata q1"
      "rpos q2 \<le> length (rdata q1)"
    by (rule getChar_step)
  note scan = scanLoop.simps [of "length source" T q "length out"]
  have short: "length zs < length (rest q)"
    using readInt_shorter [OF i] readChar_shorter [OF c] by simp
  show ?case
  proof (cases "cmd = CHR '';''")
    case True
    then show ?thesis
      using rep ne i c q1 q2 scan replay.simps [of source T N "rest q" out] by (auto simp: specFinish_def split: if_splits)
  next
    case False
    with rep ne i c obtain vs out' where step: "specCommand source T N cmd cnt (rest q2) out = Inr (vs, out')"
      and rec: "completes (replay source T N vs out')"
      using q2(2) by (auto elim!: completes_bindE)
    have same: "replay source T N (rest q) out = replay source T N vs out'"
      using ne i c False step q2(2) by (subst replay.simps) simp
    note len = specCommand_length [OF step] specCommand_shorter [OF step]
    obtain q3 where q3: "scanCommand (length source) cmd cnt q2 = Some q3" "rest q3 = vs" "rdata q3 = rdata q2"
      using specCommand_scan [OF step src] less.prems(3) q1(3) q2(3,4) by auto
    then have "scanLoop (length source) T q (length out) = scanLoop (length source) T q3 (length out')"
      using scan ne q1 q2 False len T by auto
    moreover have "length (rest q3) < length (rest q)"
      using q3(2) q2(2) len(2) short by (metis le_less_trans)
    moreover have "completes (replay source T N (rest q3) out')" "length out' \<le> T" "length (rdata q3) < 2 ^ 62"
      using rec len q3 q1 q2 less.prems(3) by simp_all
    ultimately show ?thesis
      using less.hyps [of q3 out'] same q3(2) by metis
  qed
qed

section \<open>ApplyInto against the specification\<close>

lemma parseTargetLen_D:
  assumes "parseTargetLen r = Inr (T, r')"
  shows "T < 2 ^ 32" and "rdata r' = rdata r"
  using assms
  by (auto simp: parseTargetLen_def maxDeltaTargetSize_def bindE_eq_Inr_iff split: if_splits)
     (metis getIntD(2) getCharD(2))

lemma initialOutput_D:
  assumes "initialOutput dstCap cmds source T = (b, capped)"
  shows "bbytes b = []" and "wf_buf b"
  using assms by (auto simp: initialOutput_def wf_buf_def split: option.splits if_splits)

lemma ApplyInto_replay:
  assumes "grows_enough grow" and "length source < 2 ^ 62" and "length delta < 2 ^ 62"
  shows "bindE (ApplyInto grow dstCap source delta) (\<lambda>b. Inr (bbytes b)) =
     (if delta = [] then Inl (ErrInvalidDelta ''empty delta'')
      else bindE (parseTargetLen \<lparr>rdata = delta, rpos = 0\<rparr>)
             (\<lambda>(T, r). replay source T (length delta) (rest r) []))"
proof (cases "delta = [] \<or> (\<exists>e. parseTargetLen \<lparr>rdata = delta, rpos = 0\<rparr> = Inl e)")
  case True
  then show ?thesis by (auto simp: ApplyInto_def)
next
  case False
  then obtain T r where p: "parseTargetLen \<lparr>rdata = delta, rpos = 0\<rparr> = Inr (T, r)"
    by (cases "parseTargetLen \<lparr>rdata = delta, rpos = 0\<rparr>") auto
  note p' = parseTargetLen_D [OF p]
  obtain b capped where i: "initialOutput dstCap (rest r) source T = (b, capped)" by (cases "initialOutput dstCap (rest r) source T")
  note i' = initialOutput_D [OF i]
  show ?thesis
    using False p p' i i' assms applyLoop_replay [OF assms(1,2) p'(1) i'(2), of r capped False]
    by (simp add: ApplyInto_def)
qed

lemma Apply_replay:
  assumes "grows_enough grow" and "length source < 2 ^ 62" and "length delta < 2 ^ 62"
  shows "Apply grow source delta =
     (if delta = [] then Inl (ErrInvalidDelta ''empty delta'')
      else bindE (parseTargetLen \<lparr>rdata = delta, rpos = 0\<rparr>)
             (\<lambda>(T, r). replay source T (length delta) (rest r) []))"
  using ApplyInto_replay [OF assms] by (simp add: Apply_def)

lemma applyLoop_keeps_cap:
  "applyLoop grow source T capped r b0 grown = Inr b \<Longrightarrow> capped = False \<Longrightarrow> T < 2 ^ 32 \<Longrightarrow>
     length source < 2 ^ 62 \<Longrightarrow> length (rdata r) < 2 ^ 62 \<Longrightarrow>
     length (bbytes b0) \<le> T \<Longrightarrow> T \<le> bcap b0 \<Longrightarrow> bcap b = bcap b0"
proof (induction grow source T capped r b0 grown rule: applyLoop.induct)
  case (1 grow source T capped r b0 grown)
  from "1.prems"(1) obtain cnt r1 cmd r2 where i: "getInt r = Inr (cnt, r1)"
    and c: "getChar r1 = Inr (cmd, r2)" and lt: "\<not> length (rdata r) \<le> rpos r"
    by (subst (asm) applyLoop.simps) (auto simp: bindE_eq_Inr_iff split: if_splits)
  note loop = "1.prems"(1) [unfolded applyLoop.simps [of grow source T capped r b0 grown]]
  show ?case
  proof (cases "cmd = CHR '';''")
    case True
    with loop i c lt show ?thesis by (auto simp: applyFinish_def split: if_splits)
  next
    case False
    with loop i c lt "1.prems"(2) obtain r3 b1 where
      ap: "applyCommand grow source T cmd cnt r2 b0 = Inr (r3, b1)"
      and rec: "applyLoop grow source T capped r3 b1 grown = Inr b"
      by (auto simp: bindE_eq_Inr_iff)
    have rd: "rdata r3 = rdata r" using getIntD(2) [OF i] getCharD(2) [OF c]
      applyCommand_progress [OF ap] by simp
    from ap have len: "length (bbytes b1) \<le> T" and cap: "bcap b1 = bcap b0"
      using "1.prems"(3-7) getIntD(2) [OF i] getCharD(2) [OF c]
      by (auto simp: applyCommand_def applyCopy_def applyInsert_def go_append_def go_slice_def
          bindE_eq_Inr_iff Let_def split: if_splits)
    have "bcap b = bcap b1"
      using "1.IH" [OF lt i _ c _ False ap] rec rd len cap "1.prems" by simp
    with cap show ?thesis by simp
  qed
qed

section \<open>Properties of the decoder\<close>

lemma step_no_panic [simp]:
  "readInt xs \<noteq> Inl (DeltaPanic m)" "readChar xs \<noteq> Inl (DeltaPanic m)"
  "specFinish T cnt out \<noteq> Inl (DeltaPanic m)"
  by (auto simp: readInt_def readChar_def specFinish_def Let_def split: list.splits)

lemma specCommand_no_panic [simp]: "specCommand source T N cmd cnt zs out \<noteq> Inl (DeltaPanic m)"
  by (auto simp: specCommand_def specCopy_def specInsert_def bindE_eq_Inl_iff)

lemma replay_no_panic [simp]: "replay source T N xs out \<noteq> Inl (DeltaPanic m)"
proof (induction source T N xs out rule: replay.induct)
  case (1 source T N xs out)
  show ?case
  proof
    assume "replay source T N xs out = Inl (DeltaPanic m)"
    then show False using "1.IH"
      by (subst (asm) replay.simps) (auto simp: bindE_eq_Inl_iff split: if_splits)
  qed
qed

lemma parseTargetLen_no_panic: "parseTargetLen r \<noteq> Inl (DeltaPanic m)"
  by (auto simp: parseTargetLen_def bindE_eq_Inl_iff getInt_eq getChar_def Let_def split: if_splits)

text \<open>
  C9. Whatever bytes arrive on the wire, \<open>ApplyInto\<close> answers with a value or an error of the
  format and never panics: no slice expression, \<^verbatim>\<open>make\<close> or capacity upgrade it performs is out
  of range.  (Lengths are those of slices that fit in memory.)
\<close>

theorem ApplyInto_no_panic:
  assumes "grows_enough grow" and "length source < 2 ^ 62" and "length delta < 2 ^ 62"
  shows "ApplyInto grow dstCap source delta \<noteq> Inl (DeltaPanic m)"
proof
  assume "ApplyInto grow dstCap source delta = Inl (DeltaPanic m)"
  then show False
    using ApplyInto_replay [OF assms, of dstCap] replay_no_panic parseTargetLen_no_panic
    by (auto simp: bindE_eq_Inl_iff split: if_splits dest: sym)
qed

lemma ApplyInto_no_panic_witness:
  "ApplyInto (\<lambda>c n. n) 0 ''source'' ''ZZZZ@0,'' \<noteq> Inl (DeltaPanic ''makeslice: cap out of range'')"
  by (rule ApplyInto_no_panic) (simp_all add: grows_enough_def)

lemma Apply_size:
  assumes "grows_enough grow" and "length source < 2 ^ 62" and "length delta < 2 ^ 62"
    and "Apply grow source delta = Inr target"
  shows "OutputSize delta = Inr (length target) \<and> length target < maxDeltaTargetSize"
proof -
  from assms(4) obtain T r where ne: "delta \<noteq> []" and p: "parseTargetLen \<lparr>rdata = delta, rpos = 0\<rparr> = Inr (T, r)"
    and rep: "replay source T (length delta) (rest r) [] = Inr target"
    by (auto simp: Apply_replay [OF assms(1-3)] bindE_eq_Inr_iff split: if_splits)
  note p' = parseTargetLen_D [OF p]
  have "completes (replay source T (length delta) (rest r) [])" "length (rdata r) < 2 ^ 62" "length ([] :: bytes) \<le> T"
    using assms(3) p'(2) rep by simp_all
  from replay_scanLoop [OF assms(2) p'(1) this(1,3,2)] rep have "length target = T" by blast
  with ne p p' show ?thesis by (simp add: OutputSize_def maxDeltaTargetSize_def)
qed

text \<open>
  A successful application produces exactly the number of bytes the header declares, which
  is what \<open>OutputSize\<close> reads without the source, and stays below the format's limit.
\<close>

theorem Apply_OutputSize:
  assumes "grows_enough grow" and "length source < 2 ^ 62" and "length delta < 2 ^ 62"
    and "Apply grow source delta = Inr target"
  shows "OutputSize delta = Inr (length target) \<and> length target < maxDeltaTargetSize"
  using Apply_size [OF assms] .

lemma Apply_OutputSize_witness:
  "OutputSize (''3'' @ [CHR 0x0A] @ ''3@2,1ZP6K0;'') = Inr (length ''cde'')"
proof -
  let ?d = "''3'' @ [CHR 0x0A] @ ''3@2,1ZP6K0;''"
  have "Apply (\<lambda>c n. n) ''abcdef'' ?d = Inr ''cde''" by code_simp
  from Apply_OutputSize [OF _ _ _ this] show ?thesis by (simp add: grows_enough_def)
qed

lemma scanOutputSize_Some:
  assumes "grows_enough grow" and "length source < 2 ^ 62" and "length delta < 2 ^ 62"
    and "delta \<noteq> []" and "parseTargetLen \<lparr>rdata = delta, rpos = 0\<rparr> = Inr (T, r)"
    and "scanOutputSize (rest r) (length source) T = Some n"
  shows "n = T" and "Apply grow source delta = Inl ErrChecksum \<or>
           (\<exists>target. Apply grow source delta = Inr target \<and> length target = n)"
proof -
  note p' = parseTargetLen_D [OF assms(5)]
  let ?q = "\<lparr>rdata = rest r, rpos = 0\<rparr>"
  have A: "Apply grow source delta = replay source T (length delta) (rest ?q) []"
    using assms(4,5) by (simp add: Apply_replay [OF assms(1-3)])
  have S: "scanLoop (length source) T ?q (length ([] :: bytes)) = Some n"
    using assms(6) p'(1) by (simp add: scanOutputSize_def)
  have "length (rdata ?q) \<le> length delta" "length ([] :: bytes) \<le> T" using p'(2) by simp_all
  note R = scanLoop_replay [OF assms(2) p'(1) assms(3) S this(2,1)]
  from R show "n = T" ..
  with R show "Apply grow source delta = Inl ErrChecksum \<or>
      (\<exists>target. Apply grow source delta = Inr target \<and> length target = n)"
    unfolding A by blast
qed

lemma Apply_scanOutputSize:
  assumes "grows_enough grow" and "length source < 2 ^ 62" and "length delta < 2 ^ 62"
    and "parseTargetLen \<lparr>rdata = delta, rpos = 0\<rparr> = Inr (T, r)" and "delta \<noteq> []"
    and "completes (Apply grow source delta)"
  shows "scanOutputSize (rest r) (length source) T = Some T" and "Apply grow source delta = Inr target \<Longrightarrow> length target = T"
proof -
  note p' = parseTargetLen_D [OF assms(4)]
  let ?q = "\<lparr>rdata = rest r, rpos = 0\<rparr>"
  have A: "Apply grow source delta = replay source T (length delta) (rest ?q) []"
    using assms(4,5) by (simp add: Apply_replay [OF assms(1-3)])
  have "length (rdata ?q) < 2 ^ 62" using p'(2) assms(3) by simp
  moreover have "length ([] :: bytes) \<le> T" by simp
  ultimately have R: "scanLoop (length source) T ?q (length ([] :: bytes)) = Some T \<and>
      (\<forall>res. replay source T (length delta) (rest ?q) [] = Inr res \<longrightarrow> length res = T)"
    using replay_scanLoop [OF assms(2) p'(1) assms(6) [unfolded A]] by blast
  have "scanLoop (length source) T ?q 0 = Some T" using conjunct1 [OF R] by (simp only: list.size(3))
  moreover have l: "\<forall>res. Apply grow source delta = Inr res \<longrightarrow> length res = T" using conjunct2 [OF R] by (simp only: A)
  ultimately show "scanOutputSize (rest r) (length source) T = Some T" using p'(1) by (simp add: scanOutputSize_def)
  show "Apply grow source delta = Inr target \<Longrightarrow> length target = T" using l by blast
qed

text \<open>
  C31. The size scan is exact: when \<open>scanOutputSize\<close> accepts a command stream, replaying it yields exactly the measured
  number of bytes, which is the declared size, or fails on the final checksum; when it does not accept one, the replay
  fails with another error than the checksum.
\<close>

theorem scanOutputSize_exact:
  assumes "grows_enough grow" and "length source < 2 ^ 62" and "length delta < 2 ^ 62"
    and "delta \<noteq> []" and "parseTargetLen \<lparr>rdata = delta, rpos = 0\<rparr> = Inr (T, r)"
  shows "case scanOutputSize (rest r) (length source) T of
           Some n \<Rightarrow> n = T \<and> (Apply grow source delta = Inl ErrChecksum \<or>
                      (\<exists>target. Apply grow source delta = Inr target \<and> length target = n))
         | None \<Rightarrow> \<exists>err. Apply grow source delta = Inl err \<and> err \<noteq> ErrChecksum"
proof (cases "scanOutputSize (rest r) (length source) T")
  case None
  then have "\<not> completes (Apply grow source delta)" using Apply_scanOutputSize(1) [OF assms(1-3,5,4)] by auto
  then show ?thesis using None by (cases "Apply grow source delta") auto
next
  case (Some n)
  from scanOutputSize_Some [OF assms Some] Some show ?thesis by simp
qed

text \<open>The witness: a stream that is accepted, and one whose copy runs past the declared size.\<close>

lemma scanOutputSize_exact_witness:
  "scanOutputSize ''3@2,1ZP6K0;'' 6 3 = Some 3 \<and>
   (Apply (\<lambda>c n. n) ''abcdef'' (''3'' @ [CHR 0x0A] @ ''3@2,1ZP6K0;'') = Inl ErrChecksum \<or>
      (\<exists>target. Apply (\<lambda>c n. n) ''abcdef'' (''3'' @ [CHR 0x0A] @ ''3@2,1ZP6K0;'') = Inr target \<and> length target = 3)) \<and>
   scanOutputSize ''4@2,1ZP6K0;'' 6 3 = None \<and>
   (\<exists>err. Apply (\<lambda>c n. n) ''abcdef'' (''3'' @ [CHR 0x0A] @ ''4@2,1ZP6K0;'') = Inl err \<and> err \<noteq> ErrChecksum)"
proof -
  let ?g = "\<lambda>c n :: nat. n" and ?d = "''3'' @ [CHR 0x0A] @ ''3@2,1ZP6K0;''" and ?b = "''3'' @ [CHR 0x0A] @ ''4@2,1ZP6K0;''"
  have g: "grows_enough ?g" by (simp add: grows_enough_def)
  have p: "parseTargetLen \<lparr>rdata = ?d, rpos = 0\<rparr> = Inr (3, \<lparr>rdata = ?d, rpos = 2\<rparr>)" by code_simp
  have p': "parseTargetLen \<lparr>rdata = ?b, rpos = 0\<rparr> = Inr (3, \<lparr>rdata = ?b, rpos = 2\<rparr>)" by code_simp
  have s: "scanOutputSize (rest \<lparr>rdata = ?d, rpos = 2\<rparr>) (length ''abcdef'') 3 = Some 3"
    "scanOutputSize (rest \<lparr>rdata = ?b, rpos = 2\<rparr>) (length ''abcdef'') 3 = None" by code_simp+
  have t: "scanOutputSize ''3@2,1ZP6K0;'' 6 3 = Some 3" "scanOutputSize ''4@2,1ZP6K0;'' 6 3 = None" by code_simp+
  have l: "length ''abcdef'' < 2 ^ 62" "length ?d < 2 ^ 62" "length ?b < 2 ^ 62" "?d \<noteq> []" "?b \<noteq> []" by simp_all
  show ?thesis
    using s t scanOutputSize_exact [OF g l(1) l(2) l(4) p] scanOutputSize_exact [OF g l(1) l(3) l(5) p'] by simp
qed

text \<open>
  C32. Reusing a buffer changes nothing but where the bytes live: for every capacity of the
  destination and every growth policy of the runtime, \<open>ApplyInto\<close> yields the bytes, or the
  error, of \<open>Apply\<close>; and when the size scan measured the stream, the output is allocated once,
  its capacity being the reused one if that suffices and exactly the measured size otherwise.
\<close>

theorem ApplyInto_buffer:
  assumes "grows_enough grow" and "grows_enough grow'" and "length source < 2 ^ 62"
    and "length delta < 2 ^ 62"
  shows "bindE (ApplyInto grow dstCap source delta) (\<lambda>b. Inr (bbytes b)) = Apply grow' source delta \<and>
     (\<forall>b. ApplyInto grow dstCap source delta = Inr b \<longrightarrow> bcap b = max dstCap (length (bbytes b)))"
proof (intro conjI allI impI)
  show eq: "bindE (ApplyInto grow dstCap source delta) (\<lambda>b. Inr (bbytes b)) = Apply grow' source delta"
    using assms by (simp add: Apply_replay ApplyInto_replay)
  fix b
  assume b: "ApplyInto grow dstCap source delta = Inr b"
  then obtain T r where ne: "delta \<noteq> []" and p: "parseTargetLen \<lparr>rdata = delta, rpos = 0\<rparr> = Inr (T, r)"
    by (auto simp: ApplyInto_def bindE_eq_Inr_iff split: if_splits)
  note p' = parseTargetLen_D [OF p]
  from eq b have ok: "Apply grow' source delta = Inr (bbytes b)" by simp
  then have cp: "completes (Apply grow' source delta)" by simp
  note scan = Apply_scanOutputSize(1) [OF assms(2-4) p ne cp] and len = Apply_scanOutputSize(2) [OF assms(2-4) p ne cp ok]
  let ?b = "\<lparr>bbytes = [], bcap = (if dstCap > 0 \<and> dstCap \<ge> T then dstCap else T)\<rparr>"
  have "applyLoop grow source T False r ?b False = Inr b"
    using b ne p scan by (simp add: ApplyInto_def initialOutput_def)
  then have "bcap b = bcap ?b"
    using p' assms(3,4) by (intro applyLoop_keeps_cap) auto
  then show "bcap b = max dstCap (length (bbytes b))" using len by auto
qed

lemma ApplyInto_buffer_witness:
  "\<exists>b. ApplyInto (\<lambda>c n. 2 * n) 100 ''abcdef'' (''3'' @ [CHR 0x0A] @ ''3@2,1ZP6K0;'') = Inr b \<and>
     bbytes b = ''cde'' \<and> bcap b = 100"
proof -
  let ?d = "''3'' @ [CHR 0x0A] @ ''3@2,1ZP6K0;''"
  have ok: "Apply (\<lambda>c n. n) ''abcdef'' ?d = Inr ''cde''" by code_simp
  note buf = ApplyInto_buffer [where grow = "\<lambda>c n. 2 * n" and grow' = "\<lambda>c n. n" and dstCap = 100
      and source = "''abcdef''" and delta = ?d]
  show ?thesis
    using buf ok by (auto simp: grows_enough_def bindE_eq_Inr_iff)
qed

end
