(* ===== verification/Delta_Create.thy ===== *)
theory Delta_Create
  imports Delta
begin

text \<open>
  The encoder half of \<^verbatim>\<open>internal/delta/delta.go\<close>: integers, the hash table over the source's
  16-byte windows, the bounded search of one collision chain, the emission loop and
  \<open>Create\<close>.  Slices are non-nil byte lists; an index out of range is a \<open>DeltaPanic\<close>.
\<close>

section \<open>Model\<close>

definition nHash :: nat where
  "nHash = 16"

definition maxChainCandidates :: nat where
  "maxChainCandidates = 250"

record hashEntry =
  heOffset :: nat
  heNext :: int

fun appendInt_loop :: "nat \<Rightarrow> bytes \<Rightarrow> bytes" where
  "appendInt_loop v acc =
     (if v = 0 then acc else appendInt_loop (v div 64) (zDigitsEnc ! (v mod 64) # acc))"

declare appendInt_loop.simps [simp del]

definition appendInt :: "bytes \<Rightarrow> nat \<Rightarrow> bytes" where
  "appendInt buf v = (if v = 0 then buf @ ''0'' else buf @ appendInt_loop v [])"

definition rollingHash :: "bytes \<Rightarrow> 32 word" where
  "rollingHash data = fold (\<lambda>b h. h * 37 + u32b b) data 0"

fun matchLen :: "bytes \<Rightarrow> bytes \<Rightarrow> nat" where
  "matchLen (a # as) (b # bs) = (if a \<noteq> b then 0 else Suc (matchLen as bs))"
| "matchLen _ _ = 0"

definition checkSizes :: "nat \<Rightarrow> nat \<Rightarrow> delta_error + unit" where
  "checkSizes sourceLen targetLen =
     (if maxDeltaTargetSize \<le> sourceLen \<or> maxDeltaTargetSize \<le> targetLen
      then Inl ErrTooLarge else Inr ())"

lemma and_pred_less: "t \<noteq> 0 \<Longrightarrow> and t (t - 1) < (t :: nat)"
  using and_nat_le [of t "t - 1"] by linarith

text \<open>\<^verbatim>\<open>for tableSize&(tableSize-1) != 0 { tableSize &= tableSize - 1 }\<close>\<close>

function clearLowBits :: "nat \<Rightarrow> nat" where
  "clearLowBits t = (if and t (t - 1) \<noteq> 0 then clearLowBits (and t (t - 1)) else t)"
  by pat_completeness auto
termination
proof (relation "measure (\<lambda>t. t)")
  fix t :: nat
  assume "and t (t - 1) \<noteq> 0"
  then have "t \<noteq> 0" by (metis zero_and_eq)
  then show "(and t (t - 1), t) \<in> measure (\<lambda>t. t)" using and_pred_less by simp
qed simp

declare clearLowBits.simps [simp del]

definition tableSizeFor :: "nat \<Rightarrow> nat" where
  "tableSizeFor sourceLen =
     (let n = sourceLen div nHash; t = (if n < 64 then 64 else n) in clearLowBits t * 2)"

function buildLoop ::
  "bytes \<Rightarrow> nat \<Rightarrow> nat \<Rightarrow> nat list \<Rightarrow> hashEntry list \<Rightarrow> nat list \<times> hashEntry list" where
  "buildLoop source msk i heads entries =
     (if i + nHash \<le> length source then
        let idx = and (unat (rollingHash (bslice source i (i + nHash)))) msk;
            entries' = entries @ [\<lparr>heOffset = i, heNext = int (heads ! idx) - 1\<rparr>]
        in buildLoop source msk (i + nHash) (heads[idx := length entries']) entries'
      else (heads, entries))"
  by pat_completeness auto
termination
  by (relation "measure (\<lambda>(source, msk, i, heads, entries). length source - i)")
     (auto simp: nHash_def)

declare buildLoop.simps [simp del]

definition buildHashTable :: "bytes \<Rightarrow> nat list \<times> hashEntry list \<times> nat" where
  "buildHashTable source =
     (let tableSize = tableSizeFor (length source); msk = tableSize - 1;
          (heads, entries) = buildLoop source msk 0 (replicate tableSize 0) []
      in (heads, entries, msk))"

text \<open>
  The chain walk of \<open>bestMatch\<close>; \<open>ei\<close> is the Go variable, and \<^verbatim>\<open>entries[ei-1]\<close> panics when
  out of range.  The result is \<open>(bestOff, bestLen, examined)\<close>.
\<close>

function bestMatch_loop ::
  "bytes \<Rightarrow> bytes \<Rightarrow> hashEntry list \<Rightarrow> int \<Rightarrow> nat \<Rightarrow> nat \<Rightarrow> nat \<Rightarrow> delta_error + (nat \<times> nat \<times> nat)" where
  "bestMatch_loop source window entries ei bestOff bestLen examined =
     (if ei > 0 \<and> examined < maxChainCandidates then
        if length entries < nat ei then Inl (DeltaPanic ''index out of range'')
        else
          let e = entries ! (nat ei - 1); sOff = heOffset e; next = heNext e + 1 in
          if sOff + nHash > length source
          then bestMatch_loop source window entries next bestOff bestLen (Suc examined)
          else
            let ml = matchLen (drop sOff source) window in
            if ml \<ge> nHash \<and> ml > bestLen
            then bestMatch_loop source window entries next sOff ml (Suc examined)
            else bestMatch_loop source window entries next bestOff bestLen (Suc examined)
      else Inr (bestOff, bestLen, examined))"
  by pat_completeness auto
termination
  by (relation "measure (\<lambda>(source, window, entries, ei, bestOff, bestLen, examined).
        maxChainCandidates - examined)") auto

declare bestMatch_loop.simps [simp del]

definition bestMatch ::
  "bytes \<Rightarrow> bytes \<Rightarrow> nat \<Rightarrow> nat list \<Rightarrow> hashEntry list \<Rightarrow> nat \<Rightarrow> delta_error + (nat \<times> nat \<times> nat)" where
  "bestMatch source target tPos heads entries msk =
     (let idx = and (unat (rollingHash (bslice target tPos (tPos + nHash)))) msk in
      if length heads \<le> idx then Inl (DeltaPanic ''index out of range'')
      else bestMatch_loop source (drop tPos target) entries (int (heads ! idx)) 0 0 0)"

definition flushInsert :: "bytes \<Rightarrow> bytes \<Rightarrow> bytes" where
  "flushInsert buf pending =
     (if pending = [] then buf else appendInt buf (length pending) @ '':'' @ pending)"

function emitLoop ::
  "bytes \<Rightarrow> bytes \<Rightarrow> nat list \<Rightarrow> hashEntry list \<Rightarrow> nat \<Rightarrow> nat \<Rightarrow> bytes \<Rightarrow> bytes \<Rightarrow>
     delta_error + (bytes \<times> bytes)" where
  "emitLoop source target heads entries msk tPos buf pending =
     (if tPos < length target then
        bindE (if tPos + nHash \<le> length target
               then bestMatch source target tPos heads entries msk else Inr (0, 0, 0))
          (\<lambda>(bestOff, bestLen, _).
            if bestLen \<ge> nHash then
              let buf1 = flushInsert buf pending;
                  buf2 = appendInt buf1 bestLen @ ''@'';
                  buf3 = appendInt buf2 bestOff @ '',''
              in emitLoop source target heads entries msk (tPos + bestLen) buf3 []
            else emitLoop source target heads entries msk (Suc tPos) buf (pending @ [target ! tPos]))
      else Inr (buf, pending))"
  by pat_completeness auto
termination
  by (relation "measure (\<lambda>(source, target, heads, entries, msk, tPos, buf, pending).
        length target - tPos)") (auto simp: nHash_def)

declare emitLoop.simps [simp del]

definition emitMatches ::
  "bytes \<Rightarrow> bytes \<Rightarrow> nat list \<Rightarrow> hashEntry list \<Rightarrow> nat \<Rightarrow> delta_error + bytes" where
  "emitMatches source target heads entries msk =
     bindE (emitLoop source target heads entries msk 0
              (appendInt [] (length target) @ [CHR 0x0A]) [])
       (\<lambda>(buf, pending).
         Inr (appendInt (flushInsert buf pending) (unat (Checksum target)) @ '';''))"

definition createInsertAll :: "bytes \<Rightarrow> bytes" where
  "createInsertAll target =
     appendInt (appendInt (appendInt [] (length target) @ [CHR 0x0A]) (length target)
       @ '':'' @ target) (unat (Checksum target)) @ '';''"

definition Create :: "bytes \<Rightarrow> bytes \<Rightarrow> delta_error + bytes" where
  "Create source target =
     bindE (checkSizes (length source) (length target)) (\<lambda>_.
       if target = [] then
         Inr (appendInt (appendInt [] 0 @ [CHR 0x0A]) (unat (Checksum target)) @ '';'')
       else if length source < nHash then Inr (createInsertAll target)
       else case buildHashTable source of (heads, entries, msk) \<Rightarrow>
         emitMatches source target heads entries msk)"

section \<open>Integers\<close>

lemma zDigitsEnc_digits:
  "list_all isDigit zDigitsEnc" "map digitVal zDigitsEnc = [0..<64]"
  by (simp_all add: isDigit_def digitVal_def digits_def zDigitsEnc_def upt_rec)

lemma zDigitsEnc_digit: "i < 64 \<Longrightarrow> isDigit (zDigitsEnc ! i) \<and> digitVal (zDigitsEnc ! i) = i"
proof -
  assume i: "i < 64"
  have len: "length zDigitsEnc = 64" by (simp add: zDigitsEnc_def)
  with i zDigitsEnc_digits(1) have "isDigit (zDigitsEnc ! i)" by (simp add: list_all_length)
  moreover from i len zDigitsEnc_digits(2) have "digitVal (zDigitsEnc ! i) = i"
    by (metis nth_map nth_upt add_0)
  ultimately show ?thesis ..
qed

lemma separators_not_digit [simp]:
  "\<not> isDigit (CHR ''@'')" "\<not> isDigit (CHR '','')" "\<not> isDigit (CHR '':'')" "\<not> isDigit (CHR '';'')"
  "\<not> isDigit (CHR 0x0A)"
  by (simp_all add: isDigit_def digits_def)

lemma appendInt_loop_append: "appendInt_loop v acc = appendInt_loop v [] @ acc"
proof (induction v arbitrary: acc rule: less_induct)
  case (less v)
  show ?case
  proof (cases "v = 0")
    case False
    then have "v div 64 < v" by simp
    note IH = less.IH [OF this]
    show ?thesis
      using False IH [of "zDigitsEnc ! (v mod 64) # acc"] IH [of "[zDigitsEnc ! (v mod 64)]"]
      by (simp add: appendInt_loop.simps [of v acc] appendInt_loop.simps [of v "[]"])
  qed (simp add: appendInt_loop.simps)
qed

lemma appendInt_loop_value:
  "b64val 0 (appendInt_loop v []) = v \<and> list_all isDigit (appendInt_loop v [])"
proof (induction v rule: less_induct)
  case (less v)
  show ?case
  proof (cases "v = 0")
    case False
    then have "v div 64 < v" by simp
    note IH = less.IH [OF this]
    have "appendInt_loop v [] = appendInt_loop (v div 64) [] @ [zDigitsEnc ! (v mod 64)]"
      using False appendInt_loop_append [of "v div 64" "[zDigitsEnc ! (v mod 64)]"]
      by (simp add: appendInt_loop.simps [of v "[]"])
    then show ?thesis using IH zDigitsEnc_digit [of "v mod 64"] by simp
  qed (simp add: appendInt_loop.simps)
qed

definition int_enc :: "nat \<Rightarrow> bytes" where
  "int_enc v = appendInt [] v"

lemma appendInt_eq: "appendInt buf v = buf @ int_enc v"
  by (simp add: appendInt_def int_enc_def)

lemma int_enc_value: "b64val 0 (int_enc v) = v" "list_all isDigit (int_enc v)" "int_enc v \<noteq> []"
proof -
  have zero: "isDigit (CHR ''0'')" "digitVal (CHR ''0'') = 0"
    by (simp_all add: isDigit_def digitVal_def digits_def)
  show "b64val 0 (int_enc v) = v" "list_all isDigit (int_enc v)"
    using appendInt_loop_value [of v] zero by (simp_all add: int_enc_def appendInt_def)
  then show "int_enc v \<noteq> []"
    by (cases "v = 0") (auto simp: int_enc_def appendInt_def)
qed

text \<open>
  A 64-bit value takes at most 11 digits, so the 13-byte scratch array of \<open>appendInt\<close> is never
  overrun.
\<close>

lemma appendInt_loop_length: "v < 64 ^ k \<Longrightarrow> length (appendInt_loop v []) \<le> k"
proof (induction k arbitrary: v)
  case (Suc k)
  show ?case
  proof (cases "v = 0")
    case False
    from Suc.prems have "v div 64 < 64 ^ k" by (simp add: less_mult_imp_div_less mult.commute)
    from Suc.IH [OF this] False show ?thesis
      using appendInt_loop_append [of "v div 64" "[zDigitsEnc ! (v mod 64)]"]
      by (simp add: appendInt_loop.simps [of v "[]"])
  qed (simp add: appendInt_loop.simps)
qed (simp add: appendInt_loop.simps)

lemma int_enc_length: "v < 2 ^ 64 \<Longrightarrow> length (int_enc v) \<le> 11"
  using appendInt_loop_length [of v 11] by (simp add: int_enc_def appendInt_def)

text \<open>What \<open>appendInt\<close> writes, \<open>getInt\<close> reads back, up to the byte that ends the number.\<close>

lemma readInt_int_enc:
  assumes "v < 2 ^ 64" and "\<not> isDigit c"
  shows "readInt (int_enc v @ c # tl0) = Inr (v, c # tl0)"
proof -
  have "\<forall>x\<in>set (int_enc v). isDigit x" using int_enc_value(2) [of v] by (simp add: list_all_iff)
  then have "takeWhile isDigit (int_enc v @ c # tl0) = int_enc v"
    and "dropWhile isDigit (int_enc v @ c # tl0) = c # tl0"
    using assms(2) by simp_all
  then show ?thesis using assms(1) int_enc_value by (simp add: readInt_def)
qed

lemma getInt_appendInt:
  assumes "v < 2 ^ 64" and "\<not> isDigit c" and "rest r = appendInt [] v @ c # tl0"
  obtains r' where "getInt r = Inr (v, r')" "rest r' = c # tl0" "rdata r' = rdata r"
proof -
  have "readInt (rest r) = Inr (v, c # tl0)"
    using readInt_int_enc [OF assms(1,2)] assms(3) by (simp add: int_enc_def)
  then show ?thesis using that by (rule getInt_step)
qed

section \<open>Replaying what the encoder emits\<close>

lemma readChar_Cons [simp]: "readChar (c # cs) = Inr (c, cs)"
  by (simp add: readChar_def)

lemma replay_step:
  assumes "v < 2 ^ 64" and "\<not> isDigit c"
  shows "replay source T N (int_enc v @ c # zs) out =
     (if c = CHR '';'' then specFinish T v out
      else bindE (specCommand source T N c v zs out) (\<lambda>(vs, out'). replay source T N vs out'))"
  by (subst replay.simps) (simp add: int_enc_value readInt_int_enc [OF assms])

lemma replay_copy:
  assumes "off + cnt \<le> length source" and "length out + cnt \<le> T" and "length source < 2 ^ 62"
  shows "replay source T N (int_enc cnt @ ''@'' @ int_enc off @ '','' @ tl0) out =
     replay source T N tl0 (out @ bslice source off (off + cnt))"
proof -
  have b: "cnt < 2 ^ 64" "off < 2 ^ 64" using assms by simp_all
  then have "readInt (int_enc off @ CHR '','' # tl0) = Inr (off, CHR '','' # tl0)"
    by (intro readInt_int_enc) simp_all
  then show ?thesis using assms b
    by (simp add: replay_step specCommand_def specCopy_def)
qed

lemma replay_insert:
  assumes "length xs \<le> N" and "N < 2 ^ 62" and "length out + length xs \<le> T"
  shows "replay source T N (int_enc (length xs) @ '':'' @ xs @ tl0) out = replay source T N tl0 (out @ xs)"
proof -
  have "length xs < 2 ^ 64" using assms by simp
  then show ?thesis using assms by (simp add: replay_step specCommand_def specInsert_def)
qed

lemma replay_finish:
  assumes "length out = T"
  shows "replay source T N (int_enc (unat (Checksum out)) @ '';'' @ tl0) out = Inr out"
proof -
  have "unat (Checksum out) < 2 ^ LENGTH(32)" by (rule unsigned_less)
  then have "unat (Checksum out) < 2 ^ 64" by simp
  then show ?thesis using assms by (simp add: replay_step specFinish_def)
qed

section \<open>The match search\<close>

lemma matchLen_take:
  "matchLen a b \<le> length a \<and> matchLen a b \<le> length b \<and>
     take (matchLen a b) a = take (matchLen a b) b"
  by (induction a b rule: matchLen.induct) auto

text \<open>The chains of the table: every link leads to an earlier entry.\<close>

definition chains_ok :: "hashEntry list \<Rightarrow> bool" where
  "chains_ok entries \<longleftrightarrow> (\<forall>k < length entries. heNext (entries ! k) < int k)"

definition table_ok :: "nat list \<Rightarrow> hashEntry list \<Rightarrow> bool" where
  "table_ok heads entries \<longleftrightarrow> chains_ok entries \<and> (\<forall>h \<in> set heads. h \<le> length entries)"

text \<open>A usable candidate: a run of the source that the target repeats.\<close>

definition match_ok :: "bytes \<Rightarrow> bytes \<Rightarrow> nat \<Rightarrow> nat \<Rightarrow> bool" where
  "match_ok source window off len \<longleftrightarrow>
     len = 0 \<or> nHash \<le> len \<and> off + len \<le> length source \<and> len \<le> length window \<and>
       bslice source off (off + len) = take len window"

lemma match_ok_matchLen:
  "sOff + nHash \<le> length source \<Longrightarrow> nHash \<le> matchLen (drop sOff source) window \<Longrightarrow>
     match_ok source window sOff (matchLen (drop sOff source) window)"
  using matchLen_take [of "drop sOff source" window] by (auto simp: match_ok_def bslice_def)

lemma bestMatch_loop_ok:
  "chains_ok entries \<Longrightarrow> ei \<le> int (length entries) \<Longrightarrow> examined \<le> maxChainCandidates \<Longrightarrow>
   match_ok source window bestOff bestLen \<Longrightarrow>
   \<exists>off len n. bestMatch_loop source window entries ei bestOff bestLen examined = Inr (off, len, n) \<and>
     match_ok source window off len \<and> bestLen \<le> len \<and> n \<le> maxChainCandidates"
proof (induction source window entries ei bestOff bestLen examined rule: bestMatch_loop.induct)
  case (1 source window entries ei bestOff bestLen examined)
  show ?case
  proof (cases "ei > 0 \<and> examined < maxChainCandidates")
    case False
    then show ?thesis using "1.prems" by (subst bestMatch_loop.simps) auto
  next
    case True
    let ?e = "entries ! (nat ei - 1)"
    have "nat ei - 1 < length entries" using True "1.prems"(2) by auto
    then have "heNext ?e < int (nat ei - 1)" using "1.prems"(1) by (simp add: chains_ok_def)
    then have nxt: "heNext ?e + 1 \<le> int (length entries)" using True "1.prems"(2) by linarith
    have inb: "\<not> length entries < nat ei" using "1.prems"(2) by simp
    note step = bestMatch_loop.simps [of source window entries ei bestOff bestLen examined]
    note IH = "1.IH" [OF True inb refl refl refl]
    show ?thesis
    proof (cases "heOffset ?e + nHash > length source")
      case out: True
      then show ?thesis using IH(1) nxt True inb "1.prems" step by (simp add: Let_def)
    next
      case in_src: False
      let ?ml = "matchLen (drop (heOffset ?e) source) window"
      show ?thesis
      proof (cases "?ml \<ge> nHash \<and> ?ml > bestLen")
        case better: True
        then have "match_ok source window (heOffset ?e) ?ml"
          using in_src by (intro match_ok_matchLen) auto
        with IH(2) [OF in_src refl better] obtain off len n where
          "bestMatch_loop source window entries (heNext ?e + 1) (heOffset ?e) ?ml (Suc examined) = Inr (off, len, n)"
          "match_ok source window off len" "?ml \<le> len" "n \<le> maxChainCandidates"
          using nxt True "1.prems" by auto
        then show ?thesis using True inb in_src better step by (auto simp: Let_def)
      next
        case worse: False
        then show ?thesis using IH(3) [OF in_src refl worse] nxt True inb in_src "1.prems" step
          by (auto simp: Let_def)
      qed
    qed
  qed
qed

section \<open>The hash table\<close>

lemma clearLowBits_pos: "0 < t \<Longrightarrow> 0 < clearLowBits t"
proof (induction t rule: clearLowBits.induct)
  case (1 t)
  then show ?case by (subst clearLowBits.simps) auto
qed

lemma tableSizeFor_pos: "0 < tableSizeFor n"
proof -
  have "0 < (if n div nHash < 64 then 64 else n div nHash)" by simp
  then show ?thesis using clearLowBits_pos by (auto simp: tableSizeFor_def Let_def)
qed

lemma buildLoop_ok:
  "table_ok heads entries \<Longrightarrow> msk < length heads \<Longrightarrow>
   buildLoop source msk i heads entries = (heads', entries') \<Longrightarrow>
     table_ok heads' entries' \<and> length heads' = length heads"
proof (induction source msk i heads entries arbitrary: heads' entries' rule: buildLoop.induct)
  case (1 source msk i heads entries)
  show ?case
  proof (cases "i + nHash \<le> length source")
    case False
    then show ?thesis using "1.prems" by (subst (asm) buildLoop.simps) auto
  next
    case True
    let ?idx = "and (unat (rollingHash (bslice source i (i + nHash)))) msk"
    let ?e = "\<lparr>heOffset = i, heNext = int (heads ! ?idx) - 1\<rparr>"
    let ?es = "entries @ [?e]" and ?hs = "heads[?idx := length (entries @ [?e])]"
    have step: "buildLoop source msk (i + nHash) ?hs ?es = (heads', entries')"
      using "1.prems"(3) True by (subst (asm) buildLoop.simps) (simp add: Let_def)
    have "?idx < length heads" using and_nat_le "1.prems"(2) by (rule le_less_trans)
    then have "heads ! ?idx \<le> length entries" using "1.prems"(1) by (simp add: table_ok_def)
    then have "table_ok ?hs ?es"
      using "1.prems"(1) set_update_subset_insert [of heads ?idx "length ?es"]
      by (auto simp: table_ok_def chains_ok_def nth_append less_Suc_eq le_SucI)
    from "1.IH" [OF True refl refl this _ step] "1.prems"(2) show ?thesis by simp
  qed
qed

lemma buildHashTable_ok:
  assumes "buildHashTable source = (heads, entries, msk)"
  shows "table_ok heads entries" and "msk < length heads"
proof -
  let ?n = "tableSizeFor (length source)"
  obtain hs es where b: "buildLoop source (?n - 1) 0 (replicate ?n 0) [] = (hs, es)"
    by (cases "buildLoop source (?n - 1) 0 (replicate ?n 0) []")
  have "table_ok (replicate ?n 0) []" by (simp add: table_ok_def chains_ok_def)
  from buildLoop_ok [OF this _ b] tableSizeFor_pos [of "length source"]
  have "table_ok hs es" "length hs = ?n" by simp_all
  moreover have "heads = hs" "entries = es" "msk = ?n - 1"
    using assms b by (simp_all add: buildHashTable_def Let_def)
  ultimately show "table_ok heads entries" and "msk < length heads"
    using tableSizeFor_pos [of "length source"] by simp_all
qed

lemma bestMatch_ok:
  assumes "table_ok heads entries" and "msk < length heads"
  shows "\<exists>off len n. bestMatch source target tPos heads entries msk = Inr (off, len, n) \<and>
    match_ok source (drop tPos target) off len \<and> n \<le> maxChainCandidates"
proof -
  let ?idx = "and (unat (rollingHash (bslice target tPos (tPos + nHash)))) msk"
  have idx: "?idx < length heads" using and_nat_le assms(2) by (rule le_less_trans)
  then have "int (heads ! ?idx) \<le> int (length entries)" using assms(1) by (simp add: table_ok_def)
  from bestMatch_loop_ok [OF _ this, of 0 source "drop tPos target" 0 0] assms(1) idx
  show ?thesis by (auto simp: bestMatch_def Let_def table_ok_def match_ok_def)
qed

section \<open>Emission\<close>

lemma flushInsert_eq: "flushInsert buf pending = buf @ flushInsert [] pending"
  by (simp add: flushInsert_def appendInt_eq)

lemma replay_flushInsert:
  assumes "length (flushInsert [] xs) \<le> N" and "N < 2 ^ 62" and "length out + length xs \<le> T"
  shows "replay source T N (flushInsert [] xs @ tl0) out = replay source T N tl0 (out @ xs)"
proof (cases "xs = []")
  case False
  then have "length xs \<le> N" using assms(1) by (simp add: flushInsert_def)
  then show ?thesis using False assms replay_insert [of xs N out T source tl0]
    by (simp add: flushInsert_def appendInt_eq)
qed (simp add: flushInsert_def)

text \<open>
  \<open>emits source target tPos pending cmds\<close>: after the output that \<open>pending\<close> completes to the
  first \<open>tPos\<close> bytes of the target, the commands \<open>cmds\<close> produce the whole target.
\<close>

definition emits :: "bytes \<Rightarrow> bytes \<Rightarrow> nat \<Rightarrow> bytes \<Rightarrow> bytes \<Rightarrow> bool" where
  "emits source target tPos pending cmds \<longleftrightarrow>
     (\<forall>out N tl0. out @ pending = take tPos target \<longrightarrow> length cmds \<le> N \<longrightarrow> N < 2 ^ 62 \<longrightarrow>
        replay source (length target) N (cmds @ tl0) out = replay source (length target) N tl0 target)"

lemma emits_done: "tPos = length target \<Longrightarrow> emits source target tPos pending (flushInsert [] pending)"
  unfolding emits_def by (auto simp: replay_flushInsert simp flip: length_append)

lemma emits_literal:
  assumes "tPos < length target" and "emits source target (Suc tPos) (pending @ [target ! tPos]) cmds"
  shows "emits source target tPos pending cmds"
proof -
  have "out @ pending @ [target ! tPos] = take (Suc tPos) target"
    if "out @ pending = take tPos target" for out
    using that assms(1) by (simp add: take_Suc_conv_app_nth flip: append_assoc)
  then show ?thesis using assms(2) by (auto simp: emits_def)
qed

lemma emits_copy:
  assumes "match_ok source (drop tPos target) off len" and "0 < len" and "tPos < length target"
    and src: "length source < 2 ^ 62" and nx: "emits source target (tPos + len) [] cmds"
  shows "emits source target tPos pending
     (flushInsert [] pending @ int_enc len @ ''@'' @ int_enc off @ '','' @ cmds)"
  unfolding emits_def
proof (intro allI impI)
  let ?copy = "int_enc len @ ''@'' @ int_enc off @ '',''"
  fix out N tl0
  assume a: "out @ pending = take tPos target" "N < 2 ^ 62"
    "length (flushInsert [] pending @ int_enc len @ ''@'' @ int_enc off @ '','' @ cmds) \<le> N"
  have l: "tPos + len \<le> length target" "off + len \<le> length source"
      "bslice source off (off + len) = take len (drop tPos target)"
    using assms(1-3) by (auto simp: match_ok_def)
  have len: "length out + length pending = tPos"
    using a(1) assms(3) by (metis length_append length_take min.absorb4)
  have "replay source (length target) N (flushInsert [] pending @ ?copy @ cmds @ tl0) out =
      replay source (length target) N (?copy @ cmds @ tl0) (take tPos target)"
    using a len assms(3) by (subst replay_flushInsert) auto
  also have "\<dots> = replay source (length target) N (cmds @ tl0) (take (tPos + len) target)"
    using replay_copy [of off len source "take tPos target" "length target" N "cmds @ tl0"] l src
    by (simp add: take_add)
  also have "\<dots> = replay source (length target) N tl0 target"
    using nx a by (simp add: emits_def)
  finally show "replay source (length target) N
      ((flushInsert [] pending @ int_enc len @ ''@'' @ int_enc off @ '','' @ cmds) @ tl0) out =
      replay source (length target) N tl0 target" by simp
qed

text \<open>How long the pending insert becomes when it is flushed.\<close>

definition flushLen :: "bytes \<Rightarrow> nat" where
  "flushLen pending = (if pending = [] then 0 else 12 + length pending)"

lemma length_flushInsert:
  "length pending < 2 ^ 62 \<Longrightarrow> length (flushInsert [] pending) \<le> flushLen pending"
  using int_enc_length [of "length pending"] by (simp add: flushInsert_def flushLen_def appendInt_eq)

lemma emitLoop_ok:
  assumes ok: "table_ok heads entries" "msk < length heads" and src: "length source < 2 ^ 62"
    and tgt: "length target < 2 ^ 62"
  shows "tPos \<le> length target \<Longrightarrow> length pending \<le> tPos \<Longrightarrow>
    \<exists>buf' pending' cmds. emitLoop source target heads entries msk tPos buf pending = Inr (buf', pending') \<and>
      flushInsert buf' pending' = buf @ cmds \<and> emits source target tPos pending cmds \<and>
      length cmds \<le> flushLen pending + 36 * (length target - tPos)"
proof (induction "length target - tPos" arbitrary: tPos buf pending rule: less_induct)
  case less
  note step = emitLoop.simps [of source target heads entries msk tPos buf pending]
  show ?case
  proof (cases "tPos < length target")
    case False
    then show ?thesis
      using less.prems step flushInsert_eq [of buf pending] emits_done [of tPos target source pending]
        length_flushInsert [of pending] tgt by auto
  next
    case True
    have "\<exists>off len n. (if tPos + nHash \<le> length target
         then bestMatch source target tPos heads entries msk else Inr (0, 0, 0)) = Inr (off, len, n) \<and>
        match_ok source (drop tPos target) off len"
      using bestMatch_ok [OF ok, of source target tPos] by (auto simp: match_ok_def)
    then obtain off len n where best: "(if tPos + nHash \<le> length target
         then bestMatch source target tPos heads entries msk else Inr (0, 0, 0)) = Inr (off, len, n)"
      and m: "match_ok source (drop tPos target) off len"
      by blast
    show ?thesis
    proof (cases "nHash \<le> len")
      case False
      have "length target - Suc tPos < length target - tPos" using True by simp
      from less.hyps [OF this, of "pending @ [target ! tPos]" buf] True less.prems
      obtain buf' pending' cmds where
        "emitLoop source target heads entries msk (Suc tPos) buf (pending @ [target ! tPos]) = Inr (buf', pending')"
        "flushInsert buf' pending' = buf @ cmds" "emits source target (Suc tPos) (pending @ [target ! tPos]) cmds"
        "length cmds \<le> flushLen (pending @ [target ! tPos]) + 36 * (length target - Suc tPos)"
        by auto
      then show ?thesis using True best False step emits_literal [OF True]
        by (auto simp: Let_def flushLen_def)
    next
      case copy: True
      let ?copy = "int_enc len @ ''@'' @ int_enc off @ '',''"
      let ?buf = "flushInsert buf pending @ ?copy"
      have l: "0 < len" "tPos + len \<le> length target" "off + len \<le> length source"
        using m copy by (auto simp: match_ok_def nHash_def)
      have "length target - (tPos + len) < length target - tPos" using l True by simp
      from less.hyps [OF this, of "[]" ?buf] l True obtain buf' pending' cmds where
        e: "emitLoop source target heads entries msk (tPos + len) ?buf [] = Inr (buf', pending')"
        "flushInsert buf' pending' = ?buf @ cmds" "emits source target (tPos + len) [] cmds"
        "length cmds \<le> 36 * (length target - (tPos + len))"
        by (auto simp: flushLen_def)
      have "length (int_enc len) \<le> 11" "length (int_enc off) \<le> 11"
        using l src tgt by (auto intro!: int_enc_length)
      then have "length (flushInsert [] pending @ ?copy @ cmds) \<le> flushLen pending + 36 * (length target - tPos)"
        using e(4) l length_flushInsert [of pending] less.prems tgt by auto
      with emits_copy [OF m l(1) True src e(3)] e(2) flushInsert_eq [of buf pending]
      show ?thesis using True best copy step e(1)
        by (intro exI [of _ buf'] exI [of _ pending']
            exI [of _ "flushInsert [] pending @ int_enc len @ ''@'' @ int_enc off @ '','' @ cmds"])
           (simp add: Let_def appendInt_eq)
    qed
  qed
qed

section \<open>Properties of the encoder\<close>

lemma parseTargetLen_header:
  assumes "n < 2 ^ 32"
  obtains r where "parseTargetLen \<lparr>rdata = int_enc n @ CHR 0x0A # cmds, rpos = 0\<rparr> = Inr (n, r)"
    and "rest r = cmds"
proof -
  let ?r = "\<lparr>rdata = int_enc n @ CHR 0x0A # cmds, rpos = 0\<rparr>"
  have "n < 2 ^ 64" using assms by simp
  then have "readInt (rest ?r) = Inr (n, CHR 0x0A # cmds)" by (simp add: readInt_int_enc)
  then obtain r1 where r1: "getInt ?r = Inr (n, r1)" "rest r1 = CHR 0x0A # cmds" by (rule getInt_step)
  then have "readChar (rest r1) = Inr (CHR 0x0A, cmds)" by simp
  then obtain r2 where "getChar r1 = Inr (CHR 0x0A, r2)" "rest r2 = cmds" by (rule getChar_step)
  then show ?thesis using that [of r2] r1 assms by (simp add: parseTargetLen_def maxDeltaTargetSize_def)
qed

lemma Apply_encoded:
  assumes "grows_enough grow" and "length source < 2 ^ 62" and "length target < 2 ^ 32"
    and d: "d = int_enc (length target) @ CHR 0x0A # cmds @ int_enc (unat (Checksum target)) @ '';''"
    and "length d < 2 ^ 62" and "emits source target 0 [] cmds"
  shows "Apply grow source d = Inr target"
proof -
  let ?fin = "int_enc (unat (Checksum target)) @ '';'' @ []"
  have d': "d = int_enc (length target) @ CHR 0x0A # (cmds @ ?fin)" using d by simp
  obtain r where r: "parseTargetLen \<lparr>rdata = d, rpos = 0\<rparr> = Inr (length target, r)" "rest r = cmds @ ?fin"
    using parseTargetLen_header [OF assms(3), of "cmds @ ?fin"] unfolding d' by blast
  have "length cmds \<le> length d" using d by simp
  with assms(5,6) have "replay source (length target) (length d) (cmds @ ?fin) [] =
      replay source (length target) (length d) ?fin target"
    by (simp only: emits_def) simp
  also have "\<dots> = Inr target" by (rule replay_finish) simp
  finally have "replay source (length target) (length d) (cmds @ ?fin) [] = Inr target" .
  moreover have "d \<noteq> []" using d by simp
  ultimately show ?thesis using r unfolding Apply_replay [OF assms(1,2,5)] by simp
qed

lemma emits_insert_all: "target \<noteq> [] \<Longrightarrow> emits source target 0 [] (flushInsert [] target)"
  unfolding emits_def by (auto simp: replay_flushInsert)

lemma checksum_enc_length: "length (int_enc (unat (Checksum xs))) \<le> 11"
proof -
  have "unat (Checksum xs) < 2 ^ LENGTH(32)" by (rule unsigned_less)
  then show ?thesis by (intro int_enc_length) simp
qed

text \<open>Every delta \<open>Create\<close> writes has the shape header, commands, checksum.\<close>

lemma Create_shape:
  assumes "length source < 2 ^ 32" and "length target < 2 ^ 32"
  obtains cmds where
    "Create source target = Inr (int_enc (length target) @ CHR 0x0A # cmds @ int_enc (unat (Checksum target)) @ '';'')"
    and "emits source target 0 [] cmds" and "length cmds \<le> 12 + 36 * length target"
proof -
  have sizes: "checkSizes (length source) (length target) = Inr ()"
    using assms by (simp add: checkSizes_def maxDeltaTargetSize_def)
  consider "target = []" | "target \<noteq> []" "length source < nHash" | "target \<noteq> []" "\<not> length source < nHash"
    by blast
  then show ?thesis
  proof cases
    case 1
    with sizes show ?thesis using that [of "[]"]
      by (simp add: Create_def appendInt_eq emits_def)
  next
    case 2
    have "length (flushInsert [] target) \<le> flushLen target" using assms by (intro length_flushInsert) simp
    with 2 sizes show ?thesis using that [of "flushInsert [] target"] emits_insert_all [of target source]
      by (simp add: Create_def createInsertAll_def appendInt_eq flushInsert_def flushLen_def)
  next
    case 3
    obtain heads entries msk where t: "buildHashTable source = (heads, entries, msk)" by (cases "buildHashTable source")
    note ok = buildHashTable_ok [OF t]
    let ?hd = "int_enc (length target) @ [CHR 0x0A]"
    from emitLoop_ok [OF ok, of source target 0 "[]" ?hd] assms obtain buf' pending' cmds where
      "emitLoop source target heads entries msk 0 ?hd [] = Inr (buf', pending')"
      "flushInsert buf' pending' = ?hd @ cmds" "emits source target 0 [] cmds"
      "length cmds \<le> 36 * length target"
      by (auto simp: flushLen_def)
    with 3 sizes t show ?thesis using that [of cmds]
      by (simp add: Create_def emitMatches_def appendInt_eq)
  qed
qed

lemma Create_Apply_ok:
  assumes "grows_enough grow" and "length source < maxDeltaTargetSize" and "length target < maxDeltaTargetSize"
  shows "\<exists>d. Create source target = Inr d \<and> Apply grow source d = Inr target"
proof -
  have b: "length source < 2 ^ 32" "length target < 2 ^ 32"
    using assms by (simp_all add: maxDeltaTargetSize_def)
  from b obtain cmds where c:
    "Create source target = Inr (int_enc (length target) @ CHR 0x0A # cmds @ int_enc (unat (Checksum target)) @ '';'')"
    (is "_ = Inr ?d") "emits source target 0 [] cmds" "length cmds \<le> 12 + 36 * length target"
    by (rule Create_shape)
  have "length ?d \<le> 36 + 36 * length target"
    using c(3) b int_enc_length [of "length target"] checksum_enc_length [of target] by simp
  with b have "length ?d < 2 ^ 62" by simp
  with Apply_encoded [OF assms(1) _ b(2) refl _ c(2)] b have "Apply grow source ?d = Inr target" by simp
  with c(1) show ?thesis by blast
qed

text \<open>
  C1. Round trip: for every source and target below the format's limit \<open>Create\<close> succeeds, and
  applying the delta it returns to the source gives back the target, whatever the hash table
  and the bounded match search chose.
\<close>

theorem Create_Apply_roundtrip:
  assumes "grows_enough grow" and "length source < maxDeltaTargetSize" and "length target < maxDeltaTargetSize"
  shows "\<exists>d. Create source target = Inr d \<and> Apply grow source d = Inr target"
  by (rule Create_Apply_ok [OF assms])

lemma Create_Apply_roundtrip_witness:
  "\<exists>d. Create ''the quick brown fox jumps over'' ''a quick brown fox jumps'' = Inr d \<and>
       Apply (\<lambda>c n. n) ''the quick brown fox jumps over'' d = Inr ''a quick brown fox jumps''"
  by (rule Create_Apply_roundtrip) (simp_all add: grows_enough_def maxDeltaTargetSize_def)

text \<open>
  Inputs at or above the limit are refused with \<open>ErrTooLarge\<close>, and \<open>Create\<close> fails in no other
  way: the index arithmetic of the table and of the chains stays in range.
\<close>

theorem Create_errors:
  "Create source target = Inl e \<longleftrightarrow>
     e = ErrTooLarge \<and> (maxDeltaTargetSize \<le> length source \<or> maxDeltaTargetSize \<le> length target)"
proof (cases "maxDeltaTargetSize \<le> length source \<or> maxDeltaTargetSize \<le> length target")
  case True
  then show ?thesis by (auto simp: Create_def checkSizes_def)
next
  case False
  then have "length source < 2 ^ 32" "length target < 2 ^ 32" by (simp_all add: maxDeltaTargetSize_def)
  then obtain d where "Create source target = Inr d" by (rule Create_shape)
  then show ?thesis using False by simp
qed

text \<open>
  The search of one target position never inspects more than \<open>maxChainCandidates\<close> entries of
  the table built from the source, never leaves it, and a length it reports is a real run of at
  least \<open>nHash\<close> bytes that source and target share at the reported offset.
\<close>

theorem bestMatch_sound:
  assumes "buildHashTable source = (heads, entries, msk)"
  shows "\<exists>off len n. bestMatch source target tPos heads entries msk = Inr (off, len, n) \<and>
     n \<le> maxChainCandidates \<and>
     (len = 0 \<or> nHash \<le> len \<and> off + len \<le> length source \<and> tPos + len \<le> length target \<and>
        bslice source off (off + len) = bslice target tPos (tPos + len))"
proof -
  obtain off len n where b: "bestMatch source target tPos heads entries msk = Inr (off, len, n)"
    "match_ok source (drop tPos target) off len" "n \<le> maxChainCandidates"
    using bestMatch_ok [OF buildHashTable_ok [OF assms]] by blast
  from b(2) have "len = 0 \<or> nHash \<le> len \<and> off + len \<le> length source \<and> tPos + len \<le> length target \<and>
        bslice source off (off + len) = bslice target tPos (tPos + len)"
    by (auto simp: match_ok_def bslice_def nHash_def)
  with b(1,3) show ?thesis by blast
qed

lemma bestMatch_sound_witness:
  "\<exists>heads entries msk off len n. buildHashTable ''0123456789abcdef0123'' = (heads, entries, msk) \<and>
     bestMatch ''0123456789abcdef0123'' ''xx0123456789abcdefyy'' 2 heads entries msk = Inr (off, len, n) \<and>
     n \<le> maxChainCandidates"
proof -
  obtain heads entries msk where "buildHashTable ''0123456789abcdef0123'' = (heads, entries, msk)"
    by (cases "buildHashTable ''0123456789abcdef0123''")
  with bestMatch_sound [OF this, of "''xx0123456789abcdefyy''" 2] show ?thesis by blast
qed

end
