(* ===== verification/Blob.thy ===== *)
theory Blob
  imports Xfer Delta_Create
begin

text \<open>
  The blob table, \<^verbatim>\<open>src/internal/blob\<close>: compression of stored content, reading a row, and the operations that
  write rows (whole content, deltas, deltas as received, phantoms).

  The repository database is the record \<open>store\<close>: the tables the storage packages use, each in insertion order and
  keyed by rid as SQLite keys an \<^verbatim>\<open>INTEGER PRIMARY KEY\<close> table.  A statement fails exactly when a constraint of
  the schema in \<^verbatim>\<open>db/schema.go\<close> is violated; the driver's own faults are not modelled.  Operations run in a
  transaction, so an error leaves no state behind.  zlib, SHA3 and the growth of Go's \<^verbatim>\<open>append\<close> are the fields
  of the parameter \<open>env\<close>; fault injection (\<^verbatim>\<open>simio.Buggify\<close>) is off, as outside simulations.
\<close>

section \<open>The store\<close>

record env =
  eZlib :: zlib
  eSha3 :: "bytes \<Rightarrow> bytes"
  eGrow :: "nat \<Rightarrow> nat \<Rightarrow> nat"

record blobRow =
  bUuid :: bytes
  bSize :: "int option"
  bContent :: "bytes option"
  bRcvid :: int

record store =
  sPolicy :: "bytes option"
  sBlob :: "(int \<times> blobRow) list"
  sDelta :: "(int \<times> int) list"
  sPhantom :: "int list"
  sUnclustered :: "int list"
  sPrivate :: "int list"
  sShun :: "bytes list"
  sRcvfrom :: "int list"
  sReceipt :: int

datatype content_error =
    SPanic string
  | SError string "int list"
  | SWrap string "int list" content_error
  | SDelta delta_error
  | SPolicyError hash_error
  | HashMismatchError int bytes bytes
  | ErrChainUnresolvable string int

definition mapE :: "('e \<Rightarrow> 'f) \<Rightarrow> 'e + 'a \<Rightarrow> 'f + 'a" where
  "mapE f r = (case r of Inl e \<Rightarrow> Inl (f e) | Inr x \<Rightarrow> Inr x)"

definition wrapE :: "string \<Rightarrow> int list \<Rightarrow> content_error + 'a \<Rightarrow> content_error + 'a" where
  "wrapE msg args r = mapE (SWrap msg args) r"

lemma mapE_simps [simp]: "mapE f (Inl e) = Inl (f e)" "mapE f (Inr x) = Inr x"
  by (simp_all add: mapE_def)

lemma mapE_eq_Inr [simp]: "mapE f r = Inr x \<longleftrightarrow> r = Inr x"
  by (cases r) auto

lemma wrapE_simps [simp]: "wrapE m a (Inl e) = Inl (SWrap m a e)" "wrapE m a (Inr x) = Inr x"
  by (simp_all add: wrapE_def)

lemma wrapE_eq_Inr [simp]: "wrapE m a r = Inr x \<longleftrightarrow> r = Inr x"
  by (simp add: wrapE_def)

text \<open>The rowid SQLite gives the next row of a table.\<close>

definition nextRowid :: "int list \<Rightarrow> int" where
  "nextRowid keys = 1 + foldr max keys 0"

definition blobOf :: "store \<Rightarrow> int \<Rightarrow> blobRow option" where
  "blobOf st rid = map_of (sBlob st) rid"

definition deltaOf :: "store \<Rightarrow> int \<Rightarrow> int option" where
  "deltaOf st rid = map_of (sDelta st) rid"

definition ridByUuid :: "store \<Rightarrow> bytes \<Rightarrow> int option" where
  "ridByUuid st uuid = map_option fst (find (\<lambda>(r, row). bUuid row = uuid) (sBlob st))"

definition insertBlob :: "store \<Rightarrow> blobRow \<Rightarrow> content_error + int \<times> store" where
  "insertBlob st row =
     (if length (bUuid row) < 40 then Inl (SError ''CHECK constraint failed: blob'' [])
      else if ridByUuid st (bUuid row) \<noteq> None then Inl (SError ''UNIQUE constraint failed: blob.uuid'' [])
      else let rid = nextRowid (map fst (sBlob st)) in Inr (rid, st\<lparr>sBlob := sBlob st @ [(rid, row)]\<rparr>))"

definition updateBlob :: "store \<Rightarrow> int \<Rightarrow> (blobRow \<Rightarrow> blobRow) \<Rightarrow> store" where
  "updateBlob st rid f = st\<lparr>sBlob := map (\<lambda>(r, row). (r, if r = rid then f row else row)) (sBlob st)\<rparr>"

definition deleteDelta :: "store \<Rightarrow> int \<Rightarrow> store" where
  "deleteDelta st rid = st\<lparr>sDelta := filter (\<lambda>(r, _). r \<noteq> rid) (sDelta st)\<rparr>"

definition replaceDelta :: "store \<Rightarrow> int \<Rightarrow> int \<Rightarrow> store" where
  "replaceDelta st rid src = st\<lparr>sDelta := filter (\<lambda>(r, _). r \<noteq> rid) (sDelta st) @ [(rid, src)]\<rparr>"

definition insertDelta :: "store \<Rightarrow> int \<Rightarrow> int \<Rightarrow> content_error + store" where
  "insertDelta st rid src =
     (if deltaOf st rid \<noteq> None then Inl (SError ''UNIQUE constraint failed: delta.rid'' [])
      else Inr (st\<lparr>sDelta := sDelta st @ [(rid, src)]\<rparr>))"

definition insertOrIgnore :: "int \<Rightarrow> int list \<Rightarrow> int list" where
  "insertOrIgnore x xs = (if x \<in> set xs then xs else xs @ [x])"

definition insertPhantom :: "store \<Rightarrow> int \<Rightarrow> content_error + store" where
  "insertPhantom st rid =
     (if rid \<in> set (sPhantom st) then Inl (SError ''UNIQUE constraint failed: phantom.rid'' [])
      else Inr (st\<lparr>sPhantom := sPhantom st @ [rid]\<rparr>))"

definition namesOf :: "store \<Rightarrow> repoNames" where
  "namesOf st = \<lparr>policyRow = sPolicy st, blobNames = map (\<lambda>(_, row). bUuid row) (sBlob st)\<rparr>"

text \<open>
  \<^verbatim>\<open>db.ReceiptID\<close> in a transaction that carries no receipt of its caller: the row is made at its first use and kept.
\<close>

definition ReceiptID :: "store \<Rightarrow> int \<times> store" where
  "ReceiptID st =
     (if sReceipt st \<noteq> 0 then (sReceipt st, st)
      else let id = nextRowid (sRcvfrom st) in (id, st\<lparr>sRcvfrom := sRcvfrom st @ [id], sReceipt := id\<rparr>))"

section \<open>Compression\<close>

definition Compress :: "env \<Rightarrow> bytes \<Rightarrow> bytes" where
  "Compress e data = sizePrefix (length data) @ zDeflate (eZlib e) data"

definition EncodeForStorage :: "env \<Rightarrow> bytes \<Rightarrow> bytes option \<Rightarrow> content_error + bytes" where
  "EncodeForStorage e data verbatim =
     (case verbatim of
        Some v \<Rightarrow> if v = [] then Inl (SPanic ''blob.EncodeForStorage: verbatim must not be empty when non-nil'') else Inr v
      | None \<Rightarrow> Inr (Compress e data))"

definition Decompress :: "env \<Rightarrow> bytes \<Rightarrow> content_error + bytes" where
  "Decompress e data =
     (if length data < 5 then Inl (SError ''zlib decompress: data too short (%d bytes)'' [int (length data)])
      else case zInflate (eZlib e) (drop 4 data) of
             None \<Rightarrow> Inl (SError ''zlib decompress: %w'' [])
           | Some (out, ok) \<Rightarrow> if ok then Inr out else Inl (SError ''zlib read: %w'' []))"

text \<open>
  \<^verbatim>\<open>Inflater\<close>: the state is whether its reader has been built; a reset reader reads as a new one.
\<close>

definition inflaterDecompress :: "env \<Rightarrow> bool \<Rightarrow> bytes \<Rightarrow> (content_error + bytes) \<times> bool" where
  "inflaterDecompress e zr data =
     (if length data < 5 then (Inl (SError ''zlib decompress: data too short (%d bytes)'' [int (length data)]), zr)
      else case zInflate (eZlib e) (drop 4 data) of
             None \<Rightarrow> (Inl (SError (if zr then ''zlib reset: %w'' else ''zlib decompress: %w'') []), zr)
           | Some (out, ok) \<Rightarrow> (if ok then Inr out else Inl (SError ''zlib read: %w'' []), True))"

section \<open>Reading a row\<close>

definition decompress :: "env \<Rightarrow> bytes \<Rightarrow> bool option \<Rightarrow> (content_error + bytes) \<times> bool option" where
  "decompress e data infl =
     (case infl of Some zr \<Rightarrow> (case inflaterDecompress e zr data of (r, zr') \<Rightarrow> (r, Some zr'))
      | None \<Rightarrow> (Decompress e data, None))"

definition loadWith :: "env \<Rightarrow> store \<Rightarrow> int \<Rightarrow> bool option \<Rightarrow> (content_error + bytes) \<times> bool option" where
  "loadWith e st rid infl =
     (if rid \<le> 0 then (Inl (SPanic ''blob.Load: rid must be > 0''), infl)
      else case blobOf st rid of
             None \<Rightarrow> (Inl (SError ''blob.Load query: %w'' []), infl)
           | Some row \<Rightarrow>
               case bSize row of
                 None \<Rightarrow> (Inl (SError ''blob.Load query: %w'' []), infl)
               | Some n \<Rightarrow>
                   if n = -1 then (Inl (SError ''blob.Load: rid %d is a phantom'' [rid]), infl)
                   else case bContent row of
                          None \<Rightarrow> (Inl (SError ''blob.Load: rid %d has NULL or empty content'' [rid]), infl)
                        | Some c \<Rightarrow>
                            if c = [] then (Inl (SError ''blob.Load: rid %d has NULL or empty content'' [rid]), infl)
                            else decompress e c infl)"

definition Load :: "env \<Rightarrow> store \<Rightarrow> int \<Rightarrow> content_error + bytes" where
  "Load e st rid = fst (loadWith e st rid None)"

definition inflaterLoad :: "env \<Rightarrow> bool \<Rightarrow> store \<Rightarrow> int \<Rightarrow> (content_error + bytes) \<times> bool" where
  "inflaterLoad e zr st rid = (case loadWith e st rid (Some zr) of (r, i) \<Rightarrow> (r, i = Some True))"

definition Exists :: "store \<Rightarrow> bytes \<Rightarrow> content_error + int option" where
  "Exists st uuid =
     (if uuid = [] then Inl (SPanic ''blob.Exists: uuid must not be empty'') else Inr (ridByUuid st uuid))"

text \<open>\<^verbatim>\<open>isPhantom\<close>; a row that cannot be scanned counts as one.\<close>

definition isPhantom :: "store \<Rightarrow> int \<Rightarrow> bool" where
  "isPhantom st rid =
     (case blobOf st rid of None \<Rightarrow> True | Some row \<Rightarrow> (case bSize row of None \<Rightarrow> True | Some n \<Rightarrow> n = -1))"

section \<open>Writing a row\<close>

definition hashE :: "string + bytes \<Rightarrow> content_error + bytes" where
  "hashE r = mapE SPanic r"

definition existingName :: "env \<Rightarrow> store \<Rightarrow> Naming \<Rightarrow> bytes \<Rightarrow> bytes \<Rightarrow> content_error + (int \<times> bytes) option" where
  "existingName e st naming uuid content =
     bindE (Exists st uuid) (\<lambda>r.
       if (case r of None \<Rightarrow> False | Some rid \<Rightarrow> \<not> isPhantom st rid) then Inr (Some (the r, uuid))
       else if \<not> nReuseLegacy naming then Inr None
       else bindE (hashE (algHash (eSha3 e) (Other (nNew naming)) (Some content))) (\<lambda>legacy.
            bindE (Exists st legacy) (\<lambda>r'.
              case r' of
                None \<Rightarrow> Inr None
              | Some rid \<Rightarrow> if isPhantom st rid then Inr None else Inr (Some (rid, legacy)))))"

definition writeRow :: "store \<Rightarrow> bytes \<Rightarrow> int \<Rightarrow> bytes \<Rightarrow> content_error + int \<times> store" where
  "writeRow st uuid nsize compressed =
     (if nsize < 0 then Inl (SPanic ''blob.writeRow: size must not be negative'')
      else if compressed = [] then Inl (SPanic ''blob.writeRow: compressed must not be empty'')
      else bindE (wrapE ''hash policy: %w'' [] (mapE SPolicyError (PromoteFor (namesOf st) uuid))) (\<lambda>q.
        case ReceiptID (st\<lparr>sPolicy := policyRow q\<rparr>) of (rcvid, st1) \<Rightarrow>
        bindE (Exists st1 uuid) (\<lambda>r.
          case r of
            Some rid \<Rightarrow>
              let st2 = updateBlob st1 rid (\<lambda>row. row\<lparr>bRcvid := rcvid, bSize := Some nsize, bContent := Some compressed\<rparr>) in
              Inr (rid, st2\<lparr>sPhantom := removeAll rid (sPhantom st2)\<rparr>)
          | None \<Rightarrow>
              wrapE ''insert: %w'' []
                (insertBlob st1 \<lparr>bUuid = uuid, bSize = Some nsize, bContent = Some compressed, bRcvid = rcvid\<rparr>))))"

text \<open>The deferred postcondition of the writers.\<close>

definition postRid :: "string \<Rightarrow> int \<Rightarrow> 'a \<Rightarrow> content_error + 'a" where
  "postRid msg rid x = (if rid \<le> 0 then Inl (SPanic msg) else Inr x)"

definition markUnclustered :: "store \<Rightarrow> int \<Rightarrow> store" where
  "markUnclustered st rid = st\<lparr>sUnclustered := insertOrIgnore rid (sUnclustered st)\<rparr>"

definition writeVerified :: "env \<Rightarrow> store \<Rightarrow> Alg \<Rightarrow> bytes \<Rightarrow> bytes \<Rightarrow> content_error + int \<times> store" where
  "writeVerified e st alg uuid content =
     bindE (writeRow st uuid (int (length content)) (Compress e content)) (\<lambda>(rid, st1).
     bindE (wrapE ''verify read-back: %w'' [] (Load e st1 rid)) (\<lambda>readBack.
     bindE (hashE (algHash (eSha3 e) alg (Some readBack))) (\<lambda>got.
       if got \<noteq> uuid then Inl (SError ''verify: hash mismatch after round-trip: stored %s, got %s'' [])
       else Inr (rid, markUnclustered st1 rid))))"

definition NamingOf :: "store \<Rightarrow> content_error + Naming" where
  "NamingOf st = wrapE ''blob: %w'' [] (mapE SPolicyError (NamingFor (namesOf st)))"

definition Store :: "env \<Rightarrow> store \<Rightarrow> bytes option \<Rightarrow> content_error + (int \<times> bytes) \<times> store" where
  "Store e st content0 =
     (let content = (case content0 of None \<Rightarrow> [] | Some c \<Rightarrow> c) in
      bindE (NamingOf st) (\<lambda>naming.
      bindE (hashE (algHash (eSha3 e) (nNew naming) (Some content))) (\<lambda>uuid.
      bindE (existingName e st naming uuid content) (\<lambda>x.
        case x of
          Some (rid, name) \<Rightarrow> postRid ''blob.Store: postcondition violated: rid <= 0 with no error'' rid ((rid, name), st)
        | None \<Rightarrow>
            bindE (wrapE ''blob.Store: %w'' [] (writeVerified e st (nNew naming) uuid content)) (\<lambda>(rid, st1).
              postRid ''blob.Store: postcondition violated: rid <= 0 with no error'' rid ((rid, uuid), st1))))))"

datatype Outcome = Found | Inserted | FilledPhantom

definition StoreUnderPolicy :: "env \<Rightarrow> store \<Rightarrow> bytes option \<Rightarrow> content_error + (int \<times> bytes \<times> Outcome) \<times> store" where
  "StoreUnderPolicy e st content0 =
     (let content = (case content0 of None \<Rightarrow> [] | Some c \<Rightarrow> c) in
      bindE (NamingOf st) (\<lambda>naming.
      bindE (hashE (algHash (eSha3 e) (nNew naming) (Some content))) (\<lambda>uuid.
      bindE (Exists st uuid) (\<lambda>r.
        if (case r of None \<Rightarrow> False | Some rid \<Rightarrow> \<not> isPhantom st rid) then Inr ((the r, uuid, Found), st)
        else let outcome = (if r = None then Inserted else FilledPhantom) in
             bindE (wrapE ''blob.StoreUnderPolicy: %w'' [] (writeVerified e st (nNew naming) uuid content)) (\<lambda>(rid, st1).
               Inr ((rid, uuid, outcome), st1))))))"

definition StoreDelta :: "env \<Rightarrow> store \<Rightarrow> bytes \<Rightarrow> int \<Rightarrow> content_error + (int \<times> bytes) \<times> store" where
  "StoreDelta e st content srcRid =
     (let post = postRid ''blob.StoreDelta: postcondition violated: rid <= 0 with no error'' in
      if content = [] then Inl (SPanic ''blob.StoreDelta: content length must be > 0'')
      else if srcRid \<le> 0 then Inl (SPanic ''blob.StoreDelta: srcRid must be > 0'')
      else bindE (NamingOf st) (\<lambda>naming.
      bindE (hashE (algHash (eSha3 e) (nNew naming) (Some content))) (\<lambda>uuid.
      bindE (existingName e st naming uuid content) (\<lambda>x.
        case x of
          Some (rid, name) \<Rightarrow> post rid ((rid, name), st)
        | None \<Rightarrow>
            bindE (wrapE ''blob.StoreDelta load source: %w'' [] (Load e st srcRid)) (\<lambda>srcContent.
            bindE (wrapE ''blob.StoreDelta delta: %w'' [] (mapE SDelta (Create srcContent content))) (\<lambda>deltaBytes.
            bindE (wrapE ''blob.StoreDelta: %w'' [] (writeRow st uuid (int (length content)) (Compress e deltaBytes))) (\<lambda>(rid, st1).
            bindE (wrapE ''blob.StoreDelta insert delta: %w'' [] (insertDelta st1 rid srcRid)) (\<lambda>st2.
            bindE (wrapE ''blob.StoreDelta verify read-back: %w'' [] (Load e st2 rid)) (\<lambda>storedDelta.
            bindE (wrapE ''blob.StoreDelta verify apply: %w'' [] (mapE SDelta (Apply (eGrow e) srcContent storedDelta))) (\<lambda>rebuilt.
            bindE (hashE (algHash (eSha3 e) (nNew naming) (Some rebuilt))) (\<lambda>got.
              if got \<noteq> uuid
              then Inl (SError ''blob.StoreDelta verify: hash mismatch after round-trip: stored %s, got %s'' [])
              else post rid ((rid, uuid), markUnclustered st2 rid))))))))))))"

definition StoreDeltaRaw ::
  "env \<Rightarrow> store \<Rightarrow> bytes \<Rightarrow> bytes \<Rightarrow> int \<Rightarrow> bytes option \<Rightarrow> content_error + int \<times> store" where
  "StoreDeltaRaw e st uuid deltaBytes srcRid storedBlob =
     (let post = postRid ''blob.StoreDeltaRaw: postcondition violated: rid <= 0 with no error'' in
      if uuid = [] then Inl (SPanic ''blob.StoreDeltaRaw: uuid must not be empty'')
      else if srcRid \<le> 0 then Inl (SPanic ''blob.StoreDeltaRaw: srcRid must be > 0'')
      else bindE (Exists st uuid) (\<lambda>r.
        if (case r of None \<Rightarrow> False | Some rid \<Rightarrow> \<not> isPhantom st rid) then post (the r) (the r, st)
        else
          bindE (wrapE ''blob.StoreDeltaRaw: output size: %w'' [] (mapE SDelta (OutputSize deltaBytes))) (\<lambda>targetSize.
          bindE (wrapE ''blob.StoreDeltaRaw: compress: %w'' [] (EncodeForStorage e deltaBytes storedBlob)) (\<lambda>compressed.
          bindE (wrapE ''blob.StoreDeltaRaw: %w'' [] (writeRow st uuid (int targetSize) compressed)) (\<lambda>(rid, st1).
            post rid (rid, markUnclustered (replaceDelta st1 rid srcRid) rid))))))"

definition StorePhantom :: "store \<Rightarrow> bytes \<Rightarrow> content_error + int \<times> store" where
  "StorePhantom st uuid =
     (let post = postRid ''blob.StorePhantom: postcondition violated: rid <= 0 with no error'' in
      if uuid = [] then Inl (SPanic ''blob.StorePhantom: uuid must not be empty'')
      else bindE (Exists st uuid) (\<lambda>r.
        case r of
          Some rid \<Rightarrow> post rid (rid, st)
        | None \<Rightarrow>
            bindE (wrapE ''blob.StorePhantom: %w'' []
              (insertBlob st \<lparr>bUuid = uuid, bSize = Some (-1), bContent = None, bRcvid = 0\<rparr>)) (\<lambda>(rid, st1).
            bindE (wrapE ''blob.StorePhantom phantom table: %w'' [] (insertPhantom st1 rid)) (\<lambda>st2.
              post rid (rid, st2)))))"

end
