(* ===== verification/Content.thy ===== *)
theory Content
  imports Blob
begin

text \<open>
  Reading and rewriting stored artifacts, \<^verbatim>\<open>src/internal/content\<close>: delta-chain expansion (\<^verbatim>\<open>content.go\<close>), the
  availability predicate and its cache (\<^verbatim>\<open>available.go\<close>), the LRU cache of expanded content with its two memos
  (\<^verbatim>\<open>cache.go\<close>, \<^verbatim>\<open>cache_sized.go\<close>), deltification (\<^verbatim>\<open>deltify.go\<close>) and the private table (\<^verbatim>\<open>private.go\<close>).
  The closures \<^verbatim>\<open>have\<close> and \<^verbatim>\<open>put\<close> of \<^verbatim>\<open>expandChain\<close> are functions on the cache state that is threaded
  through; the mutex makes each of them one step.
\<close>

definition maxDeltaChainDepth :: nat where
  "maxDeltaChainDepth = 16384"

section \<open>Binding content to its name\<close>

definition bindToUUID :: "env \<Rightarrow> int \<Rightarrow> bytes \<Rightarrow> bytes \<Rightarrow> content_error + unit" where
  "bindToUUID e rid uuid content =
     bindE (hashE (if length uuid = 64 then SHA3 (eSha3 e) (Some content) else SHA1 (Some content))) (\<lambda>computed.
       if computed \<noteq> uuid then Inl (SWrap ''content.Expand: %w'' [] (HashMismatchError rid uuid computed)) else Inr ())"

definition bindToName :: "env \<Rightarrow> store \<Rightarrow> int \<Rightarrow> bytes \<Rightarrow> content_error + unit" where
  "bindToName e st rid content =
     (case blobOf st rid of
        None \<Rightarrow> Inl (SError ''content.Expand: query uuid for rid=%d: %w'' [rid])
      | Some row \<Rightarrow> bindToUUID e rid (bUuid row) content)"

section \<open>Walking a chain\<close>

text \<open>
  The loop of \<^verbatim>\<open>walkDeltaChain\<close>.  \<open>chain\<close> holds the nodes visited, the latest first, so that the list returned is
  root first as after the code's final reversal; it is also the visited set.
\<close>

type_synonym 'c haveFn = "int \<Rightarrow> 'c \<Rightarrow> bytes option \<times> 'c"
type_synonym 'c putFn = "int \<Rightarrow> bytes \<Rightarrow> 'c \<Rightarrow> 'c"

function walkLoop ::
  "store \<Rightarrow> int \<Rightarrow> 'c haveFn option \<Rightarrow> int \<Rightarrow> int list \<Rightarrow> 'c \<Rightarrow> (content_error + int list \<times> bytes option) \<times> 'c" where
  "walkLoop st rid hv current chain c =
     (if current \<in> set chain then (Inl (ErrChainUnresolvable ''delta chain cycle detected at rid=%d: %w'' current), c)
      else let chain1 = current # chain;
               (cached, c1) = (case hv of None \<Rightarrow> (None, c) | Some h \<Rightarrow> h current c) in
           case cached of
             Some b \<Rightarrow> (Inr (chain1, Some b), c1)
           | None \<Rightarrow>
               (case deltaOf st current of
                  None \<Rightarrow> (Inr (chain1, None), c1)
                | Some src \<Rightarrow>
                    if maxDeltaChainDepth \<le> length chain1
                    then (Inl (ErrChainUnresolvable ''delta chain from rid=%d exceeds %d nodes: %w'' rid), c1)
                    else walkLoop st rid hv src chain1 c1))"
  by pat_completeness auto
termination
  by (relation "measure (\<lambda>(st, rid, hv, current, chain, c). maxDeltaChainDepth - length chain)") auto

declare walkLoop.simps [simp del]

definition walkDeltaChain ::
  "store \<Rightarrow> int \<Rightarrow> 'c haveFn option \<Rightarrow> 'c \<Rightarrow> (content_error + int list \<times> bytes option) \<times> 'c" where
  "walkDeltaChain st rid hv c =
     (if rid \<le> 0 then (Inl (SPanic ''content.walkDeltaChain: rid must be > 0''), c)
      else case walkLoop st rid hv rid [] c of (r, c1) \<Rightarrow>
        (bindE r (\<lambda>(chain, b).
           if chain = [] then Inl (SPanic ''content.walkDeltaChain: postcondition violated: chain is empty with no error'')
           else Inr (chain, b)), c1))"

section \<open>Replaying a chain\<close>

text \<open>
  The state of the replay loop: the content so far, the reader of the \<^verbatim>\<open>Inflater\<close>, the capacities of the two
  scratch buffers (their bytes are dead once reused) and the cache.
\<close>

definition checkNode :: "env \<Rightarrow> store \<Rightarrow> bool \<Rightarrow> int \<Rightarrow> bytes \<Rightarrow> content_error + unit" where
  "checkNode e st check rid content = (if check then bindToName e st rid content else Inr ())"

fun replayLoop ::
  "env \<Rightarrow> store \<Rightarrow> 'c putFn option \<Rightarrow> bool \<Rightarrow> int list \<Rightarrow> nat \<Rightarrow> bytes \<Rightarrow> bool \<Rightarrow> (nat \<Rightarrow> nat) \<Rightarrow> 'c \<Rightarrow>
     (content_error + bytes) \<times> 'c" where
  "replayLoop e st put check [] i content zr scratch c = (Inr content, c)"
| "replayLoop e st put check (rid # rids) i content zr scratch c =
     (case inflaterLoad e zr st rid of
        (Inl err, _) \<Rightarrow> (Inl (SWrap ''content.Expand load delta rid=%d: %w'' [rid] err), c)
      | (Inr deltaBytes, zr1) \<Rightarrow>
          (case put of
             Some p \<Rightarrow>
               (case Apply (eGrow e) content deltaBytes of
                  Inl err \<Rightarrow> (Inl (SWrap ''content.Expand apply delta rid=%d: %w'' [rid] (SDelta err)), c)
                | Inr content1 \<Rightarrow>
                    (case checkNode e st check rid content1 of
                       Inl err \<Rightarrow> (Inl err, c)
                     | Inr _ \<Rightarrow> replayLoop e st put check rids (Suc i) content1 zr1 scratch (p rid content1 c)))
           | None \<Rightarrow>
               (case ApplyInto (eGrow e) (scratch (i mod 2)) content deltaBytes of
                  Inl err \<Rightarrow> (Inl (SWrap ''content.Expand apply delta rid=%d: %w'' [rid] (SDelta err)), c)
                | Inr b \<Rightarrow> replayLoop e st put check rids (Suc i) (bbytes b) zr1 (scratch(i mod 2 := bcap b)) c)))"

definition finishExpansion :: "env \<Rightarrow> store \<Rightarrow> int \<Rightarrow> bytes \<Rightarrow> bool \<Rightarrow> bool \<Rightarrow> content_error + bytes" where
  "finishExpansion e st rid content verified check =
     (if \<not> verified \<and> check then bindE (bindToName e st rid content) (\<lambda>_. Inr content) else Inr content)"

text \<open>The content the replay starts from: what the walk stopped on, or the root's row.\<close>

definition startContent ::
  "env \<Rightarrow> store \<Rightarrow> 'c putFn option \<Rightarrow> bool \<Rightarrow> int \<Rightarrow> bytes option \<Rightarrow> 'c \<Rightarrow> (content_error + bytes) \<times> 'c" where
  "startContent e st put check rootId base c =
     (case base of
        Some b \<Rightarrow> (Inr b, c)
      | None \<Rightarrow>
          (case Load e st rootId of
             Inl err \<Rightarrow> (Inl (SWrap ''content.Expand load root rid=%d: %w'' [rootId] err), c)
           | Inr content \<Rightarrow>
               (case put of
                  None \<Rightarrow> (Inr content, c)
                | Some p \<Rightarrow>
                    (case checkNode e st check rootId content of
                       Inl err \<Rightarrow> (Inl err, c)
                     | Inr _ \<Rightarrow> (Inr content, p rootId content c)))))"

definition expandChain ::
  "env \<Rightarrow> store \<Rightarrow> int \<Rightarrow> 'c haveFn option \<Rightarrow> 'c putFn option \<Rightarrow> bool \<Rightarrow> 'c \<Rightarrow> (content_error + bytes) \<times> 'c" where
  "expandChain e st rid hv put check c =
     (case walkDeltaChain st rid hv c of
        (Inl err, c1) \<Rightarrow> (Inl (SWrap ''content.Expand: %w'' [] err), c1)
      | (Inr (chain, base), c1) \<Rightarrow>
          if last chain \<noteq> rid then (Inl (SPanic ''content.expandChain: chain must end at rid''), c1)
          else (case startContent e st put check (hd chain) base c1 of
                  (Inl err, c2) \<Rightarrow> (Inl err, c2)
                | (Inr content, c2) \<Rightarrow>
                    (case replayLoop e st put check (List.tl chain) 1 content False (\<lambda>_. 0) c2 of
                       (Inl err, c3) \<Rightarrow> (Inl err, c3)
                     | (Inr out, c3) \<Rightarrow> (finishExpansion e st rid out (put \<noteq> None) check, c3))))"

definition Expand :: "env \<Rightarrow> store \<Rightarrow> int \<Rightarrow> content_error + bytes" where
  "Expand e st rid =
     (if rid \<le> 0 then Inl (SPanic ''content.Expand: rid must be > 0'')
      else fst (expandChain e st rid None None True ()))"

definition ExpandUnchecked :: "env \<Rightarrow> store \<Rightarrow> int \<Rightarrow> content_error + bytes" where
  "ExpandUnchecked e st rid =
     (if rid \<le> 0 then Inl (SPanic ''content.ExpandUnchecked: rid must be > 0'')
      else fst (expandChain e st rid None None False ()))"

definition Verify :: "env \<Rightarrow> store \<Rightarrow> int \<Rightarrow> content_error + unit" where
  "Verify e st rid =
     (if rid \<le> 0 then Inl (SPanic ''content.Verify: rid must be > 0'')
      else bindE (wrapE ''content.Verify: %w'' [] (Expand e st rid)) (\<lambda>_. Inr ()))"

definition IsPhantom :: "store \<Rightarrow> int \<Rightarrow> content_error + bool" where
  "IsPhantom st rid =
     (if rid \<le> 0 then Inl (SPanic ''content.IsPhantom: rid must be > 0'') else Inr (rid \<in> set (sPhantom st)))"

section \<open>Availability\<close>

text \<open>The loop of \<^verbatim>\<open>checkAvailable\<close>; \<open>seen\<close> is the visited set and \<open>depth\<close> its size.\<close>

function availLoop :: "store \<Rightarrow> nat \<Rightarrow> int list \<Rightarrow> int \<Rightarrow> bool" where
  "availLoop st depth seen current =
     (if maxDeltaChainDepth \<le> depth then False
      else if current \<in> set seen then False
      else case blobOf st current of
             None \<Rightarrow> False
           | Some row \<Rightarrow>
               (case bSize row of
                  None \<Rightarrow> False
                | Some n \<Rightarrow>
                    if n < 0 then False
                    else (case deltaOf st current of
                            None \<Rightarrow> True
                          | Some src \<Rightarrow> if src = 0 then True else availLoop st (Suc depth) (current # seen) src)))"
  by pat_completeness auto
termination
  by (relation "measure (\<lambda>(st, depth, seen, current). maxDeltaChainDepth - depth)") auto

declare availLoop.simps [simp del]

definition checkAvailable :: "store \<Rightarrow> int \<Rightarrow> bool" where
  "checkAvailable st rid = (if rid \<le> 0 then False else availLoop st 0 [] rid)"

definition IsAvailable :: "store \<Rightarrow> int \<Rightarrow> bool" where
  "IsAvailable st rid = checkAvailable st rid"

definition CheckAvailableByUUID :: "store \<Rightarrow> bytes \<Rightarrow> content_error + (int \<times> bool)" where
  "CheckAvailableByUUID st uuid =
     (if uuid = [] then Inl (SPanic ''content.CheckAvailableByUUID: uuid must not be empty'')
      else case ridByUuid st uuid of
             None \<Rightarrow> Inr (0, False)
           | Some rid \<Rightarrow> Inr (if checkAvailable st rid then (rid, True) else (0, False)))"

definition AvailableByUUID :: "store \<Rightarrow> bytes \<Rightarrow> content_error + (int \<times> bool)" where
  "AvailableByUUID st uuid = CheckAvailableByUUID st uuid"

record AvailabilityCache =
  acAvail :: "(int \<times> bool) list"
  acRids :: "(bytes \<times> int) list"

definition NewAvailabilityCache :: AvailabilityCache where
  "NewAvailabilityCache = \<lparr>acAvail = [], acRids = []\<rparr>"

definition ForgetUnavailable :: "AvailabilityCache \<Rightarrow> AvailabilityCache" where
  "ForgetUnavailable a = a\<lparr>acAvail := filter snd (acAvail a)\<rparr>"

text \<open>The walk of \<^verbatim>\<open>AvailabilityCache.isAvailable\<close>: the nodes it decides and the verdict they share.\<close>

function cachedAvailLoop :: "store \<Rightarrow> (int \<Rightarrow> bool option) \<Rightarrow> nat \<Rightarrow> int list \<Rightarrow> int \<Rightarrow> int list \<times> bool" where
  "cachedAvailLoop st avail depth walked current =
     (if maxDeltaChainDepth \<le> depth then (walked, False)
      else case avail current of
             Some v \<Rightarrow> (walked, v)
           | None \<Rightarrow>
               if current \<in> set walked then (walked, False)
               else let walked1 = walked @ [current] in
                    case blobOf st current of
                      None \<Rightarrow> (walked1, False)
                    | Some row \<Rightarrow>
                        (case bSize row of
                           None \<Rightarrow> (walked1, False)
                         | Some n \<Rightarrow>
                             if n < 0 then (walked1, False)
                             else (case deltaOf st current of
                                     None \<Rightarrow> (walked1, True)
                                   | Some src \<Rightarrow> if src = 0 then (walked1, True)
                                                 else cachedAvailLoop st avail (Suc depth) walked1 src)))"
  by pat_completeness auto
termination
  by (relation "measure (\<lambda>(st, avail, depth, walked, current). maxDeltaChainDepth - depth)") auto

declare cachedAvailLoop.simps [simp del]

definition cachedIsAvailable :: "AvailabilityCache \<Rightarrow> store \<Rightarrow> int \<Rightarrow> bool \<times> AvailabilityCache" where
  "cachedIsAvailable a st rid =
     (if rid \<le> 0 then (False, a)
      else case map_of (acAvail a) rid of
             Some v \<Rightarrow> (v, a)
           | None \<Rightarrow>
               (case cachedAvailLoop st (map_of (acAvail a)) 0 [] rid of
                  (walked, result) \<Rightarrow> (result, a\<lparr>acAvail := map (\<lambda>n. (n, result)) walked @ acAvail a\<rparr>)))"

definition ridForUUID :: "AvailabilityCache \<Rightarrow> store \<Rightarrow> bytes \<Rightarrow> int option \<times> AvailabilityCache" where
  "ridForUUID a st uuid =
     (case map_of (acRids a) uuid of
        Some rid \<Rightarrow> (Some rid, a)
      | None \<Rightarrow>
          (case ridByUuid st uuid of
             None \<Rightarrow> (None, a)
           | Some rid \<Rightarrow> (Some rid, a\<lparr>acRids := (uuid, rid) # acRids a\<rparr>)))"

definition ByUUID :: "AvailabilityCache \<Rightarrow> store \<Rightarrow> bytes \<Rightarrow> content_error + (int \<times> bool) \<times> AvailabilityCache" where
  "ByUUID a st uuid =
     (if uuid = [] then Inl (SPanic ''content.AvailabilityCache.ByUUID: uuid must not be empty'')
      else case ridForUUID a st uuid of
             (None, a1) \<Rightarrow> Inr ((0, False), a1)
           | (Some rid, a1) \<Rightarrow>
               (case cachedIsAvailable a1 st rid of (ok, a2) \<Rightarrow> Inr (if ok then (rid, True) else (0, False), a2)))"

end
