(* ===== verification/Content_Cache.thy ===== *)
theory Content_Cache
  imports Content
begin

text \<open>
  The LRU cache of expanded content, \<^verbatim>\<open>src/internal/content/cache.go\<close>, with the derived-value memo and the
  byte-bounded memo of \<^verbatim>\<open>cache_sized.go\<close>.  The list \<^verbatim>\<open>order\<close> and the map \<^verbatim>\<open>items\<close> into it are one list of entries,
  the most recent first.  Entries are clipped on the way in, so an entry's size is its length.  A nil cache is
  \<open>None\<close>.
\<close>

record ('k, 'v) cache =
  cOrder :: "(int \<times> bytes) list"
  cCurSize :: int
  cMaxSize :: int
  cMaxEntries :: nat
  cHits :: int
  cMisses :: int
  cDerived :: "('k \<times> 'v) list"
  cDerivedOrder :: "'k list"
  cDerivedHits :: int
  cSized :: "('k \<times> 'v \<times> int) list"
  cSizedSize :: int
  cSizedHits :: int
  cSizedStores :: int
  cUnchecked :: bool

definition maxCacheEntries :: nat where "maxCacheEntries = 100000"

definition NewCache :: "int \<Rightarrow> content_error + ('k, 'v) cache" where
  "NewCache maxBytes =
     (if maxBytes \<le> 0 then Inl (SPanic ''content.NewCache: maxBytes must be > 0'')
      else Inr \<lparr>cOrder = [], cCurSize = 0, cMaxSize = maxBytes, cMaxEntries = maxCacheEntries, cHits = 0, cMisses = 0,
                cDerived = [], cDerivedOrder = [], cDerivedHits = 0,
                cSized = [], cSizedSize = 0, cSizedHits = 0, cSizedStores = 0, cUnchecked = False\<rparr>)"

definition NewUncheckedCache :: "int \<Rightarrow> content_error + ('k, 'v) cache" where
  "NewUncheckedCache maxBytes = bindE (NewCache maxBytes) (\<lambda>c. Inr (c\<lparr>cUnchecked := True\<rparr>))"

section \<open>The content entries\<close>

definition entrySize :: "bytes \<Rightarrow> int" where
  "entrySize data = int (length data)"

definition clip :: "bytes \<Rightarrow> bytes" where
  "clip data = data"

definition moveToFront :: "'k \<Rightarrow> ('k \<times> 'v) list \<Rightarrow> ('k \<times> 'v) list" where
  "moveToFront k xs = (case map_of xs k of None \<Rightarrow> xs | Some v \<Rightarrow> (k, v) # filter (\<lambda>(k', _). k' \<noteq> k) xs)"

definition evictOldest :: "('k, 'v) cache \<Rightarrow> ('k, 'v) cache" where
  "evictOldest c =
     (if cOrder c = [] then c
      else c\<lparr>cOrder := butlast (cOrder c), cCurSize := cCurSize c - entrySize (snd (last (cOrder c)))\<rparr>)"

function evictLoop :: "('k, 'v) cache \<Rightarrow> ('k, 'v) cache" where
  "evictLoop c =
     (if (cMaxSize c < cCurSize c \<or> cMaxEntries c < length (cOrder c)) \<and> cOrder c \<noteq> [] then evictLoop (evictOldest c) else c)"
  by pat_completeness auto
termination
  by (relation "measure (\<lambda>c. length (cOrder c))") (auto simp: evictOldest_def)

declare evictLoop.simps [simp del]

definition storeOwnedLocked :: "int \<Rightarrow> bytes \<Rightarrow> ('k, 'v) cache \<Rightarrow> ('k, 'v) cache" where
  "storeOwnedLocked rid data c =
     (if map_of (cOrder c) rid \<noteq> None then c\<lparr>cOrder := moveToFront rid (cOrder c)\<rparr>
      else let d = clip data in
           evictLoop (c\<lparr>cOrder := (rid, d) # cOrder c, cCurSize := cCurSize c + entrySize d\<rparr>))"

definition cacheStore :: "int \<Rightarrow> bytes \<Rightarrow> ('k, 'v) cache \<Rightarrow> ('k, 'v) cache" where
  "cacheStore rid data c = storeOwnedLocked rid data c"

definition Remember :: "int \<Rightarrow> bytes \<Rightarrow> ('k, 'v) cache \<Rightarrow> content_error + ('k, 'v) cache" where
  "Remember rid data c =
     (if rid \<le> 0 then Inl (SPanic ''content.Cache.Remember: rid must be > 0'')
      else if map_of (cOrder c) rid \<noteq> None then Inr (c\<lparr>cOrder := moveToFront rid (cOrder c)\<rparr>)
      else if cMaxSize c < int (length data) then Inr c
      else Inr (storeOwnedLocked rid data c))"

text \<open>The closure \<^verbatim>\<open>have\<close> of \<^verbatim>\<open>Cache.expand\<close>.\<close>

definition cacheHave :: "int \<Rightarrow> ('k, 'v) cache \<Rightarrow> bytes option \<times> ('k, 'v) cache" where
  "cacheHave rid c =
     (case map_of (cOrder c) rid of
        None \<Rightarrow> (None, c)
      | Some data \<Rightarrow> (Some data, c\<lparr>cOrder := moveToFront rid (cOrder c)\<rparr>))"

definition cacheExpandChecked :: "env \<Rightarrow> store \<Rightarrow> int \<Rightarrow> bool \<Rightarrow> ('k, 'v) cache \<Rightarrow> (content_error + bytes) \<times> ('k, 'v) cache" where
  "cacheExpandChecked e st rid check c =
     (case map_of (cOrder c) rid of
        Some data \<Rightarrow> (Inr data, c\<lparr>cOrder := moveToFront rid (cOrder c), cHits := cHits c + 1\<rparr>)
      | None \<Rightarrow> expandChain e st rid (Some cacheHave) (Some cacheStore) check (c\<lparr>cMisses := cMisses c + 1\<rparr>))"

definition CacheExpand :: "env \<Rightarrow> store \<Rightarrow> int \<Rightarrow> ('k, 'v) cache option \<Rightarrow> (content_error + bytes) \<times> ('k, 'v) cache option" where
  "CacheExpand e st rid oc =
     (case oc of
        None \<Rightarrow> (Expand e st rid, None)
      | Some c \<Rightarrow>
          if rid \<le> 0 then (Inl (SPanic ''content.Cache.Expand: rid must be > 0''), oc)
          else if cUnchecked c then (Inl (SPanic ''content.Cache.Expand: an unchecked cache serves only ExpandUnchecked''), oc)
          else (case cacheExpandChecked e st rid True c of (r, c1) \<Rightarrow> (r, Some c1)))"

definition CacheExpandUnchecked :: "env \<Rightarrow> store \<Rightarrow> int \<Rightarrow> ('k, 'v) cache option \<Rightarrow> (content_error + bytes) \<times> ('k, 'v) cache option" where
  "CacheExpandUnchecked e st rid oc =
     (case oc of
        None \<Rightarrow> (Inl (SPanic ''content.Cache.ExpandUnchecked: needs a cache from NewUncheckedCache''), None)
      | Some c \<Rightarrow>
          if \<not> cUnchecked c then (Inl (SPanic ''content.Cache.ExpandUnchecked: needs a cache from NewUncheckedCache''), oc)
          else if rid \<le> 0 then (Inl (SPanic ''content.Cache.ExpandUnchecked: rid must be > 0''), oc)
          else (case cacheExpandChecked e st rid False c of (r, c1) \<Rightarrow> (r, Some c1)))"

definition Holds :: "int \<Rightarrow> ('k, 'v) cache option \<Rightarrow> bool" where
  "Holds rid oc = (case oc of None \<Rightarrow> False | Some c \<Rightarrow> map_of (cOrder c) rid \<noteq> None)"

section \<open>Derived values\<close>

definition maxDerived :: nat where "maxDerived = 32"

definition Derived :: "'k \<Rightarrow> ('k, 'v) cache \<Rightarrow> 'v option \<times> ('k, 'v) cache" where
  "Derived key c =
     (case map_of (cDerived c) key of
        None \<Rightarrow> (None, c)
      | Some v \<Rightarrow> (Some v, c\<lparr>cDerivedHits := cDerivedHits c + 1\<rparr>))"

definition SetDerived :: "'k \<Rightarrow> 'v \<Rightarrow> ('k, 'v) cache \<Rightarrow> ('k, 'v) cache" where
  "SetDerived key v c =
     (let c1 = (if map_of (cDerived c) key \<noteq> None then c
                else let c0 = (if length (cDerivedOrder c) = maxDerived
                               then c\<lparr>cDerived := filter (\<lambda>(k, _). k \<noteq> hd (cDerivedOrder c)) (cDerived c),
                                      cDerivedOrder := drop 1 (cDerivedOrder c)\<rparr>
                               else c) in
                     c0\<lparr>cDerivedOrder := cDerivedOrder c0 @ [key]\<rparr>) in
      c1\<lparr>cDerived := (key, v) # filter (\<lambda>(k, _). k \<noteq> key) (cDerived c1)\<rparr>)"

definition sizedBudget :: "('k, 'v) cache \<Rightarrow> int" where
  "sizedBudget c = cMaxSize c div 4"

definition DerivedSized :: "'k \<Rightarrow> ('k, 'v) cache \<Rightarrow> 'v option \<times> ('k, 'v) cache" where
  "DerivedSized key c =
     (case map_of (cSized c) key of
        None \<Rightarrow> (None, c)
      | Some (v, _) \<Rightarrow> (Some v, c\<lparr>cSized := moveToFront key (cSized c), cSizedHits := cSizedHits c + 1\<rparr>))"

text \<open>The eviction loop of \<^verbatim>\<open>SetDerivedSized\<close>; \<^verbatim>\<open>back.Value\<close> of an empty list is a nil dereference.\<close>

function sizedEvict :: "('k, 'v) cache \<Rightarrow> content_error + ('k, 'v) cache" where
  "sizedEvict c =
     (if sizedBudget c < cSizedSize c \<or> cMaxEntries c < length (cSized c)
      then (if cSized c = [] then Inl (SPanic ''nil pointer dereference'')
            else sizedEvict (c\<lparr>cSized := butlast (cSized c), cSizedSize := cSizedSize c - snd (snd (last (cSized c)))\<rparr>))
      else Inr c)"
  by pat_completeness auto
termination
  by (relation "measure (\<lambda>c. length (cSized c))") auto

declare sizedEvict.simps [simp del]

definition SetDerivedSized :: "'k \<Rightarrow> 'v \<Rightarrow> int \<Rightarrow> ('k, 'v) cache \<Rightarrow> content_error + ('k, 'v) cache" where
  "SetDerivedSized key v n c =
     (if n < 0 then Inl (SPanic ''content.Cache.SetDerivedSized: size must be >= 0'')
      else if sizedBudget c < n then Inr c
      else sizedEvict
        (case map_of (cSized c) key of
           Some (_, old) \<Rightarrow>
             c\<lparr>cSizedSize := cSizedSize c + (n - old), cSized := (key, v, n) # filter (\<lambda>(k, _). k \<noteq> key) (cSized c)\<rparr>
         | None \<Rightarrow>
             c\<lparr>cSized := (key, v, n) # cSized c, cSizedSize := cSizedSize c + n, cSizedStores := cSizedStores c + 1\<rparr>))"

definition dropSizedLocked :: "('k, 'v) cache \<Rightarrow> ('k, 'v) cache" where
  "dropSizedLocked c = c\<lparr>cSized := [], cSizedSize := 0\<rparr>"

definition dropDerivedLocked :: "('k, 'v) cache \<Rightarrow> ('k, 'v) cache" where
  "dropDerivedLocked c = dropSizedLocked (c\<lparr>cDerived := [], cDerivedOrder := []\<rparr>)"

definition Invalidate :: "int \<Rightarrow> ('k, 'v) cache \<Rightarrow> ('k, 'v) cache" where
  "Invalidate rid c0 =
     (let c = dropDerivedLocked c0 in
      case map_of (cOrder c) rid of
        None \<Rightarrow> c
      | Some d \<Rightarrow> c\<lparr>cCurSize := cCurSize c - entrySize d, cOrder := filter (\<lambda>(r, _). r \<noteq> rid) (cOrder c)\<rparr>)"

definition Clear :: "('k, 'v) cache \<Rightarrow> ('k, 'v) cache" where
  "Clear c = dropDerivedLocked (c\<lparr>cOrder := [], cCurSize := 0\<rparr>)"

end
