(* ===== verification/Deltify.thy ===== *)
theory Deltify
  imports Content
begin

text \<open>
  Rewriting stored artifacts: \<^verbatim>\<open>Deltify\<close> and \<^verbatim>\<open>Undelta\<close> of \<^verbatim>\<open>src/internal/content/deltify.go\<close>, the private table of
  \<^verbatim>\<open>private.go\<close>, and \<^verbatim>\<open>shun.Purge\<close> with the shun list (\<^verbatim>\<open>src/internal/shun\<close>).
\<close>

section \<open>The private table\<close>

definition IsPrivate :: "store \<Rightarrow> int \<Rightarrow> content_error + bool" where
  "IsPrivate st rid =
     (if rid \<le> 0 then Inl (SPanic ''content.IsPrivate: rid must be positive'') else Inr (rid \<in> set (sPrivate st)))"

definition MakePrivate :: "store \<Rightarrow> int \<Rightarrow> content_error + store" where
  "MakePrivate st rid =
     (if rid \<le> 0 then Inl (SPanic ''content.MakePrivate: rid must be positive'')
      else Inr (st\<lparr>sPrivate := insertOrIgnore rid (sPrivate st)\<rparr>))"

definition MakePublic :: "store \<Rightarrow> int \<Rightarrow> content_error + store" where
  "MakePublic st rid =
     (if rid \<le> 0 then Inl (SPanic ''content.MakePublic: rid must be positive'')
      else Inr (st\<lparr>sPrivate := removeAll rid (sPrivate st)\<rparr>))"

section \<open>Undelta and Deltify\<close>

definition DeltaSource :: "store \<Rightarrow> int \<Rightarrow> int" where
  "DeltaSource st rid = (case deltaOf st rid of None \<Rightarrow> 0 | Some src \<Rightarrow> src)"

definition writeFull :: "env \<Rightarrow> store \<Rightarrow> int \<Rightarrow> bytes \<Rightarrow> store" where
  "writeFull e st rid full =
     deleteDelta (updateBlob st rid
       (\<lambda>row. row\<lparr>bContent := Some (Compress e full), bSize := Some (int (length full))\<rparr>)) rid"

definition Undelta :: "env \<Rightarrow> store \<Rightarrow> int \<Rightarrow> content_error + store" where
  "Undelta e st rid =
     (if rid \<le> 0 then Inl (SPanic ''content.Undelta: rid must be > 0'')
      else if DeltaSource st rid \<le> 0 then Inr st
      else bindE (wrapE ''content.Undelta: expand rid=%d: %w'' [rid] (Expand e st rid)) (\<lambda>full.
        Inr (writeFull e st rid full)))"

definition deltifyMinBytes :: nat where "deltifyMinBytes = 50"

text \<open>
  \<^verbatim>\<open>float64(len(delta)) >= float64(len(data))*0.75\<close>; both products are exact for lengths below 2 to the 51.
\<close>

definition deltaTooLarge :: "bytes \<Rightarrow> bytes \<Rightarrow> bool" where
  "deltaTooLarge deltaBytes data \<longleftrightarrow> 4 * length deltaBytes \<ge> 3 * length data"

function breaksLoop :: "env \<Rightarrow> store \<Rightarrow> int \<Rightarrow> int \<Rightarrow> nat \<Rightarrow> int list \<Rightarrow> int \<Rightarrow> content_error + bool \<times> store" where
  "breaksLoop e st rid srcRid steps seen cur =
     (if cur \<in> set seen then Inl (SError ''content.Deltify: delta chain cycle detected at rid=%d'' [cur])
      else if maxDeltaChainDepth < steps
      then Inl (SError ''content.Deltify: delta chain from rid=%d exceeds %d links'' [srcRid, int maxDeltaChainDepth])
      else let nxt = DeltaSource st cur in
           if nxt \<le> 0 then Inr (False, st)
           else if nxt = rid then bindE (Undelta e st srcRid) (\<lambda>st1. Inr (True, st1))
           else breaksLoop e st rid srcRid (Suc steps) (cur # seen) nxt)"
  by pat_completeness auto
termination
  by (relation "measure (\<lambda>(e, st, rid, srcRid, steps, seen, cur). Suc maxDeltaChainDepth - steps)") auto

declare breaksLoop.simps [simp del]

definition deltifyBreaksLoop :: "env \<Rightarrow> store \<Rightarrow> int \<Rightarrow> int \<Rightarrow> content_error + bool \<times> store" where
  "deltifyBreaksLoop e st rid srcRid = breaksLoop e st rid srcRid 0 [] srcRid"

definition deltifyWrite :: "env \<Rightarrow> store \<Rightarrow> int \<Rightarrow> int \<Rightarrow> bytes \<Rightarrow> content_error + int \<times> store" where
  "deltifyWrite e st rid srcRid deltaBytes =
     (case blobOf st rid of
        None \<Rightarrow> Inl (SError ''content.Deltify: size rid=%d: %w'' [rid])
      | Some row \<Rightarrow>
          (case bContent row of
             None \<Rightarrow> Inl (SError ''content.Deltify: size rid=%d: %w'' [rid])
           | Some old \<Rightarrow>
               let compressed = Compress e deltaBytes;
                   st1 = updateBlob st rid (\<lambda>r. r\<lparr>bContent := Some compressed\<rparr>);
                   st2 = replaceDelta st1 rid srcRid in
               bindE (wrapE ''content.Deltify: verify rid=%d: %w'' [rid] (Expand e st2 rid)) (\<lambda>_.
                 Inr (max 0 (int (length old) - int (length compressed)), st2))))"

text \<open>The rest of \<^verbatim>\<open>Deltify\<close> once the source is known not to depend on \<open>rid\<close>.\<close>

definition deltifyAgainst :: "env \<Rightarrow> store \<Rightarrow> int \<Rightarrow> int \<Rightarrow> bytes \<Rightarrow> content_error + int \<times> store" where
  "deltifyAgainst e st rid srcRid data =
     bindE (wrapE ''content.Deltify: expand srcid=%d: %w'' [srcRid] (Expand e st srcRid)) (\<lambda>src.
       if length src < deltifyMinBytes then Inr (0, st)
       else case Create src data of
              Inl ErrTooLarge \<Rightarrow> Inr (0, st)
            | Inl err \<Rightarrow> Inl (SWrap ''content.Deltify: create delta: %w'' [] (SDelta err))
            | Inr deltaBytes \<Rightarrow>
                if deltaTooLarge deltaBytes data then Inr (0, st)
                else deltifyWrite e st rid srcRid deltaBytes)"

text \<open>\<^verbatim>\<open>IsPrivate(tx, srcRid) && !IsPrivate(tx, rid)\<close>\<close>

definition carriesPrivate :: "store \<Rightarrow> int \<Rightarrow> int \<Rightarrow> content_error + bool" where
  "carriesPrivate st rid srcRid =
     bindE (IsPrivate st srcRid) (\<lambda>sp. if sp then bindE (IsPrivate st rid) (\<lambda>rp. Inr (\<not> rp)) else Inr False)"

definition Deltify :: "env \<Rightarrow> store \<Rightarrow> int \<Rightarrow> int \<Rightarrow> content_error + int \<times> store" where
  "Deltify e st rid srcRid =
     (if rid \<le> 0 \<or> srcRid \<le> 0 \<or> rid = srcRid then Inr (0, st)
      else if DeltaSource st rid > 0 then Inr (0, st)
      else case cachedIsAvailable NewAvailabilityCache st rid of
             (ok, a) \<Rightarrow>
               if \<not> ok \<or> \<not> fst (cachedIsAvailable a st srcRid) then Inr (0, st)
               else bindE (wrapE ''content.Deltify: expand rid=%d: %w'' [rid] (Expand e st rid)) (\<lambda>data.
                 if length data < deltifyMinBytes then Inr (0, st)
                 else bindE (carriesPrivate st rid srcRid) (\<lambda>leaks.
                   if leaks then Inr (0, st)
                   else bindE (deltifyBreaksLoop e st rid srcRid) (\<lambda>(loops, st1).
                     if loops then Inr (0, st1) else deltifyAgainst e st1 rid srcRid data))))"

section \<open>Shunning\<close>

definition shunAdd :: "store \<Rightarrow> bytes \<Rightarrow> content_error + store" where
  "shunAdd st uuid =
     (if uuid = [] then Inl (SError ''shun.Add: invalid UUID %q'' [])
      else bindE (mapE SPanic (IsValidHash uuid)) (\<lambda>ok.
        if \<not> ok then Inl (SError ''shun.Add: invalid UUID %q'' [])
        else Inr (st\<lparr>sShun := filter (\<lambda>u. u \<noteq> uuid) (sShun st) @ [uuid]\<rparr>)))"

definition shunRemove :: "store \<Rightarrow> bytes \<Rightarrow> store" where
  "shunRemove st uuid = st\<lparr>sShun := filter (\<lambda>u. u \<noteq> uuid) (sShun st)\<rparr>"

definition IsShunned :: "store \<Rightarrow> bytes \<Rightarrow> bool" where
  "IsShunned st uuid \<longleftrightarrow> uuid \<in> set (sShun st)"

record PurgeResult =
  prBlobsDeleted :: nat
  prDeltasExpanded :: nat
  prPrivateCleaned :: nat

definition toShun :: "store \<Rightarrow> int list" where
  "toShun st = map fst (filter (\<lambda>(_, row). bUuid row \<in> set (sShun st)) (sBlob st))"

fun undeltaAll :: "env \<Rightarrow> int list \<Rightarrow> store \<Rightarrow> content_error + store" where
  "undeltaAll e [] st = Inr st"
| "undeltaAll e (rid # rids) st =
     bindE (wrapE ''expand rid %d: %w'' [rid] (Expand e st rid)) (\<lambda>expanded.
       undeltaAll e rids (writeFull e st rid expanded))"

definition deleteShunned :: "int list \<Rightarrow> store \<Rightarrow> store" where
  "deleteShunned ts st =
     st\<lparr>sDelta := filter (\<lambda>(r, _). r \<notin> set ts) (sDelta st),
        sBlob := filter (\<lambda>(r, _). r \<notin> set ts) (sBlob st)\<rparr>"

definition cleanPrivate :: "store \<Rightarrow> store" where
  "cleanPrivate st = st\<lparr>sPrivate := filter (\<lambda>r. r \<in> fst ` set (sBlob st)) (sPrivate st)\<rparr>"

definition Purge :: "env \<Rightarrow> store \<Rightarrow> content_error + PurgeResult \<times> store" where
  "Purge e st =
     (let ts = toShun st;
          dependents = map fst (filter (\<lambda>(_, src). src \<in> set ts) (sDelta st)) in
      bindE (undeltaAll e dependents st) (\<lambda>st1.
        let st2 = deleteShunned ts st1; st3 = cleanPrivate st2 in
        Inr (\<lparr>prBlobsDeleted = length (sBlob st1) - length (sBlob st2), prDeltasExpanded = length dependents,
              prPrivateCleaned = length (sPrivate st2) - length (sPrivate st3)\<rparr>, st3)))"

end
