(* ===== verification/Content_Laws.thy ===== *)
theory Content_Laws
  imports Content_Cache Deltify
begin

text \<open>
  What expansion computes.  \<open>rebuilds\<close> is the meaning of a delta chain: the bytes an artifact stands for, by rules
  that follow the delta table and know neither caches, nor buffers, nor visited sets.  Expansion, plain or through a
  cache, is shown to compute exactly that relation; the cache enters through the locale \<open>content_cache\<close>, which
  states what expansion relies on.
\<close>

section \<open>Assumptions on the environment\<close>

text \<open>
  What the code relies on: \<^verbatim>\<open>append\<close> grows a slice enough, zlib inflates what it deflated, SHA3-256 digests have 32
  bytes.  \<open>payloadsBounded\<close> is the address space: no stored payload inflates to more than a quarter of it.
\<close>

definition envLaws :: "env \<Rightarrow> bool" where
  "envLaws e \<longleftrightarrow> grows_enough (eGrow e) \<and> (\<forall>x. zInflate (eZlib e) (zDeflate (eZlib e) x) = Some (x, True)) \<and>
     (\<forall>x. zDeflate (eZlib e) x \<noteq> []) \<and> (\<forall>x. length (eSha3 e x) = 32)"

definition payloadsBounded :: "env \<Rightarrow> store \<Rightarrow> bool" where
  "payloadsBounded e st \<longleftrightarrow> (\<forall>rid d. Load e st rid = Inr d \<longrightarrow> length d < 2 ^ 62)"

section \<open>The meaning of a chain\<close>

inductive rebuilds :: "env \<Rightarrow> store \<Rightarrow> bool \<Rightarrow> nat \<Rightarrow> int \<Rightarrow> bytes \<Rightarrow> bool" for e st b where
  root: "deltaOf st rid = None \<Longrightarrow> Load e st rid = Inr d \<Longrightarrow> checkNode e st b rid d = Inr () \<Longrightarrow> rebuilds e st b (Suc 0) rid d"
| link: "deltaOf st rid = Some src \<Longrightarrow> rebuilds e st b n src s \<Longrightarrow> Load e st rid = Inr dl \<Longrightarrow>
    Apply (eGrow e) s dl = Inr d \<Longrightarrow> checkNode e st b rid d = Inr () \<Longrightarrow> rebuilds e st b (Suc n) rid d"

declare rebuilds.intros [intro]
inductive_cases rebuildsE: "rebuilds e st b n rid d"

lemma rebuilds_rootD: "rebuilds e st b n rid d \<Longrightarrow> deltaOf st rid = None \<Longrightarrow> n = Suc 0 \<and> Load e st rid = Inr d \<and> checkNode e st b rid d = Inr ()"
  by (auto elim: rebuildsE)

lemma rebuilds_linkD:
  assumes "rebuilds e st b n rid d" "deltaOf st rid = Some src"
  shows "\<exists>m s dl. n = Suc m \<and> rebuilds e st b m src s \<and> Load e st rid = Inr dl \<and> Apply (eGrow e) s dl = Inr d \<and>
    checkNode e st b rid d = Inr ()"
  using assms(1)
proof cases
  case root
  then show ?thesis using assms(2) by simp
next
  case (link src' m s dl)
  then show ?thesis using assms(2) by auto
qed

lemma rebuilds_pos: "rebuilds e st b n rid d \<Longrightarrow> 0 < n"
  by (auto elim: rebuildsE)

lemma rebuilds_weaken: "rebuilds e st True n rid d \<Longrightarrow> rebuilds e st b n rid d"
  by (induction rule: rebuilds.induct) (auto simp: checkNode_def)

lemma rebuilds_unique: "rebuilds e st b n rid d \<Longrightarrow> rebuilds e st b' m rid d' \<Longrightarrow> m = n \<and> d' = d"
proof (induction arbitrary: m d' rule: rebuilds.induct)
  case (root rid d)
  then show ?case using rebuilds_rootD by fastforce
next
  case (link rid src n s dl d)
  from rebuilds_linkD [OF link.prems link.hyps(1)] link.IH link.hyps(3,4) show ?case by fastforce
qed

lemma checkNode_checked [simp]: "checkNode e st True rid d = bindToName e st rid d"
  by (simp add: checkNode_def)

lemma rebuilds_named: "rebuilds e st True n rid d \<Longrightarrow> bindToName e st rid d = Inr ()"
  by (auto elim: rebuildsE)

lemma rebuilds_load: "rebuilds e st b n rid d \<Longrightarrow> \<exists>x. Load e st rid = Inr x"
  by (auto elim: rebuildsE)

lemma Load_pos: "Load e st rid = Inr d \<Longrightarrow> 0 < rid"
  by (auto simp: Load_def loadWith_def split: if_splits)

text \<open>The inflater reads what a fresh reader reads.\<close>

lemma inflaterDecompress_ok: "fst (inflaterDecompress e zr data) = Inr d \<longleftrightarrow> Decompress e data = Inr d"
  by (auto simp: inflaterDecompress_def Decompress_def split: option.splits prod.splits if_splits)

lemma loadWith_some: "fst (loadWith e st rid (Some zr)) = Inr d \<longleftrightarrow> Load e st rid = Inr d"
  using inflaterDecompress_ok
  by (auto simp: Load_def loadWith_def decompress_def split: option.splits prod.splits if_splits)
     (metis fst_conv)+

lemma inflaterLoad_ok: "fst (inflaterLoad e zr st rid) = Inr d \<longleftrightarrow> Load e st rid = Inr d"
  using loadWith_some [of e st rid zr d] by (cases "loadWith e st rid (Some zr)") (simp add: inflaterLoad_def)

section \<open>Chains of nodes\<close>

text \<open>A list of nodes, root first, each stored as a delta against the one before it.\<close>

fun linked :: "store \<Rightarrow> int list \<Rightarrow> bool" where
  "linked st (a # b # xs) \<longleftrightarrow> deltaOf st b = Some a \<and> linked st (b # xs)"
| "linked st _ \<longleftrightarrow> True"

lemma linked_tl: "linked st (a # xs) \<Longrightarrow> linked st xs"
  by (cases xs) auto

lemma linked_rebuilds:
  assumes "linked st (a # xs)" "rebuilds e st b n (last (a # xs)) d"
  shows "\<exists>m d'. n = m + length xs \<and> rebuilds e st b m a d'"
  using assms
proof (induction xs arbitrary: a)
  case Nil
  then show ?case by auto
next
  case (Cons x xs)
  then obtain m d' where "n = m + length xs" "rebuilds e st b m x d'" by fastforce
  moreover have "deltaOf st x = Some a" using Cons.prems(1) by simp
  ultimately show ?case using rebuilds_linkD [of e st b m x d' a] by fastforce
qed

section \<open>The walk\<close>

text \<open>What expansion relies on in a cache: an entry is what was put there, and every step keeps the entries right.\<close>

locale content_cache =
  fixes hv :: "'c haveFn" and put :: "'c putFn" and inv :: "(int \<Rightarrow> bytes \<Rightarrow> bool) \<Rightarrow> 'c \<Rightarrow> bool"
  assumes have_hit: "inv Q c \<Longrightarrow> hv r c = (Some d, c') \<Longrightarrow> Q r d"
    and have_inv: "inv Q c \<Longrightarrow> hv r c = (x, c') \<Longrightarrow> inv Q c'"
    and put_inv: "inv Q c \<Longrightarrow> Q r d \<Longrightarrow> inv Q (put r d c)"
begin

lemma walkLoop_steps:
  "cur \<in> set chain \<Longrightarrow> walkLoop st rid (Some hv) cur chain c = (Inl (ErrChainUnresolvable ''delta chain cycle detected at rid=%d: %w'' cur), c)"
  "cur \<notin> set chain \<Longrightarrow> hv cur c = (Some x, c1) \<Longrightarrow> walkLoop st rid (Some hv) cur chain c = (Inr (cur # chain, Some x), c1)"
  "cur \<notin> set chain \<Longrightarrow> hv cur c = (None, c1) \<Longrightarrow> deltaOf st cur = None \<Longrightarrow>
     walkLoop st rid (Some hv) cur chain c = (Inr (cur # chain, None), c1)"
  "cur \<notin> set chain \<Longrightarrow> hv cur c = (None, c1) \<Longrightarrow> deltaOf st cur = Some src \<Longrightarrow> maxDeltaChainDepth \<le> Suc (length chain) \<Longrightarrow>
     walkLoop st rid (Some hv) cur chain c = (Inl (ErrChainUnresolvable ''delta chain from rid=%d exceeds %d nodes: %w'' rid), c1)"
  "cur \<notin> set chain \<Longrightarrow> hv cur c = (None, c1) \<Longrightarrow> deltaOf st cur = Some src \<Longrightarrow> \<not> maxDeltaChainDepth \<le> Suc (length chain) \<Longrightarrow>
     walkLoop st rid (Some hv) cur chain c = walkLoop st rid (Some hv) src (cur # chain) c1"
  by (subst walkLoop.simps, simp)+

lemma walkLoop_ok:
  assumes "walkLoop st rid (Some hv) cur chain c = (r, c')" "inv Q c" "linked st (cur # chain)"
  shows "inv Q c' \<and> (\<forall>ch base. r = Inr (ch, base) \<longrightarrow>
    linked st ch \<and> suffix (cur # chain) ch \<and> (case base of None \<Rightarrow> deltaOf st (hd ch) = None | Some x \<Rightarrow> Q (hd ch) x))"
  using assms
proof (induction "maxDeltaChainDepth - length chain" arbitrary: cur chain c rule: less_induct)
  case less
  obtain x c1 where h: "hv cur c = (x, c1)" by (cases "hv cur c")
  note i = have_inv [OF less.prems(2) h]
  consider "cur \<in> set chain" | y where "cur \<notin> set chain" "x = Some y"
    | "cur \<notin> set chain" "x = None" "deltaOf st cur = None"
    | src where "cur \<notin> set chain" "x = None" "deltaOf st cur = Some src" "maxDeltaChainDepth \<le> Suc (length chain)"
    | src where "cur \<notin> set chain" "x = None" "deltaOf st cur = Some src" "\<not> maxDeltaChainDepth \<le> Suc (length chain)"
    by (cases x; cases "deltaOf st cur") auto
  then show ?case
  proof cases
    case 1
    then show ?thesis using less.prems(1,2) walkLoop_steps(1) by auto
  next
    case 2
    then show ?thesis using less.prems i h have_hit [OF less.prems(2)] walkLoop_steps(2) by auto
  next
    case 3
    then show ?thesis using less.prems i h walkLoop_steps(3) by auto
  next
    case 4
    then show ?thesis using less.prems(1) i h walkLoop_steps(4) by auto
  next
    case 5
    then have w: "walkLoop st rid (Some hv) src (cur # chain) c1 = (r, c')"
      using less.prems(1) walkLoop_steps(5) [OF 5(1) _ 5(3,4), of c c1 rid] h by simp
    have l: "linked st (src # cur # chain)" using 5 less.prems(3) by simp
    have "maxDeltaChainDepth - length (cur # chain) < maxDeltaChainDepth - length chain" using 5(4) by simp
    note ih = less.hyps [OF this w i l]
    have "suffix (cur # chain) ch" if "suffix (src # cur # chain) ch" for ch using that by (rule suffix_ConsD)
    with ih show ?thesis by simp
  qed
qed

lemma walkLoop_complete:
  assumes "rebuilds e st b n cur d" "length chain + n \<le> maxDeltaChainDepth"
    and "\<forall>x \<in> set chain. \<exists>m d'. n < m \<and> rebuilds e st b m x d'"
  shows "\<exists>ch base c'. walkLoop st rid (Some hv) cur chain c = (Inr (ch, base), c')"
  using assms
proof (induction arbitrary: chain c rule: rebuilds.induct)
  case (root cur d)
  then have "cur \<notin> set chain" using rebuilds_rootD by blast
  then show ?case using root(1) walkLoop_steps(2,3) by (cases "hv cur c"; cases "fst (hv cur c)") auto
next
  case (link cur src n s dl d)
  have r: "rebuilds e st b (Suc n) cur d" using link.hyps by blast
  then have ni: "cur \<notin> set chain" using link.prems(2) rebuilds_unique [OF r] by blast
  obtain x c1 where h: "hv cur c = (x, c1)" by (cases "hv cur c")
  have dp: "\<not> maxDeltaChainDepth \<le> Suc (length chain)" using link.prems(1) rebuilds_pos [OF link.hyps(2)] by simp
  have "\<forall>y \<in> set (cur # chain). \<exists>m d'. n < m \<and> rebuilds e st b m y d'"
    using link.prems(2) r by (metis Suc_lessD lessI set_ConsD)
  then have "\<exists>ch base c'. walkLoop st rid (Some hv) src (cur # chain) c1 = (Inr (ch, base), c')"
    using link.prems(1) by (intro link.IH) auto
  then show ?case
    using walkLoop_steps(5) [OF ni _ link.hyps(1) dp, of c c1 rid] walkLoop_steps(2) [OF ni, of c _ c1] h by (cases x) auto
qed

lemma replay_ok:
  assumes "replayLoop e st (Some put) chk rids i content zr scr c = (r, c')"
    and "inv (\<lambda>r d. \<exists>n. rebuilds e st chk n r d) c" "linked st (a # rids)" "rebuilds e st chk n a content"
  shows "inv (\<lambda>r d. \<exists>n. rebuilds e st chk n r d) c' \<and>
    (\<forall>d. r = Inr d \<longrightarrow> rebuilds e st chk (n + length rids) (last (a # rids)) d)"
  using assms
proof (induction rids arbitrary: i content zr c a n)
  case Nil
  then show ?case by auto
next
  case (Cons x rids)
  obtain y zr1 where l: "inflaterLoad e zr st x = (y, zr1)" by (cases "inflaterLoad e zr st x")
  show ?case
  proof (cases "\<exists>dl content1. y = Inr dl \<and> Apply (eGrow e) content dl = Inr content1 \<and> checkNode e st chk x content1 = Inr ()")
    case True
    then obtain dl content1 where o: "y = Inr dl" "Apply (eGrow e) content dl = Inr content1" "checkNode e st chk x content1 = Inr ()"
      by blast
    then have "Load e st x = Inr dl" using inflaterLoad_ok [of e zr st x dl] l by simp
    with o Cons.prems(3,4) have b: "rebuilds e st chk (Suc n) x content1" by auto
    have "replayLoop e st (Some put) chk rids (Suc i) content1 zr1 scr (put x content1 c) = (r, c')"
      using Cons.prems(1) o l by simp
    moreover have "inv (\<lambda>r d. \<exists>n. rebuilds e st chk n r d) (put x content1 c)" using b by (intro put_inv Cons.prems(2)) blast
    ultimately show ?thesis using Cons.IH [OF _ _ linked_tl [OF Cons.prems(3)] b] by fastforce
  next
    case False
    then show ?thesis using Cons.prems(1,2) l by (auto split: sum.splits)
  qed
qed

lemma replay_complete:
  assumes "linked st (a # rids)" "rebuilds e st chk n a content" "rebuilds e st chk m (last (a # rids)) d"
  shows "fst (replayLoop e st (Some put) chk rids i content zr scr c) = Inr d"
  using assms
proof (induction rids arbitrary: i content zr c a n)
  case Nil
  then show ?case using rebuilds_unique [of e st chk n a content] by fastforce
next
  case (Cons x rids)
  have l: "deltaOf st x = Some a" "linked st (x # rids)" using Cons.prems(1) by simp_all
  have "rebuilds e st chk m (last (x # rids)) d" using Cons.prems(3) by simp
  from linked_rebuilds [OF l(2) this] obtain k content1 where k: "rebuilds e st chk k x content1" by blast
  from rebuilds_linkD [OF k l(1)] obtain dl where
    dl: "Load e st x = Inr dl" "Apply (eGrow e) content dl = Inr content1" "checkNode e st chk x content1 = Inr ()"
    using rebuilds_unique [OF Cons.prems(2)] by blast
  obtain y zr1 where "inflaterLoad e zr st x = (y, zr1)" "y = Inr dl"
    using inflaterLoad_ok [of e zr st x dl] dl(1) by (cases "inflaterLoad e zr st x") auto
  then show ?case using dl(2,3) Cons.IH [OF l(2) k] Cons.prems(3) by simp
qed

lemma walk_ok:
  assumes "walkDeltaChain st rid (Some hv) c = (r, c')" "inv Q c"
  shows "inv Q c' \<and> (\<forall>ch base. r = Inr (ch, base) \<longrightarrow> ch \<noteq> [] \<and> last ch = rid \<and> linked st ch \<and>
    (case base of None \<Rightarrow> deltaOf st (hd ch) = None | Some x \<Rightarrow> Q (hd ch) x))"
proof (cases "rid \<le> 0")
  case True
  then show ?thesis using assms by (auto simp: walkDeltaChain_def)
next
  case False
  obtain r1 c1 where w: "walkLoop st rid (Some hv) rid [] c = (r1, c1)" by (cases "walkLoop st rid (Some hv) rid [] c")
  note ok = walkLoop_ok [OF w assms(2)]
  let ?f = "\<lambda>(chain :: int list, b :: bytes option). if chain = []
    then Inl (SPanic ''content.walkDeltaChain: postcondition violated: chain is empty with no error'') else Inr (chain, b)"
  have e: "c' = c1" "r = bindE r1 ?f"
    using assms(1) False w by (simp_all add: walkDeltaChain_def)
  show ?thesis
  proof (intro conjI allI impI)
    show "inv Q c'" using ok e by simp
    fix ch base
    assume "r = Inr (ch, base)"
    with e(2) have "bindE r1 ?f = Inr (ch, base)" by (simp only:)
    then have "r1 = Inr (ch, base)" "ch \<noteq> []" by (auto simp: bindE_eq_Inr_iff split: if_splits)
    with ok show "ch \<noteq> []" "last ch = rid" "linked st ch" "case base of None \<Rightarrow> deltaOf st (hd ch) = None | Some x \<Rightarrow> Q (hd ch) x"
      by (auto simp: suffix_def)
  qed
qed

lemma expand_ok:
  assumes "expandChain e st rid (Some hv) (Some put) chk c = (r, c')"
    and "inv (\<lambda>r d. \<exists>n. rebuilds e st chk n r d) c"
  shows "inv (\<lambda>r d. \<exists>n. rebuilds e st chk n r d) c' \<and> (\<forall>d. r = Inr d \<longrightarrow> (\<exists>n. rebuilds e st chk n rid d))"
proof -
  let ?Q = "\<lambda>r d. \<exists>n. rebuilds e st chk n r d"
  obtain w c1 where w: "walkDeltaChain st rid (Some hv) c = (w, c1)" by (cases "walkDeltaChain st rid (Some hv) c")
  note ok = walk_ok [OF w assms(2)]
  show ?thesis
  proof (cases w)
    case (Inl err)
    then show ?thesis using assms(1) w ok by (auto simp: expandChain_def)
  next
    case (Inr cb)
    then obtain ch base where cb: "w = Inr (ch, base)" by (cases cb) auto
    then obtain a rids where ch: "ch = a # rids" using ok by (cases ch) auto
    obtain sc c2 where sc: "startContent e st (Some put) chk a base c1 = (sc, c2)" by (cases "startContent e st (Some put) chk a base c1")
    have st: "inv ?Q c2 \<and> (\<forall>x. sc = Inr x \<longrightarrow> ?Q a x)"
      using sc ok cb ch rebuilds.root [of st a e _ chk] by (auto simp: startContent_def intro!: put_inv split: option.splits sum.splits)
    show ?thesis
    proof (cases sc)
      case (Inl err)
      then show ?thesis using assms(1) w cb ch sc st ok by (auto simp: expandChain_def)
    next
      case (Inr content)
      then obtain n where n: "rebuilds e st chk n a content" using st by blast
      obtain out c3 where rp: "replayLoop e st (Some put) chk rids 1 content False (\<lambda>_. 0) c2 = (out, c3)"
        by (cases "replayLoop e st (Some put) chk rids 1 content False (\<lambda>_. 0) c2")
      have "inv ?Q c3 \<and> (\<forall>d. out = Inr d \<longrightarrow> rebuilds e st chk (n + length rids) (last (a # rids)) d)"
        using ok cb ch st by (intro replay_ok [OF rp _ _ n]) auto
      then show ?thesis using assms(1) w cb ch sc Inr rp ok by (auto simp: expandChain_def finishExpansion_def split: sum.splits)
    qed
  qed
qed

lemma walkLoop_length:
  assumes "walkLoop st rid (Some hv) cur chain c = (Inr (ch, base), c')" "length chain < maxDeltaChainDepth"
  shows "length ch \<le> maxDeltaChainDepth"
  using assms
proof (induction "maxDeltaChainDepth - length chain" arbitrary: cur chain c rule: less_induct)
  case less
  obtain x c1 where h: "hv cur c = (x, c1)" by (cases "hv cur c")
  have ni: "cur \<notin> set chain" using less.prems(1) walkLoop_steps(1) by auto
  show ?case
  proof (cases "x = None \<and> deltaOf st cur \<noteq> None")
    case True
    then obtain src where s: "deltaOf st cur = Some src" by auto
    have dp: "\<not> maxDeltaChainDepth \<le> Suc (length chain)"
      using less.prems(1) h True s ni walkLoop_steps(4) [OF ni _ s, of c c1 rid] by auto
    then have w: "walkLoop st rid (Some hv) src (cur # chain) c1 = (Inr (ch, base), c')"
      using less.prems(1) walkLoop_steps(5) [OF ni _ s dp, of c c1 rid] h True by simp
    show ?thesis using dp by (intro less.hyps [OF _ w]) auto
  next
    case False
    then show ?thesis using less.prems h ni walkLoop_steps(2) [OF ni] walkLoop_steps(3) [OF ni] by (cases x) auto
  qed
qed

lemma walk_length: "walkDeltaChain st rid (Some hv) c = (Inr (ch, base), c') \<Longrightarrow> length ch \<le> maxDeltaChainDepth"
  using walkLoop_length [of st rid rid "[]" c ch base c']
  by (auto simp: walkDeltaChain_def maxDeltaChainDepth_def bindE_eq_Inr_iff split: if_splits prod.splits)

lemma expand_complete:
  assumes "rebuilds e st chk n rid d" "n \<le> maxDeltaChainDepth" "inv (\<lambda>r d. \<exists>n. rebuilds e st chk n r d) c"
  shows "fst (expandChain e st rid (Some hv) (Some put) chk c) = Inr d"
proof -
  have pos: "0 < rid" using rebuilds_load [OF assms(1)] Load_pos by blast
  obtain ch base c1 where wl: "walkLoop st rid (Some hv) rid [] c = (Inr (ch, base), c1)"
    using walkLoop_complete [OF assms(1), of "[]" rid c] assms(2) by auto
  with walkLoop_ok [OF wl assms(3)] have ne: "ch \<noteq> []" by auto
  then have w: "walkDeltaChain st rid (Some hv) c = (Inr (ch, base), c1)" using wl pos by (simp add: walkDeltaChain_def)
  from walk_ok [OF w assms(3)] ne obtain a rids where ch: "ch = a # rids" "last (a # rids) = rid" "linked st (a # rids)"
    by (cases ch) auto
  have base: "case base of None \<Rightarrow> deltaOf st a = None | Some x \<Rightarrow> \<exists>n. rebuilds e st chk n a x"
    using walk_ok [OF w assms(3)] ch(1) by (cases base) auto
  from linked_rebuilds [OF ch(3)] ch(2) assms(1) obtain m content where m: "rebuilds e st chk m a content" by blast
  have "fst (startContent e st (Some put) chk a base c1) = Inr content"
  proof (cases base)
    case None
    then show ?thesis using base rebuilds_rootD [OF m] by (simp add: startContent_def)
  next
    case (Some x)
    then show ?thesis using base rebuilds_unique [OF m] by (auto simp: startContent_def)
  qed
  then obtain c2 where s: "startContent e st (Some put) chk a base c1 = (Inr content, c2)"
    by (cases "startContent e st (Some put) chk a base c1") auto
  have "fst (replayLoop e st (Some put) chk rids 1 content False (\<lambda>_. 0) c2) = Inr d"
    using ch(2) assms(1) by (intro replay_complete [OF ch(3) m]) simp
  then show ?thesis using w s ch by (auto simp: expandChain_def finishExpansion_def split: prod.splits sum.splits)
qed

end

section \<open>Plain expansion\<close>

text \<open>Without a cache the walk never stops early.\<close>

interpretation nocache: content_cache "\<lambda>r c. (None, c)" "\<lambda>r d c. c" "\<lambda>Q c. True"
  by unfold_locales simp_all

lemma walkLoop_None:
  "walkLoop st rid None cur chain (c :: 'c) = walkLoop st rid (Some (\<lambda>r c. (None, c))) cur chain c"
proof (induction "maxDeltaChainDepth - length chain" arbitrary: cur chain c rule: less_induct)
  case less
  show ?case
  proof (cases "maxDeltaChainDepth \<le> Suc (length chain)")
    case True
    then show ?thesis by (subst (1 2) walkLoop.simps) (simp add: Let_def split: option.split)
  next
    case False
    then have "walkLoop st rid None y (x # chain) z = walkLoop st rid (Some (\<lambda>r c. (None, c))) y (x # chain) z" for x y and z :: 'c
      by (intro less.hyps) simp
    then show ?thesis using False by (subst (1 2) walkLoop.simps) (simp add: Let_def split: option.split)
  qed
qed

lemma walkDeltaChain_None: "walkDeltaChain st rid None c = walkDeltaChain st rid (Some (\<lambda>r c. (None, c))) c"
  by (simp add: walkDeltaChain_def walkLoop_None)

lemma rebuilds_bound:
  assumes "rebuilds e st b n rid d" "envLaws e" "payloadsBounded e st"
  shows "length d < 2 ^ 62"
  using assms
proof (induction rule: rebuilds.induct)
  case (root rid d)
  then show ?case by (simp add: payloadsBounded_def)
next
  case (link rid src n s dl d)
  then have "length dl < 2 ^ 62" "length s < 2 ^ 62" by (simp_all add: payloadsBounded_def)
  with link.hyps(4) link.prems(1) Apply_size [of "eGrow e" s dl d] show ?case
    by (simp add: envLaws_def maxDeltaTargetSize_def)
qed

lemma ApplyInto_Apply:
  assumes "envLaws e" "length src < 2 ^ 62" "length dl < 2 ^ 62"
  shows "(\<exists>b. ApplyInto (eGrow e) cp src dl = Inr b \<and> bbytes b = d) \<longleftrightarrow> Apply (eGrow e) src dl = Inr d"
proof -
  have "bindE (ApplyInto (eGrow e) cp src dl) (\<lambda>b. Inr (bbytes b)) = Apply (eGrow e) src dl"
    using assms by (simp add: Apply_replay ApplyInto_replay envLaws_def)
  then show ?thesis by (cases "ApplyInto (eGrow e) cp src dl") auto
qed

lemma replayLoop_plain:
  assumes "envLaws e" "payloadsBounded e st" "linked st (a # rids)" "rebuilds e st False n a content"
  shows "fst (replayLoop e st None chk rids i content zr scr c) = Inr d \<longleftrightarrow>
    rebuilds e st False (n + length rids) (last (a # rids)) d"
  using assms(3,4)
proof (induction rids arbitrary: a n content i zr scr)
  case Nil
  then show ?case using rebuilds_unique [OF Nil(2), of False n d] by auto
next
  case (Cons x rids)
  have l: "deltaOf st x = Some a" "linked st (x # rids)" using Cons.prems(1) by simp_all
  note len = rebuilds_bound [OF Cons.prems(2) assms(1,2)]
  show ?case
  proof (cases "\<exists>dl y. Load e st x = Inr dl \<and> Apply (eGrow e) content dl = Inr y")
    case True
    then obtain dl y where dl: "Load e st x = Inr dl" "Apply (eGrow e) content dl = Inr y" by blast
    then have "length dl < 2 ^ 62" using assms(2) by (simp add: payloadsBounded_def)
    then obtain b where b: "ApplyInto (eGrow e) (scr (i mod 2)) content dl = Inr b" "bbytes b = y"
      using ApplyInto_Apply [OF assms(1) len] dl(2) by blast
    obtain zr1 where z: "inflaterLoad e zr st x = (Inr dl, zr1)"
      using inflaterLoad_ok [of e zr st x dl] dl(1) by (cases "inflaterLoad e zr st x") auto
    have "rebuilds e st False (Suc n) x y" using l(1) Cons.prems(2) dl by (auto simp: checkNode_def)
    from Cons.IH [OF l(2) this] show ?thesis using z b by simp
  next
    case False
    have "\<not> rebuilds e st False (Suc (n + length rids)) (last (x # rids)) d"
    proof
      assume "rebuilds e st False (Suc (n + length rids)) (last (x # rids)) d"
      from linked_rebuilds [OF l(2) this] obtain k y where "rebuilds e st False k x y" by blast
      from rebuilds_linkD [OF this l(1)] False rebuilds_unique [OF Cons.prems(2)] show False by blast
    qed
    moreover have "fst (replayLoop e st None chk (x # rids) i content zr scr c) \<noteq> Inr d"
    proof (cases "\<exists>dl. Load e st x = Inr dl")
      case True
      then obtain dl where dl: "Load e st x = Inr dl" by blast
      then have "length dl < 2 ^ 62" using assms(2) by (simp add: payloadsBounded_def)
      from ApplyInto_Apply [OF assms(1) len this] False dl
      have "\<exists>er. ApplyInto (eGrow e) (scr (i mod 2)) content dl = Inl er"
        by (cases "ApplyInto (eGrow e) (scr (i mod 2)) content dl") auto
      then show ?thesis using inflaterLoad_ok [of e zr st x dl] dl by (cases "inflaterLoad e zr st x") auto
    next
      case False
      then show ?thesis using inflaterLoad_ok [of e zr st x] by (cases "inflaterLoad e zr st x"; cases "fst (inflaterLoad e zr st x)") auto
    qed
    ultimately show ?thesis by simp
  qed
qed

lemma expandChain_plain:
  assumes "envLaws e" "payloadsBounded e st" "0 < rid"
  shows "fst (expandChain e st rid None None chk ()) = Inr d \<longleftrightarrow>
    (\<exists>n \<le> maxDeltaChainDepth. rebuilds e st False n rid d) \<and> checkNode e st chk rid d = Inr ()" (is "?L \<longleftrightarrow> ?R")
proof (cases "\<exists>ch base u. walkDeltaChain st rid None () = (Inr (ch, base), u)")
  case True
  then obtain ch base u where w: "walkDeltaChain st rid (Some (\<lambda>r c. (None, c))) () = (Inr (ch, base), u)"
    by (auto simp: walkDeltaChain_None)
  from nocache.walk_ok [OF w, of "\<lambda>_ _. False"] obtain a rids where
    ch: "ch = a # rids" "last (a # rids) = rid" "linked st (a # rids)" "base = None" "deltaOf st a = None"
    by (cases ch; cases base) auto
  have len: "length ch \<le> maxDeltaChainDepth" using nocache.walk_length [OF w] .
  show ?thesis
  proof (cases "Load e st a")
    case (Inl err)
    then have "\<not> rebuilds e st False n rid d" for n using linked_rebuilds [OF ch(3)] ch(2) rebuilds_load by fastforce
    then show ?thesis using Inl w ch by (auto simp: expandChain_def walkDeltaChain_None startContent_def)
  next
    case (Inr content)
    then have r: "rebuilds e st False (Suc 0) a content" using ch(5) by (auto simp: checkNode_def)
    obtain rr u2 where rr: "replayLoop e st None chk rids 1 content False (\<lambda>_. 0) () = (rr, u2)"
      by (cases "replayLoop e st None chk rids 1 content False (\<lambda>_. 0) ()")
    have iff: "rr = Inr x \<longleftrightarrow> rebuilds e st False (Suc (length rids)) rid x" for x
      using replayLoop_plain [OF assms(1,2) ch(3) r, of chk 1 False "\<lambda>_. 0" "()" x] ch(2) rr by simp
    have "n = Suc (length rids)" if "rebuilds e st False n rid x" for n x
      using linked_rebuilds [OF ch(3), of e False n x] ch(2) rebuilds_rootD [OF _ ch(5)] that by auto
    then have R: "?R \<longleftrightarrow> rr = Inr d \<and> checkNode e st chk rid d = Inr ()" using iff len ch(1) by auto
    have "fst (expandChain e st rid None None chk ()) = (case rr of Inl err \<Rightarrow> Inl err | Inr out \<Rightarrow> finishExpansion e st rid out False chk)"
      using Inr w ch rr by (simp add: expandChain_def walkDeltaChain_None startContent_def split: sum.split)
    then show ?thesis unfolding R by (cases rr) (auto simp: finishExpansion_def checkNode_def bindE_eq_Inr_iff)
  qed
next
  case False
  have "\<not> ?R"
  proof
    assume ?R
    then obtain n where "n \<le> maxDeltaChainDepth" "rebuilds e st False n rid d" by blast
    then obtain ch base u where wl: "walkLoop st rid (Some (\<lambda>r c. (None, c))) rid [] () = (Inr (ch, base), u)"
      using nocache.walkLoop_complete [of e st False n rid d "[]" rid "()"] by auto
    then have "ch \<noteq> []" using nocache.walkLoop_ok [OF wl, of "\<lambda>_ _. False"] by auto
    then show False using wl False assms(3) by (simp add: walkDeltaChain_def walkLoop_None)
  qed
  moreover have "\<exists>err. fst (walkDeltaChain st rid None ()) = Inl err"
    using False by (cases "walkDeltaChain st rid None ()"; cases "fst (walkDeltaChain st rid None ())") auto
  ultimately show ?thesis by (auto simp: expandChain_def split: prod.splits)
qed

lemma Expand_rebuilds:
  assumes "envLaws e" "payloadsBounded e st"
  shows "Expand e st rid = Inr d \<longleftrightarrow>
    (\<exists>n \<le> maxDeltaChainDepth. rebuilds e st False n rid d) \<and> bindToName e st rid d = Inr ()"
proof (cases "0 < rid")
  case True
  then show ?thesis using expandChain_plain [OF assms True, of True d] by (simp add: Expand_def)
next
  case False
  then have "\<not> rebuilds e st False n rid d" for n using rebuilds_load Load_pos by blast
  then show ?thesis using False by (simp add: Expand_def)
qed

end
