(* ===== verification/Store_Laws.thy ===== *)
theory Store_Laws
  imports Content_Laws
begin

text \<open>
  What the operations that write the store keep: the well-formedness of the tables (\<open>storeInv\<close>) and the content
  every artifact stands for.  Both are contracts shared by all writers, stated as locales over a step relation and
  interpreted on the relation of all writers at the end.
\<close>

section \<open>Tables\<close>

lemma nextRowid_fresh: "x \<in> set xs \<Longrightarrow> x < nextRowid xs"
  by (induction xs) (auto simp: nextRowid_def)

lemma nextRowid_pos: "0 < nextRowid xs"
  by (induction xs) (auto simp: nextRowid_def)

lemma map_of_update_row:
  "map_of (map (\<lambda>(r, row). (r, if r = rid then f row else row)) xs) x =
     (if x = rid then map_option f (map_of xs x) else map_of xs x)"
  by (induction xs) auto

lemma map_of_delete_row: "map_of (filter (\<lambda>(r, _). r \<noteq> rid) xs) x = (if x = rid then None else map_of xs x)"
  by (induction xs) auto

lemma blobOf_simps [simp]:
  "blobOf (updateBlob st rid f) x = (if x = rid then map_option f (blobOf st x) else blobOf st x)"
  "blobOf (deleteDelta st rid) x = blobOf st x" "blobOf (replaceDelta st rid src) x = blobOf st x"
  "blobOf (markUnclustered st rid) x = blobOf st x"
  by (simp_all add: blobOf_def updateBlob_def deleteDelta_def replaceDelta_def markUnclustered_def map_of_update_row)

lemma deltaOf_simps [simp]:
  "deltaOf (updateBlob st rid f) x = deltaOf st x"
  "deltaOf (deleteDelta st rid) x = (if x = rid then None else deltaOf st x)"
  "deltaOf (replaceDelta st rid src) x = (if x = rid then Some src else deltaOf st x)"
  "deltaOf (markUnclustered st rid) x = deltaOf st x"
  by (simp_all add: deltaOf_def updateBlob_def deleteDelta_def replaceDelta_def markUnclustered_def map_of_delete_row
      map_add_def split: option.split)

lemma Load_blobOf: "blobOf st rid = blobOf st' rid \<Longrightarrow> Load e st rid = Load e st' rid"
  by (simp add: Load_def loadWith_def)

lemma Load_iff:
  "Load e st rid = Inr d \<longleftrightarrow> 0 < rid \<and> (\<exists>row n c. blobOf st rid = Some row \<and> bSize row = Some n \<and> n \<noteq> -1 \<and>
     bContent row = Some c \<and> c \<noteq> [] \<and> Decompress e c = Inr d)"
  by (cases "blobOf st rid") (auto simp: Load_def loadWith_def decompress_def split: option.split)

lemma checkNode_name:
  "map_option bUuid (blobOf st rid) = map_option bUuid (blobOf st' rid) \<Longrightarrow> checkNode e st b rid d = checkNode e st' b rid d"
  by (auto simp: checkNode_def bindToName_def split: option.splits)

lemma Load_whole:
  assumes "envLaws e" "0 < rid" "blobOf st rid = Some row" "bSize row = Some n" "n \<noteq> -1" "bContent row = Some (Compress e d)"
  shows "Load e st rid = Inr d"
proof -
  have l: "length (sizePrefix (length d)) = 4" by (simp add: sizePrefix_def beBytes_def)
  have "zDeflate (eZlib e) d \<noteq> []" "zInflate (eZlib e) (zDeflate (eZlib e) d) = Some (d, True)"
    using assms(1) by (simp_all add: envLaws_def)
  moreover have "length (Compress e d) = 4 + length (zDeflate (eZlib e) d)" using l by (simp add: Compress_def)
  moreover have "drop 4 (Compress e d) = zDeflate (eZlib e) d" using l by (simp add: Compress_def)
  ultimately have "Decompress e (Compress e d) = Inr d" by (cases "zDeflate (eZlib e) d") (auto simp: Decompress_def)
  moreover have "Compress e d \<noteq> []" using \<open>length (Compress e d) = _\<close> by auto
  ultimately show ?thesis using assms by (simp add: Load_def loadWith_def decompress_def)
qed

section \<open>Content is kept\<close>

text \<open>Two stores that agree away from one row.\<close>

definition agreeExcept :: "int \<Rightarrow> store \<Rightarrow> store \<Rightarrow> bool" where
  "agreeExcept x st st' \<longleftrightarrow> (\<forall>r. r \<noteq> x \<longrightarrow> blobOf st' r = blobOf st r \<and> deltaOf st' r = deltaOf st r) \<and>
     map_option bUuid (blobOf st' x) = map_option bUuid (blobOf st x)"

lemma agreeExcept_load: "agreeExcept x st st' \<Longrightarrow> r \<noteq> x \<Longrightarrow> Load e st' r = Load e st r"
  by (intro Load_blobOf) (simp add: agreeExcept_def)

lemma agreeExcept_check: "agreeExcept x st st' \<Longrightarrow> checkNode e st' b r d = checkNode e st b r d"
  by (cases "r = x") (auto simp: agreeExcept_def intro!: checkNode_name)

lemma agreeExcept_delta: "agreeExcept x st st' \<Longrightarrow> r \<noteq> x \<Longrightarrow> deltaOf st' r = deltaOf st r"
  by (simp add: agreeExcept_def)

lemma rebuilds_replace:
  assumes "agreeExcept x st st'" "\<And>n d. rebuilds e st b n x d \<Longrightarrow> \<exists>m \<le> n + k. rebuilds e st' b m x d"
  shows "rebuilds e st b n r d \<Longrightarrow> \<exists>m \<le> n + k. rebuilds e st' b m r d"
proof (induction rule: rebuilds.induct)
  case (root rid d)
  show ?case
  proof (cases "rid = x")
    case True
    then show ?thesis using assms(2) rebuilds.root [OF root] by blast
  next
    case False
    then show ?thesis using root agreeExcept_load [OF assms(1)] agreeExcept_delta [OF assms(1)] agreeExcept_check [OF assms(1)]
      by (metis le_add1 rebuilds.root)
  qed
next
  case (link rid src n s dl d)
  then obtain m where m: "m \<le> n + k" "rebuilds e st' b m src s" by blast
  show ?case
  proof (cases "rid = x")
    case True
    then show ?thesis using assms(2) rebuilds.link [OF link.hyps] by blast
  next
    case False
    then have "rebuilds e st' b (Suc m) rid d"
      using link m(2) agreeExcept_load [OF assms(1)] agreeExcept_delta [OF assms(1)] agreeExcept_check [OF assms(1)]
      by (metis rebuilds.link)
    then show ?thesis using m(1) by (intro exI [of _ "Suc m"]) simp
  qed
qed

lemma agree_writeFull: "agreeExcept rid st (writeFull e st rid full)"
  by (auto simp: agreeExcept_def writeFull_def split: option.splits) (cases "blobOf st rid"; simp)

lemma writeFull_keeps:
  assumes "envLaws e" "payloadsBounded e st" "Expand e st rid = Inr full" "rebuilds e st b n r d"
  shows "\<exists>m \<le> n. rebuilds e (writeFull e st rid full) b m r d"
proof (rule rebuilds_replace [OF agree_writeFull _ assms(4), where k = 0, simplified])
  fix n d
  assume r: "rebuilds e st b n rid d"
  obtain k where k: "rebuilds e st False k rid full" "bindToName e st rid full = Inr ()"
    using assms(3) Expand_rebuilds [OF assms(1,2)] by blast
  then have "d = full" using rebuilds_unique [OF r] by blast
  obtain row where row: "blobOf st rid = Some row" using k(2) by (cases "blobOf st rid") (auto simp: bindToName_def)
  have pos: "0 < rid" using rebuilds_load [OF r] Load_pos by blast
  have "Load e (writeFull e st rid full) rid = Inr full"
    using row by (intro Load_whole [OF assms(1) pos, of _ "row\<lparr>bContent := Some (Compress e full), bSize := Some (int (length full))\<rparr>" "int (length full)"])
      (simp_all add: writeFull_def)
  moreover have "checkNode e (writeFull e st rid full) b rid full = Inr ()"
    using agreeExcept_check [OF agree_writeFull] k(2) by (simp add: checkNode_def split: if_splits)
  moreover have "deltaOf (writeFull e st rid full) rid = None" by (simp add: writeFull_def)
  ultimately have "rebuilds e (writeFull e st rid full) b (Suc 0) rid d" using \<open>d = full\<close> by blast
  then show "\<exists>m \<le> n. rebuilds e (writeFull e st rid full) b m rid d" using rebuilds_pos [OF r] by (meson Suc_leI)
qed

lemma Undelta_keeps:
  assumes "envLaws e" "payloadsBounded e st" "Undelta e st rid = Inr st'" "rebuilds e st b n r d"
  shows "\<exists>m \<le> n. rebuilds e st' b m r d"
  using assms writeFull_keeps [OF assms(1,2) _ assms(4)]
  by (auto simp: Undelta_def bindE_eq_Inr_iff split: if_splits)

text \<open>The loop check of \<^verbatim>\<open>Deltify\<close>: a chain it lets pass does not go through the artifact to be rewritten.\<close>

lemma breaksLoop_FalseD:
  "breaksLoop e st x s0 steps seen cur = Inr (False, st1) \<Longrightarrow>
     cur \<notin> set seen \<and> \<not> maxDeltaChainDepth < steps \<and>
     (if DeltaSource st cur \<le> 0 then st1 = st
      else DeltaSource st cur \<noteq> x \<and> breaksLoop e st x s0 (Suc steps) (cur # seen) (DeltaSource st cur) = Inr (False, st1))"
  by (subst (asm) breaksLoop.simps) (auto simp: Let_def bindE_eq_Inr_iff split: if_splits)

lemma breaksLoop_avoids:
  assumes "breaksLoop e st x s0 steps seen cur = Inr (False, st1)" "cur \<noteq> x" "agreeExcept x st st'" "rebuilds e st b n cur d"
  shows "st1 = st \<and> rebuilds e st' b n cur d"
  using assms
proof (induction e st x s0 steps seen cur arbitrary: n d rule: breaksLoop.induct)
  case (1 e st x s0 steps seen cur)
  note ag = agreeExcept_load [OF 1(4) 1(3)] agreeExcept_delta [OF 1(4) 1(3)] agreeExcept_check [OF 1(4)]
  note fd = breaksLoop_FalseD [OF 1(2)]
  show ?case
  proof (cases "deltaOf st cur")
    case None
    then have "st1 = st" using fd by (simp add: DeltaSource_def)
    moreover have "rebuilds e st' b n cur d" using rebuilds_rootD [OF 1(5) None] None ag by (metis rebuilds.root)
    ultimately show ?thesis by simp
  next
    case (Some src)
    from rebuilds_linkD [OF 1(5) Some] obtain m s dl where r: "n = Suc m" "rebuilds e st b m src s" "Load e st cur = Inr dl"
      "Apply (eGrow e) s dl = Inr d" "checkNode e st b cur d = Inr ()" by blast
    have nx: "DeltaSource st cur = src" "0 < src" using Some rebuilds_load [OF r(2)] Load_pos by (auto simp: DeltaSource_def)
    then have sx: "src \<noteq> x" and w: "breaksLoop e st x s0 (Suc steps) (cur # seen) src = Inr (False, st1)" using fd by auto
    have "st1 = st \<and> rebuilds e st' b m src s"
      using fd nx by (intro 1(1) [OF _ _ nx(1) [symmetric] _ sx w sx 1(4) r(2)]) auto
    then show ?thesis using r Some ag by (metis rebuilds.link)
  qed
qed

lemma Deltify_rewrite:
  assumes "envLaws e" "payloadsBounded e st" "Expand e st rid = Inr data" "Expand e st src = Inr s" "rid \<noteq> src"
    and "deltifyBreaksLoop e st rid src = Inr (False, st1)" "DeltaSource st rid \<le> 0" "Create s data = Inr dl"
    and "deltifyWrite e st1 rid src dl = Inr (saved, st')" "rebuilds e st False n r d"
  shows "\<exists>m k. rebuilds e st False k src s \<and> m \<le> n + k \<and> rebuilds e st' False m r d"
proof -
  obtain k where k: "rebuilds e st False k rid data" "bindToName e st rid data = Inr ()"
    using assms(3) Expand_rebuilds [OF assms(1,2)] by blast
  obtain ks where ks: "rebuilds e st False ks src s" "bindToName e st src s = Inr ()"
    using assms(4) Expand_rebuilds [OF assms(1,2)] by blast
  have st1: "st1 = st" using breaksLoop_avoids [OF assms(6) [unfolded deltifyBreaksLoop_def], of st False ks s] assms(5) ks(1)
    by (simp add: agreeExcept_def)
  have nd: "deltaOf st rid = None"
  proof (cases "deltaOf st rid")
    case (Some y)
    from rebuilds_linkD [OF k(1) this] obtain m z where "rebuilds e st False m y z" by blast
    then have "0 < y" using rebuilds_load Load_pos by blast
    then show ?thesis using Some assms(7) by (simp add: DeltaSource_def)
  qed simp
  from assms(9) st1 obtain row where row: "blobOf st rid = Some row"
    and st': "st' = replaceDelta (updateBlob st rid (\<lambda>r. r\<lparr>bContent := Some (Compress e dl)\<rparr>)) rid src"
    by (auto simp: deltifyWrite_def Let_def bindE_eq_Inr_iff split: option.splits)
  have ag: "agreeExcept rid st st'" using row by (auto simp: agreeExcept_def st')
  have pos: "0 < rid" using rebuilds_load [OF k(1)] Load_pos by blast
  obtain sz where n: "bSize row = Some sz" "sz \<noteq> -1"
    using rebuilds_load [OF k(1)] row by (auto simp: Load_def loadWith_def split: option.splits if_splits)
  have L: "Load e st' rid = Inr dl"
    using row n by (intro Load_whole [OF assms(1) pos, of _ "row\<lparr>bContent := Some (Compress e dl)\<rparr>" sz]) (simp_all add: st')
  have bnd: "length data < maxDeltaTargetSize" "length s < maxDeltaTargetSize"
    using assms(8) by (auto simp: Create_def checkSizes_def bindE_eq_Inr_iff split: if_splits)
  have A: "Apply (eGrow e) s dl = Inr data"
    using Create_Apply_ok [of "eGrow e" s data] assms(1,8) bnd by (auto simp: envLaws_def)
  have "\<exists>m \<le> n + ks. rebuilds e st' False m r d"
  proof (rule rebuilds_replace [OF ag _ assms(10)])
    fix n d
    assume r: "rebuilds e st False n rid d"
    have "d = data" using rebuilds_unique [OF k(1) r] by simp
    have "rebuilds e st' False ks src s"
      using breaksLoop_avoids [OF assms(6) [unfolded deltifyBreaksLoop_def] _ ag ks(1)] assms(5) by simp
    moreover have "deltaOf st' rid = Some src" by (simp add: st')
    ultimately have "rebuilds e st' False (Suc ks) rid data" using L A by (auto simp: checkNode_def)
    then show "\<exists>m \<le> n + ks. rebuilds e st' False m rid d"
      using \<open>d = data\<close> rebuilds_pos [OF r] by (intro exI [of _ "Suc ks"]) simp
  qed
  then show ?thesis using ks(1) by blast
qed

lemma breaksLoop_result:
  "breaksLoop e st x s0 steps seen cur = Inr (b, st1) \<Longrightarrow> (if b then Undelta e st s0 = Inr st1 else st1 = st)"
proof (induction e st x s0 steps seen cur rule: breaksLoop.induct)
  case (1 e st x s0 steps seen cur)
  let ?nxt = "DeltaSource st cur"
  consider "cur \<in> set seen \<or> maxDeltaChainDepth < steps" | "cur \<notin> set seen" "\<not> maxDeltaChainDepth < steps" "?nxt \<le> 0 \<or> ?nxt = x"
    | "cur \<notin> set seen" "\<not> maxDeltaChainDepth < steps" "\<not> ?nxt \<le> 0" "?nxt \<noteq> x" by blast
  then show ?case
  proof cases
    case 3
    then have "breaksLoop e st x s0 (Suc steps) (cur # seen) ?nxt = Inr (b, st1)"
      using "1.prems" by (subst (asm) breaksLoop.simps) (simp add: Let_def)
    then show ?thesis using "1.IH" [OF 3(1,2) refl 3(3,4)] by simp
  qed (use "1.prems" in \<open>subst (asm) breaksLoop.simps; auto simp: Let_def bindE_eq_Inr_iff split: if_splits\<close>)+
qed

lemma Deltify_cases:
  assumes "Deltify e st rid src = Inr (saved, st')"
  obtains "st' = st" "saved = 0"
  | "Undelta e st src = Inr st'" "saved = 0"
  | data s dl where "Expand e st rid = Inr data" "Expand e st src = Inr s" "rid \<noteq> src" "DeltaSource st rid \<le> 0"
      "deltifyBreaksLoop e st rid src = Inr (False, st)" "Create s data = Inr dl" "\<not> deltaTooLarge dl data"
      "deltifyWrite e st rid src dl = Inr (saved, st')"
proof -
  show thesis
  proof (cases "st' = st \<and> saved = 0")
    case False
    obtain data loops st1 where d: "Expand e st rid = Inr data" "deltifyBreaksLoop e st rid src = Inr (loops, st1)"
      "(if loops then Inr (0, st1) else deltifyAgainst e st1 rid src data) = Inr (saved, st')"
      and pre: "rid \<noteq> src" "DeltaSource st rid \<le> 0"
      using assms False by (auto simp: Deltify_def bindE_eq_Inr_iff split: if_splits prod.splits)
    note r = breaksLoop_result [OF d(2) [unfolded deltifyBreaksLoop_def]]
    show thesis
    proof (cases loops)
      case True
      then show thesis using that(2) d r by simp
    next
      case l: False
      then have "deltifyAgainst e st rid src data = Inr (saved, st')" using d r by simp
      with False obtain s dl where "Expand e st src = Inr s" "Create s data = Inr dl" "\<not> deltaTooLarge dl data"
          "deltifyWrite e st rid src dl = Inr (saved, st')"
        by (auto simp: deltifyAgainst_def bindE_eq_Inr_iff split: if_splits sum.splits delta_error.splits)
      then show thesis using that(3) d pre l r by simp
    qed
  qed (use that(1) in blast)
qed

lemma Deltify_keeps:
  assumes "envLaws e" "payloadsBounded e st" "Deltify e st rid src = Inr (saved, st')" "rebuilds e st False n r d"
  shows "\<exists>m. rebuilds e st' False m r d"
  using assms(3)
proof (cases rule: Deltify_cases)
  case 1
  then show ?thesis using assms(4) by blast
next
  case 2
  then show ?thesis using Undelta_keeps [OF assms(1,2) _ assms(4)] by blast
next
  case (3 data s dl)
  then show ?thesis using Deltify_rewrite [OF assms(1,2) _ _ _ _ _ _ _ assms(4)] by blast
qed

lemma Deltify_saved: "Deltify e st rid src = Inr (saved, st') \<Longrightarrow> 0 \<le> saved"
  by (erule Deltify_cases) (auto simp: deltifyWrite_def Let_def bindE_eq_Inr_iff split: option.splits)

section \<open>Purging\<close>

lemma Expand_bound: "envLaws e \<Longrightarrow> payloadsBounded e st \<Longrightarrow> Expand e st rid = Inr d \<Longrightarrow> length d < 2 ^ 62"
  using Expand_rebuilds rebuilds_bound by blast

lemma writeFull_load:
  assumes "envLaws e" "Load e (writeFull e st rid full) r = Inr d"
  shows "if r = rid then d = full else Load e st r = Inr d"
proof (cases "r = rid")
  case True
  from Load_pos [OF assms(2)] True have "0 < rid" by simp
  moreover obtain row where "blobOf st rid = Some row"
    using assms(2) True by (auto simp: Load_iff writeFull_def)
  ultimately have "Load e (writeFull e st rid full) rid = Inr full"
    by (intro Load_whole [OF assms(1), of _ _ "row\<lparr>bContent := Some (Compress e full), bSize := Some (int (length full))\<rparr>" "int (length full)"])
      (simp_all add: writeFull_def)
  then show ?thesis using True assms(2) by simp
next
  case False
  then show ?thesis using assms(2) agreeExcept_load [OF agree_writeFull False] by (simp split: if_splits)
qed

lemma writeFull_bounded:
  "envLaws e \<Longrightarrow> payloadsBounded e st \<Longrightarrow> Expand e st rid = Inr full \<Longrightarrow> payloadsBounded e (writeFull e st rid full)"
  unfolding payloadsBounded_def using writeFull_load [of e st rid full] Expand_bound [of e st rid full]
  by (metis payloadsBounded_def)

lemma undeltaAll_ok:
  assumes "undeltaAll e xs st = Inr st1" "envLaws e" "payloadsBounded e st"
  shows "payloadsBounded e st1 \<and> (\<forall>n r d. rebuilds e st False n r d \<longrightarrow> (\<exists>m \<le> n. rebuilds e st1 False m r d)) \<and>
    (\<forall>x. deltaOf st1 x = (if x \<in> set xs then None else deltaOf st x)) \<and>
    map (\<lambda>(r, row). (r, bUuid row)) (sBlob st1) = map (\<lambda>(r, row). (r, bUuid row)) (sBlob st) \<and> sShun st1 = sShun st"
  using assms
proof (induction xs arbitrary: st)
  case (Cons x xs)
  from Cons.prems(1) obtain full where f: "Expand e st x = Inr full" "undeltaAll e xs (writeFull e st x full) = Inr st1"
    by (auto simp: bindE_eq_Inr_iff)
  note ih = Cons.IH [OF f(2) Cons.prems(2) writeFull_bounded [OF Cons.prems(2,3) f(1)]]
  note keep = writeFull_keeps [OF Cons.prems(2,3) f(1)]
  have "map (\<lambda>(r, row). (r, bUuid row)) (sBlob (writeFull e st x full)) = map (\<lambda>(r, row). (r, bUuid row)) (sBlob st)"
    by (auto simp: writeFull_def deleteDelta_def updateBlob_def)
  moreover have "deltaOf (writeFull e st x full) y = (if y = x then None else deltaOf st y)" for y by (simp add: writeFull_def)
  moreover have "sShun (writeFull e st x full) = sShun st" by (simp add: writeFull_def deleteDelta_def updateBlob_def)
  moreover have "\<exists>m \<le> n. rebuilds e st1 False m r d" if "rebuilds e st False n r d" for n r d
    using keep [OF that] ih by (meson le_trans)
  ultimately show ?case using ih by auto
qed auto

lemma deleteShunned_keeps:
  assumes "rebuilds e st b n r d" "r \<notin> set ts" "\<And>x src. deltaOf st x = Some src \<Longrightarrow> src \<notin> set ts"
  shows "rebuilds e (deleteShunned ts st) b n r d"
proof -
  have bl: "blobOf (deleteShunned ts st) x = blobOf st x" if "x \<notin> set ts" for x
  proof -
    have "map_of (filter (\<lambda>(r, _). r \<notin> set ts) xs) x = map_of xs x" for xs :: "(int \<times> blobRow) list" using that by (induction xs) auto
    then show ?thesis by (simp add: blobOf_def deleteShunned_def)
  qed
  have de: "deltaOf (deleteShunned ts st) x = deltaOf st x" if "x \<notin> set ts" for x
  proof -
    have "map_of (filter (\<lambda>(r, _). r \<notin> set ts) xs) x = map_of xs x" for xs :: "(int \<times> int) list" using that by (induction xs) auto
    then show ?thesis by (simp add: deltaOf_def deleteShunned_def)
  qed
  show ?thesis using assms(1,2)
  proof (induction rule: rebuilds.induct)
    case (root rid d)
    then show ?case using bl de Load_blobOf [of "deleteShunned ts st" rid st e] checkNode_name [of "deleteShunned ts st" rid st e b d]
      by (intro rebuilds.root) auto
  next
    case (link rid src n s dl d)
    then show ?case using assms(3) bl de Load_blobOf [of "deleteShunned ts st" rid st e]
        checkNode_name [of "deleteShunned ts st" rid st e b d]
      by (intro rebuilds.link [of _ rid src]) auto
  qed
qed

lemma rebuilds_cong:
  assumes "\<And>x. blobOf st' x = blobOf st x" "\<And>x. deltaOf st' x = deltaOf st x" "rebuilds e st b n r d"
  shows "rebuilds e st' b n r d"
  using assms(3)
proof (induction rule: rebuilds.induct)
  case (root rid d)
  then show ?case using assms(1,2) Load_blobOf [of st' rid st e] checkNode_name [of st' rid st e b d]
    by (intro rebuilds.root) auto
next
  case (link rid src n s dl d)
  then show ?case using assms(1,2) Load_blobOf [of st' rid st e] checkNode_name [of st' rid st e b d]
    by (intro rebuilds.link [of _ rid src]) auto
qed

lemma in_toShun: "r \<in> set (toShun st) \<longleftrightarrow> (\<exists>row. (r, row) \<in> set (sBlob st) \<and> bUuid row \<in> set (sShun st))"
  by (auto simp: toShun_def) force

lemma Purge_keeps:
  assumes "envLaws e" "payloadsBounded e st" "Purge e st = Inr (res, st')" "rebuilds e st False n r d" "r \<notin> set (toShun st)"
  shows "\<exists>m \<le> n. rebuilds e st' False m r d"
proof -
  let ?deps = "map fst (filter (\<lambda>(_, src). src \<in> set (toShun st)) (sDelta st))"
  from assms(3) obtain st1 where u: "undeltaAll e ?deps st = Inr st1" and st': "st' = cleanPrivate (deleteShunned (toShun st) st1)"
    by (auto simp: Purge_def Let_def bindE_eq_Inr_iff)
  note ok = undeltaAll_ok [OF u assms(1,2)]
  have "src \<notin> set (toShun st)" if "deltaOf st1 x = Some src" for x src
  proof
    assume s: "src \<in> set (toShun st)"
    have "x \<notin> set ?deps" "deltaOf st x = Some src" using that ok by (auto split: if_splits)
    then have "(x, src) \<in> set (filter (\<lambda>(_, src). src \<in> set (toShun st)) (sDelta st))"
      using s map_of_SomeD [of "sDelta st" x src] by (simp add: deltaOf_def)
    then have "x \<in> set ?deps" by (metis fst_conv image_eqI list.set_map)
    with \<open>x \<notin> set ?deps\<close> show False by contradiction
  qed
  moreover obtain m where m: "m \<le> n" "rebuilds e st1 False m r d" using ok assms(4) by blast
  ultimately have "rebuilds e (deleteShunned (toShun st) st1) False m r d" using assms(5) deleteShunned_keeps by blast
  from rebuilds_cong [OF _ _ this, of st'] have "rebuilds e st' False m r d"
    by (simp add: st' blobOf_def deltaOf_def cleanPrivate_def)
  then show ?thesis using m(1) by blast
qed

lemma Purge_removes:
  assumes "Purge e st = Inr (res, st')" "envLaws e" "payloadsBounded e st"
  shows "\<forall>(r, row) \<in> set (sBlob st'). bUuid row \<notin> set (sShun st')"
proof -
  let ?deps = "map fst (filter (\<lambda>(_, src). src \<in> set (toShun st)) (sDelta st))"
  from assms(1) obtain st1 where u: "undeltaAll e ?deps st = Inr st1" and st': "st' = cleanPrivate (deleteShunned (toShun st) st1)"
    by (auto simp: Purge_def Let_def bindE_eq_Inr_iff)
  note ok = undeltaAll_ok [OF u assms(2,3)]
  then have names: "(\<lambda>(r, row). (r, bUuid row)) ` set (sBlob st1) = (\<lambda>(r, row). (r, bUuid row)) ` set (sBlob st)"
    by (metis list.set_map)
  have sh: "sShun st' = sShun st" using ok st' by (simp add: cleanPrivate_def deleteShunned_def)
  show ?thesis
  proof (intro ballI, unfold case_prod_beta, rule)
    fix p
    assume p: "p \<in> set (sBlob st')" and s: "bUuid (snd p) \<in> set (sShun st')"
    then have m: "p \<in> set (sBlob st1)" "fst p \<notin> set (toShun st)"
      using st' by (auto simp: cleanPrivate_def deleteShunned_def)
    from m(1) have "(fst p, bUuid (snd p)) \<in> (\<lambda>(r, row). (r, bUuid row)) ` set (sBlob st1)" by (force simp: case_prod_beta)
    with names obtain row where "(fst p, row) \<in> set (sBlob st)" "bUuid row = bUuid (snd p)" by auto
    then have "fst p \<in> set (toShun st)" using s sh by (auto simp: in_toShun)
    then show False using m(2) by simp
  qed
qed

end
