(* ===== verification/Store_Reach.thy ===== *)
theory Store_Reach
  imports Store_Laws
begin

text \<open>
  The states a store can reach: the invariant of the tables, the effect of each writer on them, and the relation of
  all writers as an instance of the contract \<open>content_step\<close>.
\<close>

section \<open>The invariant of the tables\<close>

definition rowOk :: "int list \<Rightarrow> int \<Rightarrow> blobRow \<Rightarrow> bool" where
  "rowOk ph r row \<longleftrightarrow> 0 < r \<and> 40 \<le> length (bUuid row) \<and>
     (if r \<in> set ph then bSize row = Some (-1) \<and> bContent row = None
      else \<exists>n c. bSize row = Some n \<and> 0 \<le> n \<and> bContent row = Some c \<and> c \<noteq> [])"

definition storeInv :: "store \<Rightarrow> bool" where
  "storeInv st \<longleftrightarrow> distinct (map fst (sBlob st)) \<and> distinct (map (\<lambda>(_, row). bUuid row) (sBlob st)) \<and>
     distinct (map fst (sDelta st)) \<and> (\<forall>(r, row) \<in> set (sBlob st). rowOk (sPhantom st) r row) \<and>
     set (sPhantom st) \<subseteq> fst ` set (sBlob st) \<and>
     (\<forall>(r, s) \<in> set (sDelta st). 0 < s \<and> r \<notin> set (sPhantom st) \<and> r \<in> fst ` set (sBlob st))"

lemma storeInv_cong:
  "sBlob st' = sBlob st \<Longrightarrow> sDelta st' = sDelta st \<Longrightarrow> sPhantom st' = sPhantom st \<Longrightarrow> storeInv st' = storeInv st"
  by (simp add: storeInv_def)

lemma blobOf_set: "storeInv st \<Longrightarrow> blobOf st r = Some row \<longleftrightarrow> (r, row) \<in> set (sBlob st)"
  by (simp add: blobOf_def storeInv_def)

lemma ridByUuid_Some:
  "ridByUuid st u = Some r \<Longrightarrow> \<exists>row. (r, row) \<in> set (sBlob st) \<and> bUuid row = u"
  by (auto simp: ridByUuid_def find_Some_iff) (metis nth_mem)

lemma ridByUuid_None: "ridByUuid st u = None \<Longrightarrow> (r, row) \<in> set (sBlob st) \<Longrightarrow> bUuid row \<noteq> u"
  by (auto simp: ridByUuid_def find_None_iff)

lemma phantom_row: "storeInv st \<Longrightarrow> (r, row) \<in> set (sBlob st) \<Longrightarrow> isPhantom st r \<longleftrightarrow> r \<in> set (sPhantom st)"
  using blobOf_set [of st r row] by (fastforce simp: isPhantom_def storeInv_def rowOk_def split: if_splits)

text \<open>A name that \<^verbatim>\<open>writeRow\<close> may be called with: no row has it, or a phantom has.\<close>

definition awaited :: "store \<Rightarrow> bytes \<Rightarrow> bool" where
  "awaited st uuid \<longleftrightarrow> (case ridByUuid st uuid of None \<Rightarrow> True | Some r \<Rightarrow> isPhantom st r)"

lemma deltaOf_real: "storeInv st \<Longrightarrow> r \<in> set (sPhantom st) \<or> r \<notin> fst ` set (sBlob st) \<Longrightarrow> deltaOf st r = None"
  by (cases "deltaOf st r") (auto simp: deltaOf_def storeInv_def dest!: map_of_SomeD)

lemma map_fst_update [simp]: "map fst (map (\<lambda>(r, row). (r, if r = rid then f row else row)) xs) = map fst xs"
  by (induction xs) auto

lemma map_uuid_update:
  "(\<And>row. bUuid (f row) = bUuid row) \<Longrightarrow>
     map (\<lambda>(_, row). bUuid row) (map (\<lambda>(r, row). (r, if r = rid then f row else row)) xs) = map (\<lambda>(_, row). bUuid row) xs"
  by (induction xs) auto

lemma fst_set_update [simp]: "fst ` set (map (\<lambda>(r, row). (r, if r = rid then f row else row)) xs) = fst ` set xs"
  using map_fst_update [of rid f xs] by (metis list.set_map)

text \<open>Filling or rewriting a row.\<close>

lemma updateBlob_inv:
  assumes "storeInv st" "rid \<in> fst ` set (sBlob st)" "\<And>row. bUuid (f row) = bUuid row"
    and "\<And>row. (rid, row) \<in> set (sBlob st) \<Longrightarrow> \<exists>n c. bSize (f row) = Some n \<and> 0 \<le> n \<and> bContent (f row) = Some c \<and> c \<noteq> []"
  shows "storeInv (updateBlob st rid f\<lparr>sPhantom := removeAll rid (sPhantom st)\<rparr>)"
proof -
  define xs where "xs = map (\<lambda>(r, row). (r, if r = rid then f row else row)) (sBlob st)"
  have x: "map fst xs = map fst (sBlob st)" "map (\<lambda>(_, row). bUuid row) xs = map (\<lambda>(_, row). bUuid row) (sBlob st)"
    "fst ` set xs = fst ` set (sBlob st)"
    unfolding xs_def by (rule map_fst_update, rule map_uuid_update [OF assms(3)], rule fst_set_update)
  have "rowOk (removeAll rid (sPhantom st)) r row" if a: "(r, row) \<in> set xs" for r row
  proof -
    obtain row0 where r: "(r, row0) \<in> set (sBlob st)" "row = (if r = rid then f row0 else row0)" using a by (auto simp: xs_def)
    then have "rowOk (sPhantom st) r row0" using assms(1) by (auto simp: storeInv_def)
    then show ?thesis using r assms(3,4) [of row0] by (auto simp: rowOk_def)
  qed
  moreover have "sBlob (updateBlob st rid f\<lparr>sPhantom := removeAll rid (sPhantom st)\<rparr>) = xs"
    "sDelta (updateBlob st rid f\<lparr>sPhantom := removeAll rid (sPhantom st)\<rparr>) = sDelta st" by (simp_all add: updateBlob_def xs_def)
  ultimately show ?thesis using assms(1) x unfolding storeInv_def by auto
qed

lemma insertBlob_D:
  assumes "insertBlob st row = Inr (rid, st1)"
  shows "rid = nextRowid (map fst (sBlob st))" "st1 = st\<lparr>sBlob := sBlob st @ [(rid, row)]\<rparr>" "40 \<le> length (bUuid row)"
    "ridByUuid st (bUuid row) = None" "rid \<notin> fst ` set (sBlob st)" "0 < rid"
proof -
  show *: "rid = nextRowid (map fst (sBlob st))" and "st1 = st\<lparr>sBlob := sBlob st @ [(rid, row)]\<rparr>" "40 \<le> length (bUuid row)"
    "ridByUuid st (bUuid row) = None" using assms by (auto simp: insertBlob_def Let_def split: if_splits)
  show "rid \<notin> fst ` set (sBlob st)" using nextRowid_fresh [of rid "map fst (sBlob st)"] * by auto
  show "0 < rid" using nextRowid_pos * by simp
qed

lemma insertBlob_inv:
  assumes "storeInv st" "insertBlob st row = Inr (rid, st1)"
    and "ph = sPhantom st @ (if bSize row = Some (-1) then [rid] else [])" "rowOk ph rid row"
  shows "storeInv (st1\<lparr>sPhantom := ph\<rparr>)"
proof -
  note d = insertBlob_D [OF assms(2)]
  have "rowOk ph r x" if "(r, x) \<in> set (sBlob st)" for r x
  proof -
    have "r \<noteq> rid" using that d(5) by force
    moreover have "rowOk (sPhantom st) r x" using that assms(1) by (auto simp: storeInv_def)
    ultimately show ?thesis by (auto simp: rowOk_def assms(3) split: if_splits)
  qed
  then have "\<forall>(r, x) \<in> set (sBlob st @ [(rid, row)]). rowOk ph r x" using assms(4) by auto
  moreover have "bUuid row \<notin> (\<lambda>(_, row). bUuid row) ` set (sBlob st)" using ridByUuid_None [OF d(4)] by fastforce
  moreover have "set ph \<subseteq> fst ` set (sBlob st @ [(rid, row)])" using assms(1,3) by (auto simp: storeInv_def)
  moreover have "0 < s \<and> r \<notin> set ph \<and> r \<in> fst ` set (sBlob st @ [(rid, row)])" if a: "(r, s) \<in> set (sDelta st)" for r s
  proof -
    have "0 < s \<and> r \<notin> set (sPhantom st) \<and> r \<in> fst ` set (sBlob st)" using a assms(1) by (auto simp: storeInv_def)
    then show ?thesis using d(5) by (auto simp: assms(3))
  qed
  ultimately show ?thesis using assms(1) d(2,5) by (auto simp: storeInv_def)
qed


section \<open>The effect of a written row\<close>

lemma Load_real: "storeInv st \<Longrightarrow> Load e st r = Inr d \<Longrightarrow> r \<in> fst ` set (sBlob st) \<and> r \<notin> set (sPhantom st)"
proof -
  assume a: "storeInv st" "Load e st r = Inr d"
  then obtain row n where row: "blobOf st r = Some row" "bSize row = Some n" "n \<noteq> -1" by (auto simp: Load_iff)
  then have m: "(r, row) \<in> set (sBlob st)" using a blobOf_set by blast
  then have "rowOk (sPhantom st) r row" using a by (auto simp: storeInv_def)
  then have "r \<notin> set (sPhantom st)" using row by (auto simp: rowOk_def)
  then show ?thesis using m by force
qed

lemma ReceiptID_tables:
  "ReceiptID st = (i, st1) \<Longrightarrow> sBlob st1 = sBlob st \<and> sDelta st1 = sDelta st \<and> sPhantom st1 = sPhantom st \<and> sShun st1 = sShun st"
  by (auto simp: ReceiptID_def Let_def split: if_splits)

text \<open>
  What a write of \<open>rid\<close> under the name \<open>uuid\<close> may do: give a row to \<open>rid\<close>, which was a phantom of that name or not
  there, and touch nothing else.
\<close>

definition fills :: "store \<Rightarrow> int \<Rightarrow> bytes \<Rightarrow> store \<Rightarrow> bool" where
  "fills st rid uuid st' \<longleftrightarrow> storeInv st' \<and> rid \<in> fst ` set (sBlob st') \<and> rid \<notin> set (sPhantom st') \<and> deltaOf st rid = None \<and>
     rid \<in> set (sPhantom st) \<union> - (fst ` set (sBlob st)) \<and> sDelta st' = sDelta st \<and> sShun st' = sShun st \<and>
     (\<forall>r. r \<noteq> rid \<longrightarrow> blobOf st' r = blobOf st r) \<and> map_option bUuid (blobOf st' rid) = Some uuid \<and>
     (\<forall>row. blobOf st rid = Some row \<longrightarrow> bUuid row = uuid)"

lemma writeRow_cases:
  assumes "storeInv st" "writeRow st uuid n c = Inr (rid, st')"
  obtains i st1 where "sBlob st1 = sBlob st" "sDelta st1 = sDelta st" "sPhantom st1 = sPhantom st" "sShun st1 = sShun st"
      "insertBlob st1 \<lparr>bUuid = uuid, bSize = Some n, bContent = Some c, bRcvid = i\<rparr> = Inr (rid, st')" "0 \<le> n" "c \<noteq> []"
  | i st1 where "sBlob st1 = sBlob st" "sDelta st1 = sDelta st" "sPhantom st1 = sPhantom st" "sShun st1 = sShun st"
      "ridByUuid st uuid = Some rid"
      "st' = updateBlob st1 rid (\<lambda>row. row\<lparr>bRcvid := i, bSize := Some n, bContent := Some c\<rparr>)\<lparr>sPhantom := removeAll rid (sPhantom st1)\<rparr>"
      "0 \<le> n" "c \<noteq> []"
proof -
  have n: "0 \<le> n" "c \<noteq> []" using assms(2) by (auto simp: writeRow_def split: if_splits)
  obtain q where P: "PromoteFor (namesOf st) uuid = Inr q"
    using assms(2) n by (cases "PromoteFor (namesOf st) uuid") (auto simp: writeRow_def)
  obtain i st1 where r: "ReceiptID (st\<lparr>sPolicy := policyRow q\<rparr>) = (i, st1)" by fastforce
  have t: "sBlob st1 = sBlob st" "sDelta st1 = sDelta st" "sPhantom st1 = sPhantom st" "sShun st1 = sShun st"
    using ReceiptID_tables [OF r] by auto
  have "uuid \<noteq> []" using assms(2) n P r by (auto simp: writeRow_def Exists_def)
  then have u: "Exists st1 uuid = Inr (ridByUuid st uuid)" using t by (simp add: ridByUuid_def Exists_def)
  show thesis
  proof (cases "ridByUuid st uuid")
    case None
    then have "insertBlob st1 \<lparr>bUuid = uuid, bSize = Some n, bContent = Some c, bRcvid = i\<rparr> = Inr (rid, st')"
      using assms(2) P r u n by (simp add: writeRow_def)
    from that(1) [OF t this n] show thesis .
  next
    case (Some x)
    then have "rid = x \<and> st' = updateBlob st1 x (\<lambda>row. row\<lparr>bRcvid := i, bSize := Some n, bContent := Some c\<rparr>)\<lparr>sPhantom := removeAll x (sPhantom st1)\<rparr>"
      using assms(2) P r u n by (auto simp: writeRow_def Let_def updateBlob_def)
    then show thesis using that(2) [OF t _ _ n, of i] Some by simp
  qed
qed

lemma writeRow_row:
  assumes "storeInv st" "writeRow st uuid n c = Inr (rid, st')"
  shows "\<exists>i. blobOf st' rid = Some \<lparr>bUuid = uuid, bSize = Some n, bContent = Some c, bRcvid = i\<rparr> \<and> 0 \<le> n \<and> c \<noteq> []"
  using assms
proof (cases rule: writeRow_cases)
  case (1 i st1)
  note d = insertBlob_D [OF 1(5)]
  have "map_of (sBlob st1) rid = None" using d(5) by (simp add: map_of_eq_None_iff)
  then show ?thesis using d(2) 1 by (simp add: blobOf_def map_add_def)
next
  case (2 i st1)
  from ridByUuid_Some [OF 2(5)] obtain row where row: "(rid, row) \<in> set (sBlob st)" "bUuid row = uuid" by blast
  have "blobOf st' rid = map_option (\<lambda>row. row\<lparr>bRcvid := i, bSize := Some n, bContent := Some c\<rparr>) (blobOf st rid)"
    using 2 blobOf_simps(1) [of st1 rid] by (simp add: blobOf_def)
  moreover have "blobOf st rid = Some row" using row(1) blobOf_set [OF assms(1)] by simp
  ultimately show ?thesis using row(2) 2(7,8) by (cases row) simp
qed

lemma writeRow_inv:
  assumes "storeInv st" "writeRow st uuid n c = Inr (rid, st')"
  shows "storeInv st' \<and> rid \<notin> set (sPhantom st')"
  using assms
proof (cases rule: writeRow_cases)
  case (1 i st1)
  have inv1: "storeInv st1" using assms(1) storeInv_cong 1 by blast
  note d = insertBlob_D [OF 1(5)]
  have np: "rid \<notin> set (sPhantom st1)" using d(5) inv1 by (auto simp: storeInv_def)
  have "storeInv (st'\<lparr>sPhantom := sPhantom st1\<rparr>)" by (rule insertBlob_inv [OF inv1 1(5)]) (use 1 d np in \<open>auto simp: rowOk_def\<close>)
  moreover have "st'\<lparr>sPhantom := sPhantom st1\<rparr> = st'" using d(2) by simp
  ultimately show ?thesis using np d(2) by simp
next
  case (2 i st1)
  have inv1: "storeInv st1" using assms(1) storeInv_cong 2 by blast
  from ridByUuid_Some [OF 2(5)] have "rid \<in> fst ` set (sBlob st1)" using 2(1) by force
  from updateBlob_inv [OF inv1 this] 2 show ?thesis by auto
qed

lemma writeRow_fills:
  assumes "storeInv st" "awaited st uuid" "writeRow st uuid n c = Inr (rid, st')"
  shows "fills st rid uuid st'"
proof -
  note inv = writeRow_inv [OF assms(1,3)]
  obtain i where row: "blobOf st' rid = Some \<lparr>bUuid = uuid, bSize = Some n, bContent = Some c, bRcvid = i\<rparr>"
    using writeRow_row [OF assms(1,3)] by blast
  then have dom: "rid \<in> fst ` set (sBlob st')" using inv blobOf_set by force
  have "rid \<in> set (sPhantom st) \<union> - (fst ` set (sBlob st)) \<and> sDelta st' = sDelta st \<and> sShun st' = sShun st \<and>
     (\<forall>r. r \<noteq> rid \<longrightarrow> blobOf st' r = blobOf st r) \<and> (\<forall>row. blobOf st rid = Some row \<longrightarrow> bUuid row = uuid)"
    using assms(1,3)
  proof (cases rule: writeRow_cases)
    case (1 i st1)
    note d = insertBlob_D [OF 1(5)]
    have "rid \<notin> fst ` set (sBlob st)" using d(5) 1(1) by simp
    then show ?thesis using 1 d(2) by (auto simp: blobOf_def map_add_def dest!: map_of_SomeD split: option.split) force
  next
    case (2 i st1)
    from ridByUuid_Some [OF 2(5)] obtain row where r: "(rid, row) \<in> set (sBlob st)" "bUuid row = uuid" by blast
    have "rid \<in> set (sPhantom st)" using assms(2) 2(5) phantom_row [OF assms(1) r(1)] by (simp add: awaited_def)
    moreover have "blobOf st' r = blobOf st r" if "r \<noteq> rid" for r
      using 2 that blobOf_simps(1) [of st1 rid _ r] by (simp add: blobOf_def)
    moreover have "sDelta st' = sDelta st" "sShun st' = sShun st" using 2 by (auto simp: updateBlob_def)
    moreover have "blobOf st rid = Some row" using r(1) blobOf_set [OF assms(1)] by simp
    ultimately show ?thesis using r(2) by simp
  qed
  then show ?thesis using inv row dom deltaOf_real [OF assms(1), of rid] by (auto simp: fills_def)
qed

section \<open>The writers\<close>

text \<open>Rows that could not be read may change without touching the content of any artifact.\<close>

lemma rebuilds_extend:
  assumes "\<And>r d. Load e st r = Inr d \<Longrightarrow> blobOf st' r = blobOf st r \<and> deltaOf st' r = deltaOf st r" "rebuilds e st b n r d"
  shows "rebuilds e st' b n r d"
  using assms(2)
proof (induction rule: rebuilds.induct)
  case (root rid d)
  then show ?case using assms(1) [OF root(2)] Load_blobOf [of st' rid st e] checkNode_name [of st' rid st e b d]
    by (intro rebuilds.root) auto
next
  case (link rid src n s dl d)
  then show ?case using assms(1) [OF link(3)] Load_blobOf [of st' rid st e] checkNode_name [of st' rid st e b d]
    by (intro rebuilds.link [of _ rid src]) auto
qed

text \<open>
  What every writer promises: the tables stay well formed, every artifact keeps its content, and no artifact changes
  its name.
\<close>

definition nameOf :: "store \<Rightarrow> int \<Rightarrow> bytes option" where
  "nameOf st r = map_option bUuid (blobOf st r)"

definition promise :: "env \<Rightarrow> store \<Rightarrow> store \<Rightarrow> bool" where
  "promise e st st' \<longleftrightarrow> storeInv st' \<and>
     (\<forall>n r d. rebuilds e st False n r d \<longrightarrow> (\<exists>m. rebuilds e st' False m r d)) \<and>
     (\<forall>r u. nameOf st r = Some u \<longrightarrow> nameOf st' r = Some u)"

lemma promise_refl: "storeInv st \<Longrightarrow> promise e st st"
  by (auto simp: promise_def)

lemma promise_trans: "promise e st1 st2 \<Longrightarrow> promise e st2 st3 \<Longrightarrow> promise e st1 st3"
  unfolding promise_def by meson

lemma promise_tables:
  "storeInv st \<Longrightarrow> sBlob st' = sBlob st \<Longrightarrow> sDelta st' = sDelta st \<Longrightarrow> sPhantom st' = sPhantom st \<Longrightarrow> promise e st st'"
  using rebuilds_cong [of st' st e False] storeInv_cong [of st' st]
  unfolding promise_def nameOf_def blobOf_def deltaOf_def by (metis (no_types, lifting))

lemma fills_promise:
  assumes "storeInv st" "fills st rid uuid st1" "storeInv st'" "sBlob st' = sBlob st1" "\<And>r. r \<noteq> rid \<Longrightarrow> deltaOf st' r = deltaOf st1 r"
  shows "promise e st st'"
proof -
  have b: "blobOf st' r = blobOf st1 r" for r using assms(4) by (simp add: blobOf_def)
  have "blobOf st' r = blobOf st r \<and> deltaOf st' r = deltaOf st r" if "Load e st r = Inr d" for r d
  proof -
    have "r \<noteq> rid" using Load_real [OF assms(1) that] assms(2) unfolding fills_def by blast
    then have "deltaOf st' r = deltaOf st1 r" "blobOf st1 r = blobOf st r" "sDelta st1 = sDelta st"
      using assms(2,5) unfolding fills_def by blast+
    then show ?thesis using b by (simp add: deltaOf_def)
  qed
  then have "rebuilds e st' False n r d" if "rebuilds e st False n r d" for n r d using rebuilds_extend [OF _ that] by blast
  moreover have "nameOf st' r = Some u" if nm: "nameOf st r = Some u" for r u
  proof -
    obtain row where row: "blobOf st r = Some row" "bUuid row = u" using nm by (auto simp: nameOf_def)
    have "map_option bUuid (blobOf st1 r) = Some u"
    proof (cases "r = rid")
      case True
      moreover have "map_option bUuid (blobOf st1 rid) = Some uuid" "blobOf st rid = Some row \<Longrightarrow> bUuid row = uuid"
        using assms(2) unfolding fills_def by blast+
      ultimately show ?thesis using row by simp
    next
      case False
      then have "blobOf st1 r = blobOf st r" using assms(2) unfolding fills_def by blast
      then show ?thesis using row by simp
    qed
    then show ?thesis by (simp add: nameOf_def b)
  qed
  ultimately show ?thesis using assms(3) unfolding promise_def by blast
qed

text \<open>A delta row may be added for a row that has been filled.\<close>

lemma storeInv_delta:
  assumes "storeInv st" "rid \<in> fst ` set (sBlob st)" "rid \<notin> set (sPhantom st)" "0 < src"
  shows "storeInv (replaceDelta st rid src)"
proof -
  have "distinct (map fst (filter P xs @ [(rid, src)]))" if "distinct (map fst xs)" "\<And>y. P y \<longleftrightarrow> fst y \<noteq> rid" for P and xs :: "(int \<times> int) list"
    using that by (induction xs) auto
  from this [of "sDelta st" "\<lambda>(r, _). r \<noteq> rid"] assms show ?thesis
    by (auto simp: storeInv_def replaceDelta_def case_prod_beta)
qed

lemma insertDelta_replace: "insertDelta st rid src = Inr st' \<Longrightarrow> st' = replaceDelta st rid src"
proof -
  assume "insertDelta st rid src = Inr st'"
  then have "deltaOf st rid = None" "st' = st\<lparr>sDelta := sDelta st @ [(rid, src)]\<rparr>"
    by (auto simp: insertDelta_def split: if_splits)
  moreover have "filter (\<lambda>(r, _). r \<noteq> rid) (sDelta st) = sDelta st" if "deltaOf st rid = None"
    using that by (force simp: deltaOf_def map_of_eq_None_iff filter_id_conv)
  ultimately show ?thesis by (simp add: replaceDelta_def)
qed

lemma storeInv_unclustered [simp]: "storeInv (markUnclustered st rid) = storeInv st"
  by (simp add: storeInv_def markUnclustered_def)

lemma writeRow_promise:
  assumes "storeInv st" "awaited st uuid" "writeRow st uuid n c = Inr (rid, st')"
  shows "promise e st st' \<and> promise e st (markUnclustered st' rid) \<and>
    (0 < src \<longrightarrow> promise e st (replaceDelta st' rid src) \<and> promise e st (markUnclustered (replaceDelta st' rid src) rid))"
proof -
  note f = writeRow_fills [OF assms]
  then have r: "storeInv st'" "rid \<in> fst ` set (sBlob st')" "rid \<notin> set (sPhantom st')" by (auto simp: fills_def)
  note inv = storeInv_delta [OF r, of src]
  have m: "sBlob (markUnclustered x rid) = sBlob x" "deltaOf (markUnclustered x rid) y = deltaOf x y" for x y
    by (simp_all add: markUnclustered_def deltaOf_def)
  have d: "sBlob (replaceDelta st' rid src) = sBlob st'" "r \<noteq> rid \<Longrightarrow> deltaOf (replaceDelta st' rid src) r = deltaOf st' r" for r
    by (simp_all add: replaceDelta_def [of st'] deltaOf_simps [unfolded replaceDelta_def])
  note p = fills_promise [OF assms(1) f]
  have "promise e st st'" "promise e st (markUnclustered st' rid)" by (rule p; simp add: r m)+
  moreover have "promise e st (replaceDelta st' rid src)" "promise e st (markUnclustered (replaceDelta st' rid src) rid)" if "0 < src"
    using inv that by (auto intro!: p simp: m d)
  ultimately show ?thesis by blast
qed

lemma existingName_None:
  "existingName e st naming uuid content = Inr None \<Longrightarrow> awaited st uuid"
  by (auto simp: existingName_def Exists_def awaited_def bindE_eq_Inr_iff split: if_splits option.splits)

lemma writeVerified_promise:
  assumes "storeInv st" "awaited st uuid" "writeVerified e st alg uuid content = Inr (rid, st')"
  shows "promise e st st'"
  using assms(3) writeRow_promise [OF assms(1,2)] by (auto simp: writeVerified_def bindE_eq_Inr_iff split: if_splits)

lemma Store_cases:
  assumes "Store e st c = Inr (x, st')"
  obtains "st' = st" | alg uuid content rid where "awaited st uuid" "writeVerified e st alg uuid content = Inr (rid, st')" "x = (rid, uuid)"
proof -
  let ?c = "case c of None \<Rightarrow> [] | Some c \<Rightarrow> c"
  obtain naming uuid y where n: "NamingOf st = Inr naming" "hashE (algHash (eSha3 e) (nNew naming) (Some ?c)) = Inr uuid"
    "existingName e st naming uuid ?c = Inr y"
    using assms unfolding Store_def Let_def by (auto simp: bindE_eq_Inr_iff)
  show thesis
  proof (cases y)
    case None
    then show thesis using assms n that(2) existingName_None [of e st naming uuid ?c]
      by (auto simp: Store_def Let_def bindE_eq_Inr_iff postRid_def split: if_splits)
  next
    case (Some p)
    then show thesis using assms n that(1)
      by (auto simp: Store_def Let_def bindE_eq_Inr_iff postRid_def split: if_splits prod.splits)
  qed
qed

lemma Store_promise: "storeInv st \<Longrightarrow> Store e st c = Inr (x, st') \<Longrightarrow> promise e st st'"
  by (erule Store_cases) (auto intro: promise_refl writeVerified_promise)

lemma StoreUnderPolicy_promise:
  assumes "storeInv st" "StoreUnderPolicy e st c = Inr (x, st')"
  shows "promise e st st'"
proof -
  let ?c = "case c of None \<Rightarrow> [] | Some c \<Rightarrow> c"
  obtain naming uuid r where n: "NamingOf st = Inr naming" "hashE (algHash (eSha3 e) (nNew naming) (Some ?c)) = Inr uuid" "Exists st uuid = Inr r"
    using assms(2) unfolding StoreUnderPolicy_def Let_def by (auto simp: bindE_eq_Inr_iff)
  then have r: "r = ridByUuid st uuid" by (simp add: Exists_def split: if_splits)
  show ?thesis
  proof (cases "awaited st uuid")
    case True
    then have c: "\<not> (case r of None \<Rightarrow> False | Some rid \<Rightarrow> \<not> isPhantom st rid)" using r by (simp add: awaited_def split: option.splits)
    obtain rid where "writeVerified e st (nNew naming) uuid ?c = Inr (rid, st')"
      using assms(2) n c by (auto simp: StoreUnderPolicy_def Let_def bindE_eq_Inr_iff)
    then show ?thesis using writeVerified_promise [OF assms(1) True] by blast
  next
    case False
    then have "(case r of None \<Rightarrow> False | Some rid \<Rightarrow> \<not> isPhantom st rid)" using r by (simp add: awaited_def split: option.splits)
    then have "st' = st" using assms(2) n by (simp add: StoreUnderPolicy_def Let_def)
    then show ?thesis using promise_refl [OF assms(1)] by simp
  qed
qed

lemma StoreDelta_promise:
  assumes "storeInv st" "StoreDelta e st content src = Inr (x, st')"
  shows "promise e st st'"
proof -
  have pos: "content \<noteq> []" "0 < src" using assms(2) by (auto simp: StoreDelta_def Let_def split: if_splits)
  obtain naming uuid y where n: "NamingOf st = Inr naming" "hashE (algHash (eSha3 e) (nNew naming) (Some content)) = Inr uuid"
    "existingName e st naming uuid content = Inr y"
    using assms(2) pos unfolding StoreDelta_def Let_def by (auto simp: bindE_eq_Inr_iff)
  show ?thesis
  proof (cases y)
    case None
    from n(3) None have aw: "awaited st uuid" using existingName_None by blast
    obtain db rid st1 st2 where w: "writeRow st uuid (int (length content)) (Compress e db) = Inr (rid, st1)"
      "insertDelta st1 rid src = Inr st2" "st' = markUnclustered st2 rid"
      using assms(2) n None pos by (auto simp: StoreDelta_def Let_def bindE_eq_Inr_iff postRid_def split: if_splits)
    then show ?thesis using writeRow_promise [OF assms(1) aw w(1), of e src] pos insertDelta_replace [OF w(2)] by simp
  next
    case (Some p)
    then have "st' = st" using assms(2) n pos
      by (auto simp: StoreDelta_def Let_def postRid_def split: if_splits prod.splits)
    then show ?thesis using promise_refl [OF assms(1)] by simp
  qed
qed

lemma StoreDeltaRaw_promise:
  assumes "storeInv st" "StoreDeltaRaw e st uuid db src stored = Inr (x, st')"
  shows "promise e st st'"
proof -
  have pos: "uuid \<noteq> []" "0 < src" using assms(2) by (auto simp: StoreDeltaRaw_def Let_def split: if_splits)
  then have E: "Exists st uuid = Inr (ridByUuid st uuid)" by (simp add: Exists_def)
  show ?thesis
  proof (cases "awaited st uuid")
    case True
    then have c: "\<not> (case ridByUuid st uuid of None \<Rightarrow> False | Some rid \<Rightarrow> \<not> isPhantom st rid)" by (simp add: awaited_def split: option.splits)
    obtain n c rid st1 where w: "writeRow st uuid n c = Inr (rid, st1)" "st' = markUnclustered (replaceDelta st1 rid src) rid"
      using assms(2) pos E c by (auto simp: StoreDeltaRaw_def Let_def bindE_eq_Inr_iff postRid_def split: if_splits)
    then show ?thesis using writeRow_promise [OF assms(1) True w(1), of e src] pos by simp
  next
    case False
    then have "(case ridByUuid st uuid of None \<Rightarrow> False | Some rid \<Rightarrow> \<not> isPhantom st rid)" by (simp add: awaited_def split: option.splits)
    then have "st' = st" using assms(2) pos E by (simp add: StoreDeltaRaw_def Let_def postRid_def split: if_splits)
    then show ?thesis using promise_refl [OF assms(1)] by simp
  qed
qed

lemma StorePhantom_promise:
  assumes "storeInv st" "StorePhantom st uuid = Inr (x, st')"
  shows "promise e st st'"
proof -
  have ne: "uuid \<noteq> []" using assms(2) by (auto simp: StorePhantom_def Let_def)
  then have E: "Exists st uuid = Inr (ridByUuid st uuid)" by (simp add: Exists_def)
  show ?thesis
  proof (cases "ridByUuid st uuid")
    case None
    let ?row = "\<lparr>bUuid = uuid, bSize = Some (-1), bContent = None, bRcvid = 0\<rparr>"
    obtain rid st1 where w: "insertBlob st ?row = Inr (rid, st1)" "insertPhantom st1 rid = Inr st'"
      using assms(2) ne E None by (auto simp: StorePhantom_def Let_def bindE_eq_Inr_iff postRid_def split: if_splits)
    note d = insertBlob_D [OF w(1)]
    have st': "st' = st1\<lparr>sPhantom := sPhantom st @ [rid]\<rparr>" using w(2) d(2) by (auto simp: insertPhantom_def split: if_splits)
    have inv: "storeInv st'" unfolding st' by (rule insertBlob_inv [OF assms(1) w(1)]) (use d in \<open>auto simp: rowOk_def\<close>)
    have b: "blobOf st' r = blobOf st r" if "r \<noteq> rid" for r
      using that by (simp add: st' d(2) blobOf_def map_add_def split: option.split)
    have none: "blobOf st rid = None" using d(5) by (simp add: blobOf_def map_of_eq_None_iff)
    then have L: "r \<noteq> rid" if "Load e st r = Inr z" for r z using that by (auto simp: Load_iff)
    have "deltaOf st' r = deltaOf st r" for r by (simp add: st' d(2) deltaOf_def)
    then have "rebuilds e st' False n r z" if "rebuilds e st False n r z" for n r z
      using rebuilds_extend [OF _ that, of st'] L b by blast
    moreover have "nameOf st' r = Some u" if "nameOf st r = Some u" for r u
      using that none b [of r] by (cases "r = rid") (simp_all add: nameOf_def)
    ultimately show ?thesis using inv unfolding promise_def by blast
  next
    case (Some r)
    then have "st' = st" using assms(2) ne E by (auto simp: StorePhantom_def Let_def postRid_def split: if_splits)
    then show ?thesis using promise_refl [OF assms(1)] by simp
  qed
qed

text \<open>The rewriting operations, which need the laws of the environment.\<close>

lemma rewrite_inv:
  assumes "storeInv st" "Load e st rid = Inr z" "\<And>row. bUuid (f row) = bUuid row"
    and "\<And>row n. bSize row = Some n \<Longrightarrow> 0 \<le> n \<Longrightarrow> \<exists>m c. bSize (f row) = Some m \<and> 0 \<le> m \<and> bContent (f row) = Some c \<and> c \<noteq> []"
  shows "storeInv (updateBlob st rid f)"
proof -
  note r = Load_real [OF assms(1,2)]
  have "\<exists>n c. bSize (f row) = Some n \<and> 0 \<le> n \<and> bContent (f row) = Some c \<and> c \<noteq> []" if "(rid, row) \<in> set (sBlob st)" for row
  proof -
    have "rowOk (sPhantom st) rid row" using assms(1) that by (auto simp: storeInv_def)
    then show ?thesis using r assms(4) by (auto simp: rowOk_def)
  qed
  from updateBlob_inv [OF assms(1) _ assms(3) this] r
  have i: "storeInv (updateBlob st rid f\<lparr>sPhantom := removeAll rid (sPhantom st)\<rparr>)" by blast
  have "removeAll rid (sPhantom st) = sPhantom st" using r by simp
  then show ?thesis using i storeInv_cong [of "updateBlob st rid f\<lparr>sPhantom := removeAll rid (sPhantom st)\<rparr>" "updateBlob st rid f"]
    by (simp add: updateBlob_def)
qed

lemma nameOf_update: "(\<And>row. bUuid (f row) = bUuid row) \<Longrightarrow> nameOf (updateBlob st rid f) r = nameOf st r"
  by (cases "blobOf st r") (auto simp: nameOf_def)

lemma length_sizePrefix: "length (sizePrefix n) = 4"
  by (simp add: sizePrefix_def beBytes_def)

lemma Compress_nonempty [simp]: "Compress e d \<noteq> []"
  by (metis Compress_def Nil_is_append_conv length_0_conv length_sizePrefix zero_neq_numeral)

lemma storeInv_deleteDelta: "storeInv st \<Longrightarrow> storeInv (deleteDelta st rid)"
proof -
  have "distinct (map fst (filter P xs))" if "distinct (map fst xs)" for P and xs :: "(int \<times> int) list"
    using that by (induction xs) auto
  then show "storeInv st \<Longrightarrow> storeInv (deleteDelta st rid)" by (auto simp: storeInv_def deleteDelta_def)
qed

lemma Expand_load: "envLaws e \<Longrightarrow> payloadsBounded e st \<Longrightarrow> Expand e st rid = Inr d \<Longrightarrow> \<exists>z. Load e st rid = Inr z"
  using Expand_rebuilds rebuilds_load by blast

lemma Undelta_promise:
  assumes "storeInv st" "envLaws e" "payloadsBounded e st" "Undelta e st rid = Inr st'"
  shows "promise e st st'"
proof (cases "st' = st")
  case False
  then obtain full where f: "Expand e st rid = Inr full" "st' = writeFull e st rid full"
    using assms(4) by (auto simp: Undelta_def bindE_eq_Inr_iff split: if_splits)
  obtain z where z: "Load e st rid = Inr z" using Expand_load [OF assms(2,3) f(1)] by blast
  have "storeInv st'" unfolding f(2) writeFull_def by (intro storeInv_deleteDelta rewrite_inv [OF assms(1) z]) auto
  moreover have "nameOf st' r = nameOf st r" for r
    using nameOf_update [of "\<lambda>row. row\<lparr>bContent := Some (Compress e full), bSize := Some (int (length full))\<rparr>" st rid r]
    by (simp add: f(2) writeFull_def nameOf_def)
  moreover have "\<forall>n r d. rebuilds e st False n r d \<longrightarrow> (\<exists>m. rebuilds e st' False m r d)"
    using Undelta_keeps [OF assms(2,3,4)] by blast
  ultimately show ?thesis unfolding promise_def by simp
qed (simp add: promise_refl assms)

lemma Deltify_promise:
  assumes "storeInv st" "envLaws e" "payloadsBounded e st" "Deltify e st rid src = Inr (saved, st')"
  shows "promise e st st'"
proof -
  have keep: "\<forall>n r d. rebuilds e st False n r d \<longrightarrow> (\<exists>m. rebuilds e st' False m r d)" using Deltify_keeps [OF assms(2,3,4)] by blast
  from assms(4) show ?thesis
  proof (cases rule: Deltify_cases)
    case (3 data s dl)
    obtain z where z: "Load e st rid = Inr z" using Expand_load [OF assms(2,3) 3(1)] by blast
    obtain zs where zs: "Load e st src = Inr zs" using Expand_load [OF assms(2,3) 3(2)] by blast
    let ?u = "updateBlob st rid (\<lambda>r. r\<lparr>bContent := Some (Compress e dl)\<rparr>)"
    have st': "st' = replaceDelta ?u rid src"
      using 3(8) by (auto simp: deltifyWrite_def Let_def bindE_eq_Inr_iff split: option.splits)
    have u: "storeInv ?u" by (rule rewrite_inv [OF assms(1) z]) auto
    have "rid \<in> fst ` set (sBlob ?u) \<and> rid \<notin> set (sPhantom ?u)"
      using Load_real [OF assms(1) z] fst_set_update [of rid _ "sBlob st"] by (simp add: updateBlob_def)
    then have "storeInv st'" unfolding st' using storeInv_delta [OF u] Load_pos [OF zs] by blast
    moreover have "nameOf st' r = nameOf st r" for r
      using nameOf_update [of "\<lambda>r. r\<lparr>bContent := Some (Compress e dl)\<rparr>" st rid r] by (simp add: st' nameOf_def)
    ultimately show ?thesis using keep unfolding promise_def by simp
  qed (use assms promise_refl Undelta_promise in auto)
qed

section \<open>Reachable stores\<close>

text \<open>One step of a process that writes the store; \<^verbatim>\<open>Purge\<close>, which removes artifacts, is treated on its own.\<close>

inductive write_step :: "env \<Rightarrow> store \<Rightarrow> store \<Rightarrow> bool" for e where
  ws_Store: "Store e st content = Inr (x, st') \<Longrightarrow> write_step e st st'"
| ws_StoreUnderPolicy: "StoreUnderPolicy e st content = Inr (y, st') \<Longrightarrow> write_step e st st'"
| ws_StoreDelta: "StoreDelta e st c src = Inr (x, st') \<Longrightarrow> write_step e st st'"
| ws_StoreDeltaRaw: "StoreDeltaRaw e st uuid db src stored = Inr (rid, st') \<Longrightarrow> write_step e st st'"
| ws_StorePhantom: "StorePhantom st uuid = Inr (rid, st') \<Longrightarrow> write_step e st st'"
| ws_Undelta: "Undelta e st rid = Inr st' \<Longrightarrow> write_step e st st'"
| ws_Deltify: "Deltify e st rid src = Inr (saved, st') \<Longrightarrow> write_step e st st'"
| ws_MakePrivate: "MakePrivate st rid = Inr st' \<Longrightarrow> write_step e st st'"
| ws_MakePublic: "MakePublic st rid = Inr st' \<Longrightarrow> write_step e st st'"
| ws_shunAdd: "shunAdd st uuid = Inr st' \<Longrightarrow> write_step e st st'"
| ws_shunRemove: "write_step e st (shunRemove st uuid)"

definition boundedStep :: "env \<Rightarrow> store \<Rightarrow> store \<Rightarrow> bool" where
  "boundedStep e st st' \<longleftrightarrow> envLaws e \<and> payloadsBounded e st \<and> write_step e st st'"

text \<open>The contract of a relation of writers, and what any sequence of its steps keeps.\<close>

locale content_step =
  fixes e :: env and step :: "store \<Rightarrow> store \<Rightarrow> bool"
  assumes step_promise: "storeInv st \<Longrightarrow> step st st' \<Longrightarrow> promise e st st'"
begin

lemma reach_promise: "step\<^sup>*\<^sup>* st st' \<Longrightarrow> storeInv st \<Longrightarrow> promise e st st'"
proof (induction rule: rtranclp_induct)
  case base
  then show ?case by (rule promise_refl)
next
  case (step st1 st2)
  then have p: "promise e st st1" by simp
  then have "storeInv st1" by (simp add: promise_def)
  then show ?case using step_promise [OF _ step.hyps(2)] promise_trans [OF p] by simp
qed

lemma reach_inv: "step\<^sup>*\<^sup>* st st' \<Longrightarrow> storeInv st \<Longrightarrow> storeInv st'"
  using reach_promise by (simp add: promise_def)

lemma reach_name: "step\<^sup>*\<^sup>* st st' \<Longrightarrow> storeInv st \<Longrightarrow> nameOf st r = Some u \<Longrightarrow> nameOf st' r = Some u"
  using reach_promise by (auto simp: promise_def)

lemma reach_expand:
  assumes "step\<^sup>*\<^sup>* st st'" "storeInv st" "envLaws e" "payloadsBounded e st" "payloadsBounded e st'" "Expand e st r = Inr d"
  shows "Expand e st' r = Inr d \<or> (\<exists>n. maxDeltaChainDepth < n \<and> rebuilds e st' False n r d)"
proof -
  obtain n where n: "rebuilds e st False n r d" "bindToName e st r d = Inr ()"
    using assms(6) Expand_rebuilds [OF assms(3,4)] by blast
  then obtain u where u: "nameOf st r = Some u" by (cases "blobOf st r") (auto simp: bindToName_def nameOf_def)
  have "nameOf st' r = nameOf st r" using reach_name [OF assms(1,2) u] u by simp
  then have b: "bindToName e st' r d = Inr ()"
    using n(2) checkNode_name [of st' r st e True d] by (simp add: nameOf_def)
  obtain m where m: "rebuilds e st' False m r d" using reach_promise [OF assms(1,2)] n(1) unfolding promise_def by blast
  show ?thesis
  proof (cases "m \<le> maxDeltaChainDepth")
    case True
    then show ?thesis using m b Expand_rebuilds [OF assms(3,5)] by blast
  next
    case False
    then show ?thesis using m by (meson not_le)
  qed
qed

end

interpretation writers: content_step e "boundedStep e" for e
proof
  fix st st'
  assume inv: "storeInv st" and "boundedStep e st st'"
  then have b: "envLaws e" "payloadsBounded e st" and "write_step e st st'" by (auto simp: boundedStep_def)
  from this(3) show "promise e st st'"
  proof cases
    case (ws_MakePrivate rid)
    then show ?thesis using inv by (intro promise_tables) (auto simp: MakePrivate_def split: if_splits)
  next
    case (ws_MakePublic rid)
    then show ?thesis using inv by (intro promise_tables) (auto simp: MakePublic_def split: if_splits)
  next
    case (ws_shunAdd uuid)
    then show ?thesis using inv by (intro promise_tables) (auto simp: shunAdd_def bindE_eq_Inr_iff split: if_splits)
  next
    case (ws_shunRemove uuid)
    then show ?thesis using inv by (intro promise_tables) (auto simp: shunRemove_def)
  qed (auto intro: inv b Store_promise StoreUnderPolicy_promise StoreDelta_promise StoreDeltaRaw_promise
        StorePhantom_promise Undelta_promise Deltify_promise)
qed

end
