(* ===== verification/Availability.thy ===== *)
theory Availability
  imports Store_Reach
begin

text \<open>
  What \<^verbatim>\<open>IsAvailable\<close> decides: whether the delta chain of an artifact ends, within the bound, in a whole row with
  every row on the way present (\<open>grounded\<close>).  An artifact whose chain waits on a phantom (\<open>waitsOn\<close>) is not
  available, and becomes so when the phantom is filled.
\<close>

section \<open>Grounded chains\<close>

definition realRow :: "store \<Rightarrow> int \<Rightarrow> bool" where
  "realRow st r \<longleftrightarrow> (\<exists>row n. blobOf st r = Some row \<and> bSize row = Some n \<and> 0 \<le> n)"

definition linkOf :: "store \<Rightarrow> int \<Rightarrow> int option" where
  "linkOf st r = (case deltaOf st r of None \<Rightarrow> None | Some src \<Rightarrow> if src = 0 then None else Some src)"

inductive grounded :: "store \<Rightarrow> nat \<Rightarrow> int \<Rightarrow> bool" for st where
  groundedRoot: "realRow st r \<Longrightarrow> linkOf st r = None \<Longrightarrow> grounded st (Suc 0) r"
| groundedLink: "realRow st r \<Longrightarrow> linkOf st r = Some src \<Longrightarrow> grounded st n src \<Longrightarrow> grounded st (Suc n) r"

declare grounded.intros [intro]
inductive_cases groundedE: "grounded st n r"

lemma grounded_real: "grounded st n r \<Longrightarrow> realRow st r"
  by (erule groundedE)

lemma grounded_rootD: "grounded st n r \<Longrightarrow> linkOf st r = None \<Longrightarrow> n = Suc 0"
  by (erule groundedE) simp_all

lemma grounded_linkD: "grounded st n r \<Longrightarrow> linkOf st r = Some src \<Longrightarrow> \<exists>m. n = Suc m \<and> grounded st m src"
  by (erule groundedE) simp_all

lemma grounded_unique: "grounded st n r \<Longrightarrow> grounded st m r \<Longrightarrow> m = n"
proof (induction arbitrary: m rule: grounded.induct)
  case (groundedLink r src n)
  from grounded_linkD [OF groundedLink.prems groundedLink.hyps(2)] obtain k where "m = Suc k" "grounded st k src" by blast
  then show ?case using groundedLink.IH by simp
qed (simp add: grounded_rootD)

lemma availLoop_step:
  "availLoop st depth seen cur \<longleftrightarrow> depth < maxDeltaChainDepth \<and> cur \<notin> set seen \<and> realRow st cur \<and>
     (case linkOf st cur of None \<Rightarrow> True | Some src \<Rightarrow> availLoop st (Suc depth) (cur # seen) src)"
  by (subst availLoop.simps) (auto simp: realRow_def linkOf_def split: option.split)

lemma availLoop_grounded:
  "availLoop st depth seen cur \<Longrightarrow> \<exists>n. depth + n \<le> maxDeltaChainDepth \<and> grounded st n cur"
proof (induction st depth seen cur rule: availLoop.induct)
  case (1 st depth seen cur)
  note s = "1.prems" [unfolded availLoop_step [of st depth]]
  show ?case
  proof (cases "linkOf st cur")
    case None
    then show ?thesis using s by (intro exI [of _ "Suc 0"]) auto
  next
    case (Some src)
    obtain row k where row: "blobOf st cur = Some row" "bSize row = Some k" "\<not> k < 0" using s by (auto simp: realRow_def)
    have d: "deltaOf st cur = Some src" "src \<noteq> 0" using Some by (auto simp: linkOf_def split: option.splits if_splits)
    have "\<exists>n. Suc depth + n \<le> maxDeltaChainDepth \<and> grounded st n src"
      using s Some by (intro "1.IH" [OF _ _ row d]) auto
    then obtain n where "Suc depth + n \<le> maxDeltaChainDepth" "grounded st n src" by blast
    then show ?thesis using s Some by (intro exI [of _ "Suc n"]) auto
  qed
qed

lemma grounded_availLoop:
  "grounded st n cur \<Longrightarrow> depth + n \<le> maxDeltaChainDepth \<Longrightarrow> (\<And>x. x \<in> set seen \<Longrightarrow> \<exists>m>n. grounded st m x) \<Longrightarrow>
     availLoop st depth seen cur"
proof (induction arbitrary: depth seen rule: grounded.induct)
  case (groundedRoot r)
  then have "r \<notin> set seen" using grounded_unique [OF grounded.groundedRoot, of st r] by fastforce
  then show ?case using groundedRoot by (subst availLoop_step) auto
next
  case (groundedLink r src n)
  have g: "grounded st (Suc n) r" using groundedLink.hyps by blast
  then have "r \<notin> set seen" using groundedLink.prems(2) grounded_unique by fastforce
  moreover have "availLoop st (Suc depth) (r # seen) src"
  proof (rule groundedLink.IH)
    show "Suc depth + n \<le> maxDeltaChainDepth" using groundedLink.prems(1) by simp
    show "\<exists>m>n. grounded st m x" if "x \<in> set (r # seen)" for x
      using that g groundedLink.prems(2) [of x] by (metis Suc_lessD lessI set_ConsD)
  qed
  ultimately show ?case using groundedLink by (subst availLoop_step) auto
qed

lemma IsAvailable_grounded: "IsAvailable st rid \<longleftrightarrow> 0 < rid \<and> (\<exists>n \<le> maxDeltaChainDepth. grounded st n rid)"
  using availLoop_grounded [of st 0 "[]" rid] grounded_availLoop [of st _ rid 0 "[]"]
  by (auto simp: IsAvailable_def checkAvailable_def)

text \<open>The memoizing walk on an empty memo decides the same.\<close>

lemma cachedAvailLoop_step:
  "snd (cachedAvailLoop st (\<lambda>_. None) depth walked cur) \<longleftrightarrow> depth < maxDeltaChainDepth \<and> cur \<notin> set walked \<and> realRow st cur \<and>
     (case linkOf st cur of None \<Rightarrow> True | Some src \<Rightarrow> snd (cachedAvailLoop st (\<lambda>_. None) (Suc depth) (walked @ [cur]) src))"
  by (subst cachedAvailLoop.simps) (auto simp: realRow_def linkOf_def Let_def split: option.split)

lemma cachedAvailLoop_empty:
  "set walked = set seen \<Longrightarrow> snd (cachedAvailLoop st (\<lambda>_. None) depth walked cur) = availLoop st depth seen cur"
proof (induction "maxDeltaChainDepth - depth" arbitrary: depth walked seen cur rule: less_induct)
  case less
  have "snd (cachedAvailLoop st (\<lambda>_. None) (Suc depth) (walked @ [cur]) src) = availLoop st (Suc depth) (cur # seen) src"
    if "depth < maxDeltaChainDepth" for src
    using that less.prems by (intro less.hyps) auto
  then show ?case using less.prems
    by (subst cachedAvailLoop_step, subst availLoop_step) (auto split: option.split)
qed

lemma cachedIsAvailable_new: "fst (cachedIsAvailable NewAvailabilityCache st rid) = IsAvailable st rid"
  using cachedAvailLoop_empty [of "[]" "[]" st 0 rid]
  by (auto simp: cachedIsAvailable_def NewAvailabilityCache_def IsAvailable_def checkAvailable_def split: prod.splits)

section \<open>Expansion needs availability\<close>

lemma rebuilds_grounded:
  assumes "storeInv st" "rebuilds e st b n r d"
  shows "grounded st n r"
  using assms(2)
proof (induction rule: rebuilds.induct)
  case (root rid d)
  then have "realRow st rid" using Load_real [OF assms(1) root(2)] blobOf_set [OF assms(1)] assms(1)
    by (fastforce simp: realRow_def storeInv_def rowOk_def)
  then show ?case using root by (auto simp: linkOf_def)
next
  case (link rid src n s dl d)
  then have "realRow st rid" using Load_real [OF assms(1) link(3)] blobOf_set [OF assms(1)] assms(1)
    by (fastforce simp: realRow_def storeInv_def rowOk_def)
  moreover have "0 < src" using rebuilds_load [OF link(2)] Load_pos by blast
  ultimately show ?case using link by (intro groundedLink [of _ _ src]) (auto simp: linkOf_def)
qed

section \<open>Filling a phantom\<close>

inductive waitsOn :: "store \<Rightarrow> int \<Rightarrow> nat \<Rightarrow> int \<Rightarrow> bool" for st p where
  waitsHere: "waitsOn st p 0 p"
| waitsLink: "r \<noteq> p \<Longrightarrow> realRow st r \<Longrightarrow> linkOf st r = Some src \<Longrightarrow> waitsOn st p n src \<Longrightarrow> waitsOn st p (Suc n) r"

lemma waitsOn_grounded: "waitsOn st p n r \<Longrightarrow> grounded st m r \<Longrightarrow> \<exists>k. grounded st k p"
proof (induction arbitrary: m rule: waitsOn.induct)
  case (waitsLink r src n)
  then show ?case using grounded_linkD [of st m r src] by blast
qed blast

lemma waitsOn_filled:
  assumes "waitsOn st p n r" "grounded st' k p" "\<And>x. x \<noteq> p \<Longrightarrow> blobOf st' x = blobOf st x \<and> deltaOf st' x = deltaOf st x"
  shows "grounded st' (k + n) r"
  using assms(1)
proof (induction rule: waitsOn.induct)
  case waitsHere
  then show ?case using assms(2) by simp
next
  case (waitsLink r src n)
  then have "realRow st' r" "linkOf st' r = Some src" using assms(3) [of r] by (auto simp: realRow_def linkOf_def)
  then show ?case using waitsLink.IH by auto
qed

lemma phantom_not_grounded: "storeInv st \<Longrightarrow> p \<in> set (sPhantom st) \<Longrightarrow> \<not> grounded st n p"
proof
  assume a: "storeInv st" "p \<in> set (sPhantom st)" "grounded st n p"
  then obtain row k where r: "blobOf st p = Some row" "bSize row = Some k" "0 \<le> k" using grounded_real [OF a(3)] by (auto simp: realRow_def)
  then have "rowOk (sPhantom st) p row" using a(1) blobOf_set [OF a(1)] by (auto simp: storeInv_def)
  then show False using r a(2) by (simp add: rowOk_def)
qed

lemma fills_grounded: "fills st p uuid st' \<Longrightarrow> grounded st' (Suc 0) p"
proof -
  assume f: "fills st p uuid st'"
  then have a: "storeInv st'" "p \<in> fst ` set (sBlob st')" "p \<notin> set (sPhantom st')" "deltaOf st p = None" "sDelta st' = sDelta st"
    unfolding fills_def by blast+
  then obtain row where row: "(p, row) \<in> set (sBlob st')" by auto
  then have "rowOk (sPhantom st') p row" using a(1) by (auto simp: storeInv_def)
  then have "realRow st' p" using row a(3) blobOf_set [OF a(1)] by (auto simp: rowOk_def realRow_def)
  then show ?thesis using a by (auto simp: linkOf_def deltaOf_def)
qed

end
