(* ===== verification/Store_Samples.thy ===== *)
theory Store_Samples
  imports Cache_Laws Availability
begin

text \<open>
  A concrete environment that satisfies the laws and a small store, for evaluating the model on: rid 1 whole content,
  rid 2 a delta against it, rid 3 a phantom, rid 4 a delta against the phantom.
\<close>

definition sampleEnv :: env where
  "sampleEnv = \<lparr>eZlib = storedZlib, eSha3 = (\<lambda>d. take 32 (d @ replicate 32 (CHR 0x00))), eGrow = (\<lambda>c n. n)\<rparr>"

definition sampleName :: "bytes \<Rightarrow> bytes" where
  "sampleName d = hexEncode (eSha3 sampleEnv d)"

definition sampleDelta :: bytes where
  "sampleDelta = ''3'' @ [LF] @ ''3@2,1ZP6K0;''"

definition sampleRow :: "bytes \<Rightarrow> bytes \<Rightarrow> blobRow" where
  "sampleRow d stored = \<lparr>bUuid = sampleName d, bSize = Some (int (length d)), bContent = Some (Compress sampleEnv stored), bRcvid = 1\<rparr>"

definition sampleStore :: store where
  "sampleStore = \<lparr>sPolicy = Some ''3'',
     sBlob = [(1, sampleRow ''abcdef'' ''abcdef''), (2, sampleRow ''cde'' sampleDelta),
              (3, \<lparr>bUuid = sampleName ''uvwxyz'', bSize = Some (-1), bContent = None, bRcvid = 0\<rparr>),
              (4, sampleRow ''wxy'' sampleDelta)],
     sDelta = [(2, 1), (4, 3)], sPhantom = [3], sUnclustered = [1, 2, 4], sPrivate = [], sShun = [sampleName ''abcdef''],
     sRcvfrom = [1], sReceipt = 1\<rparr>"

lemma sampleEnv_laws: "envLaws sampleEnv"
  by (simp add: envLaws_def grows_enough_def sampleEnv_def storedZlib_def min_def)

lemma Load_shorter:
  assumes "Load sampleEnv st r = Inr d"
  shows "\<exists>row c. blobOf st r = Some row \<and> bContent row = Some c \<and> length d \<le> length c"
proof -
  from assms obtain row c where b: "blobOf st r = Some row" "bContent row = Some c" "Decompress sampleEnv c = Inr d"
    by (auto simp: Load_iff)
  from b(3) have "length d \<le> length c"
    by (auto simp: Decompress_def sampleEnv_def storedZlib_def split: if_splits option.splits list.splits)
      (metis (no_types) One_nat_def diff_le_self le_diff_conv length_drop length_Cons add.commute le_trans list.size(4) le_add1)
  then show ?thesis using b by blast
qed

lemma sample_bounded:
  assumes "list_all (\<lambda>(r, row). case bContent row of None \<Rightarrow> True | Some c \<Rightarrow> length c < 1000) (sBlob st)"
  shows "payloadsBounded sampleEnv st"
  unfolding payloadsBounded_def
proof (intro allI impI)
  fix r d
  assume "Load sampleEnv st r = Inr d"
  from Load_shorter [OF this] obtain row c where b: "blobOf st r = Some row" "bContent row = Some c" "length d \<le> length c" by blast
  then have "(r, row) \<in> set (sBlob st)" by (simp add: blobOf_def map_of_SomeD)
  with assms b(2) have "length c < 1000" by (auto simp: list_all_iff)
  then show "length d < 2 ^ 62" using b(3) by simp
qed

lemma sampleStore_bounded: "payloadsBounded sampleEnv sampleStore"
  by (rule sample_bounded) code_simp

lemma sampleStore_inv: "storeInv sampleStore"
proof -
  have "distinct (map fst (sBlob sampleStore))" "distinct (map (\<lambda>(_, row). bUuid row) (sBlob sampleStore))"
    "distinct (map fst (sDelta sampleStore))" by code_simp+
  moreover have "\<forall>(r, row) \<in> set (sBlob sampleStore). rowOk (sPhantom sampleStore) r row"
    by (simp add: sampleStore_def rowOk_def sampleRow_def) (code_simp)
  ultimately show ?thesis by (auto simp: storeInv_def) (auto simp: sampleStore_def)
qed

lemma sample_expands:
  "Expand sampleEnv sampleStore 1 = Inr ''abcdef''" "Expand sampleEnv sampleStore 2 = Inr ''cde''" 
  by code_simp+

end
