(* ===== verification/Cache_Properties.thy ===== *)
theory Cache_Properties
  imports Store_Samples
begin

text \<open>
  Expansion through the cache against plain expansion, and what any sequence of calls on a cache keeps: the byte and
  entry bounds of its three stores, and entries that are verified content.
\<close>

section \<open>Expansion through the cache\<close>

definition verified :: "env \<Rightarrow> store \<Rightarrow> int \<Rightarrow> bytes \<Rightarrow> bool" where
  "verified e st r d \<longleftrightarrow> (\<exists>n. rebuilds e st True n r d)"

lemma verified_Expand:
  assumes "envLaws e" "payloadsBounded e st" "rebuilds e st True n rid d"
  shows "Expand e st rid = Inr d \<or> maxDeltaChainDepth < n"
  using Expand_rebuilds [OF assms(1,2)] rebuilds_weaken [OF assms(3), of False] rebuilds_named [OF assms(3)]
  by (meson not_le)

lemma cacheExpandChecked_ok:
  assumes "cacheInv (verified e st) c" "cacheExpandChecked e st rid True c = (r, c')"
  shows "cacheInv (verified e st) c' \<and> (\<forall>d. r = Inr d \<longrightarrow> verified e st rid d) \<and>
    (\<forall>n d. n \<le> maxDeltaChainDepth \<longrightarrow> rebuilds e st True n rid d \<longrightarrow> r = Inr d)"
proof (cases "map_of (cOrder c) rid")
  case None
  let ?c = "c\<lparr>cMisses := cMisses c + 1\<rparr>"
  have i: "cacheInv (\<lambda>r d. \<exists>n. rebuilds e st True n r d) ?c" using assms(1) by (simp add: cacheInv_def verified_def)
  have x: "expandChain e st rid (Some cacheHave) (Some cacheStore) True ?c = (r, c')"
    using assms(2) None by (simp add: cacheExpandChecked_def)
  have "r = Inr d" if "rebuilds e st True n rid d" "n \<le> maxDeltaChainDepth" for n d
    using lru.expand_complete [OF that i] x by simp
  then show ?thesis using lru.expand_ok [OF x i] by (auto simp: verified_def [abs_def])
next
  case (Some d)
  then have v: "verified e st rid d" using assms(1) map_of_SomeD [OF Some] by (auto simp: cacheInv_def)
  then have "d' = d" if "rebuilds e st True n rid d'" for n d'
    using rebuilds_unique [OF _ that] by (auto simp: verified_def)
  moreover have "cacheInv (verified e st) (c\<lparr>cOrder := moveToFront rid (cOrder c), cHits := cHits c + 1\<rparr>)"
    by (rule cacheInv_move [OF assms(1) Some]) simp_all
  ultimately show ?thesis using assms(2) Some v by (auto simp: cacheExpandChecked_def)
qed

text \<open>
  C17. Expansion through a cache of verified content, whatever it holds: the cache stays verified, every result is the
  one \<^verbatim>\<open>Expand\<close> returns unless the chain is deeper than \<^verbatim>\<open>Expand\<close> follows, and every chain within that depth whose rows
  all match their names is expanded to its content.  A chain with a misnamed row in its interior is refused, where
  \<^verbatim>\<open>Expand\<close> compares the last name only.
\<close>

theorem cached_expansion:
  assumes "envLaws e" "payloadsBounded e st" "cacheInv (verified e st) c" "\<not> cUnchecked c" "0 < rid"
    and "CacheExpand e st rid (Some c) = (r, Some c')"
  shows "cacheInv (verified e st) c' \<and>
    (\<forall>d. r = Inr d \<longrightarrow> Expand e st rid = Inr d \<or> (\<exists>n. maxDeltaChainDepth < n \<and> rebuilds e st True n rid d)) \<and>
    (\<forall>n d. n \<le> maxDeltaChainDepth \<longrightarrow> rebuilds e st True n rid d \<longrightarrow> r = Inr d)"
proof -
  have x: "cacheExpandChecked e st rid True c = (r, c')"
    using assms(4-6) by (auto simp: CacheExpand_def split: prod.splits)
  note ok = cacheExpandChecked_ok [OF assms(3) x]
  have "Expand e st rid = Inr d \<or> (\<exists>n. maxDeltaChainDepth < n \<and> rebuilds e st True n rid d)" if "r = Inr d" for d
    using ok that verified_Expand [OF assms(1,2)] by (metis verified_def)
  then show ?thesis using ok by blast
qed

definition sampleCache :: "(unit, unit) cache" where
  "sampleCache = projr (NewCache 1000)"

lemma sampleCache_inv: "cacheInv Q sampleCache" "\<not> cUnchecked sampleCache"
  by (simp_all add: sampleCache_def NewCache_def cacheInv_def)

text \<open>The witness expands an artifact, stored as a delta, with an empty cache and then with the cache so filled.\<close>

definition filledCache :: "(unit, unit) cache" where
  "filledCache = the (snd (CacheExpand sampleEnv sampleStore 2 (Some sampleCache)))"

lemma filledCache_run:
  "CacheExpand sampleEnv sampleStore 2 (Some sampleCache) = (Inr ''cde'', Some filledCache)"
  "map fst (cOrder filledCache) = [2, 1]" "\<not> cUnchecked filledCache"
proof -
  have x: "fst (CacheExpand sampleEnv sampleStore 2 (Some sampleCache)) = Inr ''cde''"
    "map_option (\<lambda>c. (map fst (cOrder c), cUnchecked c)) (snd (CacheExpand sampleEnv sampleStore 2 (Some sampleCache))) = Some ([2, 1], False)"
    by code_simp+
  then show "CacheExpand sampleEnv sampleStore 2 (Some sampleCache) = (Inr ''cde'', Some filledCache)"
    "map fst (cOrder filledCache) = [2, 1]" "\<not> cUnchecked filledCache"
    by (auto simp: filledCache_def prod_eq_iff)
qed

lemma cached_expansion_witness:
  "\<exists>c. cacheInv (verified sampleEnv sampleStore) filledCache \<and> map fst (cOrder filledCache) = [2, 1] \<and>
     CacheExpand sampleEnv sampleStore 1 (Some filledCache) = (Inr ''abcdef'', Some c) \<and> cacheInv (verified sampleEnv sampleStore) c"
proof -
  have pos: "0 < (2::int)" "0 < (1::int)" by simp_all
  note laws = sampleEnv_laws sampleStore_bounded
  have v: "cacheInv (verified sampleEnv sampleStore) filledCache"
    using cached_expansion [OF laws sampleCache_inv pos(1) filledCache_run(1)] by blast
  obtain r c where x: "CacheExpand sampleEnv sampleStore 1 (Some filledCache) = (r, Some c)"
    using filledCache_run(3) by (cases "cacheExpandChecked sampleEnv sampleStore 1 True filledCache") (auto simp: CacheExpand_def)
  have "fst (CacheExpand sampleEnv sampleStore 1 (Some filledCache)) = Inr ''abcdef''" by code_simp
  then show ?thesis using x v filledCache_run(2) cached_expansion [OF laws v filledCache_run(3) pos(2) x] by auto
qed

text \<open>
  One call on a cache.  The store may have changed since the last call, and \<^verbatim>\<open>Remember\<close> may be given any bytes.
\<close>

inductive cacheCall :: "env \<Rightarrow> ('k, 'v) cache \<Rightarrow> ('k, 'v) cache \<Rightarrow> bool" for e where
  callExpand: "CacheExpand e st rid (Some c) = (r, Some c') \<Longrightarrow> cacheCall e c c'"
| callExpandUnchecked: "CacheExpandUnchecked e st rid (Some c) = (r, Some c') \<Longrightarrow> cacheCall e c c'"
| callRemember: "Remember rid d c = Inr c' \<Longrightarrow> cacheCall e c c'"
| callSetDerived: "cacheCall e c (SetDerived k v c)"
| callSetDerivedSized: "SetDerivedSized k v n c = Inr c' \<Longrightarrow> cacheCall e c c'"
| callDerived: "Derived k c = (x, c') \<Longrightarrow> cacheCall e c c'"
| callDerivedSized: "DerivedSized k c = (x, c') \<Longrightarrow> cacheCall e c c'"
| callInvalidate: "cacheCall e c (Invalidate rid c)"
| callClear: "cacheCall e c (Clear c)"

text \<open>The memos: the bounded order of \<^verbatim>\<open>derived\<close> and the byte budget of \<^verbatim>\<open>sized\<close>.\<close>

definition sizedSum :: "('k \<times> 'v \<times> int) list \<Rightarrow> int" where
  "sizedSum xs = sum_list (map (\<lambda>(_, _, n). n) xs)"

definition memoInv :: "('k, 'v) cache \<Rightarrow> bool" where
  "memoInv c \<longleftrightarrow> 0 \<le> cMaxSize c \<and> distinct (map fst (cSized c)) \<and> (\<forall>(k, v, n) \<in> set (cSized c). 0 \<le> n) \<and>
     cSizedSize c = sizedSum (cSized c) \<and> cSizedSize c \<le> sizedBudget c \<and> length (cSized c) \<le> cMaxEntries c \<and>
     distinct (cDerivedOrder c) \<and> set (cDerivedOrder c) = dom (map_of (cDerived c)) \<and> length (cDerivedOrder c) \<le> maxDerived"

lemma sizedSum_simps [simp]:
  "sizedSum [] = 0" "sizedSum ((k, v, n) # xs) = n + sizedSum xs" "sizedSum (xs @ ys) = sizedSum xs + sizedSum ys"
  by (simp_all add: sizedSum_def)

lemma sizedSum_remove:
  "distinct (map fst xs) \<Longrightarrow> map_of xs k = Some (v, n) \<Longrightarrow> sizedSum (filter (\<lambda>(k', _). k' \<noteq> k) xs) = sizedSum xs - n"
proof (induction xs)
  case (Cons x xs)
  have "filter (\<lambda>(k', _). k' \<noteq> k) xs = xs" if "k \<notin> fst ` set xs" using that by (induction xs) auto
  with Cons show ?case by (cases x) (auto split: if_splits)
qed simp

text \<open>The eviction of \<^verbatim>\<open>SetDerivedSized\<close> never runs into the empty list, and ends within the budget.\<close>

lemma sizedEvict_ok:
  assumes "distinct (map fst (cSized c))" "\<forall>(k, v, n) \<in> set (cSized c). 0 \<le> n" "cSizedSize c = sizedSum (cSized c)" "0 \<le> cMaxSize c"
  shows "\<exists>c'. sizedEvict c = Inr c' \<and> distinct (map fst (cSized c')) \<and> (\<forall>(k, v, n) \<in> set (cSized c'). 0 \<le> n) \<and>
    cSizedSize c' = sizedSum (cSized c') \<and> cSizedSize c' \<le> sizedBudget c' \<and> length (cSized c') \<le> cMaxEntries c' \<and>
    c' = c\<lparr>cSized := cSized c', cSizedSize := cSizedSize c'\<rparr>"
  using assms
proof (induction c rule: sizedEvict.induct)
  case (1 c)
  show ?case
  proof (cases "sizedBudget c < cSizedSize c \<or> cMaxEntries c < length (cSized c)")
    case True
    have "cSized c \<noteq> []" using True 1(4,5) by (auto simp: sizedBudget_def)
    then obtain xs k v n where o: "cSized c = xs @ [(k, v, n)]" by (metis prod.exhaust rev_exhaust)
    let ?c = "c\<lparr>cSized := xs, cSizedSize := cSizedSize c - n\<rparr>"
    have e: "sizedEvict c = sizedEvict ?c" using True o by (subst sizedEvict.simps) simp
    have "\<exists>c'. sizedEvict ?c = Inr c' \<and> distinct (map fst (cSized c')) \<and> (\<forall>(k, v, n) \<in> set (cSized c'). 0 \<le> n) \<and>
      cSizedSize c' = sizedSum (cSized c') \<and> cSizedSize c' \<le> sizedBudget c' \<and> length (cSized c') \<le> cMaxEntries c' \<and>
      c' = ?c\<lparr>cSized := cSized c', cSizedSize := cSizedSize c'\<rparr>"
      using 1(1) [OF True] 1(2-5) o by simp
    then show ?thesis unfolding e by simp
  next
    case False
    then show ?thesis using 1(2-5) by (subst sizedEvict.simps) auto
  qed
qed

lemma SetDerivedSized_ok:
  assumes "memoInv c" "0 \<le> n"
  shows "\<exists>c'. SetDerivedSized k v n c = Inr c' \<and> memoInv c' \<and> cOrder c' = cOrder c \<and> cCurSize c' = cCurSize c \<and>
    cMaxSize c' = cMaxSize c \<and> cMaxEntries c' = cMaxEntries c \<and> cUnchecked c' = cUnchecked c"
proof (cases "sizedBudget c < n")
  case True
  then show ?thesis using assms by (simp add: SetDerivedSized_def)
next
  case False
  define c1 where "c1 = (case map_of (cSized c) k of
      Some (_, old) \<Rightarrow> c\<lparr>cSizedSize := cSizedSize c + (n - old), cSized := (k, v, n) # filter (\<lambda>(k', _). k' \<noteq> k) (cSized c)\<rparr>
    | None \<Rightarrow> c\<lparr>cSized := (k, v, n) # cSized c, cSizedSize := cSizedSize c + n, cSizedStores := cSizedStores c + 1\<rparr>)"
  have d: "distinct (map fst (filter P xs))" if "distinct (map fst xs)" for P and xs :: "('a \<times> 'b \<times> int) list"
    using that by (induction xs) auto
  have c1: "distinct (map fst (cSized c1)) \<and> (\<forall>(k, v, n) \<in> set (cSized c1). 0 \<le> n) \<and> cSizedSize c1 = sizedSum (cSized c1)"
    "cMaxSize c1 = cMaxSize c" "cMaxEntries c1 = cMaxEntries c" "cOrder c1 = cOrder c" "cCurSize c1 = cCurSize c"
    "cUnchecked c1 = cUnchecked c" "cDerived c1 = cDerived c" "cDerivedOrder c1 = cDerivedOrder c"
    using assms sizedSum_remove [of "cSized c" k] d [of "cSized c"]
    by (auto simp: c1_def memoInv_def map_of_eq_None_iff split: option.split)
  have "SetDerivedSized k v n c = sizedEvict c1" using False assms(2) by (simp add: SetDerivedSized_def c1_def)
  moreover have "0 \<le> cMaxSize c1" using c1(2) assms(1) by (simp add: memoInv_def)
  with c1 sizedEvict_ok [of c1] obtain c' where c': "sizedEvict c1 = Inr c'" "distinct (map fst (cSized c'))"
    "\<forall>(k, v, n) \<in> set (cSized c'). 0 \<le> n" "cSizedSize c' = sizedSum (cSized c')" "cSizedSize c' \<le> sizedBudget c'"
    "length (cSized c') \<le> cMaxEntries c'" "c' = c1\<lparr>cSized := cSized c', cSizedSize := cSizedSize c'\<rparr>" by blast
  have "cMaxSize c' = cMaxSize c1 \<and> cMaxEntries c' = cMaxEntries c1 \<and> cOrder c' = cOrder c1 \<and> cCurSize c' = cCurSize c1 \<and>
    cUnchecked c' = cUnchecked c1 \<and> cDerived c' = cDerived c1 \<and> cDerivedOrder c' = cDerivedOrder c1"
    by (subst (1 2 3 4 5 6 7) c'(7)) simp
  ultimately show ?thesis using c' c1 assms(1) by (auto simp: memoInv_def)
qed

lemma moveToFront_sized:
  assumes "distinct (map fst xs)" "map_of xs k = Some (v, n)"
  shows "sizedSum (moveToFront k xs) = sizedSum xs"
  using sizedSum_remove [OF assms] assms(2) by (simp add: moveToFront_def)

lemma DerivedSized_memo: "memoInv c \<Longrightarrow> DerivedSized k c = (x, c') \<Longrightarrow> memoInv c'"
  using moveToFront_facts [of "cSized c" k] moveToFront_sized [of "cSized c" k]
  by (auto simp: DerivedSized_def memoInv_def sizedBudget_def split: option.splits)

lemma map_of_drop_key: "map_of (filter (\<lambda>(k', _). k' \<noteq> k) xs) = (map_of xs)(k := None)"
  by (induction xs) auto

lemma memoInv_derived:
  assumes "memoInv c" "distinct ord" "set ord = dom (map_of der)" "length ord \<le> maxDerived"
  shows "memoInv (c\<lparr>cDerived := der, cDerivedOrder := ord\<rparr>)"
  using assms by (simp add: memoInv_def sizedBudget_def)

lemma SetDerived_memo:
  assumes "memoInv c"
  shows "memoInv (SetDerived k v c)"
proof -
  have o: "distinct (cDerivedOrder c)" "set (cDerivedOrder c) = dom (map_of (cDerived c))" "length (cDerivedOrder c) \<le> maxDerived"
    using assms by (simp_all add: memoInv_def)
  consider (known) w where "map_of (cDerived c) k = Some w" | (full) "map_of (cDerived c) k = None" "length (cDerivedOrder c) = maxDerived"
    | (room) "map_of (cDerived c) k = None" "length (cDerivedOrder c) < maxDerived" using o(3) by (cases "map_of (cDerived c) k") (auto simp: le_less)
  then show ?thesis
  proof cases
    case known
    have "memoInv (c\<lparr>cDerived := (k, v) # filter (\<lambda>(k', _). k' \<noteq> k) (cDerived c), cDerivedOrder := cDerivedOrder c\<rparr>)"
      using known by (intro memoInv_derived [OF assms o(1) _ o(3)]) (auto simp: o(2) map_of_drop_key)
    then show ?thesis using known by (simp add: SetDerived_def Let_def)
  next
    case full
    then obtain h t where t: "cDerivedOrder c = h # t" by (cases "cDerivedOrder c") (auto simp: maxDerived_def)
    have "k \<notin> set (h # t)" using full(1) o(2) t by auto
    moreover have "set t = dom ((map_of (cDerived c))(h := None))" using o t by auto
    ultimately have "memoInv (c\<lparr>cDerived := (k, v) # filter (\<lambda>(k', _). k' \<noteq> k) (filter (\<lambda>(k', _). k' \<noteq> h) (cDerived c)), cDerivedOrder := t @ [k]\<rparr>)"
      using full t o(1) by (intro memoInv_derived [OF assms]) (auto simp: map_of_drop_key simp del: filter_filter)
    then show ?thesis using full t by (simp add: SetDerived_def Let_def memoInv_def sizedBudget_def)
  next
    case room
    have "k \<notin> set (cDerivedOrder c)" using room(1) o(2) by auto
    then have "memoInv (c\<lparr>cDerived := (k, v) # filter (\<lambda>(k', _). k' \<noteq> k) (cDerived c), cDerivedOrder := cDerivedOrder c @ [k]\<rparr>)"
      using room o by (intro memoInv_derived [OF assms]) (auto simp: map_of_drop_key)
    then show ?thesis using room by (simp add: SetDerived_def Let_def memoInv_def sizedBudget_def)
  qed
qed

section \<open>Sequences of calls\<close>

text \<open>What expansion leaves alone.\<close>

definition frameOf :: "('k, 'v) cache \<Rightarrow> _" where
  "frameOf c = (cMaxSize c, cMaxEntries c, cUnchecked c, cDerived c, cDerivedOrder c, cSized c, cSizedSize c)"

lemma evictLoop_frame: "frameOf (evictLoop c) = frameOf c"
proof (induction c rule: evictLoop.induct)
  case (1 c)
  then show ?case by (subst evictLoop.simps) (auto simp: frameOf_def evictOldest_def)
qed

lemma storeOwned_frame: "frameOf (storeOwnedLocked r d c) = frameOf c"
  by (auto simp: storeOwnedLocked_def Let_def evictLoop_frame frameOf_def [of c]) (auto simp: frameOf_def)

interpretation framed: content_cache cacheHave cacheStore "\<lambda>Q c. cacheInv Q c \<and> frameOf c = F" for F
proof
  fix Q c r d c'
  assume i: "cacheInv Q c \<and> frameOf c = F"
  show "Q r d" if "cacheHave r c = (Some d, c')" using lru.have_hit [OF _ that] i by blast
  show "cacheInv Q (cacheStore r d c) \<and> frameOf (cacheStore r d c) = F" if "Q r d"
    using i that lru.put_inv [of Q c r d] storeOwned_frame [of r d c] by (auto simp: cacheStore_def)
next
  fix Q c r x c'
  assume i: "cacheInv Q c \<and> frameOf c = F" "cacheHave r c = (x, c')"
  then have "cacheInv Q c'" using lru.have_inv [of Q c r x c'] by blast
  moreover have "frameOf c' = F" using i by (auto simp: cacheHave_def frameOf_def split: option.splits)
  ultimately show "cacheInv Q c' \<and> frameOf c' = F" by blast
qed

lemma memoInv_frame: "frameOf c' = frameOf c \<Longrightarrow> memoInv c' = memoInv c"
  by (auto simp: frameOf_def memoInv_def sizedBudget_def)

lemma cacheInv_entries:
  "cOrder c' = cOrder c \<Longrightarrow> cCurSize c' = cCurSize c \<Longrightarrow> cMaxSize c' = cMaxSize c \<Longrightarrow> cMaxEntries c' = cMaxEntries c \<Longrightarrow>
     cacheInv Q c' = cacheInv Q c"
  by (simp add: cacheInv_def)

lemma cacheInv_hit:
  "cacheInv Q c \<Longrightarrow> map_of (cOrder c) r = Some d \<Longrightarrow> cacheInv Q (c\<lparr>cOrder := moveToFront r (cOrder c), cHits := h\<rparr>)"
  "cacheInv Q c \<Longrightarrow> map_of (cOrder c) r = Some d \<Longrightarrow> cacheInv Q (c\<lparr>cOrder := moveToFront r (cOrder c)\<rparr>)"
  by (erule (1) cacheInv_move; simp)+

text \<open>Expansion on any store keeps what \<^verbatim>\<open>have\<close> and \<^verbatim>\<open>put\<close> keep, whatever the entries are.\<close>

abbreviation anyContent :: "int \<Rightarrow> bytes \<Rightarrow> bool" where
  "anyContent \<equiv> \<lambda>_ _. True"

context content_cache
begin

lemma replayLoop_keeps:
  "replayLoop e st (Some put) check rids i content zr scratch c = (r, c') \<Longrightarrow> inv anyContent c \<Longrightarrow> inv anyContent c'"
proof (induction rids arbitrary: i content zr scratch c)
  case (Cons rid rids)
  note p = put_inv [of anyContent c rid, OF Cons.prems(2)]
  show ?case using Cons.prems Cons.IH [OF _ p] by (auto split: prod.splits sum.splits option.splits)
qed simp

lemma startContent_keeps:
  "startContent e st (Some put) check rootId base c = (r, c') \<Longrightarrow> inv anyContent c \<Longrightarrow> inv anyContent c'"
  by (auto simp: startContent_def split: sum.splits option.splits intro: put_inv)

lemma expandChain_keeps:
  assumes "expandChain e st rid (Some hv) (Some put) check c = (r, c')" "inv anyContent c"
  shows "inv anyContent c'"
proof -
  obtain w c1 where w: "walkDeltaChain st rid (Some hv) c = (w, c1)" by (cases "walkDeltaChain st rid (Some hv) c")
  have i: "inv anyContent c1"
    using w assms(2) walkLoop_ok [of st rid rid "[]" c _ _ anyContent]
    by (auto simp: walkDeltaChain_def split: if_splits prod.splits)
  then show ?thesis
    using assms(1) w
    by (auto simp: expandChain_def split: prod.splits sum.splits if_splits dest!: startContent_keeps replayLoop_keeps)
qed

end

lemma cacheExpandChecked_frame:
  assumes "cacheInv anyContent c" "cacheExpandChecked e st rid check c = (r, c')"
  shows "cacheInv anyContent c' \<and> frameOf c' = frameOf c"
proof (cases "map_of (cOrder c) rid")
  case None
  let ?c = "c\<lparr>cMisses := cMisses c + 1\<rparr>"
  have i: "cacheInv anyContent ?c \<and> frameOf ?c = frameOf c"
    using assms(1) by (simp add: cacheInv_def frameOf_def)
  have "expandChain e st rid (Some cacheHave) (Some cacheStore) check ?c = (r, c')"
    using assms(2) None by (simp add: cacheExpandChecked_def)
  from framed.expandChain_keeps [OF this i] show ?thesis .
next
  case (Some d)
  then show ?thesis using assms cacheInv_hit(1) [OF assms(1) Some] by (auto simp: cacheExpandChecked_def frameOf_def)
qed

lemma CacheExpand_frame:
  assumes "cacheInv anyContent c"
    and "CacheExpand e st rid (Some c) = (r, Some c') \<or> CacheExpandUnchecked e st rid (Some c) = (r, Some c')"
  shows "cacheInv anyContent c' \<and> frameOf c' = frameOf c"
  using assms(2) cacheExpandChecked_frame [OF assms(1)] assms(1)
  by (auto simp: CacheExpand_def CacheExpandUnchecked_def split: if_splits prod.splits)

definition goodCache :: "int \<Rightarrow> ('k, 'v) cache \<Rightarrow> bool" where
  "goodCache m c \<longleftrightarrow> cacheInv anyContent c \<and> memoInv c \<and> cMaxSize c = m \<and> cMaxEntries c = maxCacheEntries"

lemma filter_row_sum:
  "distinct (map fst xs) \<Longrightarrow> distinct (map fst (filter P xs))"
  by (induction xs) auto

lemma Invalidate_good:
  assumes "goodCache m c"
  shows "goodCache m (Invalidate rid c)"
proof -
  have k: "0 \<le> m" "memoInv (Invalidate rid c)" using assms
    by (auto simp: goodCache_def memoInv_def Invalidate_def dropDerivedLocked_def dropSizedLocked_def sizedBudget_def Let_def split: option.split)
  have "cacheInv anyContent (Invalidate rid c)"
  proof (cases "map_of (cOrder c) rid")
    case None
    then show ?thesis using assms
      by (simp add: goodCache_def Invalidate_def dropDerivedLocked_def dropSizedLocked_def Let_def cacheInv_def)
  next
    case (Some d)
    have i: "cacheInv anyContent c" using assms by (simp add: goodCache_def)
    then have s: "cacheSum (filter (\<lambda>(r, _). r \<noteq> rid) (cOrder c)) = cCurSize c - entrySize d"
      using cacheSum_remove [OF _ Some] by (simp add: cacheInv_def)
    have "length (filter (\<lambda>(r, _). r \<noteq> rid) (cOrder c)) \<le> cMaxEntries c"
      using i by (intro le_trans [OF length_filter_le]) (simp add: cacheInv_def)
    moreover have "cCurSize c - entrySize d \<le> cMaxSize c" using i by (auto simp: cacheInv_def entrySize_def)
    ultimately show ?thesis using i s Some
      by (simp add: cacheInv_def Invalidate_def dropDerivedLocked_def dropSizedLocked_def Let_def filter_row_sum)
  qed
  then show ?thesis using k assms
    by (auto simp: goodCache_def Invalidate_def dropDerivedLocked_def dropSizedLocked_def Let_def split: option.split)
qed

lemma cacheCall_good:
  assumes "cacheCall e c c'" "goodCache m c"
  shows "goodCache m c'"
  using assms(1)
proof cases
  case (callExpand st rid r)
  then show ?thesis using CacheExpand_frame [of c e st rid r c'] assms(2) memoInv_frame [of c' c]
    by (auto simp: goodCache_def frameOf_def)
next
  case (callExpandUnchecked st rid r)
  then show ?thesis using CacheExpand_frame [of c e st rid r c'] assms(2) memoInv_frame [of c' c]
    by (auto simp: goodCache_def frameOf_def)
next
  case (callRemember rid d)
  have "cacheInv anyContent (storeOwnedLocked rid d c)" using storeOwned_inv assms(2) by (auto simp: goodCache_def)
  then show ?thesis using callRemember assms(2) storeOwned_frame [of rid d c] memoInv_frame [of c' c] cacheInv_hit(2) [of anyContent c rid]
    by (auto simp: goodCache_def Remember_def frameOf_def split: if_splits)
next
  case (callSetDerived k v)
  have "cOrder c' = cOrder c \<and> cCurSize c' = cCurSize c \<and> cMaxSize c' = cMaxSize c \<and> cMaxEntries c' = cMaxEntries c"
    by (auto simp: callSetDerived SetDerived_def Let_def)
  moreover have "memoInv c'" using assms(2) SetDerived_memo [of c k v] callSetDerived by (simp add: goodCache_def)
  ultimately show ?thesis using assms(2) cacheInv_entries [of c' c] by (simp add: goodCache_def)
next
  case (callSetDerivedSized k v n)
  then have "0 \<le> n" by (auto simp: SetDerivedSized_def split: if_splits)
  then show ?thesis using SetDerivedSized_ok [of c n k v] assms(2) callSetDerivedSized cacheInv_entries [of c' c]
    by (auto simp: goodCache_def)
next
  case (callDerived k x)
  then show ?thesis using assms(2) memoInv_frame [of c' c] cacheInv_entries [of c' c]
    by (auto simp: goodCache_def Derived_def frameOf_def split: option.splits)
next
  case (callDerivedSized k x)
  then show ?thesis using assms(2) DerivedSized_memo [of c k x c'] cacheInv_entries [of c' c]
    by (auto simp: goodCache_def DerivedSized_def split: option.splits)
next
  case (callInvalidate rid)
  then show ?thesis using Invalidate_good [OF assms(2)] by simp
next
  case callClear
  then show ?thesis using assms(2)
    by (auto simp: goodCache_def Clear_def dropDerivedLocked_def dropSizedLocked_def cacheInv_def memoInv_def sizedBudget_def)
qed

text \<open>
  C25. The cache stays within its bounds: after any sequence of calls on a new cache of \<open>m\<close> bytes, on stores that may
  change between the calls, the content entries total at most \<open>m\<close> bytes and 100000 entries, the sized memo at most a
  quarter of \<open>m\<close> and 100000 entries, at most 32 derived values are kept, and storing a sized value never runs its
  eviction into the empty list.
\<close>

theorem cache_bounds:
  assumes "NewCache m = Inr c0 \<or> NewUncheckedCache m = Inr c0" "(cacheCall e)\<^sup>*\<^sup>* c0 c" "0 \<le> n"
  shows "cacheSum (cOrder c) \<le> m \<and> length (cOrder c) \<le> 100000 \<and> distinct (map fst (cOrder c)) \<and>
    sizedSum (cSized c) \<le> m div 4 \<and> length (cSized c) \<le> 100000 \<and> distinct (map fst (cSized c)) \<and>
    card (dom (map_of (cDerived c))) \<le> 32 \<and> (\<exists>c'. SetDerivedSized k v n c = Inr c')"
proof -
  have "goodCache m c0" using assms(1)
    by (auto simp: NewUncheckedCache_def NewCache_def goodCache_def cacheInv_def memoInv_def sizedBudget_def split: if_splits)
  with assms(2) have g: "goodCache m c" by (induction rule: rtranclp_induct) (auto intro: cacheCall_good)
  then have "card (dom (map_of (cDerived c))) = length (cDerivedOrder c)"
    by (metis distinct_card goodCache_def memoInv_def)
  then show ?thesis using g SetDerivedSized_ok [of c n k v] assms(3)
    by (auto simp: goodCache_def cacheInv_def memoInv_def sizedBudget_def maxCacheEntries_def maxDerived_def)
qed

text \<open>The witness stores two sized values that do not fit the quarter of 1000 bytes together.\<close>

lemma cache_bounds_witness:
  "\<exists>c1 c2. SetDerivedSized False () 200 (projr (NewCache 1000)) = Inr c1 \<and> SetDerivedSized True () 100 c1 = Inr c2 \<and>
     map_of (cSized c2) True = Some ((), 100) \<and> sizedSum (cSized c2) \<le> 250 \<and> length (cSized c2) \<le> 100000"
proof -
  let ?c0 = "projr (NewCache 1000) :: (bool, unit) cache"
  have n: "NewCache 1000 = Inr ?c0" by (simp add: NewCache_def)
  obtain c1 c2 where s: "SetDerivedSized False () 200 ?c0 = Inr c1" "SetDerivedSized True () 100 c1 = Inr c2"
    "map_of (cSized c2) True = Some ((), 100)"
    by (simp add: NewCache_def SetDerivedSized_def sizedEvict.simps sizedBudget_def maxCacheEntries_def)
  have "(cacheCall sampleEnv)\<^sup>*\<^sup>* ?c0 c2"
    using callSetDerivedSized [OF s(1)] callSetDerivedSized [OF s(2)] by (meson converse_rtranclp_into_rtranclp r_into_rtranclp)
  from cache_bounds [OF disjI1 [OF n] this, of 0 False "()"] s show ?thesis by auto
qed

end
