(* ===== verification/Store_Properties.thy ===== *)
theory Store_Properties
  imports Cache_Properties
begin

text \<open>The properties of the storage packages \<^verbatim>\<open>blob\<close>, \<^verbatim>\<open>content\<close> and \<^verbatim>\<open>shun\<close>, with their witnesses.\<close>

section \<open>Expansion\<close>

text \<open>
  C6. Expansion is the meaning of the chain: \<^verbatim>\<open>content.Expand\<close>, with its bounded walk, its reused inflater and its two
  alternating scratch buffers, returns \<open>d\<close> exactly when the chain of at most 16384 rows rebuilds \<open>d\<close> and \<open>d\<close> hashes to
  the artifact's name.
\<close>

theorem Expand_meaning:
  assumes "envLaws e" "payloadsBounded e st"
  shows "Expand e st rid = Inr d \<longleftrightarrow>
    (\<exists>n \<le> maxDeltaChainDepth. rebuilds e st False n rid d) \<and> bindToName e st rid d = Inr ()"
  by (rule Expand_rebuilds [OF assms])

lemma Expand_meaning_witness:
  "envLaws sampleEnv \<and> payloadsBounded sampleEnv sampleStore \<and>
     (\<exists>n \<le> maxDeltaChainDepth. rebuilds sampleEnv sampleStore False n 2 ''cde'') \<and> bindToName sampleEnv sampleStore 2 ''cde'' = Inr ()"
  using sampleEnv_laws sampleStore_bounded Expand_meaning [OF sampleEnv_laws sampleStore_bounded, of 2 "''cde''"] sample_expands(2)
  by blast

text \<open>
  C27. A chain that never ends is refused: when every row reached from \<open>rid\<close> is stored as a delta, as on a cycle of
  delta rows, the walk stops and \<^verbatim>\<open>Expand\<close> fails with \<^verbatim>\<open>ErrChainUnresolvable\<close>.
\<close>

theorem Expand_endless:
  assumes "0 < rid" "rid \<in> S" "\<forall>x \<in> S. \<exists>y \<in> S. deltaOf st x = Some y"
  shows "\<exists>msg x. Expand e st rid = Inl (SWrap ''content.Expand: %w'' [] (ErrChainUnresolvable msg x))"
proof -
  have "\<exists>msg x. fst (walkLoop st rid None cur chain ()) = Inl (ErrChainUnresolvable msg x)" if "cur \<in> S" for cur chain
    using that
  proof (induction "maxDeltaChainDepth - length chain" arbitrary: cur chain rule: less_induct)
    case less
    then obtain y where y: "y \<in> S" "deltaOf st cur = Some y" using assms(3) by blast
    show ?case
    proof (cases "cur \<in> set chain \<or> maxDeltaChainDepth \<le> length (cur # chain)")
      case True
      then show ?thesis using y(2) by (subst walkLoop.simps) auto
    next
      case False
      then have "\<exists>msg x. fst (walkLoop st rid None y (cur # chain) ()) = Inl (ErrChainUnresolvable msg x)"
        using y(1) by (intro less.hyps) auto
      then show ?thesis using y(2) False by (subst walkLoop.simps) auto
    qed
  qed
  from this [OF assms(2), of "[]"] obtain msg x where w: "fst (walkLoop st rid None rid [] ()) = Inl (ErrChainUnresolvable msg x)" by blast
  then have "walkDeltaChain st rid None () = (Inl (ErrChainUnresolvable msg x), ())"
    using assms(1) by (cases "walkLoop st rid None rid [] ()") (simp add: walkDeltaChain_def)
  then show ?thesis using assms(1) by (simp add: Expand_def expandChain_def)
qed

lemma Expand_endless_witness:
  "\<exists>msg x. Expand sampleEnv (sampleStore\<lparr>sDelta := [(2, 1), (1, 2)]\<rparr>) 2 = Inl (SWrap ''content.Expand: %w'' [] (ErrChainUnresolvable msg x))"
proof -
  have "\<forall>x \<in> {1, 2}. \<exists>y \<in> {1, 2}. deltaOf (sampleStore\<lparr>sDelta := [(2, 1), (1, 2)]\<rparr>) x = Some y" by (simp add: deltaOf_def)
  from Expand_endless [OF _ _ this, of 2] show ?thesis by simp
qed

section \<open>Availability\<close>

text \<open>
  C26. Availability is a grounded chain: \<^verbatim>\<open>IsAvailable\<close> holds exactly when the delta chain of at most 16384 present rows
  ends in a whole row, the memoizing variant decides the same on an empty memo, and every artifact that expands is
  available.
\<close>

theorem availability:
  assumes "envLaws e" "payloadsBounded e st" "storeInv st"
  shows "(IsAvailable st rid \<longleftrightarrow> 0 < rid \<and> (\<exists>n \<le> maxDeltaChainDepth. grounded st n rid)) \<and>
    fst (cachedIsAvailable NewAvailabilityCache st rid) = IsAvailable st rid \<and>
    (\<forall>d. Expand e st rid = Inr d \<longrightarrow> IsAvailable st rid)"
proof -
  have "IsAvailable st rid" if x: "Expand e st rid = Inr d" for d
  proof -
    obtain n where n: "n \<le> maxDeltaChainDepth" "rebuilds e st False n rid d" using x Expand_rebuilds [OF assms(1,2)] by blast
    then have "0 < rid" using rebuilds_load Load_pos by blast
    then show ?thesis using n rebuilds_grounded [OF assms(3) n(2)] IsAvailable_grounded by blast
  qed
  then show ?thesis using IsAvailable_grounded cachedIsAvailable_new by blast
qed

lemma availability_witness: "storeInv sampleStore \<and> IsAvailable sampleStore 2"
  using availability [OF sampleEnv_laws sampleStore_bounded sampleStore_inv, of 2] sample_expands(2) sampleStore_inv by blast

section \<open>Storing content\<close>

lemma Store_written:
  assumes "Store e st c = Inr ((rid, uuid), st')" "isPhantom st rid"
  shows "\<exists>alg. awaited st uuid \<and> hashE (algHash (eSha3 e) alg (Some (case c of None \<Rightarrow> [] | Some c \<Rightarrow> c))) = Inr uuid \<and>
    writeVerified e st alg uuid (case c of None \<Rightarrow> [] | Some c \<Rightarrow> c) = Inr (rid, st')"
proof -
  let ?c = "case c of None \<Rightarrow> [] | Some c \<Rightarrow> c"
  obtain naming u y where n: "NamingOf st = Inr naming" "hashE (algHash (eSha3 e) (nNew naming) (Some ?c)) = Inr u"
    "existingName e st naming u ?c = Inr y"
    using assms(1) unfolding Store_def Let_def by (auto simp: bindE_eq_Inr_iff)
  show ?thesis
  proof (cases y)
    case None
    then have "u = uuid" "writeVerified e st (nNew naming) u ?c = Inr (rid, st')"
      using assms(1) n by (auto simp: Store_def Let_def bindE_eq_Inr_iff postRid_def split: if_splits)
    then show ?thesis using n None existingName_None by blast
  next
    case (Some p)
    then have "p = (rid, uuid)" using assms(1) n by (auto simp: Store_def Let_def postRid_def split: if_splits prod.splits)
    then have "\<not> isPhantom st rid" using n(3) Some
      by (auto simp: existingName_def Exists_def bindE_eq_Inr_iff split: if_splits option.splits)
    then show ?thesis using assms(2) by contradiction
  qed
qed

lemma writeVerified_row:
  assumes "writeVerified e st alg uuid content = Inr (rid, st')"
  obtains st1 where "writeRow st uuid (int (length content)) (Compress e content) = Inr (rid, st1)" "st' = markUnclustered st1 rid"
  using assms by (auto simp: writeVerified_def bindE_eq_Inr_iff split: if_splits)

lemma algHash_name:
  assumes "envLaws e" "hashE (algHash (eSha3 e) alg (Some d)) = Inr uuid"
  shows "bindToUUID e rid uuid d = Inr ()"
  using assms by (cases alg) (auto simp: algHash_def SHA3_def SHA1_def bindToUUID_def hashE_def envLaws_def)

lemma Store_fills:
  assumes "storeInv st" "Store e st c = Inr ((rid, uuid), st')" "isPhantom st rid"
  obtains st1 where "fills st rid uuid st1" "st' = markUnclustered st1 rid"
proof -
  obtain alg where w: "awaited st uuid" "writeVerified e st alg uuid (case c of None \<Rightarrow> [] | Some c \<Rightarrow> c) = Inr (rid, st')"
    using Store_written [OF assms(2,3)] by blast
  from w(2) obtain st1 where "writeRow st uuid (int (length (case c of None \<Rightarrow> [] | Some c \<Rightarrow> c))) (Compress e (case c of None \<Rightarrow> [] | Some c \<Rightarrow> c)) = Inr (rid, st1)"
    "st' = markUnclustered st1 rid" by (rule writeVerified_row)
  then show thesis using that writeRow_fills [OF assms(1) w(1)] by blast
qed

lemma fills_rest:
  "fills st p uuid st1 \<Longrightarrow> deltaOf st p = None \<and> sDelta st1 = sDelta st \<and> (\<forall>x. x \<noteq> p \<longrightarrow> blobOf st1 x = blobOf st x)"
  unfolding fills_def by (elim conjE, intro conjI)

lemma fills_load:
  assumes "storeInv st" "fills st rid uuid st1" "Load e st1 r = Inr d" "r \<noteq> rid"
  shows "Load e st r = Inr d"
proof -
  have "blobOf st1 r = blobOf st r" using assms(2,4) unfolding fills_def by blast
  then show ?thesis using assms(3) Load_blobOf [of st1 r st e] by simp
qed

text \<open>
  C23. What is stored is read back: when \<^verbatim>\<open>Store\<close> writes content, into a new row or into a phantom that waits for it,
  \<^verbatim>\<open>Expand\<close> of the rid it returns gives the content.
\<close>

theorem Store_Expand:
  assumes "envLaws e" "payloadsBounded e st" "storeInv st" "length c < 2 ^ 62"
    and "Store e st (Some c) = Inr ((rid, uuid), st')" "isPhantom st rid"
  shows "Expand e st' rid = Inr c"
proof -
  obtain alg where w: "awaited st uuid" "hashE (algHash (eSha3 e) alg (Some c)) = Inr uuid" "writeVerified e st alg uuid c = Inr (rid, st')"
    using Store_written [OF assms(5,6)] by auto
  from w(3) obtain st1 where r: "writeRow st uuid (int (length c)) (Compress e c) = Inr (rid, st1)" "st' = markUnclustered st1 rid"
    by (rule writeVerified_row)
  note f = writeRow_fills [OF assms(3) w(1) r(1)]
  obtain i where row: "blobOf st1 rid = Some \<lparr>bUuid = uuid, bSize = Some (int (length c)), bContent = Some (Compress e c), bRcvid = i\<rparr>"
    using writeRow_row [OF assms(3) r(1)] by blast
  have i1: "storeInv st1" using writeRow_inv [OF assms(3) r(1)] by blast
  have "0 < rid" using row blobOf_set [OF i1] i1 by (auto simp: storeInv_def rowOk_def)
  then have L: "Load e st1 rid = Inr c" using row by (intro Load_whole [OF assms(1)]) auto
  have Ls: "Load e st' x = Load e st1 x" for x by (rule Load_blobOf) (simp add: r(2))
  have "deltaOf st rid = None" "sDelta st1 = sDelta st" using f unfolding fills_def by blast+
  then have d: "deltaOf st' rid = None" by (simp add: r(2) markUnclustered_def deltaOf_def)
  have "rebuilds e st' False (Suc 0) rid c" using d L Ls by (auto simp: checkNode_def)
  moreover have "bindToName e st' rid c = Inr ()" using algHash_name [OF assms(1) w(2), of rid] row by (simp add: bindToName_def r(2))
  moreover have "payloadsBounded e st'" unfolding payloadsBounded_def
  proof (intro allI impI)
    fix x z
    assume "Load e st' x = Inr z"
    then show "length z < 2 ^ 62"
      using L Ls fills_load [OF assms(3) f, of e x z] assms(2,4) by (cases "x = rid") (auto simp: payloadsBounded_def)
  qed
  moreover have "Suc 0 \<le> maxDeltaChainDepth" by (simp add: maxDeltaChainDepth_def)
  ultimately show ?thesis using Expand_rebuilds [OF assms(1)] by blast
qed

definition filledStore :: store where
  "filledStore = snd (projr (Store sampleEnv sampleStore (Some ''uvwxyz'')))"

lemma filled_ok: "Store sampleEnv sampleStore (Some ''uvwxyz'') = Inr ((3, sampleName ''uvwxyz''), filledStore)" "isPhantom sampleStore 3"
  by code_simp+

lemma Store_Expand_witness: "Expand sampleEnv filledStore 3 = Inr ''uvwxyz''"
  using Store_Expand [OF sampleEnv_laws sampleStore_bounded sampleStore_inv _ filled_ok] by simp

text \<open>
  C24. A filled phantom releases everything that waits on it: an artifact whose chain leads through present rows to a
  phantom is not available, and it is available as soon as \<^verbatim>\<open>Store\<close> has filled the phantom.
\<close>

theorem phantom_filled:
  assumes "storeInv st" "p \<in> set (sPhantom st)" "waitsOn st p n rid" "n < maxDeltaChainDepth" "0 < rid"
    and "Store e st c = Inr ((p, uuid), st')"
  shows "\<not> IsAvailable st rid \<and> IsAvailable st' rid"
proof
  show "\<not> IsAvailable st rid"
    using waitsOn_grounded [OF assms(3)] phantom_not_grounded [OF assms(1,2)] IsAvailable_grounded by blast
  have "p \<in> fst ` set (sBlob st)" using assms(1,2) unfolding storeInv_def by (elim conjE) (rule subsetD)
  then obtain row where "(p, row) \<in> set (sBlob st)" by auto
  then have "isPhantom st p" using phantom_row [OF assms(1)] assms(2) by blast
  from Store_fills [OF assms(1,6) this] obtain st1 where f: "fills st p uuid st1" and st': "st' = markUnclustered st1 p" .
  have t: "deltaOf st p = None" "sDelta st1 = sDelta st" "\<forall>x. x \<noteq> p \<longrightarrow> blobOf st1 x = blobOf st x" using fills_rest [OF f] by blast+
  have b: "blobOf st' x = blobOf st1 x" "deltaOf st' x = deltaOf st x" for x
    using t(2) by (simp_all add: st' markUnclustered_def deltaOf_def blobOf_def)
  have "grounded st' (Suc 0) p"
    using grounded_real [OF fills_grounded [OF f]] t(1) by (intro groundedRoot) (simp_all add: realRow_def linkOf_def b)
  from waitsOn_filled [OF assms(3) this] have "grounded st' (Suc n) rid" using b t(3) by simp
  then show "IsAvailable st' rid" using assms(4,5) IsAvailable_grounded by (meson Suc_leI)
qed

lemma phantom_filled_witness: "\<not> IsAvailable sampleStore 4 \<and> IsAvailable filledStore 4"
proof -
  have "realRow sampleStore 4" "linkOf sampleStore 4 = Some 3" "3 \<in> set (sPhantom sampleStore)"
    by (simp_all add: realRow_def linkOf_def blobOf_def deltaOf_def sampleStore_def sampleRow_def)
  from phantom_filled [OF sampleStore_inv this(3) waitsLink [OF _ this(1,2) waitsHere] _ _ filled_ok(1)]
  show ?thesis by (simp add: maxDeltaChainDepth_def)
qed

section \<open>Rewriting and purging\<close>

lemma undeltaAll_names:
  "undeltaAll e xs st = Inr st1 \<Longrightarrow> map_option bUuid (blobOf st1 r) = map_option bUuid (blobOf st r)"
proof (induction xs arbitrary: st)
  case (Cons x xs)
  then obtain full where "undeltaAll e xs (writeFull e st x full) = Inr st1" by (auto simp: bindE_eq_Inr_iff)
  then show ?case using Cons.IH [of "writeFull e st x full"] by (cases "blobOf st r") (auto simp: writeFull_def)
qed simp

lemma Purge_names:
  assumes "Purge e st = Inr (res, st')" "r \<notin> set (toShun st)"
  shows "map_option bUuid (blobOf st' r) = map_option bUuid (blobOf st r)"
proof -
  obtain xs st1 where u: "undeltaAll e xs st = Inr st1" and st': "st' = cleanPrivate (deleteShunned (toShun st) st1)"
    using assms(1) by (auto simp: Purge_def Let_def bindE_eq_Inr_iff)
  have "map_of (filter (\<lambda>(x, _). x \<notin> set ts) rows) r = map_of rows r" if "r \<notin> set ts" for ts and rows :: "(int \<times> blobRow) list"
    using that by (induction rows) auto
  then have "blobOf st' r = blobOf st1 r" using assms(2) by (simp add: st' cleanPrivate_def deleteShunned_def blobOf_def)
  then show ?thesis using undeltaAll_names [OF u] by simp
qed

text \<open>
  C16. The tables stay well formed: from a well-formed store every sequence of writes, deltifications and visibility
  changes leads to a well-formed store, in which every artifact still has its name.
\<close>

theorem reachable_store:
  assumes "storeInv st" "(boundedStep e)\<^sup>*\<^sup>* st st'"
  shows "storeInv st' \<and> (\<forall>r u. nameOf st r = Some u \<longrightarrow> nameOf st' r = Some u)"
  using writers.reach_inv [OF assms(2,1)] writers.reach_name [OF assms(2,1)] by blast

lemma sample_step: "boundedStep sampleEnv sampleStore filledStore"
  unfolding boundedStep_def using sampleEnv_laws sampleStore_bounded ws_Store [OF filled_ok(1)] by blast

lemma reachable_store_witness: "storeInv filledStore \<and> nameOf filledStore 1 = Some (sampleName ''abcdef'')"
proof -
  have "nameOf sampleStore 1 = Some (sampleName ''abcdef'')" by (simp add: nameOf_def blobOf_def sampleStore_def sampleRow_def)
  then show ?thesis using reachable_store [OF sampleStore_inv r_into_rtranclp, OF sample_step] by blast
qed

text \<open>
  C5. No write changes content: whatever sequence of stores, received deltas, deltifications, undeltifications and
  visibility changes runs, an artifact that expanded before expands to the same bytes after, or its chain has grown
  past the depth \<^verbatim>\<open>Expand\<close> follows and still rebuilds those bytes.
\<close>

theorem reachable_content:
  assumes "storeInv st" "(boundedStep e)\<^sup>*\<^sup>* st st'" "envLaws e" "payloadsBounded e st" "payloadsBounded e st'"
    and "Expand e st r = Inr d"
  shows "Expand e st' r = Inr d \<or> (\<exists>n. maxDeltaChainDepth < n \<and> rebuilds e st' False n r d)"
  by (rule writers.reach_expand [OF assms(2,1,3-6)])

lemma filledStore_bounded: "payloadsBounded sampleEnv filledStore"
  by (rule sample_bounded) code_simp

lemma reachable_content_witness:
  "Expand sampleEnv filledStore 2 = Inr ''cde'' \<or> (\<exists>n. maxDeltaChainDepth < n \<and> rebuilds sampleEnv filledStore False n 2 ''cde'')"
  by (rule reachable_content [OF sampleStore_inv r_into_rtranclp sampleEnv_laws sampleStore_bounded filledStore_bounded sample_expands(2)])
    (rule sample_step)

text \<open>
  C12. Purging removes the shunned artifacts and nothing else: no row of the purged store has a shunned name, and every
  artifact that expanded before and is not itself shunned expands to the same bytes, also when it was stored as a
  delta against a shunned one.
\<close>

theorem Purge_safe:
  assumes "envLaws e" "payloadsBounded e st" "payloadsBounded e st'" "Purge e st = Inr (res, st')"
  shows "(\<forall>(r, row) \<in> set (sBlob st'). bUuid row \<notin> set (sShun st')) \<and>
    (\<forall>r d. r \<notin> set (toShun st) \<longrightarrow> Expand e st r = Inr d \<longrightarrow> Expand e st' r = Inr d)"
proof -
  have "Expand e st' r = Inr d" if a: "r \<notin> set (toShun st)" "Expand e st r = Inr d" for r d
  proof -
    obtain n where n: "n \<le> maxDeltaChainDepth" "rebuilds e st False n r d" "bindToName e st r d = Inr ()"
      using a(2) Expand_rebuilds [OF assms(1,2)] by blast
    obtain m where m: "m \<le> n" "rebuilds e st' False m r d" using Purge_keeps [OF assms(1,2,4) n(2) a(1)] by blast
    have "bindToName e st' r d = Inr ()"
      using n(3) checkNode_name [OF Purge_names [OF assms(4) a(1)], of e True d] by simp
    then show ?thesis using n m Expand_rebuilds [OF assms(1,3)] by (meson le_trans)
  qed
  then show ?thesis using Purge_removes [OF assms(4,1,2)] by blast
qed

lemma Purge_safe_witness:
  "\<exists>res st'. Purge sampleEnv sampleStore = Inr (res, st') \<and> Expand sampleEnv st' 2 = Inr ''cde'' \<and>
     (\<forall>(r, row) \<in> set (sBlob st'). bUuid row \<notin> set (sShun st'))"
proof -
  let ?st = "cleanPrivate (deleteShunned [1] (writeFull sampleEnv sampleStore 2 ''cde''))"
  have ts: "toShun sampleStore = [1]" by code_simp
  have "map fst (filter (\<lambda>(_, src). src \<in> set [1]) (sDelta sampleStore)) = [2]" by (simp add: sampleStore_def)
  then obtain res where p: "Purge sampleEnv sampleStore = Inr (res, ?st)"
    by (simp add: Purge_def Let_def ts sample_expands(2))
  have b: "payloadsBounded sampleEnv ?st" by (rule sample_bounded) code_simp
  note safe = Purge_safe [OF sampleEnv_laws sampleStore_bounded b p]
  have "Expand sampleEnv ?st 2 = Inr ''cde''" using safe [THEN conjunct2, rule_format, of 2 "''cde''"] ts sample_expands(2) by simp
  with p safe [THEN conjunct1] show ?thesis by blast
qed







end
