(* ===== verification/Merge_Diff.thy ===== *)
theory Merge_Diff
  imports Hash
begin

text \<open>
  The line and token diff of \<^verbatim>\<open>src/internal/merge\<close> (\<^verbatim>\<open>fossildiff.go\<close>, \<^verbatim>\<open>fossillcs.go\<close>), which ports fossil's
  \<^verbatim>\<open>diff.c\<close>: splitting a text into hashed lines, the search for a long common block, the work stack that cuts the
  ranges at it, and the pass that slides insertions and deletions.

  A context holds the two line arrays, each with its zero sentinel, and the copy/delete/insert triples.  Indices and
  counts are naturals; an index or slice out of range is the panic \<open>Inl\<close>.  Line scores are kept as unbounded
  integers: they stay below 2 to the 63 for fewer than 2 to the 31 lines.
\<close>

unbundle bit_operations_syntax

section \<open>Lines and tokens\<close>

definition lengthMaskSz :: nat where "lengthMaskSz = 15"
definition lengthMask :: nat where "lengthMask = 2 ^ lengthMaskSz - 1"

record dline =
  dlZ :: bytes
  dlH :: "64 word"
  dlIndent :: nat
  dlN :: nat
  dlNw :: nat
  dlNext :: nat
  dlHash :: nat

definition zeroLine :: dline where
  "zeroLine = \<lparr>dlZ = [], dlH = 0, dlIndent = 0, dlN = 0, dlNw = 0, dlNext = 0, dlHash = 0\<rparr>"

type_synonym triple = "nat \<times> nat \<times> nat"

record dcontext =
  cEdit :: "triple list"
  cFrom :: "dline list"
  cTo :: "dline list"
  cNFrom :: nat
  cNTo :: nat

definition u16 :: "nat \<Rightarrow> nat" where "u16 n = n mod 2 ^ 16"
definition u32 :: "nat \<Rightarrow> nat" where "u32 n = n mod 2 ^ 32"

definition idx :: "'a list \<Rightarrow> int \<Rightarrow> string + 'a" where
  "idx xs i = (if 0 \<le> i \<and> i < int (length xs) then Inr (xs ! nat i) else Inl ''index out of range'')"

definition isDiffSpace :: "byte \<Rightarrow> bool" where
  "isDiffSpace c \<longleftrightarrow> c \<in> {CHR 0x08, CHR 0x09, CHR 0x0A, CHR 0x0C, CHR 0x0D, CHR 0x20}"

text \<open>The table \<^verbatim>\<open>tokenClass\<close>, row by row.\<close>

definition tokenClass :: "byte \<Rightarrow> nat" where
  "tokenClass ch =
     (let c = byteval ch in
      if c \<le> 0x20 then 2
      else if c < 0x30 then 3
      else if c \<le> 0x38 then 1
      else if c \<le> 0x40 then 3
      else if c \<le> 0x5A then 1
      else if c \<le> 0x60 then 3
      else if c \<le> 0x7A then 1
      else if c < 0x80 then 3
      else 1)"

fun leValue :: "bytes \<Rightarrow> nat" where
  "leValue [] = 0"
| "leValue (c # cs) = byteval c + 256 * leValue cs"

text \<open>The two loops of \<^verbatim>\<open>lineHash\<close>: eight bytes at a time, then the rest.\<close>

function hashLoop :: "64 word \<Rightarrow> bytes \<Rightarrow> 64 word" where
  "hashLoop h z =
     (if length z < 8 then h XOR of_nat (leValue z)
      else hashLoop ((h XOR of_nat (leValue (take 8 z))) * 9000000000000000041) (drop 8 z))"
  by pat_completeness auto
termination by (relation "measure (\<lambda>(h, z). length z)") auto

declare hashLoop.simps [simp del]

definition packHash :: "64 word \<Rightarrow> nat \<Rightarrow> 64 word" where
  "packHash h k = push_bit lengthMaskSz (h mod 281474976710597) OR of_nat k"

definition lineHash :: "bytes \<Rightarrow> 64 word" where
  "lineHash z = packHash (hashLoop 0 z) (length z)"

text \<open>
  Setting entry \<open>i\<close> to the line \<open>z\<close> and pushing it on the chain of its bucket.  The two stores into the array are in
  the order of the code: the entry's link is read before its bucket's head is written.
\<close>

definition setLine :: "dline list \<Rightarrow> nat \<Rightarrow> bytes \<Rightarrow> 64 word \<Rightarrow> nat \<Rightarrow> dline list" where
  "setLine ls i z h n =
     (let l1 = ls[i := (ls ! i)\<lparr>dlZ := z, dlN := u16 (length z), dlH := h\<rparr>];
          bucket = unat (h mod of_nat n);
          l2 = l1[i := (l1 ! i)\<lparr>dlNext := dlHash (l1 ! bucket)\<rparr>] in
      l2[bucket := (l2 ! bucket)\<lparr>dlHash := u32 (i + 1)\<rparr>])"

text \<open>\<^verbatim>\<open>end\<close> of one line: the next newline from \<open>start\<close>, or the end of the text.\<close>

definition lineEnd :: "bytes \<Rightarrow> nat \<Rightarrow> nat" where
  "lineEnd z start = start + length (takeWhile (\<lambda>c. c \<noteq> LF) (drop start z))"

function linesLoop :: "bytes \<Rightarrow> nat \<Rightarrow> nat \<Rightarrow> nat \<Rightarrow> dline list \<Rightarrow> string + dline list option" where
  "linesLoop z n i start ls =
     (if n \<le> i then Inr (Some ls)
      else if length z < start then Inl ''slice bounds out of range''
      else let e = lineEnd z start; line = bslice z start e in
           if lengthMask < e - start then Inr None
           else linesLoop z n (Suc i) (e + 1) (setLine ls i line (lineHash line) n))"
  by pat_completeness auto
termination by (relation "measure (\<lambda>(z, n, i, start, ls). n - i)") auto

declare linesLoop.simps [simp del]

definition countLines :: "bytes \<Rightarrow> nat" where
  "countLines z = length (filter (\<lambda>c. c = LF) z) + (if z \<noteq> [] \<and> last z \<noteq> LF then 1 else 0)"

definition breakIntoLines :: "bytes \<Rightarrow> string + (dline list \<times> nat) option" where
  "breakIntoLines z =
     (if CHR 0x00 \<in> set z then Inr None
      else let n = countLines z in
           bindE (linesLoop z n 0 0 (replicate (n + 1) zeroLine)) (\<lambda>r. Inr (map_option (\<lambda>ls. (ls, n)) r)))"

fun countTokens :: "nat \<Rightarrow> bytes \<Rightarrow> nat" where
  "countTokens prev [] = 0"
| "countTokens prev (c # cs) = (if tokenClass c \<noteq> prev then 1 else 0) + countTokens (tokenClass c) cs"

fun tokenHash :: "64 word \<Rightarrow> bytes \<Rightarrow> 64 word" where
  "tokenHash h [] = h"
| "tokenHash h (c # cs) = tokenHash ((h XOR of_nat (byteval c)) * 0x100000001b3) cs"

function tokensLoop :: "bytes \<Rightarrow> nat \<Rightarrow> nat \<Rightarrow> dline list \<Rightarrow> string + dline list" where
  "tokensLoop z n i ls =
     (case z of
        [] \<Rightarrow> Inr ls
      | c # cs \<Rightarrow>
          let more = takeWhile (\<lambda>x. tokenClass x = tokenClass c) cs;
              tok = c # more in
          if length ls \<le> i then Inl ''index out of range''
          else tokensLoop (drop (length tok) z) n (i + 1)
                 (setLine ls i tok (packHash (tokenHash 0xcbf29ce484222325 more) (length tok)) n))"
  by pat_completeness auto
termination by (relation "measure (\<lambda>(z, n, i, ls). length z)") auto

declare tokensLoop.simps [simp del]

definition breakIntoTokens :: "bytes \<Rightarrow> string + dline list \<times> nat" where
  "breakIntoTokens z =
     (let n = countTokens 0 z in bindE (tokensLoop z n 0 (replicate (n + 1) zeroLine)) (\<lambda>ls. Inr (ls, n)))"

definition differ :: "dline \<Rightarrow> dline \<Rightarrow> string + bool" where
  "differ a b =
     (if dlH a \<noteq> dlH b then Inr True
      else let m = unat (dlH a AND of_nat lengthMask) in
           if length (dlZ a) < m \<or> length (dlZ b) < m then Inl ''slice bounds out of range''
           else Inr (take m (dlZ a) \<noteq> take m (dlZ b)))"

text \<open>\<^verbatim>\<open>differ(&xs[i], &ys[j])\<close>\<close>

definition differAt :: "dline list \<Rightarrow> int \<Rightarrow> dline list \<Rightarrow> int \<Rightarrow> string + bool" where
  "differAt xs i ys j = bindE (idx xs i) (\<lambda>a. bindE (idx ys j) (\<lambda>b. differ a b))"

section \<open>The common block\<close>

record lcsMatch =
  iSX :: nat
  iEX :: nat
  iSY :: nat
  iEY :: nat

function chainLoop :: "dline \<Rightarrow> dline list \<Rightarrow> nat \<Rightarrow> nat \<Rightarrow> nat \<Rightarrow> nat \<Rightarrow> nat \<Rightarrow> string + nat \<times> bool" where
  "chainLoop fl to iS2 iE2 cutoff limit j =
     (if j = 0 then Inr (0, False)
      else bindE (if j - 1 < iS2 \<or> iE2 \<le> j then Inr True else bindE (idx to (int j - 1)) (differ fl)) (\<lambda>miss.
             if \<not> miss then Inr (j, False)
             else if cutoff < limit then Inr (0, True)
             else bindE (idx to (int j - 1)) (\<lambda>t. chainLoop fl to iS2 iE2 cutoff (Suc limit) (dlNext t))))"
  by pat_completeness auto
termination by (relation "measure (\<lambda>(fl, to, iS2, iE2, cutoff, limit, j). Suc cutoff - limit)") auto

declare chainLoop.simps [simp del]

definition chainMatch :: "dcontext \<Rightarrow> nat \<Rightarrow> nat \<Rightarrow> nat \<Rightarrow> nat \<Rightarrow> string + nat \<times> bool" where
  "chainMatch c i iS2 iE2 cutoff =
     bindE (idx (cFrom c) (int i)) (\<lambda>fl.
       if cNTo c = 0 then Inl ''integer divide by zero''
       else bindE (idx (cTo c) (uint (dlH fl mod of_nat (cNTo c)))) (\<lambda>t.
         chainLoop fl (cTo c) iS2 iE2 cutoff 0 (dlHash t)))"

text \<open>The two scans of \<^verbatim>\<open>growMatch\<close>, \<open>n\<close> steps at most, backwards and forwards.\<close>

fun scanBack :: "dline list \<Rightarrow> dline list \<Rightarrow> nat \<Rightarrow> nat \<Rightarrow> nat \<Rightarrow> nat \<Rightarrow> string + nat" where
  "scanBack from to x y k 0 = Inr k"
| "scanBack from to x y k (Suc n) =
     bindE (differAt from (int x - 1 - int k) to (int y - 1 - int k)) (\<lambda>d.
       if d then Inr k else scanBack from to x y (k + 1) n)"

fun scanForw :: "dline list \<Rightarrow> dline list \<Rightarrow> nat \<Rightarrow> nat \<Rightarrow> nat \<Rightarrow> nat \<Rightarrow> string + nat" where
  "scanForw from to x y k 0 = Inr k"
| "scanForw from to x y k (Suc n) =
     bindE (differAt from (int (x + k)) to (int (y + k))) (\<lambda>d.
       if d then Inr k else scanForw from to x y (k + 1) n)"

definition growMatch :: "dcontext \<Rightarrow> nat \<Rightarrow> nat \<Rightarrow> nat \<Rightarrow> nat \<Rightarrow> nat \<Rightarrow> nat \<Rightarrow> string + lcsMatch" where
  "growMatch c i j iS1 iE1 iS2 iE2 =
     bindE (scanBack (cFrom c) (cTo c) i j 0 (min (i - iS1) (j - iS2))) (\<lambda>k.
     bindE (scanForw (cFrom c) (cTo c) (i + 1) (j + 1) 0 (min (iE1 - (i + 1)) (iE2 - (j + 1)))) (\<lambda>k'.
       Inr \<lparr>iSX = i - k, iEX = i + 1 + k', iSY = j - k, iEY = j + 1 + k'\<rparr>))"

definition matchScore :: "lcsMatch \<Rightarrow> nat \<Rightarrow> nat \<Rightarrow> nat \<Rightarrow> nat \<Rightarrow> int" where
  "matchScore m iS1 iE1 iS2 iE2 =
     (let span = (int iE1 - int iS1) + (int iE2 - int iS2);
          mid = (iE1 + iS1) div 2;
          skew = \<bar>(int (iSX m) - int iS1) - (int (iSY m) - int iS2)\<bar>;
          dist = \<bar>int ((iSX m + iEX m) div 2) - int mid\<bar> in
      (int (iEX m) - int (iSX m)) * span - (skew + dist))"

definition inBlock :: "nat \<Rightarrow> nat \<Rightarrow> lcsMatch \<Rightarrow> bool" where
  "inBlock i j m \<longleftrightarrow> i < iEX m \<and> iSY m \<le> j \<and> j < iEY m"

function passLoop ::
  "dcontext \<Rightarrow> nat \<Rightarrow> nat \<Rightarrow> nat \<Rightarrow> nat \<Rightarrow> nat \<Rightarrow> nat \<Rightarrow> lcsMatch \<Rightarrow> lcsMatch \<Rightarrow> int \<Rightarrow> nat \<Rightarrow> string + lcsMatch \<times> nat" where
  "passLoop c iS1 iE1 iS2 iE2 cutoff i best prev bestScore nextCutoff =
     (if iE1 \<le> i then Inr (best, nextCutoff)
      else bindE (chainMatch c i iS2 iE2 cutoff) (\<lambda>(j, exceeded).
        let nc = (if exceeded then cutoff * 4 else nextCutoff) in
        if j = 0 \<or> inBlock i j best \<or> inBlock i j prev
        then passLoop c iS1 iE1 iS2 iE2 cutoff (Suc i) best prev bestScore nc
        else bindE (growMatch c i (j - 1) iS1 iE1 iS2 iE2) (\<lambda>m.
          let score = matchScore m iS1 iE1 iS2 iE2 in
          if bestScore < score then passLoop c iS1 iE1 iS2 iE2 cutoff (Suc i) m prev score nc
          else passLoop c iS1 iE1 iS2 iE2 cutoff (Suc i) best (if iEX prev < iEX m then m else prev) bestScore nc)))"
  by pat_completeness auto
termination
  by (relation "measure (\<lambda>(c, iS1, iE1, iS2, iE2, cutoff, i, best, prev, bestScore, nextCutoff). iE1 - i)") auto

declare passLoop.simps [simp del]

definition lcsPass :: "dcontext \<Rightarrow> nat \<Rightarrow> nat \<Rightarrow> nat \<Rightarrow> nat \<Rightarrow> nat \<Rightarrow> string + lcsMatch \<times> nat" where
  "lcsPass c iS1 iE1 iS2 iE2 cutoff =
     (let none = \<lparr>iSX = iS1, iEX = iS1, iSY = iS2, iEY = iS2\<rparr> in
      passLoop c iS1 iE1 iS2 iE2 cutoff iS1 none none (-9223300000000000000) 0)"

text \<open>What a pass returns: one of its grown matches or the start value, and no or four times the cutoff.\<close>

lemma passLoop_result:
  assumes "passLoop c iS1 iE1 iS2 iE2 cutoff i best prev bestScore nc = Inr (m, nc')" "P best" "nc \<in> {0, cutoff * 4}" "iS1 \<le> i"
    and "\<And>i j ex g. iS1 \<le> i \<Longrightarrow> i < iE1 \<Longrightarrow> chainMatch c i iS2 iE2 cutoff = Inr (j, ex) \<Longrightarrow> j \<noteq> 0 \<Longrightarrow>
      growMatch c i (j - 1) iS1 iE1 iS2 iE2 = Inr g \<Longrightarrow> P g"
  shows "P m \<and> nc' \<in> {0, cutoff * 4}"
  using assms(1-4)
proof (induction "iE1 - i" arbitrary: i best prev bestScore nc)
  case 0
  then show ?case using passLoop.simps [of c iS1 iE1 iS2 iE2 cutoff i best prev bestScore nc] by simp
next
  case (Suc k)
  then have False: "\<not> iE1 \<le> i" by simp
  obtain j ex where ch: "chainMatch c i iS2 iE2 cutoff = Inr (j, ex)"
    using Suc.prems(1) False by (subst (asm) passLoop.simps) (auto simp: bindE_eq_Inr_iff)
  let ?nc = "if ex then cutoff * 4 else nc"
  have ih: "P m \<and> nc' \<in> {0, cutoff * 4}"
    if "passLoop c iS1 iE1 iS2 iE2 cutoff (Suc i) b pv sc ?nc = Inr (m, nc')" "P b" for b pv sc
    using Suc.hyps(1) [OF _ that(1)] that(2) Suc.prems(3,4) Suc.hyps(2) by simp
  show ?case
  proof (cases "j = 0 \<or> inBlock i j best \<or> inBlock i j prev")
    case True
    then have "passLoop c iS1 iE1 iS2 iE2 cutoff (Suc i) best prev bestScore ?nc = Inr (m, nc')"
      using Suc.prems(1) False ch by (subst (asm) passLoop.simps) (simp add: Let_def)
    then show ?thesis using ih Suc.prems(2) by blast
  next
    case j: False
    obtain g where g: "growMatch c i (j - 1) iS1 iE1 iS2 iE2 = Inr g"
      using Suc.prems(1) False ch j by (subst (asm) passLoop.simps) (auto simp: Let_def bindE_eq_Inr_iff)
    then have "P g" using assms(5) Suc.prems(4) False ch j by auto
    have "passLoop c iS1 iE1 iS2 iE2 cutoff (Suc i) g prev (matchScore g iS1 iE1 iS2 iE2) ?nc = Inr (m, nc') \<or>
        passLoop c iS1 iE1 iS2 iE2 cutoff (Suc i) best (if iEX prev < iEX g then g else prev) bestScore ?nc = Inr (m, nc')"
      using Suc.prems(1) False ch j g by (subst (asm) passLoop.simps) (simp add: Let_def split: if_splits)
    then show ?thesis using ih \<open>P g\<close> Suc.prems(2) by blast
  qed
qed

function tryLoop :: "dcontext \<Rightarrow> nat \<Rightarrow> nat \<Rightarrow> nat \<Rightarrow> nat \<Rightarrow> nat \<Rightarrow> string + lcsMatch" where
  "tryLoop c iS1 iE1 iS2 iE2 cutoff =
     bindE (lcsPass c iS1 iE1 iS2 iE2 cutoff) (\<lambda>(best, nextCutoff).
       if iSX best \<noteq> iEX best \<or> nextCutoff = 0 then Inr best
       else if 64 < nextCutoff then Inr best
       else tryLoop c iS1 iE1 iS2 iE2 nextCutoff)"
  by pat_completeness auto
termination
proof (relation "measure (\<lambda>(c, iS1, iE1, iS2, iE2, cutoff). 65 - cutoff)")
  fix c iS1 iE1 iS2 iE2 cutoff x best nextCutoff
  assume a: "lcsPass c iS1 iE1 iS2 iE2 cutoff = Inr x" "(best, nextCutoff) = x" "\<not> (iSX best \<noteq> iEX best \<or> nextCutoff = 0)" "\<not> 64 < nextCutoff"
  from passLoop_result [OF a(1) [unfolded lcsPass_def Let_def a(2) [symmetric]], of "\<lambda>_. True"] a(3)
  have "nextCutoff = cutoff * 4" "cutoff \<noteq> 0" by auto
  then show "((c, iS1, iE1, iS2, iE2, nextCutoff), c, iS1, iE1, iS2, iE2, cutoff) \<in> measure (\<lambda>(c, iS1, iE1, iS2, iE2, cutoff). 65 - cutoff)"
    using a(4) by auto
qed auto

declare tryLoop.simps [simp del]

text \<open>\<^verbatim>\<open>optimalLCS\<close>: the run from \<open>(i, j)\<close>, the inner loop over \<open>j\<close> and the outer loop over \<open>i\<close>; the bounds of both move with the
  best length so far.\<close>

definition runLength :: "dcontext \<Rightarrow> nat \<Rightarrow> nat \<Rightarrow> nat \<Rightarrow> nat \<Rightarrow> string + nat" where
  "runLength c i j iE1 iE2 = scanForw (cFrom c) (cTo c) i j 1 (min (iE1 - (i + 1)) (iE2 - (j + 1)))"

function optInner ::
  "dcontext \<Rightarrow> nat \<Rightarrow> nat \<Rightarrow> nat \<Rightarrow> nat \<Rightarrow> nat \<Rightarrow> nat \<Rightarrow> nat \<Rightarrow> string + nat \<times> nat \<times> nat" where
  "optInner c iE1 iE2 i j sx sy mx =
     (if int iE2 - int mx \<le> int j then Inr (sx, sy, mx)
      else bindE (differAt (cFrom c) (int i) (cTo c) (int j)) (\<lambda>d.
        if d then optInner c iE1 iE2 i (Suc j) sx sy mx
        else bindE (if 0 < mx then differAt (cFrom c) (int (i + mx)) (cTo c) (int (j + mx)) else Inr False) (\<lambda>d2.
          if d2 then optInner c iE1 iE2 i (Suc j) sx sy mx
          else bindE (runLength c i j iE1 iE2) (\<lambda>k.
            if mx < k then optInner c iE1 iE2 i (Suc j) i j k
            else optInner c iE1 iE2 i (Suc j) sx sy mx))))"
  by pat_completeness auto
termination
  by (relation "measure (\<lambda>(c, iE1, iE2, i, j, sx, sy, mx). iE2 - j)") auto

declare optInner.simps [simp del]

function optOuter :: "dcontext \<Rightarrow> nat \<Rightarrow> nat \<Rightarrow> nat \<Rightarrow> nat \<Rightarrow> nat \<Rightarrow> nat \<Rightarrow> nat \<Rightarrow> string + nat \<times> nat \<times> nat" where
  "optOuter c iE1 iS2 iE2 i sx sy mx =
     (if int iE1 - int mx \<le> int i then Inr (sx, sy, mx)
      else bindE (optInner c iE1 iE2 i iS2 sx sy mx) (\<lambda>(sx1, sy1, mx1). optOuter c iE1 iS2 iE2 (Suc i) sx1 sy1 mx1))"
  by pat_completeness auto
termination
  by (relation "measure (\<lambda>(c, iE1, iS2, iE2, i, sx, sy, mx). iE1 - i)") auto

declare optOuter.simps [simp del]

definition optimalLCS :: "dcontext \<Rightarrow> nat \<Rightarrow> nat \<Rightarrow> nat \<Rightarrow> nat \<Rightarrow> string + lcsMatch" where
  "optimalLCS c iS1 iE1 iS2 iE2 =
     bindE (optOuter c iE1 iS2 iE2 iS1 iS1 iS2 0) (\<lambda>(sx, sy, mx).
       Inr \<lparr>iSX = sx, iEX = sx + mx, iSY = sy, iEY = sy + mx\<rparr>)"

definition longestCommonSequence :: "dcontext \<Rightarrow> nat \<Rightarrow> nat \<Rightarrow> nat \<Rightarrow> nat \<Rightarrow> string + lcsMatch" where
  "longestCommonSequence c iS1 iE1 iS2 iE2 =
     bindE (tryLoop c iS1 iE1 iS2 iE2 4) (\<lambda>best.
       if iSX best = iEX best \<and> (int iE1 - int iS1) * (int iE2 - int iS2) < 2500
       then optimalLCS c iS1 iE1 iS2 iE2
       else Inr best)"

section \<open>The indentation heuristic\<close>

definition computeIndent :: "dline \<Rightarrow> dline" where
  "computeIndent a =
     (if dlNw a \<noteq> 0 \<or> dlN a = 0 then a
      else let z = take (dlN a) (dlZ a);
               ii = length (takeWhile isDiffSpace z);
               trail = length (takeWhile isDiffSpace (rev (drop (ii + 1) z))) in
           a\<lparr>dlIndent := u16 ii, dlNw := u16 (dlN a - trail - ii)\<rparr>)"

fun indentRange :: "dline list \<Rightarrow> nat \<Rightarrow> nat \<Rightarrow> string + dline list" where
  "indentRange from i 0 = Inr from"
| "indentRange from i (Suc n) = bindE (idx from (int i)) (\<lambda>a. indentRange (from[i := computeIndent a]) (Suc i) n)"

definition trimmed :: "dline \<Rightarrow> string + bytes" where
  "trimmed a =
     (if dlIndent a + dlNw a \<le> length (dlZ a) then Inr (bslice (dlZ a) (dlIndent a) (dlIndent a + dlNw a))
      else Inl ''slice bounds out of range'')"

fun twinLoop :: "dline list \<Rightarrow> dline \<Rightarrow> bytes \<Rightarrow> nat \<Rightarrow> nat \<Rightarrow> string + bool" where
  "twinLoop from a z j 0 = Inr False"
| "twinLoop from a z j (Suc n) =
     bindE (idx from (int j)) (\<lambda>b.
     bindE (if dlNw b = dlNw a then bindE (trimmed b) (\<lambda>y. Inr (y = z)) else Inr False) (\<lambda>same.
       if same then Inr True else twinLoop from a z (Suc j) n))"

definition hasTrimmedTwin :: "dline list \<Rightarrow> nat \<Rightarrow> nat \<Rightarrow> nat \<Rightarrow> string + bool" where
  "hasTrimmedTwin from i lo hi =
     bindE (idx from (int i)) (\<lambda>a. bindE (trimmed a) (\<lambda>z. twinLoop from a z lo (hi - lo)))"

text \<open>The last loop of the heuristic: whether some line of the block, wider than one byte, has no twin outside it.\<close>

fun lonelyLoop :: "dline list \<Rightarrow> nat \<Rightarrow> nat \<Rightarrow> nat \<Rightarrow> nat \<Rightarrow> nat \<Rightarrow> nat \<Rightarrow> string + bool" where
  "lonelyLoop from iS1 sx ex iE1 i 0 = Inr False"
| "lonelyLoop from iS1 sx ex iE1 i (Suc n) =
     bindE (idx from (int i)) (\<lambda>a.
       if dlNw a \<le> 1 then lonelyLoop from iS1 sx ex iE1 (Suc i) n
       else bindE (hasTrimmedTwin from i iS1 sx) (\<lambda>t1.
            if t1 then lonelyLoop from iS1 sx ex iE1 (Suc i) n
            else bindE (hasTrimmedTwin from i ex iE1) (\<lambda>t2.
                 if \<not> t2 then Inr True else lonelyLoop from iS1 sx ex iE1 (Suc i) n)))"

definition likelyNotIndentChngArtifact :: "dcontext \<Rightarrow> nat \<Rightarrow> nat \<Rightarrow> nat \<Rightarrow> nat \<Rightarrow> string + bool \<times> dcontext" where
  "likelyNotIndentChngArtifact c iS1 sx ex iE1 =
     (if iE1 - iS1 \<le> (ex - sx) * 7 then Inr (True, c)
      else bindE (indentRange (cFrom c) sx (ex - sx)) (\<lambda>from1.
        if \<not> list_ex (\<lambda>a. 1 < dlNw a) (bslice from1 sx ex) then Inr (False, c\<lparr>cFrom := from1\<rparr>)
        else bindE (indentRange from1 iS1 (sx - iS1)) (\<lambda>from2.
             bindE (indentRange from2 ex (iE1 - ex)) (\<lambda>from3.
             bindE (lonelyLoop from3 iS1 sx ex iE1 sx (ex - sx)) (\<lambda>b. Inr (b, c\<lparr>cFrom := from3\<rparr>))))))"

section \<open>The triples\<close>

fun addTriple :: "triple list \<Rightarrow> triple \<Rightarrow> triple list" where
  "addTriple [] t = [t]"
| "addTriple [(c0, d0, i0)] (c, d, i) =
     (if i0 = 0 \<and> d0 = 0 then [(c0 + c, d0 + d, i0 + i)]
      else if i0 = 0 \<and> c = 0 then [(c0, d0 + d, i0 + i)]
      else if c = 0 \<and> d = 0 then [(c0, d0, i0 + i)]
      else [(c0, d0, i0), (c, d, i)])"
| "addTriple (x # y # es) t = x # addTriple (y # es) t"

definition appendTriple :: "dcontext \<Rightarrow> nat \<Rightarrow> nat \<Rightarrow> nat \<Rightarrow> dcontext" where
  "appendTriple c nCopy nDel nIns = c\<lparr>cEdit := addTriple (cEdit c) (nCopy, nDel, nIns)\<rparr>"

section \<open>What a common block is\<close>

definition sameAt :: "dcontext \<Rightarrow> nat \<Rightarrow> nat \<Rightarrow> bool" where
  "sameAt c p q \<longleftrightarrow> p < length (cFrom c) \<and> q < length (cTo c) \<and> differ (cFrom c ! p) (cTo c ! q) = Inr False"

definition matches :: "dcontext \<Rightarrow> nat \<Rightarrow> nat \<Rightarrow> nat \<Rightarrow> bool" where
  "matches c p q n \<longleftrightarrow> (\<forall>k < n. sameAt c (p + k) (q + k))"

definition blockOk :: "dcontext \<Rightarrow> nat \<Rightarrow> nat \<Rightarrow> nat \<Rightarrow> nat \<Rightarrow> lcsMatch \<Rightarrow> bool" where
  "blockOk c iS1 iE1 iS2 iE2 m \<longleftrightarrow> iS1 \<le> iSX m \<and> iSX m \<le> iEX m \<and> iEX m \<le> iE1 \<and> iS2 \<le> iSY m \<and> iSY m \<le> iEY m \<and> iEY m \<le> iE2 \<and>
     iEX m - iSX m = iEY m - iSY m \<and> matches c (iSX m) (iSY m) (iEX m - iSX m)"

lemma idx_Inr [simp]: "idx xs i = Inr x \<longleftrightarrow> 0 \<le> i \<and> nat i < length xs \<and> x = xs ! nat i"
  by (auto simp: idx_def)

lemma differAt_False: "differAt (cFrom c) (int p) (cTo c) (int q) = Inr False \<longleftrightarrow> sameAt c p q"
  by (auto simp: differAt_def sameAt_def bindE_eq_Inr_iff)

lemma differAt_back:
  "differAt (cFrom c) (int x - 1 - int k) (cTo c) (int y - 1 - int k) = Inr False \<longleftrightarrow> k < x \<and> k < y \<and> sameAt c (x - 1 - k) (y - 1 - k)"
proof (cases "k < x \<and> k < y")
  case True
  then have e: "int x - 1 - int k = int (x - 1 - k)" "int y - 1 - int k = int (y - 1 - k)" by auto
  show ?thesis unfolding e differAt_False using True by blast
qed (auto simp: differAt_def bindE_eq_Inr_iff)

lemma scanForw_ok:
  "scanForw (cFrom c) (cTo c) x y k n = Inr k' \<Longrightarrow> k \<le> k' \<and> k' \<le> k + n \<and> (\<forall>i. k \<le> i \<longrightarrow> i < k' \<longrightarrow> sameAt c (x + i) (y + i))"
proof (induction n arbitrary: k)
  case (Suc n)
  then obtain d where d: "differAt (cFrom c) (int (x + k)) (cTo c) (int (y + k)) = Inr d"
    "(if d then Inr k else scanForw (cFrom c) (cTo c) x y (k + 1) n) = Inr k'" by (auto simp: bindE_eq_Inr_iff)
  show ?case
  proof (cases d)
    case False
    then have "sameAt c (x + k) (y + k)" using d(1) differAt_False [of c "x + k" "y + k"] by simp
    moreover have "Suc k \<le> k' \<and> k' \<le> Suc k + n \<and> (\<forall>i. Suc k \<le> i \<longrightarrow> i < k' \<longrightarrow> sameAt c (x + i) (y + i))"
      using Suc.IH [of "k + 1"] d(2) False by simp
    ultimately show ?thesis by (metis Suc_leI add_Suc add_Suc_right le_antisym not_less_eq_eq Suc_leD)
  qed (use d in auto)
qed auto

lemma scanBack_ok:
  "scanBack (cFrom c) (cTo c) x y k n = Inr k' \<Longrightarrow> k \<le> k' \<and> k' \<le> k + n \<and>
     (\<forall>i. k \<le> i \<longrightarrow> i < k' \<longrightarrow> i < x \<and> i < y \<and> sameAt c (x - 1 - i) (y - 1 - i))"
proof (induction n arbitrary: k)
  case (Suc n)
  then obtain d where d: "differAt (cFrom c) (int x - 1 - int k) (cTo c) (int y - 1 - int k) = Inr d"
    "(if d then Inr k else scanBack (cFrom c) (cTo c) x y (k + 1) n) = Inr k'" by (auto simp: bindE_eq_Inr_iff)
  show ?case
  proof (cases d)
    case False
    then have "k < x \<and> k < y \<and> sameAt c (x - 1 - k) (y - 1 - k)" using d(1) differAt_back by simp
    moreover have "Suc k \<le> k' \<and> k' \<le> Suc k + n \<and> (\<forall>i. Suc k \<le> i \<longrightarrow> i < k' \<longrightarrow> i < x \<and> i < y \<and> sameAt c (x - 1 - i) (y - 1 - i))"
      using Suc.IH [of "k + 1"] d(2) False by simp
    ultimately show ?thesis by (metis Suc_leI add_Suc add_Suc_right le_antisym not_less_eq_eq Suc_leD)
  qed (use d in auto)
qed auto

lemma chainLoop_ok:
  "chainLoop fl to iS2 iE2 cutoff limit j0 = Inr (j, ex) \<Longrightarrow> j \<noteq> 0 \<Longrightarrow>
     iS2 \<le> j - 1 \<and> j < iE2 \<and> j - 1 < length to \<and> differ fl (to ! (j - 1)) = Inr False"
proof (induction "Suc cutoff - limit" arbitrary: limit j0)
  case 0
  have n: "nat (int j0 - 1) = j0 - 1" by simp
  show ?case using 0 unfolding chainLoop.simps [of fl to iS2 iE2 cutoff limit j0]
    by (auto simp: bindE_eq_Inr_iff n split: if_splits)
next
  case (Suc k)
  obtain miss where m: "(if j0 - 1 < iS2 \<or> iE2 \<le> j0 then Inr True else bindE (idx to (int j0 - 1)) (differ fl)) = Inr miss" "j0 \<noteq> 0"
    using Suc.prems unfolding chainLoop.simps [of fl to iS2 iE2 cutoff limit j0] by (auto simp: bindE_eq_Inr_iff split: if_splits)
  have n: "nat (int j0 - 1) = j0 - 1" by simp
  show ?case
  proof (cases miss)
    case True
    then have "chainLoop fl to iS2 iE2 cutoff (Suc limit) (dlNext (to ! nat (int j0 - 1))) = Inr (j, ex)"
      using Suc.prems(1) Suc.hyps(2) m unfolding chainLoop.simps [of fl to iS2 iE2 cutoff limit j0]
      by (simp add: bindE_eq_Inr_iff split: if_splits)
    then show ?thesis using Suc.hyps Suc.prems(2) by (metis Suc_diff_Suc Suc_inject diff_Suc_Suc zero_less_Suc zero_less_diff)
  next
    case False
    then have "j = j0" using Suc.prems(1) m unfolding chainLoop.simps [of fl to iS2 iE2 cutoff limit j0] by simp
    then show ?thesis using m False n by (auto simp: bindE_eq_Inr_iff split: if_splits)
  qed
qed

lemma chainMatch_ok:
  "chainMatch c i iS2 iE2 cutoff = Inr (j, ex) \<Longrightarrow> j \<noteq> 0 \<Longrightarrow> iS2 \<le> j - 1 \<and> j < iE2 \<and> sameAt c i (j - 1)"
  by (auto simp: chainMatch_def bindE_eq_Inr_iff sameAt_def dest!: chainLoop_ok split: if_splits)

lemma growMatch_ok:
  assumes "growMatch c i j iS1 iE1 iS2 iE2 = Inr m" "iS1 \<le> i" "i < iE1" "iS2 \<le> j" "j < iE2" "sameAt c i j"
  shows "blockOk c iS1 iE1 iS2 iE2 m \<and> iSX m < iEX m"
proof -
  obtain k k' where k: "scanBack (cFrom c) (cTo c) i j 0 (min (i - iS1) (j - iS2)) = Inr k"
    "scanForw (cFrom c) (cTo c) (i + 1) (j + 1) 0 (min (iE1 - (i + 1)) (iE2 - (j + 1))) = Inr k'"
    "m = \<lparr>iSX = i - k, iEX = i + 1 + k', iSY = j - k, iEY = j + 1 + k'\<rparr>"
    using assms(1) by (auto simp: growMatch_def bindE_eq_Inr_iff)
  note b = scanBack_ok [OF k(1)] and f = scanForw_ok [OF k(2)]
  have "sameAt c (i - k + x) (j - k + x)" if "x < i + 1 + k' - (i - k)" for x
  proof -
    have kk: "k \<le> i" "k \<le> j" using b by auto
    show ?thesis
    proof (cases x k rule: linorder_cases)
      case less
      then have "k - 1 - x < k" by simp
      then have "sameAt c (i - 1 - (k - 1 - x)) (j - 1 - (k - 1 - x))" using b by blast
      moreover have "i - 1 - (k - 1 - x) = i - k + x" "j - 1 - (k - 1 - x) = j - k + x" using less kk by auto
      ultimately show ?thesis by simp
    next
      case equal
      then show ?thesis using assms(6) kk by simp
    next
      case greater
      define y where "y = x - k - 1"
      have y: "x = k + 1 + y" "y < k'" using greater that kk by (auto simp: y_def)
      then have "sameAt c (i + 1 + y) (j + 1 + y)" using f by simp
      moreover have "i - k + x = i + 1 + y" "j - k + x = j + 1 + y" using y kk by auto
      ultimately show ?thesis by simp
    qed
  qed
  then have "matches c (iSX m) (iSY m) (iEX m - iSX m)" by (simp add: matches_def k(3))
  then show ?thesis using b f assms(2-5) by (simp add: blockOk_def k(3)) auto
qed

lemma tryLoop_ok:
  "tryLoop c iS1 iE1 iS2 iE2 cutoff = Inr m \<Longrightarrow> iS1 \<le> iE1 \<Longrightarrow> iS2 \<le> iE2 \<Longrightarrow> blockOk c iS1 iE1 iS2 iE2 m"
proof (induction c iS1 iE1 iS2 iE2 cutoff rule: tryLoop.induct)
  case (1 c iS1 iE1 iS2 iE2 cutoff)
  obtain best nc where p: "lcsPass c iS1 iE1 iS2 iE2 cutoff = Inr (best, nc)"
    using 1(2) by (subst (asm) tryLoop.simps) (auto simp: bindE_eq_Inr_iff)
  have "blockOk c iS1 iE1 iS2 iE2 best"
  proof (rule passLoop_result [OF p [unfolded lcsPass_def Let_def], THEN conjunct1])
    show "blockOk c iS1 iE1 iS2 iE2 \<lparr>iSX = iS1, iEX = iS1, iSY = iS2, iEY = iS2\<rparr>" using 1(3,4) by (simp add: blockOk_def matches_def)
    show "blockOk c iS1 iE1 iS2 iE2 g"
      if "iS1 \<le> i" "i < iE1" "chainMatch c i iS2 iE2 cutoff = Inr (j, ex)" "j \<noteq> 0" "growMatch c i (j - 1) iS1 iE1 iS2 iE2 = Inr g" for i j ex g
      using growMatch_ok [OF that(5) that(1,2)] chainMatch_ok [OF that(3,4)] by auto
  qed auto
  then show ?case using 1(1) [OF p refl] 1(2-4) p by (subst (asm) (2) tryLoop.simps) (auto split: if_splits)
qed

lemma optInner_ok:
  assumes "optInner c iE1 iE2 i j sx sy mx = Inr (sx', sy', mx')" "iS1 \<le> i" "i < iE1" "iS2 \<le> j"
    and "iS1 \<le> sx" "sx + mx \<le> iE1" "iS2 \<le> sy" "sy + mx \<le> iE2" "matches c sx sy mx"
  shows "iS1 \<le> sx' \<and> sx' + mx' \<le> iE1 \<and> iS2 \<le> sy' \<and> sy' + mx' \<le> iE2 \<and> matches c sx' sy' mx' \<and> mx \<le> mx'"
  using assms
proof (induction "iE2 - j" arbitrary: j sx sy mx rule: less_induct)
  case less
  show ?case
  proof (cases "int iE2 - int mx \<le> int j")
    case True
    then show ?thesis using less.prems optInner.simps [of c iE1 iE2 i j sx sy mx] by simp
  next
    case False
    note st = less.prems(1) [unfolded optInner.simps [of c iE1 iE2 i j sx sy mx]]
    have dec: "iE2 - Suc j < iE2 - j" using False by auto
    consider (skip) "optInner c iE1 iE2 i (Suc j) sx sy mx = Inr (sx', sy', mx')"
      | (take) k where "differAt (cFrom c) (int i) (cTo c) (int j) = Inr False" "runLength c i j iE1 iE2 = Inr k" "mx < k"
          "optInner c iE1 iE2 i (Suc j) i j k = Inr (sx', sy', mx')"
      using st False by (auto simp: bindE_eq_Inr_iff split: if_splits)
    then show ?thesis
    proof cases
      case skip
      then show ?thesis using less.hyps [OF dec] less.prems(2-) by simp
    next
      case take
      note r = scanForw_ok [OF take(2) [unfolded runLength_def]]
      have "matches c i j k" unfolding matches_def
      proof (intro allI impI)
        fix x
        assume "x < k"
        then show "sameAt c (i + x) (j + x)" using r take(1) differAt_False [of c i j] by (cases "x = 0") auto
      qed
      moreover have "i + k \<le> iE1" "j + k \<le> iE2" using r less.prems(3) False by auto
      ultimately show ?thesis using less.hyps [OF dec take(4)] less.prems(2-4) take(3) by simp
    qed
  qed
qed

lemma optOuter_ok:
  assumes "optOuter c iE1 iS2 iE2 i sx sy mx = Inr (sx', sy', mx')" "iS1 \<le> i" "iS1 \<le> sx" "sx + mx \<le> iE1" "iS2 \<le> sy" "sy + mx \<le> iE2"
    and "matches c sx sy mx"
  shows "iS1 \<le> sx' \<and> sx' + mx' \<le> iE1 \<and> iS2 \<le> sy' \<and> sy' + mx' \<le> iE2 \<and> matches c sx' sy' mx'"
  using assms
proof (induction "iE1 - i" arbitrary: i sx sy mx rule: less_induct)
  case less
  show ?case
  proof (cases "int iE1 - int mx \<le> int i")
    case True
    then show ?thesis using less.prems optOuter.simps [of c iE1 iS2 iE2 i sx sy mx] by simp
  next
    case False
    then obtain a b k where o: "optInner c iE1 iE2 i iS2 sx sy mx = Inr (a, b, k)" "optOuter c iE1 iS2 iE2 (Suc i) a b k = Inr (sx', sy', mx')"
      using less.prems(1) optOuter.simps [of c iE1 iS2 iE2 i sx sy mx] by (auto simp: bindE_eq_Inr_iff)
    have "i < iE1" using False by auto
    note ok = optInner_ok [OF o(1) less.prems(2) this le_refl less.prems(3-)]
    show ?thesis using \<open>i < iE1\<close> less.prems(2) ok by (intro less.hyps [OF _ o(2)]) auto
  qed
qed

lemma longestCommonSequence_ok:
  assumes "longestCommonSequence c iS1 iE1 iS2 iE2 = Inr m" "iS1 \<le> iE1" "iS2 \<le> iE2"
  shows "blockOk c iS1 iE1 iS2 iE2 m"
proof -
  obtain best where b: "tryLoop c iS1 iE1 iS2 iE2 4 = Inr best"
    "m = best \<or> optimalLCS c iS1 iE1 iS2 iE2 = Inr m"
    using assms(1) by (auto simp: longestCommonSequence_def bindE_eq_Inr_iff split: if_splits)
  from b(2) show ?thesis
  proof
    assume "optimalLCS c iS1 iE1 iS2 iE2 = Inr m"
    then obtain sx sy mx where o: "optOuter c iE1 iS2 iE2 iS1 iS1 iS2 0 = Inr (sx, sy, mx)"
      "m = \<lparr>iSX = sx, iEX = sx + mx, iSY = sy, iEY = sy + mx\<rparr>" by (auto simp: optimalLCS_def bindE_eq_Inr_iff)
    from optOuter_ok [OF o(1), of iS1] assms(2,3) show ?thesis by (simp add: o(2) blockOk_def matches_def)
  qed (use tryLoop_ok [OF b(1) assms(2,3)] in simp)
qed

section \<open>Cutting the ranges\<close>

record diffTask =
  tCopy :: nat
  tS1 :: nat
  tE1 :: nat
  tS2 :: nat
  tE2 :: nat

definition rangeTask :: "nat \<Rightarrow> nat \<Rightarrow> nat \<Rightarrow> nat \<Rightarrow> diffTask" where
  "rangeTask s1 e1 s2 e2 = \<lparr>tCopy = 0, tS1 = s1, tE1 = e1, tS2 = s2, tE2 = e2\<rparr>"

definition copyTask :: "nat \<Rightarrow> diffTask" where
  "copyTask n = \<lparr>tCopy = n, tS1 = 0, tE1 = 0, tS2 = 0, tE2 = 0\<rparr>"

text \<open>The test that accepts a common block; the short-circuit keeps the heuristic, and the fields it fills, out of the way.\<close>

definition acceptBlock :: "dcontext \<Rightarrow> diffTask \<Rightarrow> lcsMatch \<Rightarrow> string + bool \<times> dcontext" where
  "acceptBlock c t m =
     (if iSX m + 5 < iEX m then Inr (True, c)
      else if iSX m < iEX m then likelyNotIndentChngArtifact c (tS1 t) (iSX m) (iEX m) (tE1 t)
      else Inr (False, c))"

definition taskSize :: "diffTask \<Rightarrow> nat" where
  "taskSize t = (if 0 < tCopy t then 1 else 2 * ((tE1 t - tS1 t) + (tE2 t - tS2 t)) + 1)"

function diffSteps :: "diffTask list \<Rightarrow> dcontext \<Rightarrow> string + dcontext" where
  "diffSteps stack c =
     (case stack of
        [] \<Rightarrow> Inr c
      | t # rest \<Rightarrow>
          if 0 < tCopy t then diffSteps rest (appendTriple c (tCopy t) 0 0)
          else if tE1 t \<le> tS1 t
          then diffSteps rest (if tS2 t < tE2 t then appendTriple c 0 0 (tE2 t - tS2 t) else c)
          else if tE2 t \<le> tS2 t then diffSteps rest (appendTriple c 0 (tE1 t - tS1 t) 0)
          else bindE (longestCommonSequence c (tS1 t) (tE1 t) (tS2 t) (tE2 t)) (\<lambda>m.
               bindE (acceptBlock c t m) (\<lambda>(ok, c1).
                 if ok
                 then diffSteps (rangeTask (tS1 t) (iSX m) (tS2 t) (iSY m) #
                        (if iSX m < iEX m then [copyTask (iEX m - iSX m)] else []) @
                        rangeTask (iEX m) (tE1 t) (iEY m) (tE2 t) # rest) c1
                 else diffSteps rest (appendTriple c1 0 (tE1 t - tS1 t) (tE2 t - tS2 t)))))"
  by pat_completeness auto

lemma accept_nonempty: "acceptBlock c t m = Inr (True, c1) \<Longrightarrow> iSX m < iEX m"
  by (auto simp: acceptBlock_def split: if_splits)

lemma split_size:
  assumes "blockOk c s1 e1 s2 e2 m" "iSX m < iEX m"
  shows "taskSize (rangeTask s1 (iSX m) s2 (iSY m)) + taskSize (copyTask (iEX m - iSX m)) + taskSize (rangeTask (iEX m) e1 (iEY m) e2) <
    2 * ((e1 - s1) + (e2 - s2)) + 1"
  using assms by (auto simp: blockOk_def taskSize_def rangeTask_def copyTask_def)

termination diffSteps
proof (relation "measure (\<lambda>(stack, c). sum_list (map taskSize stack))")
  fix stack c t rest m x ok c1
  assume a: "stack = t # rest" "\<not> 0 < tCopy t" "\<not> tE1 t \<le> tS1 t" "\<not> tE2 t \<le> tS2 t"
    "longestCommonSequence c (tS1 t) (tE1 t) (tS2 t) (tE2 t) = Inr m" "acceptBlock c t m = Inr x" "(ok, c1) = x" ok
  have ne: "iSX m < iEX m" using accept_nonempty [of c t m c1] a(6,7,8) by auto
  have "blockOk c (tS1 t) (tE1 t) (tS2 t) (tE2 t) m" using longestCommonSequence_ok [OF a(5)] a(3,4) by simp
  from split_size [OF this ne] ne a(2)
  show "((rangeTask (tS1 t) (iSX m) (tS2 t) (iSY m) # (if iSX m < iEX m then [copyTask (iEX m - iSX m)] else []) @
           rangeTask (iEX m) (tE1 t) (iEY m) (tE2 t) # rest, c1), stack, c) \<in> measure (\<lambda>(stack, c). sum_list (map taskSize stack))"
    by (simp add: a(1) taskSize_def [of t])
qed (auto simp: taskSize_def)

declare diffSteps.simps [simp del]

text \<open>The common tail and head of \<^verbatim>\<open>diffAll\<close>.\<close>

function commonTail :: "dcontext \<Rightarrow> nat \<Rightarrow> nat \<Rightarrow> string + nat \<times> nat" where
  "commonTail c e1 e2 =
     (if e1 = 0 \<or> e2 = 0 then Inr (e1, e2)
      else bindE (differAt (cFrom c) (int e1 - 1) (cTo c) (int e2 - 1)) (\<lambda>d. if d then Inr (e1, e2) else commonTail c (e1 - 1) (e2 - 1)))"
  by pat_completeness auto
termination by (relation "measure (\<lambda>(c, e1, e2). e1)") auto

declare commonTail.simps [simp del]

definition diffAll :: "dcontext \<Rightarrow> string + dcontext" where
  "diffAll c =
     bindE (commonTail c (cNFrom c) (cNTo c)) (\<lambda>(e1, e2).
     bindE (scanForw (cFrom c) (cTo c) 0 0 0 (min e1 e2)) (\<lambda>s.
     let c1 = (if 0 < s then appendTriple c s 0 0 else c) in
     bindE (diffSteps [rangeTask s e1 s e2] c1) (\<lambda>c2.
     let c3 = (if e1 < cNFrom c then appendTriple c2 (cNFrom c - e1) 0 0 else c2) in
     Inr (c3\<lparr>cEdit := cEdit c3 @ [(0, 0, 0)]\<rparr>))))"

section \<open>Sliding edits\<close>

text \<open>
  The four loops of \<^verbatim>\<open>optimize\<close> for one triple.  The state is \<^verbatim>\<open>lnFrom\<close>, \<^verbatim>\<open>lnTo\<close>, the copy count and the copy count
  of the next triple; \<open>shorter a b c d\<close> is the length test that stops a slide.
\<close>

definition shorter :: "dline list \<Rightarrow> int \<Rightarrow> dline list \<Rightarrow> int \<Rightarrow> dline list \<Rightarrow> int \<Rightarrow> dline list \<Rightarrow> int \<Rightarrow> string + bool" where
  "shorter xs a ys b us d vs e =
     bindE (idx xs a) (\<lambda>p. bindE (idx ys b) (\<lambda>q. bindE (idx us d) (\<lambda>r. bindE (idx vs e) (\<lambda>s.
       Inr (dlN p + dlN q \<le> dlN r + dlN s)))))"

text \<open>\<^verbatim>\<open>differ(top, btm) || lengths\<close>, with the short-circuit.\<close>

definition orStop :: "string + bool \<Rightarrow> string + bool \<Rightarrow> string + bool" where
  "orStop a b = bindE a (\<lambda>d. if d then Inr True else b)"

type_synonym slide = "nat \<times> nat \<times> nat \<times> nat"

fun slideInsUp :: "dcontext \<Rightarrow> nat \<Rightarrow> nat \<Rightarrow> nat \<Rightarrow> nat \<Rightarrow> nat \<Rightarrow> string + slide" where
  "slideInsUp c ins lf lt 0 nxt = Inr (lf, lt, 0, nxt)"
| "slideInsUp c ins lf lt (Suc cpy) nxt =
     bindE (orStop (differAt (cFrom c) (int lf - 1) (cTo c) (int lt + int ins - 1))
         (shorter (cFrom c) (int lf) (cTo c) (int lt + int ins - 1) (cFrom c) (int lf - 1) (cTo c) (int lt + int ins - 2))) (\<lambda>stop.
       if stop then Inr (lf, lt, Suc cpy, nxt) else slideInsUp c ins (lf - 1) (lt - 1) cpy (Suc nxt))"

fun slideInsDown :: "dcontext \<Rightarrow> nat \<Rightarrow> nat \<Rightarrow> nat \<Rightarrow> nat \<Rightarrow> nat \<Rightarrow> string + slide" where
  "slideInsDown c ins lf lt cpy 0 = Inr (lf, lt, cpy, 0)"
| "slideInsDown c ins lf lt cpy (Suc nxt) =
     bindE (orStop (differAt (cTo c) (int lt) (cTo c) (int lt + int ins))
         (shorter (cTo c) (int lt) (cTo c) (int lt + int ins - 1) (cTo c) (int lt + 1) (cTo c) (int lt + int ins))) (\<lambda>stop.
       if stop then Inr (lf, lt, cpy, Suc nxt) else slideInsDown c ins (lf + 1) (lt + 1) (Suc cpy) nxt)"

fun slideDelUp :: "dcontext \<Rightarrow> nat \<Rightarrow> nat \<Rightarrow> nat \<Rightarrow> nat \<Rightarrow> nat \<Rightarrow> string + slide" where
  "slideDelUp c del lf lt 0 nxt = Inr (lf, lt, 0, nxt)"
| "slideDelUp c del lf lt (Suc cpy) nxt =
     bindE (orStop (differAt (cFrom c) (int lf - 1) (cFrom c) (int lf + int del - 1))
         (shorter (cFrom c) (int lf) (cFrom c) (int lf + int del - 1) (cFrom c) (int lf - 1) (cFrom c) (int lf + int del - 2))) (\<lambda>stop.
       if stop then Inr (lf, lt, Suc cpy, nxt) else slideDelUp c del (lf - 1) (lt - 1) cpy (Suc nxt))"

fun slideDelDown :: "dcontext \<Rightarrow> nat \<Rightarrow> nat \<Rightarrow> nat \<Rightarrow> nat \<Rightarrow> nat \<Rightarrow> string + slide" where
  "slideDelDown c del lf lt cpy 0 = Inr (lf, lt, cpy, 0)"
| "slideDelDown c del lf lt cpy (Suc nxt) =
     bindE (orStop (differAt (cFrom c) (int lf) (cFrom c) (int lf + int del))
         (shorter (cFrom c) (int lf) (cFrom c) (int lf + int del - 1) (cFrom c) (int lf) (cFrom c) (int lf + int del))) (\<lambda>stop.
       if stop then Inr (lf, lt, cpy, Suc nxt) else slideDelDown c del (lf + 1) (lt + 1) (Suc cpy) nxt)"

definition slideTriple :: "dcontext \<Rightarrow> nat \<Rightarrow> nat \<Rightarrow> triple \<Rightarrow> nat \<Rightarrow> string + slide" where
  "slideTriple c lf lt t nxt =
     (case t of (cpy, del, ins) \<Rightarrow>
        if del = 0 \<and> 0 < ins
        then bindE (slideInsUp c ins lf lt cpy nxt) (\<lambda>(lf1, lt1, cpy1, nxt1). slideInsDown c ins lf1 lt1 cpy1 nxt1)
        else if 0 < del \<and> ins = 0
        then bindE (slideDelUp c del lf lt cpy nxt) (\<lambda>(lf1, lt1, cpy1, nxt1). slideDelDown c del lf1 lt1 cpy1 nxt1)
        else Inr (lf, lt, cpy, nxt))"

fun optimizeLoop :: "dcontext \<Rightarrow> nat \<Rightarrow> nat \<Rightarrow> triple list \<Rightarrow> string + triple list" where
  "optimizeLoop c lf lt [] = Inr []"
| "optimizeLoop c lf lt [t] = Inr [t]"
| "optimizeLoop c lf lt ((cpy, del, ins) # (nxt, ndel, nins) # es) =
     bindE (slideTriple c (lf + cpy) (lt + cpy) (cpy, del, ins) nxt) (\<lambda>(lf1, lt1, cpy1, nxt1).
     bindE (optimizeLoop c (lf1 + del) (lt1 + ins) ((nxt1, ndel, nins) # es)) (\<lambda>r. Inr ((cpy1, del, ins) # r)))"

definition optimize :: "dcontext \<Rightarrow> string + dcontext" where
  "optimize c = bindE (optimizeLoop c 0 0 (cEdit c)) (\<lambda>e. Inr (c\<lparr>cEdit := e\<rparr>))"

text \<open>The sum of \<^verbatim>\<open>n\<close> over \<open>k\<close> lines from \<open>i\<close>.\<close>

fun sumN :: "dline list \<Rightarrow> nat \<Rightarrow> nat \<Rightarrow> string + nat" where
  "sumN ls i 0 = Inr 0"
| "sumN ls i (Suc k) = bindE (idx ls (int i)) (\<lambda>a. bindE (sumN ls (Suc i) k) (\<lambda>n. Inr (dlN a + n)))"

fun tokensToBytes :: "dcontext \<Rightarrow> nat \<Rightarrow> nat \<Rightarrow> triple list \<Rightarrow> string + triple list" where
  "tokensToBytes c iA iB [] = Inl ''index out of range''"
| "tokensToBytes c iA iB ((cpy, del, ins) # es) =
     (if cpy = 0 \<and> del = 0 \<and> ins = 0 then Inr ((cpy, del, ins) # es)
      else bindE (sumN (cFrom c) iA cpy) (\<lambda>a.
           bindE (sumN (cFrom c) (iA + cpy) del) (\<lambda>b.
           bindE (sumN (cTo c) (iB + cpy) ins) (\<lambda>d.
           bindE (tokensToBytes c (iA + cpy + del) (iB + cpy + ins) es) (\<lambda>r. Inr ((a, b, d) # r))))))"

end
