(* ===== verification/Merge_Text.thy ===== *)
theory Merge_Text
  imports Merge_Diff
begin

text \<open>
  The three-way merge of \<^verbatim>\<open>src/internal/merge\<close>: the conversion of \<^verbatim>\<open>utf.go\<close>, \<^verbatim>\<open>textDiff\<close>, the walk over two edit
  vectors and the text builder of \<^verbatim>\<open>merge3.go\<close>, the conflict markers of \<^verbatim>\<open>marker.go\<close> and the strategies.

  An edit vector is the list of its triples; the walk consumes it from the front, so the model keeps what is left of it
  before the terminating zero triple.  A cursor is the bytes and the offset.
\<close>

section \<open>Conversion to UTF-8\<close>

definition utf8BOM :: bytes where "utf8BOM = [CHR 0xEF, CHR 0xBB, CHR 0xBF]"

text \<open>\<^verbatim>\<open>utf16BOM\<close>: \<open>Some reverse\<close> when there is one.\<close>

definition utf16BOM :: "bytes \<Rightarrow> bool option" where
  "utf16BOM data =
     (if length data < 2 \<or> (4 \<le> length data \<and> data ! 2 = CHR 0x00 \<and> data ! 3 = CHR 0x00) then None
      else if data ! 0 = CHR 0xFF \<and> data ! 1 = CHR 0xFE then Some False
      else if data ! 0 = CHR 0xFE \<and> data ! 1 = CHR 0xFF then Some True
      else None)"

text \<open>Byte pairs swapped from the end: an odd first byte stays in place.\<close>

fun swapPairs :: "bytes \<Rightarrow> bytes" where
  "swapPairs (a # b # xs) = b # a # swapPairs xs"
| "swapPairs xs = xs"

definition swapFromEnd :: "bytes \<Rightarrow> bytes" where
  "swapFromEnd buf = (if even (length buf) then swapPairs buf else hd buf # swapPairs (List.tl buf))"

definition byteOf :: "nat \<Rightarrow> byte" where "byteOf n = char_of (n mod 256)"

definition appendUTF8 :: "bytes \<Rightarrow> nat \<Rightarrow> bytes" where
  "appendUTF8 out c =
     out @
     (if c < 0x80 then [byteOf c]
      else if c < 0x800 then [byteOf (0xC0 + c div 2 ^ 6 mod 32), byteOf (0x80 + c mod 64)]
      else if c < 0x10000 then [byteOf (0xE0 + c div 2 ^ 12 mod 16), byteOf (0x80 + c div 2 ^ 6 mod 64), byteOf (0x80 + c mod 64)]
      else [byteOf (0xF0 + c div 2 ^ 18 mod 8), byteOf (0x80 + c div 2 ^ 12 mod 64), byteOf (0x80 + c div 2 ^ 6 mod 64),
            byteOf (0x80 + c mod 64)])"

definition unitOf :: "bool \<Rightarrow> byte \<Rightarrow> byte \<Rightarrow> nat" where
  "unitOf bigEndian a b = (if bigEndian then byteval a * 256 + byteval b else byteval a + byteval b * 256)"

text \<open>A surrogate and the unit after it.\<close>

definition joinUnits :: "nat \<Rightarrow> nat \<Rightarrow> nat" where
  "joinUnits c c2 = c2 mod 1024 + (c mod 64) * 1024 + ((c div 64 mod 16) * 64 + 64) * 1024"

fun unitsLoop :: "bool \<Rightarrow> bytes \<Rightarrow> bytes \<Rightarrow> bytes" where
  "unitsLoop be (a # b # a2 # b2 # z) out =
     (let c = unitOf be a b in
      if 0xD800 \<le> c \<and> c < 0xE000 then unitsLoop be z (appendUTF8 out (joinUnits c (unitOf be a2 b2)))
      else unitsLoop be (a2 # b2 # z) (appendUTF8 out c))"
| "unitsLoop be [a, b] out = appendUTF8 out (unitOf be a b)"
| "unitsLoop be [a, b, x] out = out"
| "unitsLoop be [a] out = out"
| "unitsLoop be [] out = out"

text \<open>The units before the first U+0000; an odd last byte is dropped.\<close>

fun untilNul :: "bytes \<Rightarrow> bytes" where
  "untilNul (a # b # z) = (if a = CHR 0x00 \<and> b = CHR 0x00 then [] else a # b # untilNul z)"
| "untilNul z = []"

definition utf16LEToUTF8 :: "bytes \<Rightarrow> bytes" where
  "utf16LEToUTF8 z0 =
     (let z = untilNul z0 in
      if 1 < length z \<and> (take 2 z = [CHR 0xFE, CHR 0xFF] \<or> take 2 z = [CHR 0xFF, CHR 0xFE])
      then unitsLoop (hd z = CHR 0xFE) (drop 2 z) []
      else unitsLoop False z [])"

definition toUTF8NoBOM :: "bytes \<Rightarrow> bytes" where
  "toUTF8NoBOM data =
     (if prefix utf8BOM data then takeWhile (\<lambda>c. c \<noteq> CHR 0x00) (drop (length utf8BOM) data)
      else case utf16BOM data of
             None \<Rightarrow> data
           | Some reverse \<Rightarrow>
               let buf = (if reverse then swapFromEnd data else data) in
               utf16LEToUTF8 (drop 2 (buf @ replicate 3 (CHR 0x00))))"

section \<open>The diff of two texts\<close>

text \<open>The context of two line arrays, both in one: the lines, or \<open>None\<close> when a file is binary.\<close>

definition newContext :: "(dline list \<times> nat) \<Rightarrow> (dline list \<times> nat) \<Rightarrow> dcontext" where
  "newContext a b = \<lparr>cEdit = [], cFrom = fst a, cTo = fst b, cNFrom = snd a, cNTo = snd b\<rparr>"

definition breakBoth :: "bytes \<Rightarrow> bytes \<Rightarrow> bool \<Rightarrow> string + dcontext option" where
  "breakBoth a b byToken =
     (if byToken
      then bindE (breakIntoTokens a) (\<lambda>x. bindE (breakIntoTokens b) (\<lambda>y. Inr (Some (newContext x y))))
      else bindE (breakIntoLines a) (\<lambda>x. bindE (breakIntoLines b) (\<lambda>y.
           Inr (case (x, y) of (Some p, Some q) \<Rightarrow> Some (newContext p q) | _ \<Rightarrow> None))))"

definition textDiff :: "bytes \<Rightarrow> bytes \<Rightarrow> bool \<Rightarrow> string + (bytes \<times> bytes \<times> triple list option)" where
  "textDiff a0 b0 byToken =
     (let a = toUTF8NoBOM a0; b = toUTF8NoBOM b0 in
      bindE (breakBoth a b byToken) (\<lambda>r.
        case r of
          None \<Rightarrow> Inr (a, b, None)
        | Some c \<Rightarrow>
            bindE (diffAll c) (\<lambda>c1.
            bindE (optimize c1) (\<lambda>c2.
            bindE (if byToken then tokensToBytes c2 0 0 (cEdit c2) else Inr (cEdit c2)) (\<lambda>e. Inr (a, b, Some e))))))"

section \<open>Reading lines\<close>

record cursorBlob =
  cbData :: bytes
  cbCur :: nat

text \<open>The offset \<^verbatim>\<open>copyLines\<close> stops at: behind the \<open>n\<close>-th newline from the cursor, or the end.\<close>

fun lineStop :: "bytes \<Rightarrow> nat \<Rightarrow> nat" where
  "lineStop [] n = 0"
| "lineStop (c # cs) n = (if c = LF then (if n = 1 then 1 else Suc (lineStop cs (n - 1))) else Suc (lineStop cs n))"

definition copyLines :: "cursorBlob \<Rightarrow> nat \<Rightarrow> bytes \<times> cursorBlob" where
  "copyLines b n =
     (if n = 0 then ([], b)
      else let k = lineStop (drop (cbCur b) (cbData b)) n in
           (take k (drop (cbCur b) (cbData b)), b\<lparr>cbCur := cbCur b + k\<rparr>))"

fun extractStop :: "bytes \<Rightarrow> nat \<Rightarrow> nat" where
  "extractStop cs 0 = 0"
| "extractStop cs (Suc n) =
     (let k = length (takeWhile (\<lambda>c. c \<noteq> LF) cs) in
      if length cs \<le> k then k else Suc k + extractStop (drop (Suc k) cs) n)"

definition extractLines :: "cursorBlob \<Rightarrow> nat \<Rightarrow> bytes" where
  "extractLines b n = take (extractStop (drop (cbCur b) (cbData b)) n) (drop (cbCur b) (cbData b))"

definition lineCount :: "bytes \<Rightarrow> nat" where
  "lineCount data = length (filter (\<lambda>c. c = LF) data) + (if data \<noteq> [] \<and> last data \<noteq> LF then 1 else 0)"

fun startsLoop :: "nat \<Rightarrow> bytes \<Rightarrow> nat list" where
  "startsLoop i [] = []"
| "startsLoop i (c # cs) = (if c = LF then (i + 1) # startsLoop (i + 1) cs else startsLoop (i + 1) cs)"

definition lineStarts :: "bytes \<Rightarrow> nat \<Rightarrow> nat" where
  "lineStarts data line = (let starts = 0 # startsLoop 0 data in if line < length starts then starts ! line else length data)"

section \<open>The walk over two edit vectors\<close>

datatype opKind = opSame | opChngV1 | opChngV2 | opChngBoth | opConflict

record mergeOp =
  moKind :: opKind
  moPivot :: nat
  moV1 :: nat
  moV2 :: nat

definition mkOp :: "opKind \<Rightarrow> nat \<Rightarrow> nat \<Rightarrow> nat \<Rightarrow> mergeOp" where
  "mkOp k p a b = \<lparr>moKind = k, moPivot = p, moV1 = a, moV2 = b\<rparr>"

text \<open>The vector before its terminator; running past the end is the panic.\<close>

fun editsEnd :: "triple list \<Rightarrow> string + triple list" where
  "editsEnd [] = Inl ''index out of range''"
| "editsEnd (t # es) = (if t = (0, 0, 0) then Inr [] else bindE (editsEnd es) (\<lambda>r. Inr (t # r)))"

text \<open>Reading past the data gives the NUL; \<open>None\<close> never occurs, see \<open>sameLines_total\<close>.\<close>

definition atNul :: "bytes \<Rightarrow> nat \<Rightarrow> byte" where
  "atNul z i = (if i < length z then z ! i else CHR 0x00)"

function sameLoop :: "bytes \<Rightarrow> bytes \<Rightarrow> nat \<Rightarrow> nat \<Rightarrow> bool" where
  "sameLoop z1 z2 n i =
     (let c = atNul z1 i in
      if c \<noteq> atNul z2 i then False
      else if c = LF \<or> c = CHR 0x00
      then (if n = 1 \<or> c = CHR 0x00 then True else sameLoop z1 z2 (n - 1) (Suc i))
      else sameLoop z1 z2 n (Suc i))"
  by pat_completeness auto
termination
  by (relation "measure (\<lambda>(z1, z2, n, i). length z1 - i)") (auto simp: atNul_def split: if_splits)

declare sameLoop.simps [simp del]

definition sameLines :: "bytes \<Rightarrow> bytes \<Rightarrow> nat \<Rightarrow> bool" where
  "sameLines z1 z2 n = (if n = 0 then True else sameLoop z1 z2 n 0)"

definition sameEdit :: "triple \<Rightarrow> triple \<Rightarrow> bytes \<Rightarrow> bytes \<Rightarrow> bool" where
  "sameEdit t1 t2 z1 z2 = (if t1 \<noteq> t2 then False else sameLines z1 z2 (snd (snd t1)))"

fun endsWithCopy :: "triple list \<Rightarrow> nat \<Rightarrow> bool" where
  "endsWithCopy [] sz = True"
| "endsWithCopy ((c, d, i) # es) sz =
     (if sz = 0 \<or> (c = 0 \<and> d = 0 \<and> i = 0) then True
      else if sz \<le> c then True
      else if sz - c < d then False
      else endsWithCopy es (sz - c - d))"

text \<open>\<^verbatim>\<open>skipConflict\<close>; a size that has gone below zero ends the loop as zero does.\<close>

fun skipConflict :: "triple list \<Rightarrow> nat \<Rightarrow> triple list \<times> nat" where
  "skipConflict [] sz = ([], 0)"
| "skipConflict ((c, d, i) # es) sz =
     (if sz = 0 \<or> (c = 0 \<and> d = 0 \<and> i = 0) then ((c, d, i) # es, 0)
      else if sz \<le> c then ((c - sz, d, i) # es, sz)
      else case skipConflict es (sz - (c + d)) of (es', passed) \<Rightarrow> (es', c + i + passed))"

definition pivotLen :: "triple list \<Rightarrow> nat" where
  "pivotLen es = sum_list (map (\<lambda>(c, d, i). c + d) es)"

lemma endsWithCopy_end: "pivotLen es \<le> sz \<Longrightarrow> endsWithCopy es sz"
  by (induction es sz rule: endsWithCopy.induct) (auto simp: pivotLen_def)

function conflictSize :: "triple list \<Rightarrow> triple list \<Rightarrow> nat \<Rightarrow> nat" where
  "conflictSize e1 e2 sz = (if endsWithCopy e1 sz \<and> endsWithCopy e2 sz then sz else conflictSize e1 e2 (Suc sz))"
  by pat_completeness auto
termination
proof (relation "measure (\<lambda>(e1, e2, sz). pivotLen e1 + pivotLen e2 - sz)")
  fix e1 e2 sz
  assume "\<not> (endsWithCopy e1 sz \<and> endsWithCopy e2 sz)"
  then have "sz < pivotLen e1 \<or> sz < pivotLen e2" using endsWithCopy_end by (meson not_le)
  then show "((e1, e2, Suc sz), e1, e2, sz) \<in> measure (\<lambda>(e1, e2, sz). pivotLen e1 + pivotLen e2 - sz)" by auto
qed auto

declare conflictSize.simps [simp del]

definition dropZero :: "triple list \<Rightarrow> triple list" where
  "dropZero es = (case es of [] \<Rightarrow> [] | t # r \<Rightarrow> if t = (0, 0, 0) then r else t # r)"

text \<open>
  One turn of the loop: the operation and what is left of the two vectors.  \<open>z1\<close> and \<open>z2\<close> are the bytes of the two
  versions from their cursors, which a slice out of range turns into the panic.
\<close>

definition walkStep ::
  "triple list \<Rightarrow> triple list \<Rightarrow> string + bytes \<Rightarrow> string + bytes \<Rightarrow> string + mergeOp \<times> triple list \<times> triple list" where
  "walkStep e1 e2 z1 z2 =
     (case (hd e1, hd e2) of ((c1, d1, i1), (c2, d2, i2)) \<Rightarrow>
        if 0 < c1 \<and> 0 < c2
        then let n = min c1 c2 in Inr (mkOp opSame n n n, (c1 - n, d1, i1) # List.tl e1, (c2 - n, d2, i2) # List.tl e2)
        else if d2 \<le> c1 \<and> 0 < c1 \<and> 0 < d2 + i2
        then Inr (mkOp opChngV2 d2 d2 i2, (c1 - d2, d1, i1) # List.tl e1, List.tl e2)
        else if d1 \<le> c2 \<and> 0 < c2 \<and> 0 < d1 + i1
        then Inr (mkOp opChngV1 d1 i1 d1, List.tl e1, (c2 - d1, d2, i2) # List.tl e2)
        else bindE z1 (\<lambda>b1. bindE z2 (\<lambda>b2.
          if sameEdit (c1, d1, i1) (c2, d2, i2) b1 b2
          then (if c1 \<noteq> 0 then Inl ''merge.walkEdits: identical edits after a copy''
                else Inr (mkOp opChngBoth d1 i1 i1, List.tl e1, List.tl e2))
          else let sz = conflictSize e1 e2 1;
                   (r1, nV1) = skipConflict e1 sz; (r2, nV2) = skipConflict e2 sz in
               Inr (mkOp opConflict sz nV1 nV2, r1, r2))))"

definition sliceFrom :: "bytes \<Rightarrow> nat \<Rightarrow> string + bytes" where
  "sliceFrom z i = (if i \<le> length z then Inr (drop i z) else Inl ''slice bounds out of range'')"

text \<open>What follows the loop.\<close>

definition walkTail :: "triple list \<Rightarrow> triple list \<Rightarrow> mergeOp list" where
  "walkTail e1 e2 =
     (if e1 \<noteq> [] \<and> 0 < snd (snd (hd e1)) then [mkOp opChngV1 0 (snd (snd (hd e1))) 0]
      else if e2 \<noteq> [] \<and> 0 < snd (snd (hd e2)) then [mkOp opChngV2 0 0 (snd (snd (hd e2)))]
      else [])"

definition editSize :: "triple list \<Rightarrow> nat" where
  "editSize es = sum_list (map (\<lambda>(c, d, i). c + 1) es)"

lemma editSize_simps [simp]: "editSize [] = 0" "editSize ((c, d, i) # es) = c + 1 + editSize es"
  by (simp_all add: editSize_def)

lemma skip_size: "editSize (fst (skipConflict es sz)) \<le> editSize es"
  by (induction es sz rule: skipConflict.induct) (auto split: prod.split)

lemma dropZero_size: "editSize (dropZero es) \<le> editSize es"
  by (cases es) (auto simp: dropZero_def)

lemma skip_progress: "0 < sz \<Longrightarrow> es \<noteq> [] \<Longrightarrow> editSize (dropZero (fst (skipConflict es sz))) < editSize es"
proof -
  assume a: "0 < sz" "es \<noteq> []"
  obtain c d i r where es: "es = (c, d, i) # r" using a(2) by (cases es) auto
  show ?thesis
  proof (cases "(c, d, i) = (0, 0, 0) \<or> sz \<le> c")
    case True
    then show ?thesis using a dropZero_size [of "(c - sz, d, i) # r"] by (auto simp: es dropZero_def)
  next
    case False
    have "editSize (dropZero (fst (skipConflict r (sz - (c + d))))) \<le> editSize r"
      using dropZero_size skip_size by (meson le_trans)
    then show ?thesis using a False by (auto simp: es split: prod.split)
  qed
qed

lemma conflictSize_pos: "sz \<le> conflictSize e1 e2 sz"
  by (induction e1 e2 sz rule: conflictSize.induct) (subst conflictSize.simps, auto)

lemma walkStep_cases:
  assumes "walkStep ((c1, d1, i1) # t1) ((c2, d2, i2) # t2) z1 z2 = Inr (op, r1, r2)"
  obtains (same) n where "n = min c1 c2" "0 < n" "op = mkOp opSame n n n" "r1 = (c1 - n, d1, i1) # t1" "r2 = (c2 - n, d2, i2) # t2"
  | (v2) "d2 \<le> c1" "0 < c1" "c2 = 0" "0 < d2 + i2" "op = mkOp opChngV2 d2 d2 i2" "r1 = (c1 - d2, d1, i1) # t1" "r2 = t2"
  | (v1) "d1 \<le> c2" "0 < c2" "c1 = 0" "0 < d1 + i1" "op = mkOp opChngV1 d1 i1 d1" "r1 = t1" "r2 = (c2 - d1, d2, i2) # t2"
  | (both) b1 b2 where "z1 = Inr b1" "z2 = Inr b2" "c1 = 0" "c2 = 0" "d1 = d2" "i1 = i2" "sameLines b1 b2 i1"
      "op = mkOp opChngBoth d1 i1 i1" "r1 = t1" "r2 = t2"
  | (conflict) sz where "sz = conflictSize ((c1, d1, i1) # t1) ((c2, d2, i2) # t2) 1" "c1 = 0 \<or> c2 = 0"
      "op = mkOp opConflict sz (snd (skipConflict ((c1, d1, i1) # t1) sz)) (snd (skipConflict ((c2, d2, i2) # t2) sz))"
      "r1 = fst (skipConflict ((c1, d1, i1) # t1) sz)" "r2 = fst (skipConflict ((c2, d2, i2) # t2) sz)"
proof -
  note st = assms [unfolded walkStep_def, simplified]
  consider (a) "0 < c1 \<and> 0 < c2" | (b) "\<not> (0 < c1 \<and> 0 < c2)" "d2 \<le> c1 \<and> 0 < c1 \<and> 0 < d2 + i2"
    | (c) "\<not> (0 < c1 \<and> 0 < c2)" "\<not> (d2 \<le> c1 \<and> 0 < c1 \<and> 0 < d2 + i2)" "d1 \<le> c2 \<and> 0 < c2 \<and> 0 < d1 + i1"
    | (d) "\<not> (0 < c1 \<and> 0 < c2)" "\<not> (d2 \<le> c1 \<and> 0 < c1 \<and> 0 < d2 + i2)" "\<not> (d1 \<le> c2 \<and> 0 < c2 \<and> 0 < d1 + i1)" by blast
  then show thesis
  proof cases
    case a
    then show thesis using st by (intro that(1) [of "min c1 c2"]) (auto simp: Let_def)
  next
    case b
    then show thesis using st by (intro that(2)) auto
  next
    case c
    then show thesis using st by (intro that(3)) auto
  next
    case d
    have "bindE z1 (\<lambda>b1. bindE z2 (\<lambda>b2.
          if sameEdit (c1, d1, i1) (c2, d2, i2) b1 b2
          then (if c1 \<noteq> 0 then Inl ''merge.walkEdits: identical edits after a copy'' else Inr (mkOp opChngBoth d1 i1 i1, t1, t2))
          else let sz = conflictSize ((c1, d1, i1) # t1) ((c2, d2, i2) # t2) 1;
                   (r1, nV1) = skipConflict ((c1, d1, i1) # t1) sz; (r2, nV2) = skipConflict ((c2, d2, i2) # t2) sz in
               Inr (mkOp opConflict sz nV1 nV2, r1, r2))) = Inr (op, r1, r2)"
      using assms d by (simp only: walkStep_def list.sel prod.case if_False)
    then obtain b1 b2 where z: "z1 = Inr b1" "z2 = Inr b2" and
      r: "(if sameEdit (c1, d1, i1) (c2, d2, i2) b1 b2
          then (if c1 \<noteq> 0 then Inl ''merge.walkEdits: identical edits after a copy'' else Inr (mkOp opChngBoth d1 i1 i1, t1, t2))
          else let sz = conflictSize ((c1, d1, i1) # t1) ((c2, d2, i2) # t2) 1;
                   (r1, nV1) = skipConflict ((c1, d1, i1) # t1) sz; (r2, nV2) = skipConflict ((c2, d2, i2) # t2) sz in
               Inr (mkOp opConflict sz nV1 nV2, r1, r2)) = Inr (op, r1, r2)" by (auto simp only: bindE_eq_Inr_iff)
    show thesis
    proof (cases "sameEdit (c1, d1, i1) (c2, d2, i2) b1 b2")
      case True
      then show thesis using r z d by (intro that(4)) (auto simp: sameEdit_def split: if_splits)
    next
      case False
      let ?sz = "conflictSize ((c1, d1, i1) # t1) ((c2, d2, i2) # t2) 1"
      have "op = mkOp opConflict ?sz (snd (skipConflict ((c1, d1, i1) # t1) ?sz)) (snd (skipConflict ((c2, d2, i2) # t2) ?sz)) \<and>
        r1 = fst (skipConflict ((c1, d1, i1) # t1) ?sz) \<and> r2 = fst (skipConflict ((c2, d2, i2) # t2) ?sz)"
        using r False by (simp only: Let_def case_prod_beta if_False) (simp del: skipConflict.simps)
      moreover have "c1 = 0 \<or> c2 = 0" using d by auto
      ultimately show thesis using that(5) [OF refl] by blast
    qed
  qed
qed

lemma walkStep_progress:
  assumes "walkStep e1 e2 z1 z2 = Inr (op, r1, r2)" "e1 \<noteq> []" "e2 \<noteq> []"
  shows "editSize (dropZero r1) + editSize (dropZero r2) < editSize e1 + editSize e2"
proof -
  obtain c1 d1 i1 t1 c2 d2 i2 t2 where e: "e1 = (c1, d1, i1) # t1" "e2 = (c2, d2, i2) # t2"
    using assms(2,3) by (metis list.exhaust prod_cases3)
  note dz = dropZero_size [of r1] dropZero_size [of r2]
  from assms(1) [unfolded e] show ?thesis
  proof (cases rule: walkStep_cases)
    case (same n)
    then show ?thesis using dz unfolding e by simp linarith
  next
    case (conflict sz)
    then have "0 < sz" using conflictSize_pos [of 1] by (metis less_le_trans zero_less_one)
    then show ?thesis using skip_progress [of sz e1] skip_progress [of sz e2] conflict(4,5) assms(2,3) by (simp add: e del: skipConflict.simps)
  qed (use dz in \<open>auto simp: e\<close>)
qed

function walkLoop ::
  "bytes \<Rightarrow> bytes \<Rightarrow> (nat \<Rightarrow> nat) \<Rightarrow> (nat \<Rightarrow> nat) \<Rightarrow> triple list \<Rightarrow> triple list \<Rightarrow> nat \<Rightarrow> nat \<Rightarrow> string + mergeOp list \<times> nat" where
  "walkLoop v1 v2 at1 at2 e1 e2 u1 u2 =
     (if e1 = [] \<or> e2 = [] then Inr (walkTail e1 e2, 0)
      else bindE (walkStep e1 e2 (sliceFrom v1 (at1 u1)) (sliceFrom v2 (at2 u2))) (\<lambda>(op, r1, r2).
           bindE (walkLoop v1 v2 at1 at2 (dropZero r1) (dropZero r2) (u1 + moV1 op) (u2 + moV2 op)) (\<lambda>(ops, n).
             Inr (op # ops, (if moKind op = opConflict then n + 1 else n)))))"
  by pat_completeness auto
termination
proof (relation "measure (\<lambda>(v1, v2, at1, at2, e1, e2, u1, u2). editSize e1 + editSize e2)")
  fix v1 v2 :: bytes and at1 at2 :: "nat \<Rightarrow> nat" and e1 e2 r1 r2 :: "triple list" and u1 u2 :: nat and x op y
  assume "\<not> (e1 = [] \<or> e2 = [])" "walkStep e1 e2 (sliceFrom v1 (at1 u1)) (sliceFrom v2 (at2 u2)) = Inr x" "(op, y) = x" "(r1, r2) = y"
  then show "((v1, v2, at1, at2, dropZero r1, dropZero r2, u1 + moV1 op, u2 + moV2 op), v1, v2, at1, at2, e1, e2, u1, u2)
    \<in> measure (\<lambda>(v1, v2, at1, at2, e1, e2, u1, u2). editSize e1 + editSize e2)"
    using walkStep_progress [of e1 e2 _ _ op r1 r2] by auto
qed auto

declare walkLoop.simps [simp del]

definition walkEdits ::
  "triple list \<Rightarrow> triple list \<Rightarrow> bytes \<Rightarrow> bytes \<Rightarrow> (nat \<Rightarrow> nat) \<Rightarrow> (nat \<Rightarrow> nat) \<Rightarrow> string + mergeOp list \<times> nat" where
  "walkEdits aC1 aC2 v1 v2 at1 at2 =
     bindE (editsEnd aC1) (\<lambda>e1. bindE (editsEnd aC2) (\<lambda>e2. walkLoop v1 v2 at1 at2 e1 e2 0 0))"

section \<open>The token builder\<close>

definition checkedSlice :: "bytes \<Rightarrow> nat \<Rightarrow> nat \<Rightarrow> string + bytes" where
  "checkedSlice z lo n = (if lo + n \<le> length z then Inr (take n (drop lo z)) else Inl ''slice bounds out of range'')"

fun tokensApply :: "bytes \<Rightarrow> bytes \<Rightarrow> bytes \<Rightarrow> nat \<Rightarrow> nat \<Rightarrow> nat \<Rightarrow> mergeOp list \<Rightarrow> string + bytes" where
  "tokensApply pivot v1 v2 ip i1 i2 [] = Inr []"
| "tokensApply pivot v1 v2 ip i1 i2 (op # ops) =
     bindE (case moKind op of
              opSame \<Rightarrow> checkedSlice pivot ip (moPivot op)
            | opChngV1 \<Rightarrow> checkedSlice v1 i1 (moV1 op)
            | _ \<Rightarrow> checkedSlice v2 i2 (moV2 op)) (\<lambda>part.
     bindE (tokensApply pivot v1 v2 (ip + moPivot op) (i1 + moV1 op) (i2 + moV2 op) ops) (\<lambda>rest. Inr (part @ rest)))"

definition mergeTokens :: "bytes \<Rightarrow> bytes \<Rightarrow> bytes \<Rightarrow> string + bytes" where
  "mergeTokens pivot0 v10 v20 =
     bindE (textDiff pivot0 v10 True) (\<lambda>(pivot1, v1, r1).
     bindE (textDiff pivot1 v20 True) (\<lambda>(pivot, v2, r2).
       case (r1, r2) of
         (Some aC1, Some aC2) \<Rightarrow>
           bindE (walkEdits aC1 aC2 v1 v2 (\<lambda>i. i) (\<lambda>i. i)) (\<lambda>(ops, _).
           bindE (tokensApply pivot v1 v2 0 0 0 ops) (\<lambda>out.
             Inr (if out \<noteq> [] \<and> last out \<noteq> LF then out @ [LF] else out)))
       | _ \<Rightarrow> Inr []))"

section \<open>The text builder\<close>

definition markerBegin :: bytes where
  "markerBegin = ''<<<<<<< BEGIN MERGE CONFLICT: local copy shown first <<<<<<<<<<<<''"
definition markerAncestor :: bytes where
  "markerAncestor = ''||||||| COMMON ANCESTOR content follows |||||||||||||||||||||||||''"
definition markerMergedIn :: bytes where
  "markerMergedIn = ''======= MERGED IN content follows ===============================''"
definition markerEnd :: bytes where
  "markerEnd = ''>>>>>>> END MERGE CONFLICT >>>>>>>>>>>>>>>>>>>>>>>>>>>>>>>>>>>>>>''"
definition markerSuggested :: bytes where
  "markerSuggested = ''####### SUGGESTED CONFLICT RESOLUTION follows ###################''"

definition markerLen :: nat where "markerLen = length markerBegin"

record Conflict =
  cfStartLine :: nat
  cfEndLine :: nat
  cfLocal :: bytes
  cfRemote :: bytes
  cfBase :: bytes

record textMerger =
  tmPivot :: cursorBlob
  tmV1 :: cursorBlob
  tmV2 :: cursorBlob
  tmOut :: bytes
  tmCRLF :: bool
  tmLnPivot :: nat
  tmLnV1 :: nat
  tmLnV2 :: nat
  tmConflicts :: "Conflict list"

definition containsCRLF :: "bytes \<Rightarrow> bool" where
  "containsCRLF z =
     (if length z < 2 then False
      else let nl = length (takeWhile (\<lambda>c. c \<noteq> LF) (drop 1 z)) in nl < length (drop 1 z) \<and> z ! nl = CHR 0x0D)"

definition ensureLineEnd :: "bool \<Rightarrow> bytes \<Rightarrow> bytes" where
  "ensureLineEnd crlf out = (if out = [] \<or> last out = LF then out else out @ (if crlf then [CHR 0x0D] else []) @ [LF])"

definition appendMark :: "bool \<Rightarrow> bytes \<Rightarrow> bytes \<Rightarrow> nat \<Rightarrow> bytes" where
  "appendMark crlf out marker line =
     ensureLineEnd crlf (ensureLineEnd crlf out @ marker @ (if 0 < line then '' (line '' @ decimal line @ '')'' else []))"

definition emit :: "bytes \<times> cursorBlob \<Rightarrow> bytes \<Rightarrow> bytes" where
  "emit p out = out @ fst p"

definition mergerStart :: "bytes \<Rightarrow> bytes \<Rightarrow> bytes \<Rightarrow> textMerger" where
  "mergerStart pivot v1 v2 =
     \<lparr>tmPivot = \<lparr>cbData = pivot, cbCur = 0\<rparr>, tmV1 = \<lparr>cbData = v1, cbCur = 0\<rparr>, tmV2 = \<lparr>cbData = v2, cbCur = 0\<rparr>,
      tmOut = (if prefix utf8BOM v1 \<and> prefix utf8BOM v2 then utf8BOM else []),
      tmCRLF = containsCRLF v1 \<and> containsCRLF v2, tmLnPivot = 0, tmLnV1 = 0, tmLnV2 = 0, tmConflicts = []\<rparr>"

definition suggest :: "bool \<Rightarrow> bytes \<Rightarrow> bytes \<Rightarrow> bytes" where
  "suggest crlf res out =
     (let nRes = lineCount res in
      if 0 < nRes then appendMark crlf out markerSuggested 0 @ fst (copyLines \<lparr>cbData = res, cbCur = 0\<rparr> nRes) else out)"

definition mergerConflict :: "textMerger \<Rightarrow> nat \<Rightarrow> nat \<Rightarrow> nat \<Rightarrow> string + textMerger" where
  "mergerConflict m nPivot nV1 nV2 =
     (let loc = extractLines (tmV1 m) nV1; base = extractLines (tmPivot m) nPivot; remote = extractLines (tmV2 m) nV2;
          cf = \<lparr>cfStartLine = tmLnPivot m + 1, cfEndLine = tmLnPivot m + nPivot, cfLocal = loc, cfRemote = remote, cfBase = base\<rparr>;
          mark = appendMark (tmCRLF m) in
      bindE (mergeTokens base loc remote) (\<lambda>res.
        let p1 = copyLines (tmV1 m) nV1; pp = copyLines (tmPivot m) nPivot; p2 = copyLines (tmV2 m) nV2;
            o1 = emit p1 (mark (tmOut m) markerBegin (tmLnV1 m + 1));
            o2 = suggest (tmCRLF m) res o1;
            o3 = emit pp (mark o2 markerAncestor (tmLnPivot m + 1));
            o4 = emit p2 (mark o3 markerMergedIn (tmLnV2 m + 1)) in
        Inr (m\<lparr>tmOut := mark o4 markerEnd 0, tmConflicts := tmConflicts m @ [cf],
               tmPivot := snd pp, tmV1 := snd p1, tmV2 := snd p2\<rparr>)))"

definition mergerApply :: "textMerger \<Rightarrow> mergeOp \<Rightarrow> string + textMerger" where
  "mergerApply m op =
     (let pp = copyLines (tmPivot m) (moPivot op); p1 = copyLines (tmV1 m) (moV1 op); p2 = copyLines (tmV2 m) (moV2 op);
          moved = m\<lparr>tmPivot := snd pp, tmV1 := snd p1, tmV2 := snd p2\<rparr> in
      bindE (case moKind op of
               opSame \<Rightarrow> Inr (moved\<lparr>tmOut := emit pp (tmOut m)\<rparr>)
             | opChngV1 \<Rightarrow> Inr (moved\<lparr>tmOut := emit p1 (tmOut m)\<rparr>)
             | opChngV2 \<Rightarrow> Inr (moved\<lparr>tmOut := emit p2 (tmOut m)\<rparr>)
             | opChngBoth \<Rightarrow> Inr (moved\<lparr>tmOut := emit p2 (tmOut m)\<rparr>)
             | opConflict \<Rightarrow> mergerConflict m (moPivot op) (moV1 op) (moV2 op)) (\<lambda>m1.
        Inr (m1\<lparr>tmLnPivot := tmLnPivot m + moPivot op, tmLnV1 := tmLnV1 m + moV1 op, tmLnV2 := tmLnV2 m + moV2 op\<rparr>)))"

fun mergerRun :: "textMerger \<Rightarrow> mergeOp list \<Rightarrow> string + textMerger" where
  "mergerRun m [] = Inr m"
| "mergerRun m (op # ops) = bindE (mergerApply m op) (\<lambda>m1. mergerRun m1 ops)"

text \<open>\<^verbatim>\<open>mergeText\<close>: \<open>None\<close> is the count -1, binary content.\<close>

definition mergeText :: "bytes \<Rightarrow> bytes \<Rightarrow> bytes \<Rightarrow> string + (bytes \<times> Conflict list \<times> nat) option" where
  "mergeText pivot0 v10 v20 =
     bindE (textDiff pivot0 v10 False) (\<lambda>(pivot1, v1, r1).
     bindE (textDiff pivot1 v20 False) (\<lambda>(pivot, v2, r2).
       case (r1, r2) of
         (Some aC1, Some aC2) \<Rightarrow>
           bindE (walkEdits aC1 aC2 v1 v2 (lineStarts v1) (lineStarts v2)) (\<lambda>(ops, n).
           bindE (mergerRun (mergerStart pivot v1 v2) ops) (\<lambda>m. Inr (Some (tmOut m, tmConflicts m, n))))
       | _ \<Rightarrow> Inr None))"

section \<open>Strategies\<close>

record Result =
  rsContent :: bytes
  rsConflicts :: "Conflict list"
  rsClean :: bool

definition wholeConflict :: "bytes \<Rightarrow> bytes \<Rightarrow> bytes \<Rightarrow> Result" where
  "wholeConflict base loc remote =
     \<lparr>rsContent = loc, rsConflicts = [\<lparr>cfStartLine = 0, cfEndLine = 0, cfLocal = loc, cfRemote = remote, cfBase = base\<rparr>], rsClean = False\<rparr>"

definition ThreeWayTextMerge :: "bytes option \<Rightarrow> bytes option \<Rightarrow> bytes option \<Rightarrow> string + Result" where
  "ThreeWayTextMerge base loc remote =
     (case base of None \<Rightarrow> Inl ''merge.ThreeWayText.Merge: base must not be nil''
      | Some b \<Rightarrow> (case loc of None \<Rightarrow> Inl ''merge.ThreeWayText.Merge: local must not be nil''
      | Some l \<Rightarrow> (case remote of None \<Rightarrow> Inl ''merge.ThreeWayText.Merge: remote must not be nil''
      | Some r \<Rightarrow>
          bindE (mergeText b l r) (\<lambda>x.
            case x of
              None \<Rightarrow> Inr (wholeConflict b l r)
            | Some (out, conflicts, n) \<Rightarrow> Inr \<lparr>rsContent = out, rsConflicts = conflicts, rsClean = (n = 0)\<rparr>))))"

definition BinaryMerge :: "bytes \<Rightarrow> bytes \<Rightarrow> bytes \<Rightarrow> Result" where
  "BinaryMerge base loc remote = wholeConflict base loc remote"

definition LastWriterWinsMerge :: "bytes \<Rightarrow> bytes \<Rightarrow> bytes \<Rightarrow> Result" where
  "LastWriterWinsMerge base loc remote = \<lparr>rsContent = remote, rsConflicts = [], rsClean = True\<rparr>"

definition IsText :: "bytes \<Rightarrow> string + bool" where
  "IsText data = bindE (breakIntoLines (toUTF8NoBOM data)) (\<lambda>r. Inr (r \<noteq> None))"

section \<open>Detecting conflict markers\<close>

definition hasMarkerAt :: "bytes \<Rightarrow> bool" where
  "hasMarkerAt z = list_ex (\<lambda>m. prefix m z) [markerBegin, markerSuggested, markerAncestor, markerMergedIn]"

text \<open>The scan from an offset with \<open>n\<close> offsets left: the rest of the line, then the run of line ends.\<close>

function markerScan :: "bytes \<Rightarrow> nat \<Rightarrow> bool" where
  "markerScan z n =
     (if n = 0 then False
      else if hasMarkerAt z then True
      else let a = length (takeWhile (\<lambda>c. c \<noteq> LF) (take n z));
               b = length (takeWhile (\<lambda>c. c = LF \<or> c = CHR 0x0D) (take (n - a) (drop a z))) in
           if a + b = 0 then False else markerScan (drop (a + b) z) (n - (a + b)))"
  by pat_completeness auto
termination by (relation "measure (\<lambda>(z, n). n)") auto

declare markerScan.simps [simp del]

definition HasConflictMarkers :: "bytes \<Rightarrow> bool" where
  "HasConflictMarkers data = markerScan data (length data + 1 - markerLen)"

end
