(* ===== verification/Merge_Lines.thy ===== *)
theory Merge_Lines
  imports Merge_Text
begin

text \<open>
  What the line and token arrays hold: the lines of the text in order, with hashes that make \<^verbatim>\<open>differ\<close> the comparison
  of the bytes, and chains that stay inside the array.
\<close>

section \<open>Comparing lines\<close>

lemma packHash_low: "packHash h k AND of_nat lengthMask = of_nat (k mod 2 ^ 15)"
proof -
  have "of_nat lengthMask = (mask 15 :: 64 word)" by (simp add: lengthMask_def lengthMaskSz_def mask_eq_exp_minus_1)
  then have "packHash h k AND of_nat lengthMask = take_bit 15 (packHash h k)" by (simp add: take_bit_eq_mask)
  also have "\<dots> = take_bit 15 (of_nat k)"
    by (simp add: packHash_def lengthMaskSz_def take_bit_or take_bit_push_bit)
  also have "\<dots> = of_nat (k mod 2 ^ 15)" by (simp only: take_bit_of_nat) (simp add: take_bit_eq_mod)
  finally show ?thesis .
qed

definition lineOk :: "dline \<Rightarrow> bool" where
  "lineOk l \<longleftrightarrow> (\<exists>h. dlH l = packHash h (length (dlZ l)))"

lemma low_length: "unat (packHash h k AND of_nat lengthMask) = k mod 2 ^ 15"
proof -
  have "k mod 2 ^ 15 < 2 ^ 64" by (rule less_trans [of _ "2 ^ 15"]) simp_all
  then show ?thesis unfolding packHash_low by (simp add: unat_of_nat)
qed

lemma differ_total: "lineOk a \<Longrightarrow> lineOk b \<Longrightarrow> \<exists>d. differ a b = Inr d"
proof -
  assume "lineOk a" "lineOk b"
  then obtain h h' where h: "dlH a = packHash h (length (dlZ a))" "dlH b = packHash h' (length (dlZ b))" by (auto simp: lineOk_def)
  show ?thesis
  proof (cases "dlH a = dlH b")
    case True
    have "length (dlZ a) mod 2 ^ 15 = length (dlZ b) mod 2 ^ 15"
      using low_length [of h "length (dlZ a)"] low_length [of h' "length (dlZ b)"] h True by simp
    then show ?thesis using low_length [of h "length (dlZ a)"] h True mod_less_eq_dividend [of "length (dlZ a)" "2 ^ 15"]
        mod_less_eq_dividend [of "length (dlZ b)" "2 ^ 15"] by (simp add: differ_def Let_def)
  qed (auto simp: differ_def)
qed

lemma differ_sym: "differ a b = Inr False \<Longrightarrow> differ b a = Inr False"
  by (auto simp: differ_def Let_def split: if_splits)

lemma differ_trans: "differ a b = Inr False \<Longrightarrow> differ b c = Inr False \<Longrightarrow> differ a c = Inr False"
  by (auto simp: differ_def Let_def split: if_splits)

text \<open>Lines as \<^verbatim>\<open>breakIntoLines\<close> makes them: the hash is a function of the bytes and holds their number.\<close>

definition goodLine :: "dline \<Rightarrow> bool" where
  "goodLine l \<longleftrightarrow> length (dlZ l) \<le> lengthMask \<and> dlH l = lineHash (dlZ l) \<and> dlN l = length (dlZ l)"

lemma good_ok: "goodLine l \<Longrightarrow> lineOk l"
  by (auto simp: goodLine_def lineOk_def lineHash_def)

lemma lengthMask_eval: "lengthMask = 32767"
  by (simp add: lengthMask_def lengthMaskSz_def)

lemma differ_good: "goodLine a \<Longrightarrow> goodLine b \<Longrightarrow> differ a b = Inr (dlZ a \<noteq> dlZ b)"
proof -
  assume a: "goodLine a" "goodLine b"
  have m: "unat (dlH l AND of_nat lengthMask) = length (dlZ l)" if "goodLine l" for l
  proof -
    have "length (dlZ l) mod 2 ^ 15 = length (dlZ l)" using that by (simp add: goodLine_def lengthMask_eval)
    then show ?thesis using that by (simp add: goodLine_def lineHash_def low_length)
  qed
  show ?thesis
  proof (cases "dlH a = dlH b")
    case True
    then have "length (dlZ a) = length (dlZ b)" using m a by metis
    then show ?thesis using True m [OF a(1)] by (simp add: differ_def Let_def)
  next
    case False
    then show ?thesis using a by (auto simp: differ_def goodLine_def)
  qed
qed

section \<open>Filling the arrays\<close>

lemma lineHash_Nil: "lineHash [] = 0"
  by (simp add: lineHash_def packHash_def hashLoop.simps [of 0 "[]"])

lemma zeroLine_good: "goodLine zeroLine"
  by (simp add: goodLine_def zeroLine_def lineHash_Nil)

text \<open>The links of an array of \<open>n\<close> entries and the sentinel.\<close>

definition linksOk :: "nat \<Rightarrow> dline list \<Rightarrow> bool" where
  "linksOk n ls \<longleftrightarrow> length ls = n + 1 \<and> (\<forall>l \<in> set ls. dlNext l \<le> n \<and> dlHash l \<le> n)"

lemma bucket_less: "0 < n \<Longrightarrow> n < 2 ^ 64 \<Longrightarrow> unat (h mod of_nat n :: 64 word) < n"
  by (simp add: unat_mod unat_of_nat)

lemma setLine_props:
  assumes "linksOk n ls" "i < n" "n < 2 ^ 64"
  shows "linksOk n (setLine ls i z h n)"
    and "j < length ls \<Longrightarrow> j \<noteq> i \<Longrightarrow> dlZ (setLine ls i z h n ! j) = dlZ (ls ! j) \<and> dlH (setLine ls i z h n ! j) = dlH (ls ! j) \<and>
      dlN (setLine ls i z h n ! j) = dlN (ls ! j) \<and> dlNw (setLine ls i z h n ! j) = dlNw (ls ! j) \<and> dlIndent (setLine ls i z h n ! j) = dlIndent (ls ! j)"
    and "dlZ (setLine ls i z h n ! i) = z \<and> dlH (setLine ls i z h n ! i) = h \<and> dlN (setLine ls i z h n ! i) = u16 (length z) \<and>
      dlNw (setLine ls i z h n ! i) = dlNw (ls ! i) \<and> dlIndent (setLine ls i z h n ! i) = dlIndent (ls ! i)"
proof -
  define b where "b = unat (h mod of_nat n)"
  have b: "b < n" using bucket_less assms(2,3) by (simp add: b_def)
  have len: "length ls = n + 1" using assms(1) by (simp add: linksOk_def)
  have links: "dlNext (ls ! j) \<le> n" "dlHash (ls ! j) \<le> n" if "j < n + 1" for j using assms(1) that by (auto simp: linksOk_def)
  have u: "u32 (i + 1) \<le> n" using assms(2) by (simp add: u32_def)
  have "dlNext (setLine ls i z h n ! j) \<le> n \<and> dlHash (setLine ls i z h n ! j) \<le> n" if "j < n + 1" for j
    using that assms(2) b len links u by (auto simp: setLine_def Let_def nth_list_update b_def [symmetric])
  then show "linksOk n (setLine ls i z h n)" using len unfolding linksOk_def
    by (auto simp: set_conv_nth) (auto simp: setLine_def Let_def)
  show "dlZ (setLine ls i z h n ! j) = dlZ (ls ! j) \<and> dlH (setLine ls i z h n ! j) = dlH (ls ! j) \<and>
      dlN (setLine ls i z h n ! j) = dlN (ls ! j) \<and> dlNw (setLine ls i z h n ! j) = dlNw (ls ! j) \<and> dlIndent (setLine ls i z h n ! j) = dlIndent (ls ! j)"
    if "j < length ls" "j \<noteq> i"
    using that len b assms(2) by (auto simp: setLine_def Let_def nth_list_update b_def [symmetric])
  show "dlZ (setLine ls i z h n ! i) = z \<and> dlH (setLine ls i z h n ! i) = h \<and> dlN (setLine ls i z h n ! i) = u16 (length z) \<and>
      dlNw (setLine ls i z h n ! i) = dlNw (ls ! i) \<and> dlIndent (setLine ls i z h n ! i) = dlIndent (ls ! i)"
    using len b assms(2) by (auto simp: setLine_def Let_def nth_list_update b_def [symmetric])
qed

section \<open>The lines of a text\<close>

function splitNL :: "bytes \<Rightarrow> bytes list" where
  "splitNL z = (if z = [] then [] else takeWhile (\<lambda>c. c \<noteq> LF) z # splitNL (drop (Suc (length (takeWhile (\<lambda>c. c \<noteq> LF) z))) z))"
  by pat_completeness auto
termination by (relation "measure length") auto

declare splitNL.simps [simp del]

lemma splitNL_Nil [simp]: "splitNL [] = []"
  by (simp add: splitNL.simps)

lemma splitNL_step: "z \<noteq> [] \<Longrightarrow> splitNL z = takeWhile (\<lambda>c. c \<noteq> LF) z # splitNL (drop (Suc (length (takeWhile (\<lambda>c. c \<noteq> LF) z))) z)"
  by (subst splitNL.simps) simp

lemma countLines_step:
  assumes "z \<noteq> []"
  shows "countLines z = Suc (countLines (drop (Suc (length (takeWhile (\<lambda>c. c \<noteq> LF) z))) z))"
proof -
  let ?a = "takeWhile (\<lambda>c. c \<noteq> LF) z"
  have na: "LF \<notin> set ?a" using set_takeWhileD by fastforce
  then have fa: "filter (\<lambda>c. c = LF) ?a = []" by (auto simp: filter_empty_conv)
  show ?thesis
  proof (cases "dropWhile (\<lambda>c. c \<noteq> LF) z")
    case Nil
    then have z: "z = ?a" by (metis append_Nil2 takeWhile_dropWhile_id)
    then have "last z \<noteq> LF" using na assms by (metis last_in_set)
    moreover have "filter (\<lambda>c. c = LF) z = []" using fa z by simp
    moreover have "length ?a = length z" using z by simp
    ultimately show ?thesis using assms by (simp add: countLines_def)
  next
    case (Cons x r)
    then have x: "x = LF" using hd_dropWhile [of "\<lambda>c. c \<noteq> LF" z] by simp
    have z: "z = ?a @ LF # r" using Cons x takeWhile_dropWhile_id [of "\<lambda>c. c \<noteq> LF" z] by simp
    have d: "drop (Suc (length ?a)) z = r" by (subst z) simp
    have "filter (\<lambda>c. c = LF) z = LF # filter (\<lambda>c. c = LF) r" by (subst z) (simp add: fa)
    moreover have "last z = (if r = [] then LF else last r)" by (subst z) simp
    ultimately show ?thesis using assms by (simp add: countLines_def d)
  qed
qed

lemma length_splitNL [simp]: "length (splitNL z) = countLines z"
proof (induction z rule: splitNL.induct)
  case (1 z)
  show ?case
  proof (cases "z = []")
    case True
    then show ?thesis by (simp add: countLines_def)
  next
    case False
    then show ?thesis using 1 splitNL_step countLines_step by simp
  qed
qed

lemma lineEnd_bound: "start \<le> length z \<Longrightarrow> lineEnd z start \<le> length z"
  using length_takeWhile_le [of "\<lambda>c. c \<noteq> LF" "drop start z"] by (simp add: lineEnd_def)

lemma bslice_line: "bslice z start (lineEnd z start) = takeWhile (\<lambda>c. c \<noteq> LF) (drop start z)"
  by (simp add: bslice_def lineEnd_def) (metis takeWhile_eq_take)

lemma countLines_le: "countLines z \<le> length z"
proof (induction z rule: splitNL.induct)
  case (1 z)
  show ?case
  proof (cases "z = []")
    case False
    then have "countLines (drop (Suc (length (takeWhile (\<lambda>c. c \<noteq> LF) z))) z) \<le> length z - Suc (length (takeWhile (\<lambda>c. c \<noteq> LF) z))"
      using 1 by simp
    then show ?thesis using countLines_step [OF False] False by (cases z) auto
  qed (simp add: countLines_def)
qed

text \<open>What an array for the lines \<open>zs\<close> is: each line in its place, the sentinel behind them.\<close>

definition arrayFor :: "bytes list \<Rightarrow> dline list \<Rightarrow> bool" where
  "arrayFor zs ls \<longleftrightarrow> linksOk (length zs) ls \<and> (\<forall>l \<in> set ls. goodLine l \<and> dlIndent l = 0 \<and> dlNw l = 0) \<and>
     (\<forall>i < length zs. dlZ (ls ! i) = zs ! i) \<and> dlZ (ls ! length zs) = []"

lemma linesLoop_ok:
  assumes "countLines z < 2 ^ 64" "i \<le> countLines z" "i < countLines z \<Longrightarrow> start \<le> length z \<and> splitNL (drop start z) = drop i (splitNL z)"
    and "linksOk (countLines z) ls" "\<forall>l \<in> set ls. goodLine l \<and> dlIndent l = 0 \<and> dlNw l = 0"
    and "\<forall>j < i. dlZ (ls ! j) = splitNL z ! j" "dlZ (ls ! countLines z) = []"
  shows "\<exists>r. linesLoop z (countLines z) i start ls = Inr r \<and>
    (\<forall>ls'. r = Some ls' \<longrightarrow> arrayFor (splitNL z) ls') \<and> (r = None \<longleftrightarrow> (\<exists>l \<in> set (drop i (splitNL z)). lengthMask < length l))"
  using assms(2-)
proof (induction "countLines z - i" arbitrary: i start ls)
  case 0
  then have "i = countLines z" by simp
  then show ?case using 0 linesLoop.simps [of z "countLines z" i start ls]
    by (auto simp: arrayFor_def)
next
  case (Suc k)
  then have i: "i < countLines z" by simp
  have st: "start \<le> length z" "splitNL (drop start z) = drop i (splitNL z)" using Suc.prems(2) i by auto
  let ?line = "takeWhile (\<lambda>c. c \<noteq> LF) (drop start z)" and ?e = "lineEnd z start"
  have ne: "drop start z \<noteq> []" using st(2) i by (metis drop_eq_Nil length_splitNL not_less splitNL_Nil)
  have sp: "drop i (splitNL z) = ?line # splitNL (drop (Suc (length ?line)) (drop start z))" using splitNL_step [OF ne] st(2) by simp
  have li: "splitNL z ! i = ?line" and rest: "drop (Suc i) (splitNL z) = splitNL (drop (?e + 1) z)"
    using drop_eq_Cons_nth [OF sp] by (simp_all add: lineEnd_def add.commute add.left_commute)
  have es: "?e - start = length ?line" by (simp add: lineEnd_def)
  let ?ls = "setLine ls i ?line (lineHash ?line) (countLines z)"
  have step: "linesLoop z (countLines z) i start ls =
      (if lengthMask < length ?line then Inr None else linesLoop z (countLines z) (Suc i) (?e + 1) ?ls)"
    using i st(1) linesLoop.simps [of z "countLines z" i start ls] by (simp add: Let_def bslice_line es)
  show ?case
  proof (cases "lengthMask < length ?line")
    case True
    then show ?thesis using step sp by simp
  next
    case False
    note p = setLine_props [OF Suc.prems(3) i assms(1)]
    have len: "length ls = countLines z + 1" "length ?ls = countLines z + 1"
      using Suc.prems(3) p(1) [of ?line "lineHash ?line"] by (simp_all add: linksOk_def)
    have u: "u16 (length ?line) = length ?line" using False by (simp add: u16_def lengthMask_eval)
    have good: "goodLine (?ls ! j) \<and> dlIndent (?ls ! j) = 0 \<and> dlNw (?ls ! j) = 0" if "j < countLines z + 1" for j
    proof (cases "j = i")
      case True
      have "ls ! i \<in> set ls" using i len by simp
      then have "dlIndent (ls ! i) = 0 \<and> dlNw (ls ! i) = 0" using Suc.prems(4) by blast
      then show ?thesis using True p(3) [of ?line "lineHash ?line"] u False by (simp add: goodLine_def)
    next
      case False
      have "ls ! j \<in> set ls" using that len by simp
      then show ?thesis using p(2) [of j ?line "lineHash ?line"] False that len Suc.prems(4) by (auto simp: goodLine_def)
    qed
    have "\<forall>l \<in> set ?ls. goodLine l \<and> dlIndent l = 0 \<and> dlNw l = 0" using good len by (auto simp: set_conv_nth)
    moreover have "\<forall>j < Suc i. dlZ (?ls ! j) = splitNL z ! j"
      using p(2) [of _ ?line "lineHash ?line"] p(3) [of ?line "lineHash ?line"] Suc.prems(5) li i len by (auto simp: less_Suc_eq)
    moreover have "dlZ (?ls ! countLines z) = []" using p(2) [of "countLines z" ?line "lineHash ?line"] i len Suc.prems(6) by simp
    moreover have "?e + 1 \<le> length z \<and> splitNL (drop (?e + 1) z) = drop (Suc i) (splitNL z)" if "Suc i < countLines z"
    proof -
      have "drop (Suc i) (splitNL z) \<noteq> []" using that by simp
      then have "drop (?e + 1) z \<noteq> []" using rest by auto
      then show ?thesis using rest by simp
    qed
    moreover have "k = countLines z - Suc i" using Suc.hyps(2) by simp
    ultimately have "\<exists>r. linesLoop z (countLines z) (Suc i) (?e + 1) ?ls = Inr r \<and>
      (\<forall>ls'. r = Some ls' \<longrightarrow> arrayFor (splitNL z) ls') \<and> (r = None \<longleftrightarrow> (\<exists>l \<in> set (drop (Suc i) (splitNL z)). lengthMask < length l))"
      using i p(1) by (intro Suc.hyps(1)) auto
    moreover have "set (drop i (splitNL z)) = insert ?line (set (drop (Suc i) (splitNL z)))" using sp rest by (simp add: lineEnd_def add.commute add.left_commute)
    ultimately show ?thesis using step False by auto
  qed
qed

lemma breakIntoLines_ok:
  assumes "length z < 2 ^ 64"
  shows "\<exists>r. breakIntoLines z = Inr r \<and> (\<forall>ls n. r = Some (ls, n) \<longrightarrow> n = countLines z \<and> arrayFor (splitNL z) ls) \<and>
    (r = None \<longleftrightarrow> CHR 0x00 \<in> set z \<or> (\<exists>l \<in> set (splitNL z). lengthMask < length l))"
proof (cases "CHR 0x00 \<in> set z")
  case True
  then show ?thesis by (simp add: breakIntoLines_def)
next
  case False
  let ?n = "countLines z" and ?ls = "replicate (countLines z + 1) zeroLine"
  have "?n < 2 ^ 64" using countLines_le [of z] assms by simp
  moreover have "linksOk ?n ?ls" by (auto simp: linksOk_def zeroLine_def)
  moreover have "\<forall>l \<in> set ?ls. goodLine l \<and> dlIndent l = 0 \<and> dlNw l = 0" using zeroLine_good by (auto simp: zeroLine_def)
  moreover have "dlZ (?ls ! ?n) = []" by (simp add: zeroLine_def nth_append del: replicate_Suc replicate.simps)
  ultimately obtain r where r: "linesLoop z ?n 0 0 ?ls = Inr r" "\<forall>ls'. r = Some ls' \<longrightarrow> arrayFor (splitNL z) ls'"
    "r = None \<longleftrightarrow> (\<exists>l \<in> set (splitNL z). lengthMask < length l)" using linesLoop_ok [of z 0 0 ?ls] by auto
  then show ?thesis using False by (auto simp: breakIntoLines_def Let_def)
qed

section \<open>The tokens of a text\<close>

text \<open>The first token of a text and the rest.\<close>

definition tokenAt :: "byte \<Rightarrow> bytes \<Rightarrow> bytes" where
  "tokenAt c cs = c # takeWhile (\<lambda>x. tokenClass x = tokenClass c) cs"

function splitTok :: "bytes \<Rightarrow> bytes list" where
  "splitTok z = (case z of [] \<Rightarrow> [] | c # cs \<Rightarrow> tokenAt c cs # splitTok (drop (length (tokenAt c cs)) z))"
  by pat_completeness auto
termination by (relation "measure length") (auto simp: tokenAt_def)

declare splitTok.simps [simp del]

lemma splitTok_simps [simp]:
  "splitTok [] = []" "splitTok (c # cs) = tokenAt c cs # splitTok (drop (length (takeWhile (\<lambda>x. tokenClass x = tokenClass c) cs)) cs)"
  by (subst splitTok.simps; simp add: tokenAt_def)+

lemma countTokens_run:
  "countTokens k cs = countTokens k (dropWhile (\<lambda>x. tokenClass x = k) cs)"
  by (induction cs) auto

lemma countTokens_start:
  "cs = [] \<or> tokenClass (hd cs) \<noteq> k \<Longrightarrow> k' \<noteq> tokenClass (hd cs) \<or> cs = [] \<Longrightarrow> countTokens k cs = countTokens k' cs"
  by (cases cs) auto

lemma tokenClass_pos: "tokenClass c \<noteq> 0"
  by (simp add: tokenClass_def Let_def)

lemma length_splitTok: "length (splitTok z) = countTokens 0 z"
proof (induction z rule: splitTok.induct)
  case (1 z)
  show ?case
  proof (cases z)
    case (Cons c cs)
    let ?r = "dropWhile (\<lambda>x. tokenClass x = tokenClass c) cs"
    have d: "drop (length (takeWhile (\<lambda>x. tokenClass x = tokenClass c) cs)) cs = ?r" by (simp add: dropWhile_eq_drop)
    have "countTokens 0 z = Suc (countTokens (tokenClass c) ?r)" using Cons countTokens_run tokenClass_pos by simp
    also have "countTokens (tokenClass c) ?r = countTokens 0 ?r"
      using tokenClass_pos hd_dropWhile [of "\<lambda>x. tokenClass x = tokenClass c" cs] by (intro countTokens_start) (metis)+
    also have "countTokens 0 ?r = length (splitTok ?r)" using 1 [OF Cons] d Cons by (simp add: tokenAt_def)
    finally show ?thesis using Cons d by simp
  qed simp
qed

lemma concat_splitTok: "concat (splitTok z) = z"
proof (induction z rule: splitTok.induct)
  case (1 z)
  then show ?case by (cases z) (auto simp: tokenAt_def dropWhile_eq_drop [symmetric])
qed

lemma countTokens_le: "countTokens k z \<le> length z"
  by (induction k z rule: countTokens.induct) auto

definition tokenLine :: "dline \<Rightarrow> bool" where
  "tokenLine l \<longleftrightarrow> lineOk l \<and> dlIndent l = 0 \<and> dlNw l = 0 \<and> dlN l = u16 (length (dlZ l))"

lemma zeroLine_token: "tokenLine zeroLine"
  using good_ok [OF zeroLine_good] by (simp add: tokenLine_def zeroLine_def u16_def)

lemma tokensLoop_ok:
  assumes "length zs < 2 ^ 64" "splitTok z = drop i zs" "i \<le> length zs" "linksOk (length zs) ls" "\<forall>l \<in> set ls. tokenLine l"
    and "\<forall>j < i. dlZ (ls ! j) = zs ! j" "dlZ (ls ! length zs) = []"
  shows "\<exists>ls'. tokensLoop z (length zs) i ls = Inr ls' \<and> linksOk (length zs) ls' \<and> (\<forall>l \<in> set ls'. tokenLine l) \<and>
    (\<forall>j < length zs. dlZ (ls' ! j) = zs ! j) \<and> dlZ (ls' ! length zs) = []"
  using assms(2-)
proof (induction "length z" arbitrary: z i ls rule: less_induct)
  case less
  show ?case
  proof (cases z)
    case Nil
    then show ?thesis using less.prems by (simp add: tokensLoop.simps [of "[]"])
  next
    case (Cons c cs)
    let ?more = "takeWhile (\<lambda>x. tokenClass x = tokenClass c) cs"
    let ?tok = "c # ?more" and ?h = "packHash (tokenHash 0xcbf29ce484222325 ?more) (Suc (length ?more))"
    have sp: "drop i zs = ?tok # splitTok (drop (length ?more) cs)" using less.prems(1) Cons by (simp add: tokenAt_def)
    then have i: "i < length zs" "zs ! i = ?tok" "drop (Suc i) zs = splitTok (drop (length ?more) cs)" using drop_eq_Cons_nth [OF sp] by auto
    let ?ls = "setLine ls i ?tok ?h (length zs)"
    have len: "length ls = length zs + 1" using less.prems(3) by (simp add: linksOk_def)
    note p = setLine_props [OF less.prems(3) i(1) assms(1)]
    have len': "length ?ls = length zs + 1" using p(1) [of ?tok ?h] by (simp add: linksOk_def)
    have step: "tokensLoop z (length zs) i ls = tokensLoop (drop (length ?more) cs) (length zs) (Suc i) ?ls"
      using Cons i(1) len tokensLoop.simps [of z "length zs" i ls] by (simp add: Let_def)
    have tok: "tokenLine (?ls ! j)" if "j < length zs + 1" for j
    proof (cases "j = i")
      case True
      have "ls ! i \<in> set ls" using i len by simp
      then show ?thesis using True p(3) [of ?tok ?h] less.prems(4) by (auto simp: tokenLine_def lineOk_def)
    next
      case False
      have "ls ! j \<in> set ls" using that len by simp
      then show ?thesis using p(2) [of j ?tok ?h] False that len less.prems(4) by (auto simp: tokenLine_def lineOk_def)
    qed
    have "\<forall>l \<in> set ?ls. tokenLine l" using tok len' by (auto simp: set_conv_nth)
    moreover have "\<forall>j < Suc i. dlZ (?ls ! j) = zs ! j"
      using p(2) [of _ ?tok ?h] p(3) [of ?tok ?h] less.prems(5) i len by (auto simp: less_Suc_eq)
    moreover have "dlZ (?ls ! length zs) = []" using p(2) [of "length zs" ?tok ?h] i len less.prems(6) by simp
    moreover have "length (drop (length ?more) cs) < length z" using Cons by simp
    ultimately show ?thesis unfolding step using i p(1) by (intro less.hyps) auto
  qed
qed

lemma breakIntoTokens_ok:
  assumes "length z < 2 ^ 64"
  shows "\<exists>ls. breakIntoTokens z = Inr (ls, length (splitTok z)) \<and> linksOk (length (splitTok z)) ls \<and> (\<forall>l \<in> set ls. tokenLine l) \<and>
    (\<forall>j < length (splitTok z). dlZ (ls ! j) = splitTok z ! j) \<and> dlZ (ls ! length (splitTok z)) = []"
proof -
  let ?n = "length (splitTok z)" and ?ls = "replicate (length (splitTok z) + 1) zeroLine"
  have "?n < 2 ^ 64" using countTokens_le [of 0 z] assms by (simp add: length_splitTok)
  moreover have "linksOk ?n ?ls" by (auto simp: linksOk_def zeroLine_def)
  moreover have "\<forall>l \<in> set ?ls. tokenLine l" using zeroLine_token by auto
  moreover have "dlZ (?ls ! ?n) = []" by (simp add: zeroLine_def nth_append del: replicate_Suc replicate.simps)
  ultimately obtain ls' where "tokensLoop z ?n 0 ?ls = Inr ls'" "linksOk ?n ls'" "\<forall>l \<in> set ls'. tokenLine l"
    "\<forall>j < ?n. dlZ (ls' ! j) = splitTok z ! j" "dlZ (ls' ! ?n) = []" using tokensLoop_ok [of "splitTok z" z 0 ?ls] by auto
  then show ?thesis by (auto simp: breakIntoTokens_def Let_def length_splitTok [symmetric])
qed

end
