(* ===== verification/Merge_Valid.thy ===== *)
theory Merge_Valid
  imports Merge_Lines
begin

text \<open>
  The diff is total and valid: on well-formed arrays no step of it reads out of range, and the triples it builds lead
  from the start of both files to their ends, every copy covering equal lines.
\<close>

section \<open>Well-formed contexts\<close>

definition fromOk :: "dline \<Rightarrow> bool" where
  "fromOk l \<longleftrightarrow> lineOk l \<and> dlN l \<le> length (dlZ l) \<and> dlIndent l + dlNw l \<le> length (dlZ l)"

definition wfCtx :: "dcontext \<Rightarrow> bool" where
  "wfCtx c \<longleftrightarrow> length (cFrom c) = cNFrom c + 1 \<and> (\<forall>l \<in> set (cFrom c). fromOk l) \<and> linksOk (cNTo c) (cTo c) \<and>
     (\<forall>l \<in> set (cTo c). lineOk l) \<and> cNTo c < 2 ^ 64"

lemma wf_lengths: "wfCtx c \<Longrightarrow> length (cFrom c) = cNFrom c + 1" "wfCtx c \<Longrightarrow> length (cTo c) = cNTo c + 1"
  by (simp_all add: wfCtx_def linksOk_def)

lemma idx_nat [simp]: "i < length xs \<Longrightarrow> idx xs (int i) = Inr (xs ! i)"
  by (simp add: idx_def)

lemma differAt_total: "wfCtx c \<Longrightarrow> p \<le> cNFrom c \<Longrightarrow> q \<le> cNTo c \<Longrightarrow> \<exists>d. differAt (cFrom c) (int p) (cTo c) (int q) = Inr d"
proof -
  assume a: "wfCtx c" "p \<le> cNFrom c" "q \<le> cNTo c"
  then have l: "p < length (cFrom c)" "q < length (cTo c)" using wf_lengths by simp_all
  have "lineOk (cFrom c ! p)" "lineOk (cTo c ! q)" using l a(1) nth_mem by (fastforce simp: wfCtx_def fromOk_def)+
  from differ_total [OF this] show ?thesis using l by (simp add: differAt_def)
qed

lemma differFrom_total: "wfCtx c \<Longrightarrow> p \<le> cNFrom c \<Longrightarrow> q \<le> cNFrom c \<Longrightarrow> \<exists>d. differAt (cFrom c) (int p) (cFrom c) (int q) = Inr d"
proof -
  assume a: "wfCtx c" "p \<le> cNFrom c" "q \<le> cNFrom c"
  then have l: "p < length (cFrom c)" "q < length (cFrom c)" using wf_lengths by simp_all
  have "lineOk (cFrom c ! p)" "lineOk (cFrom c ! q)" using l a(1) nth_mem by (fastforce simp: wfCtx_def fromOk_def)+
  from differ_total [OF this] show ?thesis using l by (simp add: differAt_def)
qed

lemma differTo_total: "wfCtx c \<Longrightarrow> p \<le> cNTo c \<Longrightarrow> q \<le> cNTo c \<Longrightarrow> \<exists>d. differAt (cTo c) (int p) (cTo c) (int q) = Inr d"
proof -
  assume a: "wfCtx c" "p \<le> cNTo c" "q \<le> cNTo c"
  then have l: "p < length (cTo c)" "q < length (cTo c)" using wf_lengths by simp_all
  have "lineOk (cTo c ! p)" "lineOk (cTo c ! q)" using l a(1) nth_mem by (fastforce simp: wfCtx_def)+
  from differ_total [OF this] show ?thesis using l by (simp add: differAt_def)
qed

section \<open>The common block\<close>

lemma scanForw_total:
  "wfCtx c \<Longrightarrow> x + k + n \<le> cNFrom c + 1 \<Longrightarrow> y + k + n \<le> cNTo c + 1 \<Longrightarrow> \<exists>k'. scanForw (cFrom c) (cTo c) x y k n = Inr k'"
proof (induction n arbitrary: k)
  case (Suc n)
  obtain d where d: "differAt (cFrom c) (int (x + k)) (cTo c) (int (y + k)) = Inr d"
    using differAt_total [of c "x + k" "y + k"] Suc.prems by auto
  then show ?case using Suc.IH [of "k + 1"] Suc.prems by (cases d) auto
qed simp

lemma scanBack_total:
  "wfCtx c \<Longrightarrow> k + n \<le> x \<Longrightarrow> k + n \<le> y \<Longrightarrow> x \<le> cNFrom c + 1 \<Longrightarrow> y \<le> cNTo c + 1 \<Longrightarrow> \<exists>k'. scanBack (cFrom c) (cTo c) x y k n = Inr k'"
proof (induction n arbitrary: k)
  case (Suc n)
  have e: "int x - 1 - int k = int (x - 1 - k)" "int y - 1 - int k = int (y - 1 - k)" using Suc.prems by auto
  have "x - 1 - k \<le> cNFrom c" "y - 1 - k \<le> cNTo c" using Suc.prems by auto
  from differAt_total [OF Suc.prems(1) this] obtain d where d: "differAt (cFrom c) (int x - 1 - int k) (cTo c) (int y - 1 - int k) = Inr d"
    unfolding e by blast
  then show ?case using Suc.IH [of "k + 1"] Suc.prems by (cases d) auto
qed simp

lemma chainLoop_total:
  assumes "wfCtx c" "lineOk fl" "j \<le> cNTo c"
  shows "\<exists>r. chainLoop fl (cTo c) iS2 iE2 cutoff limit j = Inr r"
  using assms(3)
proof (induction "Suc cutoff - limit" arbitrary: limit j rule: less_induct)
  case less
  show ?case
  proof (cases "j = 0")
    case True
    then show ?thesis by (subst chainLoop.simps) auto
  next
    case False
    have e: "int j - 1 = int (j - 1)" using False by auto
    have l: "j - 1 < length (cTo c)" using less.prems False wf_lengths [OF assms(1)] by simp
    then have t: "lineOk (cTo c ! (j - 1))" "dlNext (cTo c ! (j - 1)) \<le> cNTo c"
      using assms(1) nth_mem by (fastforce simp: wfCtx_def linksOk_def)+
    obtain d where d: "differ fl (cTo c ! (j - 1)) = Inr d" using differ_total [OF assms(2) t(1)] by blast
    have rec: "\<exists>r. chainLoop fl (cTo c) iS2 iE2 cutoff (Suc limit) (dlNext (cTo c ! (j - 1))) = Inr r" if "\<not> cutoff < limit"
      using that t(2) by (intro less.hyps) auto
    have ix: "idx (cTo c) (int j - 1) = Inr (cTo c ! (j - 1))" unfolding e using l by (rule idx_nat)
    have step: "chainLoop fl (cTo c) iS2 iE2 cutoff limit j =
        (if \<not> (j - 1 < iS2 \<or> iE2 \<le> j \<or> d) then Inr (j, False)
         else if cutoff < limit then Inr (0, True) else chainLoop fl (cTo c) iS2 iE2 cutoff (Suc limit) (dlNext (cTo c ! (j - 1))))"
      using False d unfolding chainLoop.simps [of fl "cTo c" iS2 iE2 cutoff limit j] by (simp add: ix)
    show ?thesis unfolding step using rec by (cases "cutoff < limit") auto
  qed
qed

lemma chainMatch_total: "wfCtx c \<Longrightarrow> i \<le> cNFrom c \<Longrightarrow> 0 < cNTo c \<Longrightarrow> \<exists>r. chainMatch c i iS2 iE2 cutoff = Inr r"
proof -
  assume a: "wfCtx c" "i \<le> cNFrom c" "0 < cNTo c"
  have l: "i < length (cFrom c)" using a wf_lengths by simp
  have f: "lineOk (cFrom c ! i)" using a(1) l nth_mem by (fastforce simp: wfCtx_def fromOk_def)
  let ?b = "unat (dlH (cFrom c ! i) mod of_nat (cNTo c))"
  have b: "?b < length (cTo c)" using bucket_less [OF a(3)] a(1) wf_lengths [OF a(1)] by (simp add: wfCtx_def less_Suc_eq)
  then have "dlHash (cTo c ! ?b) \<le> cNTo c" using a(1) nth_mem by (fastforce simp: wfCtx_def linksOk_def)
  moreover have "uint (dlH (cFrom c ! i) mod of_nat (cNTo c)) = int ?b" by (rule uint_nat)
  ultimately show ?thesis using chainLoop_total [OF a(1) f] l b a(3) by (simp only: chainMatch_def idx_nat bindE.simps) simp
qed

lemma growMatch_total:
  assumes "wfCtx c" "iS1 \<le> i" "i < iE1" "iE1 \<le> cNFrom c" "iS2 \<le> j" "j < iE2" "iE2 \<le> cNTo c"
  shows "\<exists>m. growMatch c i j iS1 iE1 iS2 iE2 = Inr m"
proof -
  have "0 + min (i - iS1) (j - iS2) \<le> i" "0 + min (i - iS1) (j - iS2) \<le> j" "i \<le> cNFrom c + 1" "j \<le> cNTo c + 1" using assms by auto
  from scanBack_total [OF assms(1) this] obtain k where k: "scanBack (cFrom c) (cTo c) i j 0 (min (i - iS1) (j - iS2)) = Inr k" by blast
  have "i + 1 + 0 + min (iE1 - (i + 1)) (iE2 - (j + 1)) \<le> cNFrom c + 1" "j + 1 + 0 + min (iE1 - (i + 1)) (iE2 - (j + 1)) \<le> cNTo c + 1"
    using assms by linarith+
  from scanForw_total [OF assms(1) this] obtain k' where
    "scanForw (cFrom c) (cTo c) (i + 1) (j + 1) 0 (min (iE1 - (i + 1)) (iE2 - (j + 1))) = Inr k'" by blast
  then show ?thesis using k by (simp add: growMatch_def)
qed

lemma passLoop_total:
  assumes "wfCtx c" "iS1 \<le> i" "iE1 \<le> cNFrom c" "iE2 \<le> cNTo c" "0 < cNTo c"
  shows "\<exists>r. passLoop c iS1 iE1 iS2 iE2 cutoff i best prev bestScore nc = Inr r"
  using assms(2)
proof (induction "iE1 - i" arbitrary: i best prev bestScore nc)
  case 0
  then show ?case by (simp add: passLoop.simps [of c iS1 iE1 iS2 iE2 cutoff i])
next
  case (Suc k)
  then have i: "i < iE1" by simp
  obtain j ex where ch: "chainMatch c i iS2 iE2 cutoff = Inr (j, ex)"
    using chainMatch_total [OF assms(1) _ assms(5), of i] i assms(3) by fastforce
  have ih: "\<exists>r. passLoop c iS1 iE1 iS2 iE2 cutoff (Suc i) b pv sc nc' = Inr r" for b pv sc nc'
    using Suc.hyps Suc.prems by simp
  show ?case
  proof (cases "j = 0 \<or> inBlock i j best \<or> inBlock i j prev")
    case True
    then show ?thesis using i ch ih by (subst passLoop.simps) (simp add: Let_def)
  next
    case False
    then have b: "iS2 \<le> j - 1" "j - 1 < iE2" using chainMatch_ok [OF ch] by auto
    obtain g where "growMatch c i (j - 1) iS1 iE1 iS2 iE2 = Inr g"
      using growMatch_total [OF assms(1) Suc.prems i assms(3) b assms(4)] by blast
    then show ?thesis using i ch ih False by (subst passLoop.simps) (simp add: Let_def)
  qed
qed

lemma tryLoop_total:
  assumes "wfCtx c" "iE1 \<le> cNFrom c" "iE2 \<le> cNTo c" "0 < cNTo c"
  shows "\<exists>m. tryLoop c iS1 iE1 iS2 iE2 cutoff = Inr m"
  using assms
proof (induction c iS1 iE1 iS2 iE2 cutoff rule: tryLoop.induct)
  case (1 c iS1 iE1 iS2 iE2 cutoff)
  obtain best nc where p: "lcsPass c iS1 iE1 iS2 iE2 cutoff = Inr (best, nc)"
    using passLoop_total [OF 1(2) le_refl 1(3-5)] by (fastforce simp: lcsPass_def Let_def)
  then show ?case using 1(1) [OF p refl] 1(2-) by (subst tryLoop.simps) auto
qed

lemma optInner_total:
  assumes "wfCtx c" "iE1 \<le> cNFrom c" "iE2 \<le> cNTo c" "i + mx \<le> iE1" "i < iE1"
  shows "\<exists>r. optInner c iE1 iE2 i j sx sy mx = Inr r"
  using assms(4)
proof (induction "iE2 - j" arbitrary: j sx sy mx rule: less_induct)
  case less
  show ?case
  proof (cases "int iE2 - int mx \<le> int j")
    case True
    then show ?thesis by (simp add: optInner.simps [of c iE1 iE2 i j sx sy mx])
  next
    case False
    then have j: "j + mx < iE2" by auto
    have ih: "\<exists>r. optInner c iE1 iE2 i (Suc j) a b m = Inr r" if "i + m \<le> iE1" for a b m
      using that j by (intro less.hyps) auto
    obtain d where d: "differAt (cFrom c) (int i) (cTo c) (int j) = Inr d"
      using differAt_total [OF assms(1), of i j] assms j by auto
    obtain d2 where d2: "(if 0 < mx then differAt (cFrom c) (int (i + mx)) (cTo c) (int (j + mx)) else Inr False) = Inr d2"
    proof -
      have "i + mx \<le> cNFrom c" "j + mx \<le> cNTo c" using less.prems assms(2,3) j by auto
      from differAt_total [OF assms(1) this] show thesis using that by (cases "0 < mx") auto
    qed
    have "i + 1 + min (iE1 - (i + 1)) (iE2 - (j + 1)) \<le> cNFrom c + 1" "j + 1 + min (iE1 - (i + 1)) (iE2 - (j + 1)) \<le> cNTo c + 1"
      using assms j by linarith+
    from scanForw_total [OF assms(1) this] obtain k where k: "runLength c i j iE1 iE2 = Inr k" by (auto simp: runLength_def)
    have "i + k \<le> iE1" using scanForw_ok [OF k [unfolded runLength_def]] assms(5) by auto
    then show ?thesis using False d d2 k ih less.prems by (subst optInner.simps) (auto split: if_splits)
  qed
qed

lemma optOuter_total:
  assumes "wfCtx c" "iE1 \<le> cNFrom c" "iE2 \<le> cNTo c"
  shows "\<exists>r. optOuter c iE1 iS2 iE2 i sx sy mx = Inr r"
proof (induction "iE1 - i" arbitrary: i sx sy mx rule: less_induct)
  case less
  show ?case
  proof (cases "int iE1 - int mx \<le> int i")
    case True
    then show ?thesis by (simp add: optOuter.simps [of c iE1 iS2 iE2 i sx sy mx])
  next
    case False
    then have i: "i < iE1" "i + mx \<le> iE1" by auto
    obtain a b k where o: "optInner c iE1 iE2 i iS2 sx sy mx = Inr (a, b, k)"
      using optInner_total [OF assms i(2,1)] by fastforce
    then show ?thesis using less.hyps [of "Suc i" a b k] i False by (subst optOuter.simps) auto
  qed
qed

lemma longestCommonSequence_total:
  assumes "wfCtx c" "iE1 \<le> cNFrom c" "iE2 \<le> cNTo c" "iS2 < iE2"
  shows "\<exists>m. longestCommonSequence c iS1 iE1 iS2 iE2 = Inr m"
proof -
  obtain best where "tryLoop c iS1 iE1 iS2 iE2 4 = Inr best" using tryLoop_total [OF assms(1-3)] assms(3,4) by fastforce
  moreover obtain sx sy mx where "optOuter c iE1 iS2 iE2 iS1 iS1 iS2 0 = Inr (sx, sy, mx)"
    using optOuter_total [OF assms(1-3)] by fastforce
  ultimately show ?thesis by (simp add: longestCommonSequence_def optimalLCS_def)
qed

section \<open>The indentation heuristic\<close>

text \<open>Contexts that differ in the lazily filled fields of the first array, or in the triples, only.\<close>

definition sameCtx :: "dcontext \<Rightarrow> dcontext \<Rightarrow> bool" where
  "sameCtx c c' \<longleftrightarrow> cTo c' = cTo c \<and> cNFrom c' = cNFrom c \<and> cNTo c' = cNTo c \<and> wfCtx c' \<and>
     map (\<lambda>l. (dlZ l, dlH l, dlN l)) (cFrom c') = map (\<lambda>l. (dlZ l, dlH l, dlN l)) (cFrom c)"

lemma sameCtx_trans: "sameCtx c1 c2 \<Longrightarrow> sameCtx c2 c3 \<Longrightarrow> sameCtx c1 c3"
  by (simp add: sameCtx_def)

lemma computeIndent_keys: "(dlZ (computeIndent a), dlH (computeIndent a), dlN (computeIndent a)) = (dlZ a, dlH a, dlN a)"
  by (simp add: computeIndent_def Let_def)

lemma computeIndent_ok:
  assumes "fromOk a"
  shows "fromOk (computeIndent a)"
proof (cases "dlNw a \<noteq> 0 \<or> dlN a = 0")
  case False
  let ?z = "take (dlN a) (dlZ a)"
  let ?ii = "length (takeWhile isDiffSpace ?z)"
  have "?ii \<le> dlN a" using length_takeWhile_le [of isDiffSpace ?z] by simp
  moreover have u: "u16 x \<le> x" for x by (simp add: u16_def)
  ultimately have "u16 ?ii + u16 (dlN a - t - ?ii) \<le> dlN a" for t using u [of ?ii] u [of "dlN a - t - ?ii"] by linarith
  then show ?thesis using False assms
    by (auto simp: computeIndent_def Let_def fromOk_def lineOk_def) (meson le_trans)
qed (use assms in \<open>auto simp: computeIndent_def\<close>)

lemma indentRange_total:
  assumes "\<forall>l \<in> set from. fromOk l" "i + n \<le> length from"
  shows "\<exists>from'. indentRange from i n = Inr from' \<and> (\<forall>l \<in> set from'. fromOk l) \<and>
    map (\<lambda>l. (dlZ l, dlH l, dlN l)) from' = map (\<lambda>l. (dlZ l, dlH l, dlN l)) from"
  using assms
proof (induction n arbitrary: i "from")
  case (Suc n)
  let ?f = "from[i := computeIndent (from ! i)]"
  have i: "i < length from" using Suc.prems by simp
  have ok: "\<forall>l \<in> set ?f. fromOk l" using Suc.prems(1) computeIndent_ok [of "from ! i"] i by (auto dest!: set_update_subset_insert [THEN subsetD])
  have "map (\<lambda>l. (dlZ l, dlH l, dlN l)) ?f = (map (\<lambda>l. (dlZ l, dlH l, dlN l)) from)[i := (dlZ (from ! i), dlH (from ! i), dlN (from ! i))]"
    by (simp add: map_update computeIndent_keys)
  also have "\<dots> = map (\<lambda>l. (dlZ l, dlH l, dlN l)) from" using i by (metis (no_types, lifting) list_update_id nth_map)
  finally show ?case using Suc.IH [OF ok, of "Suc i"] Suc.prems i by auto
qed auto

lemma trimmed_total: "fromOk l \<Longrightarrow> \<exists>z. trimmed l = Inr z"
  by (simp add: trimmed_def fromOk_def)

lemma twinLoop_total: "\<forall>l \<in> set from. fromOk l \<Longrightarrow> j + n \<le> length from \<Longrightarrow> \<exists>b. twinLoop from a z j n = Inr b"
proof (induction n arbitrary: j)
  case (Suc n)
  obtain y where y: "trimmed (from ! j) = Inr y" using trimmed_total [of "from ! j"] Suc.prems by auto
  then show ?case using Suc.IH [of "Suc j"] Suc.prems by auto
qed auto

lemma hasTrimmedTwin_total:
  "\<forall>l \<in> set from. fromOk l \<Longrightarrow> i < length from \<Longrightarrow> lo \<le> hi \<Longrightarrow> hi \<le> length from \<Longrightarrow> \<exists>b. hasTrimmedTwin from i lo hi = Inr b"
proof -
  assume a: "\<forall>l \<in> set from. fromOk l" "i < length from" "lo \<le> hi" "hi \<le> length from"
  obtain z where z: "trimmed (from ! i) = Inr z" using trimmed_total [of "from ! i"] a(1,2) by auto
  then show ?thesis using twinLoop_total [OF a(1), of lo "hi - lo"] a by (simp add: hasTrimmedTwin_def)
qed

lemma lonelyLoop_total:
  assumes "\<forall>l \<in> set from. fromOk l" "iS1 \<le> sx" "sx \<le> ex" "ex \<le> iE1" "iE1 \<le> length from" "i + n \<le> ex"
  shows "\<exists>b. lonelyLoop from iS1 sx ex iE1 i n = Inr b"
  using assms(6)
proof (induction n arbitrary: i)
  case (Suc n)
  have i: "i < length from" using Suc.prems assms by simp
  obtain b1 where b1: "hasTrimmedTwin from i iS1 sx = Inr b1" using hasTrimmedTwin_total [OF assms(1) i, of iS1 sx] assms by auto
  obtain b2 where b2: "hasTrimmedTwin from i ex iE1 = Inr b2" using hasTrimmedTwin_total [OF assms(1) i, of ex iE1] assms by auto
  show ?case using i b1 b2 Suc.IH [of "Suc i"] Suc.prems by (auto split: if_splits)
qed auto

lemma sameCtx_from:
  assumes "wfCtx c" "\<forall>l \<in> set f. fromOk l" "map (\<lambda>l. (dlZ l, dlH l, dlN l)) f = map (\<lambda>l. (dlZ l, dlH l, dlN l)) (cFrom c)"
  shows "sameCtx c (c\<lparr>cFrom := f\<rparr>)"
proof -
  have "length f = length (cFrom c)" by (rule map_eq_imp_length_eq [OF assms(3)])
  then show ?thesis using assms by (simp add: sameCtx_def wfCtx_def)
qed

lemma likelyNot_total:
  assumes "wfCtx c" "iS1 \<le> sx" "sx \<le> ex" "ex \<le> iE1" "iE1 \<le> cNFrom c"
  shows "\<exists>b c'. likelyNotIndentChngArtifact c iS1 sx ex iE1 = Inr (b, c') \<and> sameCtx c c' \<and> cEdit c' = cEdit c"
proof -
  have len: "length (cFrom c) = cNFrom c + 1" and ok: "\<forall>l \<in> set (cFrom c). fromOk l" using assms(1) by (simp_all add: wfCtx_def)
  note L = map_eq_imp_length_eq
  obtain f1 where f1: "indentRange (cFrom c) sx (ex - sx) = Inr f1" "\<forall>l \<in> set f1. fromOk l"
    "map (\<lambda>l. (dlZ l, dlH l, dlN l)) f1 = map (\<lambda>l. (dlZ l, dlH l, dlN l)) (cFrom c)"
    using indentRange_total [OF ok, of sx "ex - sx"] assms len by auto
  obtain f2 where f2: "indentRange f1 iS1 (sx - iS1) = Inr f2" "\<forall>l \<in> set f2. fromOk l"
    "map (\<lambda>l. (dlZ l, dlH l, dlN l)) f2 = map (\<lambda>l. (dlZ l, dlH l, dlN l)) f1"
    using indentRange_total [OF f1(2), of iS1 "sx - iS1"] assms len L [OF f1(3)] by auto
  obtain f3 where f3: "indentRange f2 ex (iE1 - ex) = Inr f3" "\<forall>l \<in> set f3. fromOk l"
    "map (\<lambda>l. (dlZ l, dlH l, dlN l)) f3 = map (\<lambda>l. (dlZ l, dlH l, dlN l)) f2"
    using indentRange_total [OF f2(2), of ex "iE1 - ex"] assms len L [OF f1(3)] L [OF f2(3)] by auto
  obtain b where b: "lonelyLoop f3 iS1 sx ex iE1 sx (ex - sx) = Inr b"
    using lonelyLoop_total [OF f3(2) assms(2-4), of sx "ex - sx"] assms len L [OF f1(3)] L [OF f2(3)] L [OF f3(3)] by auto
  have s: "sameCtx c (c\<lparr>cFrom := f1\<rparr>)" "sameCtx c (c\<lparr>cFrom := f3\<rparr>)" "sameCtx c c"
    using sameCtx_from [OF assms(1) f1(2,3)] sameCtx_from [OF assms(1) f3(2)] f1(3) f2(3) f3(3) assms(1) by (simp_all add: sameCtx_def)
  show ?thesis
  proof (cases "iE1 - iS1 \<le> (ex - sx) * 7")
    case True
    then show ?thesis using s(3) by (intro exI [of _ True] exI [of _ c]) (simp add: likelyNotIndentChngArtifact_def)
  next
    case False
    then show ?thesis using s(1,2) f1(1) f2(1) f3(1) b
      by (cases "list_ex (\<lambda>a. 1 < dlNw a) (bslice f1 sx ex)") (auto simp: likelyNotIndentChngArtifact_def)
  qed
qed

lemma acceptBlock_total:
  assumes "wfCtx c" "blockOk c (tS1 t) (tE1 t) (tS2 t) (tE2 t) m" "tE1 t \<le> cNFrom c"
  shows "\<exists>b c'. acceptBlock c t m = Inr (b, c') \<and> sameCtx c c' \<and> cEdit c' = cEdit c"
proof -
  have "sameCtx c c" using assms(1) by (simp add: sameCtx_def)
  then show ?thesis using likelyNot_total [OF assms(1), of "tS1 t" "iSX m" "iEX m" "tE1 t"] assms(2,3)
    by (auto simp: acceptBlock_def blockOk_def)
qed

end
