(* ===== verification/Merge_Edits.thy ===== *)
theory Merge_Edits
  imports Merge_Valid
begin

text \<open>
  The copy/delete/insert triples of the diff lead from the start of both files to their ends, every copy covering
  equal lines, and sliding them keeps that.
\<close>

section \<open>Edits that lead from one position to another\<close>

fun lead :: "dcontext \<Rightarrow> nat \<Rightarrow> nat \<Rightarrow> triple list \<Rightarrow> nat \<Rightarrow> nat \<Rightarrow> bool" where
  "lead c p q [] p' q' \<longleftrightarrow> p' = p \<and> q' = q"
| "lead c p q ((cp, d, i) # es) p' q' \<longleftrightarrow> matches c p q cp \<and> lead c (p + cp + d) (q + cp + i) es p' q'"

lemma lead_append: "lead c p q (es @ fs) p2 q2 \<longleftrightarrow> (\<exists>p1 q1. lead c p q es p1 q1 \<and> lead c p1 q1 fs p2 q2)"
  by (induction c p q es p2 q2 rule: lead.induct) auto

lemma sameAt_cong: "sameCtx c c' \<Longrightarrow> sameAt c' p q = sameAt c p q"
proof -
  assume s: "sameCtx c c'"
  then have m: "map (\<lambda>l. (dlZ l, dlH l, dlN l)) (cFrom c') = map (\<lambda>l. (dlZ l, dlH l, dlN l)) (cFrom c)" and t: "cTo c' = cTo c"
    by (simp_all add: sameCtx_def)
  then have len: "length (cFrom c') = length (cFrom c)" by (intro map_eq_imp_length_eq)
  have "differ (cFrom c' ! p) x = differ (cFrom c ! p) x" if "p < length (cFrom c)" for x
  proof -
    have "(dlZ (cFrom c' ! p), dlH (cFrom c' ! p), dlN (cFrom c' ! p)) = (dlZ (cFrom c ! p), dlH (cFrom c ! p), dlN (cFrom c ! p))"
      using m that len by (metis (no_types, lifting) nth_map)
    then have "dlZ (cFrom c' ! p) = dlZ (cFrom c ! p)" "dlH (cFrom c' ! p) = dlH (cFrom c ! p)" by simp_all
    then show ?thesis by (simp only: differ_def)
  qed
  then show ?thesis using len t by (auto simp: sameAt_def)
qed

lemma matches_cong: "sameCtx c c' \<Longrightarrow> matches c' p q n = matches c p q n"
  by (simp add: matches_def sameAt_cong)

lemma lead_cong: "sameCtx c c' \<Longrightarrow> lead c' p q es p' q' = lead c p q es p' q'"
  by (induction c p q es p' q' rule: lead.induct) (auto simp: matches_cong)

lemma matches_add: "matches c p q m \<Longrightarrow> matches c (p + m) (q + m) n \<Longrightarrow> matches c p q (m + n)"
  unfolding matches_def by (metis add.assoc add_less_cancel_left le_add_diff_inverse not_less)

lemma matches_0 [simp]: "matches c p q 0"
  by (simp add: matches_def)

text \<open>All but the last triple change something.\<close>

definition shape :: "triple list \<Rightarrow> bool" where
  "shape es \<longleftrightarrow> (\<forall>(c, d, i) \<in> set (butlast es). 0 < d + i)"

lemma addTriple_lead:
  assumes "lead c p0 q0 es p q" "matches c p q cp" "shape es"
  shows "lead c p0 q0 (addTriple es (cp, d, i)) (p + cp + d) (q + cp + i) \<and> shape (addTriple es (cp, d, i))"
  using assms
proof (induction es "(cp, d, i)" arbitrary: p0 q0 rule: addTriple.induct)
  case 1
  then show ?case by (simp add: shape_def)
next
  case (2 c0 d0 i0)
  then show ?case using matches_add [of c p0 q0 c0 cp] by (auto simp: shape_def add.commute add.left_commute)
next
  case (3 x y es)
  obtain a b e where x: "x = (a, b, e)" by (cases x)
  have ne: "addTriple (y # es) (cp, d, i) \<noteq> []" by (cases y; cases es) auto
  have "shape (y # es)" using 3(4) by (auto simp: shape_def)
  moreover have m: "matches c p0 q0 a" "lead c (p0 + a + b) (q0 + a + e) (y # es) p q" using 3(2) by (simp_all add: x)
  ultimately have "lead c (p0 + a + b) (q0 + a + e) (addTriple (y # es) (cp, d, i)) (p + cp + d) (q + cp + i) \<and> shape (addTriple (y # es) (cp, d, i))"
    using 3(1) [OF m(2) 3(3)] by simp
  moreover have "0 < b + e" using 3(4) by (simp add: shape_def x)
  ultimately show ?case using m(1) ne by (auto simp: shape_def x)
qed

fun stackOk :: "dcontext \<Rightarrow> diffTask list \<Rightarrow> nat \<Rightarrow> nat \<Rightarrow> nat \<Rightarrow> nat \<Rightarrow> bool" where
  "stackOk c [] p q P Q \<longleftrightarrow> p = P \<and> q = Q"
| "stackOk c (t # ts) p q P Q \<longleftrightarrow>
     (if 0 < tCopy t then matches c p q (tCopy t) \<and> stackOk c ts (p + tCopy t) (q + tCopy t) P Q
      else tS1 t = p \<and> tS2 t = q \<and> p \<le> tE1 t \<and> q \<le> tE2 t \<and> stackOk c ts (tE1 t) (tE2 t) P Q)"

lemma stackOk_le: "stackOk c ts p q P Q \<Longrightarrow> p \<le> P \<and> q \<le> Q"
  by (induction c ts p q P Q rule: stackOk.induct) (auto split: if_splits)

lemma stackOk_cong: "sameCtx c c' \<Longrightarrow> stackOk c' ts p q P Q = stackOk c ts p q P Q"
  by (induction c ts p q P Q rule: stackOk.induct) (auto simp: matches_cong)

lemma sameCtx_append: "wfCtx c \<Longrightarrow> sameCtx c (appendTriple c a b d)"
  by (simp add: sameCtx_def appendTriple_def wfCtx_def)

lemma wfCtx_edit [simp]: "wfCtx (c\<lparr>cEdit := es\<rparr>) = wfCtx c"
  by (simp add: wfCtx_def)

lemma sameCtx_edit: "sameCtx c c' \<Longrightarrow> sameCtx c (c'\<lparr>cEdit := es\<rparr>)"
  by (simp add: sameCtx_def)

lemma diffSteps_valid:
  assumes "wfCtx c" "lead c 0 0 (cEdit c) p q" "shape (cEdit c)" "stackOk c stack p q P Q" "P \<le> cNFrom c" "Q \<le> cNTo c"
  shows "\<exists>c'. diffSteps stack c = Inr c' \<and> sameCtx c c' \<and> lead c 0 0 (cEdit c') P Q \<and> shape (cEdit c')"
  using assms
proof (induction "sum_list (map taskSize stack)" arbitrary: stack c p q rule: less_induct)
  case less
  have ih: "\<exists>c'. diffSteps st c1 = Inr c' \<and> sameCtx c c' \<and> lead c 0 0 (cEdit c') P Q \<and> shape (cEdit c')"
    if "sum_list (map taskSize st) < sum_list (map taskSize stack)" "sameCtx c c1" "lead c 0 0 (cEdit c1) p1 q1" "shape (cEdit c1)"
      "stackOk c st p1 q1 P Q" for st c1 p1 q1
  proof -
    have "wfCtx c1" "P \<le> cNFrom c1" "Q \<le> cNTo c1" using that(2) less.prems(5,6) by (simp_all add: sameCtx_def)
    from less.hyps [OF that(1) this(1) _ that(4) _ this(2,3), of p1 q1] that(3,5)
    show ?thesis using lead_cong [OF that(2)] stackOk_cong [OF that(2)] sameCtx_trans [OF that(2)] by auto
  qed
  show ?case
  proof (cases stack)
    case Nil
    then show ?thesis using less.prems by (auto simp: diffSteps.simps [of "[]"] sameCtx_def)
  next
    case (Cons t rest)
    have app: "\<exists>c'. diffSteps rest (appendTriple c1 a b d) = Inr c' \<and> sameCtx c c' \<and> lead c 0 0 (cEdit c') P Q \<and> shape (cEdit c')"
      if "sameCtx c c1" "cEdit c1 = cEdit c" "matches c p q a" "stackOk c rest (p + a + b) (q + a + d) P Q" for c1 a b d
    proof (rule ih)
      show "sum_list (map taskSize rest) < sum_list (map taskSize stack)" using Cons by (simp add: taskSize_def)
      show "sameCtx c (appendTriple c1 a b d)" using sameCtx_trans [OF that(1) sameCtx_append] that(1) by (simp add: sameCtx_def)
      show "lead c 0 0 (cEdit (appendTriple c1 a b d)) (p + a + b) (q + a + d)" "shape (cEdit (appendTriple c1 a b d))"
        using addTriple_lead [OF less.prems(2) that(3) less.prems(3), of b d] that(2) by (simp_all add: appendTriple_def)
      show "stackOk c rest (p + a + b) (q + a + d) P Q" by (rule that(4))
    qed
    have self: "sameCtx c c" using less.prems(1) by (simp add: sameCtx_def)
    note st = less.prems(4) [unfolded Cons]
    consider (copy) "0 < tCopy t" | (ins) "\<not> 0 < tCopy t" "tE1 t \<le> tS1 t" "tS2 t < tE2 t" | (stay) "\<not> 0 < tCopy t" "tE1 t \<le> tS1 t" "\<not> tS2 t < tE2 t"
      | (del) "\<not> 0 < tCopy t" "\<not> tE1 t \<le> tS1 t" "tE2 t \<le> tS2 t" | (range) "\<not> 0 < tCopy t" "\<not> tE1 t \<le> tS1 t" "\<not> tE2 t \<le> tS2 t" by blast
    then show ?thesis
    proof cases
      case copy
      then show ?thesis using app [OF self refl, of "tCopy t" 0 0] st Cons diffSteps.simps [of stack c] by simp
    next
      case ins
      then show ?thesis using app [OF self refl, of 0 0 "tE2 t - tS2 t"] st Cons diffSteps.simps [of stack c] by simp
    next
      case stay
      then have "tE1 t = p" "tE2 t = q" using st by auto
      then have "stackOk c rest p q P Q" using st stay(1) by simp
      moreover have "sum_list (map taskSize rest) < sum_list (map taskSize stack)" using Cons by (simp add: taskSize_def)
      moreover have "diffSteps stack c = diffSteps rest c" using stay Cons diffSteps.simps [of stack c] by simp
      ultimately show ?thesis using ih [OF _ self less.prems(2,3)] by simp
    next
      case del
      then show ?thesis using app [OF self refl, of 0 "tE1 t - tS1 t" 0] st Cons diffSteps.simps [of stack c] by simp
    next
      case range
      have r: "tS1 t = p" "tS2 t = q" "p < tE1 t" "q < tE2 t" "stackOk c rest (tE1 t) (tE2 t) P Q" using st range by auto
      have bd: "tE1 t \<le> cNFrom c" "tE2 t \<le> cNTo c" using stackOk_le [OF r(5)] less.prems(5,6) by auto
      obtain m where m: "longestCommonSequence c (tS1 t) (tE1 t) (tS2 t) (tE2 t) = Inr m"
        using longestCommonSequence_total [OF less.prems(1) bd] r by auto
      then have blk: "blockOk c (tS1 t) (tE1 t) (tS2 t) (tE2 t) m" using longestCommonSequence_ok r by simp
      obtain ok c1 where a: "acceptBlock c t m = Inr (ok, c1)" "sameCtx c c1" "cEdit c1 = cEdit c"
        using acceptBlock_total [OF less.prems(1) blk bd(1)] by blast
      show ?thesis
      proof (cases ok)
        case True
        then have ne: "iSX m < iEX m" using accept_nonempty [of c t m c1] a(1) by simp
        let ?st = "rangeTask (tS1 t) (iSX m) (tS2 t) (iSY m) # copyTask (iEX m - iSX m) # rangeTask (iEX m) (tE1 t) (iEY m) (tE2 t) # rest"
        have "diffSteps stack c = diffSteps ?st c1" using Cons range m a(1) True ne diffSteps.simps [of stack c] by simp
        moreover have "sum_list (map taskSize ?st) < sum_list (map taskSize stack)"
          using split_size [OF blk ne] range(1) Cons by (simp add: taskSize_def [of t])
        moreover have "stackOk c ?st p q P Q"
          using blk ne r by (auto simp: rangeTask_def copyTask_def blockOk_def)
        ultimately show ?thesis using ih [OF _ a(2)] less.prems(2,3) a(3) by metis
      next
        case False
        then have "diffSteps stack c = diffSteps rest (appendTriple c1 0 (tE1 t - tS1 t) (tE2 t - tS2 t))"
          using Cons range m a(1) diffSteps.simps [of stack c] by simp
        then show ?thesis using app [OF a(2,3), of 0 "tE1 t - tS1 t" "tE2 t - tS2 t"] r by simp
      qed
    qed
  qed
qed

lemma lead_le: "lead c p q es P Q \<Longrightarrow> p \<le> P \<and> q \<le> Q"
  by (induction c p q es P Q rule: lead.induct) auto

section \<open>The whole diff\<close>

text \<open>The last lines differ, or one side is empty: what is left when no common tail was cut off.\<close>

definition tailDiff :: "dcontext \<Rightarrow> bool" where
  "tailDiff c \<longleftrightarrow> cNFrom c = 0 \<or> cNTo c = 0 \<or> \<not> sameAt c (cNFrom c - 1) (cNTo c - 1)"

definition tailOk :: "dcontext \<Rightarrow> triple list \<Rightarrow> bool" where
  "tailOk c es \<longleftrightarrow> es = [] \<or> snd (last es) = (0, 0) \<or> tailDiff c"

lemma tailDiff_cong: "sameCtx c c' \<Longrightarrow> tailDiff c' = tailDiff c"
  by (simp add: tailDiff_def sameAt_cong) (simp add: sameCtx_def)

lemma commonTail_valid:
  assumes "wfCtx c" "e1 \<le> cNFrom c" "e2 \<le> cNTo c"
  shows "\<exists>f1 f2. commonTail c e1 e2 = Inr (f1, f2) \<and> f1 \<le> e1 \<and> f2 \<le> e2 \<and> e1 - f1 = e2 - f2 \<and> matches c f1 f2 (e1 - f1) \<and>
    (f1 = 0 \<or> f2 = 0 \<or> \<not> sameAt c (f1 - 1) (f2 - 1))"
  using assms(2,3)
proof (induction e1 arbitrary: e2)
  case (Suc k)
  show ?case
  proof (cases e2)
    case (Suc k2)
    obtain d where d: "differAt (cFrom c) (int k) (cTo c) (int k2) = Inr d"
      using differAt_total [OF assms(1), of k k2] Suc.prems Suc by auto
    have st: "commonTail c (Suc k) e2 = (if d then Inr (Suc k, Suc k2) else commonTail c k k2)"
      using d by (subst commonTail.simps) (simp add: Suc)
    show ?thesis
    proof (cases d)
      case True
      then have "\<not> sameAt c k k2" using d by (auto simp: differAt_False [symmetric])
      then show ?thesis using st True Suc by auto
    next
      case False
      then have s: "sameAt c k k2" using d by (simp add: differAt_False)
      obtain f1 f2 where f: "commonTail c k k2 = Inr (f1, f2)" "f1 \<le> k" "f2 \<le> k2" "k - f1 = k2 - f2" "matches c f1 f2 (k - f1)"
        "f1 = 0 \<or> f2 = 0 \<or> \<not> sameAt c (f1 - 1) (f2 - 1)" using Suc.IH [of k2] Suc.prems Suc by auto
      have "matches c f1 f2 (Suc k - f1)" unfolding matches_def
      proof (intro allI impI)
        fix x
        assume "x < Suc k - f1"
        then have "x < k - f1 \<or> f1 + x = k \<and> f2 + x = k2" using f(2-4) by auto
        then show "sameAt c (f1 + x) (f2 + x)" using f(5) s by (auto simp: matches_def)
      qed
      then show ?thesis using st False f Suc by auto
    qed
  qed (simp add: commonTail.simps [of c "Suc k" 0])
qed (simp add: commonTail.simps [of c 0])

lemma addCopy_last: "0 < n \<Longrightarrow> snd (last (addTriple es (n, 0, 0))) = (0, 0)"
proof (induction es "(n, 0::nat, 0::nat)" rule: addTriple.induct)
  case (3 x y es)
  have "addTriple (y # es) (n, 0, 0) \<noteq> []" by (cases y; cases es) auto
  then show ?case using 3 by simp
qed auto

text \<open>\<^verbatim>\<open>diffAll\<close> returns, and its triples lead through both files.\<close>

lemma diffAll_valid:
  assumes "wfCtx c" "cEdit c = []"
  shows "\<exists>c' es. diffAll c = Inr c' \<and> sameCtx c c' \<and> cEdit c' = es @ [(0, 0, 0)] \<and> lead c 0 0 es (cNFrom c) (cNTo c) \<and>
    tailOk c es \<and> shape es"
proof -
  obtain e1 e2 where t: "commonTail c (cNFrom c) (cNTo c) = Inr (e1, e2)" "e1 \<le> cNFrom c" "e2 \<le> cNTo c"
    "cNFrom c - e1 = cNTo c - e2" "matches c e1 e2 (cNFrom c - e1)" "e1 = 0 \<or> e2 = 0 \<or> \<not> sameAt c (e1 - 1) (e2 - 1)"
    using commonTail_valid [OF assms(1) le_refl le_refl] by blast
  have "0 + 0 + min e1 e2 \<le> cNFrom c + 1" "0 + 0 + min e1 e2 \<le> cNTo c + 1" using t(2,3) by linarith+
  from scanForw_total [OF assms(1) this] obtain s where s: "scanForw (cFrom c) (cTo c) 0 0 0 (min e1 e2) = Inr s" by blast
  have sok: "s \<le> min e1 e2" "matches c 0 0 s" using scanForw_ok [OF s] by (simp_all add: matches_def)
  let ?c1 = "if 0 < s then appendTriple c s 0 0 else c"
  have c1: "sameCtx c ?c1" "lead c 0 0 (cEdit ?c1) s s" "shape (cEdit ?c1)"
    using sameCtx_append [OF assms(1)] assms sok(2) by (simp_all add: sameCtx_def appendTriple_def shape_def)
  have w1: "wfCtx ?c1" "cNFrom ?c1 = cNFrom c" "cNTo ?c1 = cNTo c" using c1(1) by (simp_all add: sameCtx_def)
  have st1: "stackOk ?c1 [rangeTask s e1 s e2] s s e1 e2" using sok(1) by (simp add: rangeTask_def)
  have l1: "lead ?c1 0 0 (cEdit ?c1) s s" using c1(2) lead_cong [OF c1(1)] by simp
  obtain c2 where c2: "diffSteps [rangeTask s e1 s e2] ?c1 = Inr c2" "sameCtx ?c1 c2" "lead ?c1 0 0 (cEdit c2) e1 e2" "shape (cEdit c2)"
    using diffSteps_valid [OF w1(1) l1 c1(3) st1] t(2,3) w1(2,3) by auto
  have sc: "sameCtx c c2" by (rule sameCtx_trans [OF c1(1) c2(2)])
  have l2: "lead c 0 0 (cEdit c2) e1 e2" using c2(3) lead_cong [OF c1(1)] by simp
  let ?c3 = "if e1 < cNFrom c then appendTriple c2 (cNFrom c - e1) 0 0 else c2"
  have w2: "wfCtx c2" using sc by (simp add: sameCtx_def)
  have s3: "sameCtx c ?c3" using sameCtx_trans [OF sc sameCtx_append [OF w2]] sc by simp
  have l3: "lead c 0 0 (cEdit ?c3) (cNFrom c) (cNTo c) \<and> shape (cEdit ?c3)"
  proof (cases "e1 < cNFrom c")
    case True
    have "e1 + (cNFrom c - e1) + 0 = cNFrom c" "e2 + (cNFrom c - e1) + 0 = cNTo c" using t(2-4) by auto
    then show ?thesis using addTriple_lead [OF l2 t(5) c2(4), of 0 0] True by (simp add: appendTriple_def)
  next
    case False
    then have "e1 = cNFrom c" "e2 = cNTo c" using t(2-4) by auto
    then show ?thesis using l2 c2(4) by simp
  qed
  have tk: "tailOk c (cEdit ?c3)"
  proof (cases "e1 < cNFrom c")
    case True
    then show ?thesis using addCopy_last [of "cNFrom c - e1" "cEdit c2"] by (simp add: tailOk_def appendTriple_def)
  next
    case False
    then have "e1 = cNFrom c" "e2 = cNTo c" using t(2-4) by auto
    then show ?thesis using t(6) by (simp add: tailOk_def tailDiff_def)
  qed
  have "diffAll c = Inr (?c3\<lparr>cEdit := cEdit ?c3 @ [(0, 0, 0)]\<rparr>)"
    using t(1) s c2(1) by (simp add: diffAll_def Let_def)
  moreover have "sameCtx c (?c3\<lparr>cEdit := cEdit ?c3 @ [(0, 0, 0)]\<rparr>)" by (rule sameCtx_edit [OF s3])
  ultimately show ?thesis using l3 tk by (intro exI [of _ "?c3\<lparr>cEdit := cEdit ?c3 @ [(0, 0, 0)]\<rparr>"] exI [of _ "cEdit ?c3"]) simp
qed

section \<open>Sliding keeps the path\<close>

text \<open>A triple with the copy of its successor, from the position \<open>p\<close>, \<open>q\<close>.\<close>

definition slideOk :: "dcontext \<Rightarrow> nat \<Rightarrow> nat \<Rightarrow> nat \<Rightarrow> nat \<Rightarrow> nat \<Rightarrow> nat \<Rightarrow> bool" where
  "slideOk c d i p q cpy nxt \<longleftrightarrow> matches c p q cpy \<and> matches c (p + cpy + d) (q + cpy + i) nxt \<and>
     p + cpy + d + nxt \<le> cNFrom c \<and> q + cpy + i + nxt \<le> cNTo c"

lemma matches_Suc_front: "sameAt c p q \<Longrightarrow> matches c (Suc p) (Suc q) n \<Longrightarrow> matches c p q (Suc n)"
  using matches_add [of c p q 1 n] by (simp add: matches_def)

lemma matches_Suc_back: "matches c p q n \<Longrightarrow> sameAt c (p + n) (q + n) \<Longrightarrow> matches c p q (Suc n)"
  by (auto simp: matches_def less_Suc_eq)

lemma matches_SucD: "matches c p q (Suc n) \<Longrightarrow> matches c p q n \<and> sameAt c (p + n) (q + n) \<and> sameAt c p q \<and> matches c (Suc p) (Suc q) n"
  by (force simp: matches_def)

lemma sameAt_from: "sameAt c p q \<Longrightarrow> p' < length (cFrom c) \<Longrightarrow> differ (cFrom c ! p) (cFrom c ! p') = Inr False \<Longrightarrow> sameAt c p' q"
  unfolding sameAt_def using differ_sym differ_trans by blast

lemma sameAt_to: "sameAt c p q \<Longrightarrow> q' < length (cTo c) \<Longrightarrow> differ (cTo c ! q) (cTo c ! q') = Inr False \<Longrightarrow> sameAt c p q'"
  unfolding sameAt_def using differ_trans by blast

text \<open>What one turn of a slide yields: it stops, or the lines it compares are equal.\<close>

lemma orStop_total:
  assumes "\<exists>d. a = Inr d" "\<exists>b'. b = Inr b'"
  shows "\<exists>stop. orStop a b = Inr stop \<and> (\<not> stop \<longrightarrow> a = Inr False)"
  using assms by (auto simp: orStop_def)

lemma shorter_total:
  "x < length xs \<Longrightarrow> y < length ys \<Longrightarrow> u < length us \<Longrightarrow> v < length vs \<Longrightarrow>
   \<exists>b. shorter xs (int x) ys (int y) us (int u) vs (int v) = Inr b"
  by (simp add: shorter_def)

lemma differIdx: "i < length xs \<Longrightarrow> j < length ys \<Longrightarrow> differAt xs (int i) ys (int j) = differ (xs ! i) (ys ! j)"
  by (simp add: differAt_def)

lemma slideInsUp_ok:
  assumes "wfCtx c" "0 < ins" "slideOk c 0 ins p q cpy nxt"
  shows "\<exists>cpy' nxt'. slideInsUp c ins (p + cpy) (q + cpy) cpy nxt = Inr (p + cpy', q + cpy', cpy', nxt') \<and>
    slideOk c 0 ins p q cpy' nxt' \<and> cpy' + nxt' = cpy + nxt"
  using assms(3)
proof (induction cpy arbitrary: nxt)
  case (Suc k)
  note ok = Suc.prems [unfolded slideOk_def]
  note len = wf_lengths [OF assms(1)]
  have e: "int (p + Suc k) - 1 = int (p + k)" "int (q + Suc k) + int ins - 1 = int (q + k + ins)" "int (q + Suc k) + int ins - 2 = int (q + k + (ins - 1))"
    using assms(2) by auto
  have b: "p + k < length (cFrom c)" "q + k + ins < length (cTo c)" "p + Suc k < length (cFrom c)" "q + k + (ins - 1) < length (cTo c)"
    using ok len by auto
  obtain stop where stop: "orStop (differAt (cFrom c) (int (p + Suc k) - 1) (cTo c) (int (q + Suc k) + int ins - 1))
      (shorter (cFrom c) (int (p + Suc k)) (cTo c) (int (q + Suc k) + int ins - 1) (cFrom c) (int (p + Suc k) - 1) (cTo c) (int (q + Suc k) + int ins - 2)) = Inr stop"
    and eq: "\<not> stop \<longrightarrow> sameAt c (p + k) (q + k + ins)"
    using orStop_total [OF differAt_total shorter_total, OF assms(1) _ _ b(3,2,1,4), of "p + k" "q + k + ins"] b(1,2) len
    unfolding e differAt_False by (auto simp: less_Suc_eq_le)
  show ?case
  proof (cases stop)
    case True
    then show ?thesis using stop Suc.prems by (auto simp: add.assoc)
  next
    case False
    have "slideOk c 0 ins p q k (Suc nxt)"
      using ok eq False matches_SucD [of c p q k] matches_Suc_front [of c "p + k" "q + k + ins" nxt] by (simp add: slideOk_def)
    from Suc.IH [OF this] show ?thesis using stop False by simp
  qed
qed auto

lemma slideInsDown_ok:
  assumes "wfCtx c" "0 < ins" "slideOk c 0 ins p q cpy nxt"
  shows "\<exists>cpy' nxt'. slideInsDown c ins (p + cpy) (q + cpy) cpy nxt = Inr (p + cpy', q + cpy', cpy', nxt') \<and>
    slideOk c 0 ins p q cpy' nxt' \<and> cpy' + nxt' = cpy + nxt"
  using assms(3)
proof (induction nxt arbitrary: cpy)
  case (Suc k)
  note ok = Suc.prems [unfolded slideOk_def]
  note len = wf_lengths [OF assms(1)]
  have e: "int (q + cpy) + int ins = int (q + cpy + ins)" "int (q + cpy + ins) - 1 = int (q + cpy + (ins - 1))" "int (q + cpy) + 1 = int (q + cpy + 1)"
    using assms(2) by auto
  have b: "q + cpy < length (cTo c)" "q + cpy + ins < length (cTo c)" "q + cpy + (ins - 1) < length (cTo c)" "q + cpy + 1 < length (cTo c)"
    using ok len assms(2) by auto
  obtain stop where stop: "orStop (differAt (cTo c) (int (q + cpy)) (cTo c) (int (q + cpy) + int ins))
      (shorter (cTo c) (int (q + cpy)) (cTo c) (int (q + cpy) + int ins - 1) (cTo c) (int (q + cpy) + 1) (cTo c) (int (q + cpy) + int ins)) = Inr stop"
    and eq: "\<not> stop \<longrightarrow> differ (cTo c ! (q + cpy)) (cTo c ! (q + cpy + ins)) = Inr False"
    using orStop_total [OF differTo_total shorter_total, OF assms(1) _ _ b(1,3,4,2), of "q + cpy" "q + cpy + ins"] b(1,2) len
    unfolding e differIdx [OF b(1,2)] by (auto simp: less_Suc_eq_le)
  show ?case
  proof (cases stop)
    case True
    then show ?thesis using stop Suc.prems by (auto simp: add.assoc)
  next
    case False
    have m: "sameAt c (p + cpy) (q + cpy + ins)" "matches c (Suc (p + cpy)) (Suc (q + cpy + ins)) k"
      using ok matches_SucD [of c "p + cpy" "q + cpy + ins" k] by simp_all
    have "sameAt c (p + cpy) (q + cpy)" using sameAt_to [OF m(1) b(1)] differ_sym eq False by blast
    then have "slideOk c 0 ins p q (Suc cpy) k" using ok m(2) matches_Suc_back [of c p q cpy] by (simp add: slideOk_def)
    from Suc.IH [OF this] show ?thesis using stop False by simp
  qed
qed auto

lemma slideDelUp_ok:
  assumes "wfCtx c" "0 < del" "slideOk c del 0 p q cpy nxt"
  shows "\<exists>cpy' nxt'. slideDelUp c del (p + cpy) (q + cpy) cpy nxt = Inr (p + cpy', q + cpy', cpy', nxt') \<and>
    slideOk c del 0 p q cpy' nxt' \<and> cpy' + nxt' = cpy + nxt"
  using assms(3)
proof (induction cpy arbitrary: nxt)
  case (Suc k)
  note ok = Suc.prems [unfolded slideOk_def]
  note len = wf_lengths [OF assms(1)]
  have e: "int (p + Suc k) - 1 = int (p + k)" "int (p + Suc k) + int del - 1 = int (p + k + del)" "int (p + Suc k) + int del - 2 = int (p + k + (del - 1))"
    using assms(2) by auto
  have b: "p + k < length (cFrom c)" "p + k + del < length (cFrom c)" "p + Suc k < length (cFrom c)" "p + k + (del - 1) < length (cFrom c)"
    using ok len assms(2) by auto
  obtain stop where stop: "orStop (differAt (cFrom c) (int (p + Suc k) - 1) (cFrom c) (int (p + Suc k) + int del - 1))
      (shorter (cFrom c) (int (p + Suc k)) (cFrom c) (int (p + Suc k) + int del - 1) (cFrom c) (int (p + Suc k) - 1) (cFrom c) (int (p + Suc k) + int del - 2)) = Inr stop"
    and eq: "\<not> stop \<longrightarrow> differ (cFrom c ! (p + k)) (cFrom c ! (p + k + del)) = Inr False"
    using orStop_total [OF differFrom_total shorter_total, OF assms(1) _ _ b(3,2,1,4), of "p + k" "p + k + del"] b(1,2) len
    unfolding e differIdx [OF b(1,2)] by (auto simp: less_Suc_eq_le)
  show ?case
  proof (cases stop)
    case True
    then show ?thesis using stop Suc.prems by (auto simp: add.assoc)
  next
    case False
    have m: "matches c p q k" "sameAt c (p + k) (q + k)" using ok matches_SucD [of c p q k] by simp_all
    have "sameAt c (p + k + del) (q + k)" using sameAt_from [OF m(2) b(2)] eq False by blast
    then have "slideOk c del 0 p q k (Suc nxt)" using ok m(1) matches_Suc_front [of c "p + k + del" "q + k" nxt] by (simp add: slideOk_def)
    from Suc.IH [OF this] show ?thesis using stop False by simp
  qed
qed auto

lemma slideDelDown_ok:
  assumes "wfCtx c" "0 < del" "slideOk c del 0 p q cpy nxt"
  shows "\<exists>cpy' nxt'. slideDelDown c del (p + cpy) (q + cpy) cpy nxt = Inr (p + cpy', q + cpy', cpy', nxt') \<and>
    slideOk c del 0 p q cpy' nxt' \<and> cpy' + nxt' = cpy + nxt"
  using assms(3)
proof (induction nxt arbitrary: cpy)
  case (Suc k)
  note ok = Suc.prems [unfolded slideOk_def]
  note len = wf_lengths [OF assms(1)]
  have e: "int (p + cpy) + int del = int (p + cpy + del)" "int (p + cpy + del) - 1 = int (p + cpy + (del - 1))"
    using assms(2) by auto
  have b: "p + cpy < length (cFrom c)" "p + cpy + del < length (cFrom c)" "p + cpy + (del - 1) < length (cFrom c)"
    using ok len assms(2) by auto
  obtain stop where stop: "orStop (differAt (cFrom c) (int (p + cpy)) (cFrom c) (int (p + cpy) + int del))
      (shorter (cFrom c) (int (p + cpy)) (cFrom c) (int (p + cpy) + int del - 1) (cFrom c) (int (p + cpy)) (cFrom c) (int (p + cpy) + int del)) = Inr stop"
    and eq: "\<not> stop \<longrightarrow> differ (cFrom c ! (p + cpy)) (cFrom c ! (p + cpy + del)) = Inr False"
    using orStop_total [OF differFrom_total shorter_total, OF assms(1) _ _ b(1,3,1,2), of "p + cpy" "p + cpy + del"] b(1,2) len
    unfolding e differIdx [OF b(1,2)] by (auto simp: less_Suc_eq_le)
  show ?case
  proof (cases stop)
    case True
    then show ?thesis using stop Suc.prems by (auto simp: add.assoc)
  next
    case False
    have m: "sameAt c (p + cpy + del) (q + cpy)" "matches c (Suc (p + cpy + del)) (Suc (q + cpy)) k"
      using ok matches_SucD [of c "p + cpy + del" "q + cpy" k] by simp_all
    have "sameAt c (p + cpy) (q + cpy)" using sameAt_from [OF m(1) b(1)] differ_sym eq False by blast
    then have "slideOk c del 0 p q (Suc cpy) k" using ok m(2) matches_Suc_back [of c p q cpy] by (simp add: slideOk_def)
    from Suc.IH [OF this] show ?thesis using stop False by simp
  qed
qed auto

lemma slideTriple_ok:
  assumes "wfCtx c" "slideOk c del ins p q cpy nxt"
  shows "\<exists>cpy' nxt'. slideTriple c (p + cpy) (q + cpy) (cpy, del, ins) nxt = Inr (p + cpy', q + cpy', cpy', nxt') \<and>
    slideOk c del ins p q cpy' nxt' \<and> cpy' + nxt' = cpy + nxt"
proof -
  consider (ins) "del = 0" "0 < ins" | (del) "0 < del" "ins = 0" | (other) "\<not> (del = 0 \<and> 0 < ins)" "\<not> (0 < del \<and> ins = 0)" by auto
  then show ?thesis
  proof cases
    case ins
    obtain a b where u: "slideInsUp c ins (p + cpy) (q + cpy) cpy nxt = Inr (p + a, q + a, a, b)" "slideOk c 0 ins p q a b" "a + b = cpy + nxt"
      using slideInsUp_ok [OF assms(1) ins(2)] assms(2) ins(1) by blast
    from slideInsDown_ok [OF assms(1) ins(2) u(2)] show ?thesis using u ins by (auto simp: slideTriple_def)
  next
    case del
    obtain a b where u: "slideDelUp c del (p + cpy) (q + cpy) cpy nxt = Inr (p + a, q + a, a, b)" "slideOk c del 0 p q a b" "a + b = cpy + nxt"
      using slideDelUp_ok [OF assms(1) del(1)] assms(2) del(2) by blast
    from slideDelDown_ok [OF assms(1) del(1) u(2)] show ?thesis using u del by (auto simp: slideTriple_def)
  next
    case other
    then show ?thesis using assms(2) by (intro exI [of _ cpy] exI [of _ nxt]) (auto simp: slideTriple_def)
  qed
qed

end
