(* ===== verification/Merge_Sound.thy ===== *)
theory Merge_Sound
  imports Merge_Edits
begin

text \<open>
  The edits \<^verbatim>\<open>textDiff\<close> returns turn the first text into the second, and their terminator is intact.
\<close>

section \<open>The slide of every triple\<close>

text \<open>The copy of the last triple never slides into the terminator: the last lines differ.\<close>

lemma up_stops:
  assumes "differAt xs i ys j = Inr True"
  shows "orStop (differAt xs i ys j) b = Inr True"
  using assms by (simp add: orStop_def)

lemma slide_last:
  assumes "wfCtx c" "matches c p q cpy" "p + cpy + del = cNFrom c" "q + cpy + ins = cNTo c" "tailDiff c"
  shows "slideTriple c (p + cpy) (q + cpy) (cpy, del, ins) 0 = Inr (p + cpy, q + cpy, cpy, 0)"
proof (cases cpy)
  case 0
  then show ?thesis by (simp add: slideTriple_def)
next
  case (Suc k)
  note len = wf_lengths [OF assms(1)]
  have same: "sameAt c (p + k) (q + k)" using assms(2) matches_SucD [of c p q k] Suc by simp
  have nd: "\<not> sameAt c (cNFrom c - 1) (cNTo c - 1)" using assms(3,4,5) Suc by (auto simp: tailDiff_def)
  show ?thesis
  proof (cases "del = 0 \<and> 0 < ins")
    case True
    have e: "int (p + Suc k) - 1 = int (p + k)" "int (q + Suc k) + int ins - 1 = int (q + k + ins)" by auto
    have "p + k \<le> cNFrom c" "q + k + ins \<le> cNTo c" using assms(3,4) Suc by auto
    from differAt_total [OF assms(1) this] obtain d where d: "differAt (cFrom c) (int (p + k)) (cTo c) (int (q + k + ins)) = Inr d" by blast
    have "p + k = cNFrom c - 1" "q + k + ins = cNTo c - 1" using assms(3,4) Suc True by auto
    then have "d" using d nd by (cases d) (simp_all add: differAt_False)
    then have "slideInsUp c ins (p + cpy) (q + cpy) cpy 0 = Inr (p + cpy, q + cpy, cpy, 0)"
      using up_stops [of "cFrom c" "int (p + k)" "cTo c" "int (q + k + ins)"] d unfolding Suc slideInsUp.simps e by simp
    then show ?thesis using True by (simp add: slideTriple_def)
  next
    case notIns: False
    show ?thesis
    proof (cases "0 < del \<and> ins = 0")
      case True
      have e: "int (p + Suc k) - 1 = int (p + k)" "int (p + Suc k) + int del - 1 = int (p + k + del)" by auto
      have l: "p + k < length (cFrom c)" "p + k + del < length (cFrom c)" using assms(3) Suc len by auto
      have "p + k \<le> cNFrom c" "p + k + del \<le> cNFrom c" using assms(3) Suc by auto
      from differFrom_total [OF assms(1) this] obtain d where d: "differAt (cFrom c) (int (p + k)) (cFrom c) (int (p + k + del)) = Inr d" by blast
      have ends: "p + k + del = cNFrom c - 1" "q + k = cNTo c - 1" using assms(3,4) Suc True by auto
      have "d"
      proof (rule ccontr)
        assume "\<not> d"
        then have "differ (cFrom c ! (p + k)) (cFrom c ! (p + k + del)) = Inr False" using d differIdx [OF l] by simp
        from sameAt_from [OF same l(2) this] nd show False by (simp add: ends)
      qed
      then have "slideDelUp c del (p + cpy) (q + cpy) cpy 0 = Inr (p + cpy, q + cpy, cpy, 0)"
        using up_stops [of "cFrom c" "int (p + k)" "cFrom c" "int (p + k + del)"] d unfolding Suc slideDelUp.simps e by simp
      then show ?thesis using True by (simp add: slideTriple_def)
    qed (use notIns in \<open>auto simp: slideTriple_def\<close>)
  qed
qed

lemma optimizeLoop_valid:
  assumes "wfCtx c" "lead c p q es (cNFrom c) (cNTo c)" "tailOk c es"
  shows "\<exists>es'. optimizeLoop c p q (es @ [(0, 0, 0)]) = Inr (es' @ [(0, 0, 0)]) \<and> lead c p q es' (cNFrom c) (cNTo c) \<and> map snd es' = map snd es"
  using assms(2,3)
proof (induction "length es" arbitrary: es p q)
  case 0
  then show ?case by simp
next
  case (Suc n)
  obtain cpy del ins ts where es: "es = (cpy, del, ins) # ts" using Suc.hyps(2) by (cases es) auto
  have m: "matches c p q cpy" and l: "lead c (p + cpy + del) (q + cpy + ins) ts (cNFrom c) (cNTo c)" using Suc.prems(1) by (simp_all add: es)
  show ?case
  proof (cases ts)
    case Nil
    have ends: "p + cpy + del = cNFrom c" "q + cpy + ins = cNTo c" using l Nil by simp_all
    have "slideTriple c (p + cpy) (q + cpy) (cpy, del, ins) 0 = Inr (p + cpy, q + cpy, cpy, 0)"
    proof (cases "tailDiff c")
      case True
      then show ?thesis using slide_last [OF assms(1) m ends] by simp
    next
      case False
      then show ?thesis using Suc.prems(2) by (simp add: tailOk_def es Nil slideTriple_def)
    qed
    then show ?thesis using Suc.prems(1) by (simp add: es Nil)
  next
    case (Cons t us)
    obtain nxt nd ni where t: "t = (nxt, nd, ni)" by (cases t)
    have m2: "matches c (p + cpy + del) (q + cpy + ins) nxt"
      and l2: "lead c (p + cpy + del + nxt + nd) (q + cpy + ins + nxt + ni) us (cNFrom c) (cNTo c)" using l by (simp_all add: Cons t)
    have "slideOk c del ins p q cpy nxt" using m m2 lead_le [OF l2] by (simp add: slideOk_def)
    from slideTriple_ok [OF assms(1) this] obtain cpy' nxt' where
      s: "slideTriple c (p + cpy) (q + cpy) (cpy, del, ins) nxt = Inr (p + cpy', q + cpy', cpy', nxt')"
        "slideOk c del ins p q cpy' nxt'" "cpy' + nxt' = cpy + nxt" by blast
    have pos: "p + cpy' + del + nxt' + nd = p + cpy + del + nxt + nd" "q + cpy' + ins + nxt' + ni = q + cpy + ins + nxt + ni" using s(3) by auto
    have lead': "lead c (p + cpy' + del) (q + cpy' + ins) ((nxt', nd, ni) # us) (cNFrom c) (cNTo c)"
      using s(2) l2 by (simp add: slideOk_def pos)
    have tail': "tailOk c ((nxt', nd, ni) # us)" using Suc.prems(2) by (auto simp: tailOk_def es Cons t split: if_splits)
    have "n = length ((nxt', nd, ni) # us)" using Suc.hyps(2) by (simp add: es Cons)
    from Suc.hyps(1) [OF this lead' tail'] obtain r where
      r: "optimizeLoop c (p + cpy' + del) (q + cpy' + ins) (((nxt', nd, ni) # us) @ [(0, 0, 0)]) = Inr (r @ [(0, 0, 0)])"
        "lead c (p + cpy' + del) (q + cpy' + ins) r (cNFrom c) (cNTo c)" "map snd r = map snd ((nxt', nd, ni) # us)" by blast
    have "optimizeLoop c p q (es @ [(0, 0, 0)]) = Inr (((cpy', del, ins) # r) @ [(0, 0, 0)])"
      using s(1) r(1) by (simp add: es Cons t)
    moreover have "matches c p q cpy'" using s(2) by (simp add: slideOk_def)
    ultimately show ?thesis using r(2,3) by (intro exI [of _ "(cpy', del, ins) # r"]) (simp add: es Cons t)
  qed
qed

section \<open>The vector before its terminator\<close>

definition noZero :: "triple list \<Rightarrow> bool" where
  "noZero es \<longleftrightarrow> (0, 0, 0) \<notin> set es"

lemma editsEnd_append: "\<exists>body rest. editsEnd (es @ (0, 0, 0) # fs) = Inr body \<and> es = body @ rest \<and> noZero body \<and> (rest = [] \<or> hd rest = (0, 0, 0))"
proof (induction es)
  case (Cons t es)
  show ?case
  proof (cases "t = (0, 0, 0)")
    case True
    then show ?thesis by (auto simp: noZero_def)
  next
    case False
    then show ?thesis using Cons by (auto simp: noZero_def)
  qed
qed (auto simp: noZero_def)

text \<open>A zero triple inside the vector would be followed by triples of the path; only the last copy can shrink to nothing.\<close>

lemma editsEnd_lead:
  assumes "lead c 0 0 es P Q" "shape es"
  shows "\<exists>body. editsEnd (es @ [(0, 0, 0)]) = Inr body \<and> noZero body \<and> lead c 0 0 body P Q"
proof -
  obtain body rest where b: "editsEnd (es @ [(0, 0, 0)]) = Inr body" "es = body @ rest" "noZero body" "rest = [] \<or> hd rest = (0, 0, 0)"
    using editsEnd_append [of es "[]"] by blast
  have "rest = [] \<or> rest = [(0, 0, 0)]"
  proof (cases rest)
    case (Cons t ts)
    then have t: "t = (0, 0, 0)" using b(4) by simp
    have "ts = []"
    proof (rule ccontr)
      assume "ts \<noteq> []"
      then have "t \<in> set (butlast es)" unfolding b(2) Cons by (simp add: butlast_append)
      then show False using assms(2) t by (auto simp: shape_def)
    qed
    then show ?thesis using Cons t by simp
  qed simp
  then have "lead c 0 0 body P Q" using assms(1) b(2) by (auto simp: lead_append)
  then show ?thesis using b(1,3) by blast
qed

lemma shape_snd: "map snd es' = map snd es \<Longrightarrow> shape es \<Longrightarrow> shape es'"
proof -
  assume a: "map snd es' = map snd es" "shape es"
  have "map snd (butlast es') = map snd (butlast es)" using a(1) by (metis map_butlast)
  then have "snd ` set (butlast es') = snd ` set (butlast es)" by (metis list.set_map)
  then show ?thesis using a(2) unfolding shape_def by (fastforce simp: image_iff)
qed

section \<open>The diff of a context\<close>

lemma diff_valid:
  assumes "wfCtx c" "cEdit c = []"
  shows "\<exists>c1 c2 es body. diffAll c = Inr c1 \<and> optimize c1 = Inr c2 \<and> sameCtx c c2 \<and> cEdit c2 = es @ [(0, 0, 0)] \<and>
    editsEnd (cEdit c2) = Inr body \<and> noZero body \<and> lead c 0 0 body (cNFrom c) (cNTo c)"
proof -
  obtain c1 es where d: "diffAll c = Inr c1" "sameCtx c c1" "cEdit c1 = es @ [(0, 0, 0)]" "lead c 0 0 es (cNFrom c) (cNTo c)" "tailOk c es" "shape es"
    using diffAll_valid [OF assms] by blast
  have w1: "wfCtx c1" and n1: "cNFrom c1 = cNFrom c" "cNTo c1 = cNTo c" using d(2) by (simp_all add: sameCtx_def)
  have l1: "lead c1 0 0 es (cNFrom c1) (cNTo c1)" using d(4) lead_cong [OF d(2)] n1 by simp
  have t1: "tailOk c1 es" using d(5) tailDiff_cong [OF d(2)] by (simp add: tailOk_def)
  obtain es' where e: "optimizeLoop c1 0 0 (es @ [(0, 0, 0)]) = Inr (es' @ [(0, 0, 0)])" "lead c1 0 0 es' (cNFrom c1) (cNTo c1)" "map snd es' = map snd es"
    using optimizeLoop_valid [OF w1 l1 t1] by blast
  have l': "lead c 0 0 es' (cNFrom c) (cNTo c)" using e(2) lead_cong [OF d(2)] n1 by simp
  obtain body where b: "editsEnd (es' @ [(0, 0, 0)]) = Inr body" "noZero body" "lead c 0 0 body (cNFrom c) (cNTo c)"
    using editsEnd_lead [OF l' shape_snd [OF e(3) d(6)]] by blast
  have "optimize c1 = Inr (c1\<lparr>cEdit := es' @ [(0, 0, 0)]\<rparr>)" using e(1) d(3) by (simp add: optimize_def)
  moreover have "sameCtx c (c1\<lparr>cEdit := es' @ [(0, 0, 0)]\<rparr>)" by (rule sameCtx_edit [OF d(2)])
  ultimately show ?thesis using d(1) b by (intro exI [of _ c1] exI [of _ "c1\<lparr>cEdit := es' @ [(0, 0, 0)]\<rparr>"] exI [of _ es'] exI [of _ body]) simp
qed

section \<open>Edits as a patch\<close>

text \<open>\<open>replays xs ys es\<close>: read from the front of both lists, every copy covers equal items, and both are used up.\<close>

fun replays :: "'a list \<Rightarrow> 'a list \<Rightarrow> triple list \<Rightarrow> bool" where
  "replays xs ys [] \<longleftrightarrow> xs = [] \<and> ys = []"
| "replays xs ys ((c, d, i) # es) \<longleftrightarrow> c + d \<le> length xs \<and> c + i \<le> length ys \<and> take c xs = take c ys \<and>
     replays (drop (c + d) xs) (drop (c + i) ys) es"

text \<open>The patched list: copies come from the first list, insertions from the second.\<close>

fun patched :: "'a list \<Rightarrow> 'a list \<Rightarrow> triple list \<Rightarrow> 'a list" where
  "patched xs ys [] = []"
| "patched xs ys ((c, d, i) # es) = take c xs @ take i (drop c ys) @ patched (drop (c + d) xs) (drop (c + i) ys) es"

lemma replays_patched: "replays xs ys es \<Longrightarrow> patched xs ys es = ys"
proof (induction xs ys es rule: replays.induct)
  case (2 xs ys c d i es)
  then have "patched (drop (c + d) xs) (drop (c + i) ys) es = drop (c + i) ys" "take c xs = take c ys" by simp_all
  moreover have "take c ys @ take i (drop c ys) @ drop (c + i) ys = ys"
    by (metis append.assoc append_take_drop_id take_add)
  ultimately show ?case by simp
qed simp

lemma replays_counts: "replays xs ys es \<Longrightarrow> pivotLen es = length xs \<and> sum_list (map (\<lambda>(c, d, i). c + i) es) = length ys"
  by (induction xs ys es rule: replays.induct) (auto simp: pivotLen_def)

lemma arrayFor_wf:
  assumes "arrayFor xs a" "arrayFor ys b" "length ys < 2 ^ 64"
  shows "wfCtx (newContext (a, length xs) (b, length ys))"
proof -
  have "fromOk l" if "l \<in> set a" for l using assms(1) that good_ok [of l] by (auto simp: arrayFor_def fromOk_def goodLine_def)
  moreover have "lineOk l" if "l \<in> set b" for l using assms(2) that good_ok [of l] by (auto simp: arrayFor_def)
  moreover have "length a = length xs + 1" using assms(1) by (simp add: arrayFor_def linksOk_def)
  ultimately show ?thesis using assms by (auto simp: wfCtx_def newContext_def arrayFor_def)
qed

text \<open>The items a context compares: lines of the two arrays that do not differ are equal items.\<close>

definition itemsOf :: "dcontext \<Rightarrow> bytes list \<Rightarrow> bytes list \<Rightarrow> bool" where
  "itemsOf c xs ys \<longleftrightarrow> cNFrom c = length xs \<and> cNTo c = length ys \<and>
     (\<forall>p < length xs. \<forall>q < length ys. sameAt c p q \<longrightarrow> xs ! p = ys ! q)"

lemma itemsOf_lines:
  assumes "arrayFor xs a" "arrayFor ys b"
  shows "itemsOf (newContext (a, length xs) (b, length ys)) xs ys"
proof -
  have "xs ! p = ys ! q" if "p < length xs" "q < length ys" "sameAt (newContext (a, length xs) (b, length ys)) p q" for p q
  proof -
    have d: "differ (a ! p) (b ! q) = Inr False" and l: "p < length a" "q < length b" using that(3) by (simp_all add: sameAt_def newContext_def)
    have "goodLine (a ! p)" "goodLine (b ! q)" using assms l by (simp_all add: arrayFor_def)
    from differ_good [OF this] d have "dlZ (a ! p) = dlZ (b ! q)" by simp
    then show ?thesis using assms that(1,2) by (simp add: arrayFor_def)
  qed
  then show ?thesis by (simp add: itemsOf_def newContext_def)
qed

lemma lead_replays:
  assumes "itemsOf c xs ys"
  shows "lead c p q es (length xs) (length ys) \<Longrightarrow> replays (drop p xs) (drop q ys) es"
proof (induction es arbitrary: p q)
  case (Cons t es)
  obtain cp d i where t: "t = (cp, d, i)" by (cases t)
  have m: "matches c p q cp" and l: "lead c (p + cp + d) (q + cp + i) es (length xs) (length ys)"
    using Cons.prems by (simp_all add: t)
  have le: "p + cp + d \<le> length xs" "q + cp + i \<le> length ys" using lead_le [OF l] by simp_all
  have "take cp (drop p xs) = take cp (drop q ys)"
  proof (rule nth_equalityI)
    fix k
    assume "k < length (take cp (drop p xs))"
    then have k: "k < cp" "p + k < length xs" "q + k < length ys" using le by auto
    then have "xs ! (p + k) = ys ! (q + k)" using assms m by (simp add: matches_def itemsOf_def)
    then show "take cp (drop p xs) ! k = take cp (drop q ys) ! k" using k by simp
  qed (use le in simp)
  moreover have "replays (drop (cp + d) (drop p xs)) (drop (cp + i) (drop q ys)) es"
    using Cons.IH [OF l] by (simp add: add.assoc add.commute add.left_commute)
  moreover have "cp + d \<le> length xs - p" "cp + i \<le> length ys - q" using le by arith+
  ultimately show ?case by (simp add: t)
qed simp

section \<open>The line diff of two texts\<close>

text \<open>What \<^verbatim>\<open>breakIntoLines\<close> refuses.\<close>

definition binaryText :: "bytes \<Rightarrow> bool" where
  "binaryText z \<longleftrightarrow> CHR 0x00 \<in> set z \<or> (\<exists>l \<in> set (splitNL z). lengthMask < length l)"

lemma textDiff_lines:
  assumes "length (toUTF8NoBOM a) < 2 ^ 64" "length (toUTF8NoBOM b) < 2 ^ 64"
  shows "\<exists>r. textDiff a b False = Inr (toUTF8NoBOM a, toUTF8NoBOM b, r) \<and>
    (r = None \<longleftrightarrow> binaryText (toUTF8NoBOM a) \<or> binaryText (toUTF8NoBOM b)) \<and>
    (\<forall>e. r = Some e \<longrightarrow> (\<exists>body. editsEnd e = Inr body \<and> noZero body \<and> replays (splitNL (toUTF8NoBOM a)) (splitNL (toUTF8NoBOM b)) body))"
proof -
  let ?a = "toUTF8NoBOM a" and ?b = "toUTF8NoBOM b"
  obtain ra where ra: "breakIntoLines ?a = Inr ra" "\<And>ls n. ra = Some (ls, n) \<Longrightarrow> n = countLines ?a \<and> arrayFor (splitNL ?a) ls"
    "ra = None \<longleftrightarrow> binaryText ?a" using breakIntoLines_ok [OF assms(1)] unfolding binaryText_def by blast
  obtain rb where rb: "breakIntoLines ?b = Inr rb" "\<And>ls n. rb = Some (ls, n) \<Longrightarrow> n = countLines ?b \<and> arrayFor (splitNL ?b) ls"
    "rb = None \<longleftrightarrow> binaryText ?b" using breakIntoLines_ok [OF assms(2)] unfolding binaryText_def by blast
  show ?thesis
  proof (cases "binaryText ?a \<or> binaryText ?b")
    case True
    then have "breakBoth ?a ?b False = Inr None" using ra rb by (auto simp: breakBoth_def split: option.splits)
    then show ?thesis using True by (simp add: textDiff_def Let_def)
  next
    case False
    then obtain la na lb nb where s: "ra = Some (la, na)" "rb = Some (lb, nb)" using ra(3) rb(3) by (cases ra; cases rb) auto
    have fa: "na = length (splitNL ?a)" "arrayFor (splitNL ?a) la" and fb: "nb = length (splitNL ?b)" "arrayFor (splitNL ?b) lb"
      using ra(2) [OF s(1)] rb(2) [OF s(2)] by simp_all
    let ?c = "newContext (la, length (splitNL ?a)) (lb, length (splitNL ?b))"
    have br: "breakBoth ?a ?b False = Inr (Some ?c)" using ra(1) rb(1) s fa(1) fb(1) by (simp add: breakBoth_def)
    have "length (splitNL ?b) < 2 ^ 64" using assms(2) countLines_le [of ?b] by simp
    from arrayFor_wf [OF fa(2) fb(2) this] have w: "wfCtx ?c" .
    have ce: "cEdit ?c = []" "cNFrom ?c = length (splitNL ?a)" "cNTo ?c = length (splitNL ?b)" by (simp_all add: newContext_def)
    obtain c1 c2 body where d: "diffAll ?c = Inr c1" "optimize c1 = Inr c2" "editsEnd (cEdit c2) = Inr body" "noZero body" "lead ?c 0 0 body (cNFrom ?c) (cNTo ?c)"
      using diff_valid [OF w ce(1)] by blast
    have "replays (splitNL ?a) (splitNL ?b) body" using lead_replays [OF itemsOf_lines [OF fa(2) fb(2)], of 0 0 body] d(5) ce(2,3) by simp
    moreover have "textDiff a b False = Inr (?a, ?b, Some (cEdit c2))" using br d(1,2) by (simp add: textDiff_def Let_def)
    ultimately show ?thesis using d(3,4) False by simp
  qed
qed

section \<open>The token diff of two texts\<close>

text \<open>
  A token of 32768 bytes or more spills its length into the hash, and the sixteen-bit length can be smaller than the
  token; for shorter tokens the hash fixes the length, and the triples count bytes exactly.
\<close>

definition shortTokens :: "bytes \<Rightarrow> bool" where
  "shortTokens z \<longleftrightarrow> list_all (\<lambda>t. length t \<le> lengthMask) (splitTok z)"

definition tokenArray :: "bytes list \<Rightarrow> dline list \<Rightarrow> bool" where
  "tokenArray zs ls \<longleftrightarrow> linksOk (length zs) ls \<and> (\<forall>l \<in> set ls. tokenLine l) \<and> (\<forall>j < length zs. dlZ (ls ! j) = zs ! j)"

lemma tokenArray_wf:
  assumes "tokenArray xs a" "tokenArray ys b" "length ys < 2 ^ 64"
  shows "wfCtx (newContext (a, length xs) (b, length ys))"
proof -
  have "fromOk l" if "l \<in> set a" for l using assms(1) that by (auto simp: tokenArray_def fromOk_def tokenLine_def u16_def)
  moreover have "lineOk l" if "l \<in> set b" for l using assms(2) that by (auto simp: tokenArray_def tokenLine_def)
  moreover have "length a = length xs + 1" using assms(1) by (simp add: tokenArray_def linksOk_def)
  ultimately show ?thesis using assms by (auto simp: wfCtx_def newContext_def tokenArray_def)
qed

lemma differ_tok:
  assumes "lineOk a" "lineOk b" "length (dlZ a) \<le> lengthMask" "length (dlZ b) \<le> lengthMask" "differ a b = Inr False"
  shows "dlZ a = dlZ b"
proof -
  have m: "unat (dlH l AND of_nat lengthMask) = length (dlZ l)" if "lineOk l" "length (dlZ l) \<le> lengthMask" for l
  proof -
    obtain h where h: "dlH l = packHash h (length (dlZ l))" using \<open>lineOk l\<close> by (auto simp: lineOk_def)
    have "length (dlZ l) mod 2 ^ 15 = length (dlZ l)" using that(2) by (simp add: lengthMask_eval)
    then show ?thesis using low_length [of h "length (dlZ l)"] h by simp
  qed
  have h: "dlH a = dlH b" using assms(5) by (auto simp: differ_def split: if_splits)
  then have "length (dlZ a) = length (dlZ b)" using m [OF assms(1,3)] m [OF assms(2,4)] by simp
  then show ?thesis using assms(5) h m [OF assms(1,3)] by (simp add: differ_def Let_def)
qed

lemma itemsOf_tokens:
  assumes "tokenArray xs a" "tokenArray ys b" "list_all (\<lambda>t. length t \<le> lengthMask) xs" "list_all (\<lambda>t. length t \<le> lengthMask) ys"
  shows "itemsOf (newContext (a, length xs) (b, length ys)) xs ys"
proof -
  have "xs ! p = ys ! q" if "p < length xs" "q < length ys" "sameAt (newContext (a, length xs) (b, length ys)) p q" for p q
  proof -
    have d: "differ (a ! p) (b ! q) = Inr False" and l: "p < length a" "q < length b" using that(3) by (simp_all add: sameAt_def newContext_def)
    have z: "dlZ (a ! p) = xs ! p" "dlZ (b ! q) = ys ! q" using assms(1,2) that(1,2) by (simp_all add: tokenArray_def)
    have "lineOk (a ! p)" "lineOk (b ! q)" using assms(1,2) l by (simp_all add: tokenArray_def tokenLine_def)
    moreover have "length (xs ! p) \<le> lengthMask" "length (ys ! q) \<le> lengthMask" using assms(3,4) that(1,2) by (simp_all add: list_all_length)
    ultimately show ?thesis using differ_tok [of "a ! p" "b ! q"] d by (simp add: z)
  qed
  then show ?thesis by (simp add: itemsOf_def newContext_def)
qed

end
