(* ===== verification/Merge_Tokens.thy ===== *)
theory Merge_Tokens
  imports Merge_Sound
begin

text \<open>
  The token diff: its triples, turned into byte counts, are edits of the two byte strings.  Tokens of a part of a text
  are no longer than those of the text.
\<close>

section \<open>Byte counts\<close>

definition measured :: "dline list \<Rightarrow> bytes list \<Rightarrow> bool" where
  "measured ls zs \<longleftrightarrow> length ls = length zs + 1 \<and> (\<forall>j < length zs. dlN (ls ! j) = length (zs ! j))"

lemma sumN_measured:
  assumes "measured ls zs"
  shows "k \<le> length (drop i zs) \<Longrightarrow> sumN ls i k = Inr (length (concat (take k (drop i zs))))"
proof (induction k arbitrary: i)
  case (Suc k)
  then have i: "i < length zs" by simp
  then have "drop i zs = zs ! i # drop (Suc i) zs" by (simp add: Cons_nth_drop_Suc)
  moreover have "i < length ls" "dlN (ls ! i) = length (zs ! i)" using assms i by (simp_all add: measured_def)
  ultimately show ?case using Suc.IH [of "Suc i"] Suc.prems by simp
qed simp

lemma concat_take_drop: "take (length (concat (take c xs))) (concat xs) = concat (take c xs)"
  "drop (length (concat (take c xs))) (concat xs) = concat (drop c xs)"
proof -
  have "concat xs = concat (take c xs) @ concat (drop c xs)" by (metis append_take_drop_id concat_append)
  then show "take (length (concat (take c xs))) (concat xs) = concat (take c xs)"
    "drop (length (concat (take c xs))) (concat xs) = concat (drop c xs)" by (metis append_eq_conv_conj)+
qed

lemma concat_drop_add: "drop (length (concat (take c xs)) + length (concat (take d (drop c xs)))) (concat xs) = concat (drop (c + d) xs)"
  by (metis add.commute concat_take_drop(2) drop_drop)

lemma length_concat_take_le: "length (concat (take c xs)) + length (concat (take d (drop c xs))) \<le> length (concat xs)"
proof -
  have "concat xs = concat (take c xs) @ concat (take d (drop c xs)) @ concat (drop d (drop c xs))"
    by (metis append_take_drop_id concat_append)
  then show ?thesis by (metis add.assoc le_add1 length_append)
qed

lemma concat_take_pos: "[] \<notin> set xs \<Longrightarrow> 0 < k \<Longrightarrow> k \<le> length xs \<Longrightarrow> 0 < length (concat (take k xs))"
  by (cases xs; cases k) auto

lemma tokensToBytes_replays:
  assumes "measured (cFrom c) xs" "measured (cTo c) ys" "[] \<notin> set xs" "[] \<notin> set ys"
  shows "replays (drop p xs) (drop q ys) es \<Longrightarrow> noZero es \<Longrightarrow>
    \<exists>fs. tokensToBytes c p q (es @ (0, 0, 0) # gs) = Inr (fs @ (0, 0, 0) # gs) \<and>
      replays (concat (drop p xs)) (concat (drop q ys)) fs \<and> noZero fs"
proof (induction es arbitrary: p q)
  case Nil
  then show ?case by (intro exI [of _ "[]"]) (simp add: noZero_def)
next
  case (Cons t es)
  obtain cp d i where t: "t = (cp, d, i)" by (cases t)
  let ?X = "drop p xs" and ?Y = "drop q ys"
  have r: "cp + d \<le> length ?X" "cp + i \<le> length ?Y" "take cp ?X = take cp ?Y" "replays (drop (cp + d) ?X) (drop (cp + i) ?Y) es"
    using Cons.prems(1) by (simp_all add: t)
  have nz: "0 < cp \<or> 0 < d \<or> 0 < i" "noZero es" using Cons.prems(2) by (auto simp: t noZero_def)
  let ?a = "length (concat (take cp ?X))" and ?b = "length (concat (take d (drop cp ?X)))" and ?e = "length (concat (take i (drop cp ?Y)))"
  have s: "sumN (cFrom c) p cp = Inr ?a" "sumN (cFrom c) (p + cp) d = Inr ?b" "sumN (cTo c) (q + cp) i = Inr ?e"
    using sumN_measured [OF assms(1), of cp p] sumN_measured [OF assms(1), of d "p + cp"] sumN_measured [OF assms(2), of i "q + cp"] r(1,2)
    by (simp_all add: add.commute)
  have eq: "drop (cp + d) ?X = drop (p + cp + d) xs" "drop (cp + i) ?Y = drop (q + cp + i) ys" by (simp_all add: add.commute add.left_commute)
  obtain fs where f: "tokensToBytes c (p + cp + d) (q + cp + i) (es @ (0, 0, 0) # gs) = Inr (fs @ (0, 0, 0) # gs)"
    "replays (concat (drop (cp + d) ?X)) (concat (drop (cp + i) ?Y)) fs" "noZero fs"
    using Cons.IH [of "p + cp + d" "q + cp + i"] r(4) nz(2) unfolding eq by blast
  have tk: "tokensToBytes c p q ((t # es) @ (0, 0, 0) # gs) = Inr (((?a, ?b, ?e) # fs) @ (0, 0, 0) # gs)"
    using s f(1) nz(1) by (auto simp: t)
  have "replays (concat ?X) (concat ?Y) ((?a, ?b, ?e) # fs)"
    using length_concat_take_le [of cp ?X d] length_concat_take_le [of cp ?Y i] concat_take_drop(1) [of cp ?X] concat_take_drop(1) [of cp ?Y]
      concat_drop_add [of cp ?X d] concat_drop_add [of cp ?Y i] r(3) f(2) by simp
  moreover have "(?a, ?b, ?e) \<noteq> (0, 0, 0)"
  proof -
    have "[] \<notin> set ?X" "[] \<notin> set (drop cp ?X)" "[] \<notin> set (drop cp ?Y)" using assms(3,4) by (meson in_set_dropD)+
    moreover have "cp \<le> length ?X" "d \<le> length (drop cp ?X)" "i \<le> length (drop cp ?Y)" using r(1,2) by auto
    ultimately have "0 < ?a \<or> 0 < ?b \<or> 0 < ?e"
      using nz(1) concat_take_pos [of ?X cp] concat_take_pos [of "drop cp ?X" d] concat_take_pos [of "drop cp ?Y" i] by blast
    then show ?thesis by auto
  qed
  ultimately show ?case using tk f(3) by (intro exI [of _ "(?a, ?b, ?e) # fs"]) (auto simp: noZero_def)
qed

section \<open>The token diff of two texts\<close>

lemma splitTok_nonempty: "[] \<notin> set (splitTok z)"
proof (induction z rule: splitTok.induct)
  case (1 z)
  then show ?case by (cases z) (auto simp: tokenAt_def)
qed

lemma editsEnd_split: "editsEnd es = Inr body \<Longrightarrow> \<exists>gs. es = body @ (0, 0, 0) # gs"
  by (induction es arbitrary: body) (auto simp: bindE_eq_Inr_iff split: if_splits)

lemma editsEnd_at: "noZero es \<Longrightarrow> editsEnd (es @ (0, 0, 0) # gs) = Inr es"
  by (induction es) (auto simp: noZero_def)

lemma sameCtx_measured:
  assumes "tokenArray xs a" "list_all (\<lambda>t. length t \<le> lengthMask) xs" "map (\<lambda>l. (dlZ l, dlH l, dlN l)) f = map (\<lambda>l. (dlZ l, dlH l, dlN l)) a"
  shows "measured f xs"
proof -
  have len: "length a = length xs + 1" using assms(1) by (simp add: tokenArray_def linksOk_def)
  have lf: "length f = length a" by (rule map_eq_imp_length_eq [OF assms(3)])
  have "dlN (f ! j) = length (xs ! j)" if "j < length xs" for j
  proof -
    have j: "j < length f" "j < length a" using that len lf by simp_all
    have "(\<lambda>l. (dlZ l, dlH l, dlN l)) (f ! j) = (\<lambda>l. (dlZ l, dlH l, dlN l)) (a ! j)" using assms(3) j by (metis (no_types, lifting) nth_map)
    moreover have "tokenLine (a ! j)" "dlZ (a ! j) = xs ! j" using assms(1) that j by (simp_all add: tokenArray_def)
    moreover have "length (xs ! j) \<le> 32767" using assms(2) that by (simp add: list_all_length lengthMask_eval)
    ultimately show ?thesis by (simp add: tokenLine_def u16_def)
  qed
  then show ?thesis using len lf by (simp add: measured_def)
qed

lemma textDiff_tokens:
  assumes "length (toUTF8NoBOM a) < 2 ^ 64" "length (toUTF8NoBOM b) < 2 ^ 64" "shortTokens (toUTF8NoBOM a)" "shortTokens (toUTF8NoBOM b)"
  shows "\<exists>e body. textDiff a b True = Inr (toUTF8NoBOM a, toUTF8NoBOM b, Some e) \<and> editsEnd e = Inr body \<and> noZero body \<and>
    replays (toUTF8NoBOM a) (toUTF8NoBOM b) body"
proof -
  let ?a = "toUTF8NoBOM a" and ?b = "toUTF8NoBOM b"
  let ?xs = "splitTok ?a" and ?ys = "splitTok ?b"
  obtain la where la: "breakIntoTokens ?a = Inr (la, length ?xs)" "tokenArray ?xs la"
    using breakIntoTokens_ok [OF assms(1)] unfolding tokenArray_def by blast
  obtain lb where lb: "breakIntoTokens ?b = Inr (lb, length ?ys)" "tokenArray ?ys lb"
    using breakIntoTokens_ok [OF assms(2)] unfolding tokenArray_def by blast
  let ?c = "newContext (la, length ?xs) (lb, length ?ys)"
  have "length ?ys < 2 ^ 64" using assms(2) countTokens_le [of 0 ?b] by (simp add: length_splitTok)
  from tokenArray_wf [OF la(2) lb(2) this] have w: "wfCtx ?c" .
  have ce: "cEdit ?c = []" "cNFrom ?c = length ?xs" "cNTo ?c = length ?ys" by (simp_all add: newContext_def)
  obtain c1 c2 body where d: "diffAll ?c = Inr c1" "optimize c1 = Inr c2" "sameCtx ?c c2" "editsEnd (cEdit c2) = Inr body" "noZero body"
    "lead ?c 0 0 body (cNFrom ?c) (cNTo ?c)" using diff_valid [OF w ce(1)] by blast
  have items: "itemsOf ?c ?xs ?ys" using itemsOf_tokens [OF la(2) lb(2)] assms(3,4) by (simp add: shortTokens_def)
  have rp: "replays (drop 0 ?xs) (drop 0 ?ys) body" using lead_replays [OF items, of 0 0 body] d(6) ce(2,3) by simp
  have meas: "measured (cFrom c2) ?xs" "measured (cTo c2) ?ys"
    using sameCtx_measured [OF la(2), of "cFrom c2"] sameCtx_measured [OF lb(2), of "cTo c2"] d(3) assms(3,4)
    by (simp_all add: sameCtx_def newContext_def shortTokens_def)
  obtain gs where gs: "cEdit c2 = body @ (0, 0, 0) # gs" using editsEnd_split [OF d(4)] by blast
  obtain fs where f: "tokensToBytes c2 0 0 (cEdit c2) = Inr (fs @ (0, 0, 0) # gs)" "replays (concat (drop 0 ?xs)) (concat (drop 0 ?ys)) fs" "noZero fs"
    using tokensToBytes_replays [OF meas splitTok_nonempty splitTok_nonempty rp d(5)] unfolding gs by blast
  have "breakBoth ?a ?b True = Inr (Some ?c)" using la(1) lb(1) by (simp add: breakBoth_def)
  then have "textDiff a b True = Inr (?a, ?b, Some (fs @ (0, 0, 0) # gs))" using d(1,2) f(1) by (simp add: textDiff_def Let_def)
  then show ?thesis using editsEnd_at [OF f(3)] f(2,3) by (intro exI [of _ "fs @ (0, 0, 0) # gs"] exI [of _ fs]) (simp add: concat_splitTok)
qed

section \<open>Parts of a text\<close>

lemma splitTok_uniform: "t \<in> set (splitTok z) \<Longrightarrow> \<exists>a b k. z = a @ t @ b \<and> (\<forall>x \<in> set t. tokenClass x = k)"
proof (induction z rule: splitTok.induct)
  case (1 z)
  show ?case
  proof (cases z)
    case (Cons c cs)
    let ?w = "takeWhile (\<lambda>x. tokenClass x = tokenClass c) cs"
    have cs: "cs = ?w @ drop (length ?w) cs" by (metis append_take_drop_id takeWhile_eq_take)
    consider (here) "t = c # ?w" | (later) "t \<in> set (splitTok (drop (length ?w) cs))" using 1(2) by (auto simp: Cons tokenAt_def)
    then show ?thesis
    proof cases
      case here
      then have "z = [] @ t @ drop (length ?w) cs" "\<forall>x \<in> set t. tokenClass x = tokenClass c"
        using cs by (auto simp: Cons dest: set_takeWhileD)
      then show ?thesis by blast
    next
      case later
      then obtain a b k where ab: "drop (length ?w) cs = a @ t @ b" "\<forall>x \<in> set t. tokenClass x = k"
        using 1(1) [OF Cons] by (auto simp: Cons tokenAt_def)
      then have "z = (c # ?w @ a) @ t @ b" using cs by (simp add: Cons)
      then show ?thesis using ab(2) by blast
    qed
  qed (use 1(2) in simp)
qed

lemma uniform_in_token:
  "z = a @ t @ b \<Longrightarrow> \<forall>x \<in> set t. tokenClass x = k \<Longrightarrow> t \<noteq> [] \<Longrightarrow> \<exists>u \<in> set (splitTok z). length t \<le> length u"
proof (induction z arbitrary: a rule: splitTok.induct)
  case (1 z)
  have "z \<noteq> []" using 1(2,4) by simp
  then obtain c cs where z: "z = c # cs" by (cases z) auto
  let ?w = "takeWhile (\<lambda>x. tokenClass x = tokenClass c) cs"
  show ?case
  proof (cases "length (c # ?w) \<le> length a")
    case True
    have "drop (length (tokenAt c cs)) z = drop (length (tokenAt c cs)) a @ t @ b" using True 1(2) by (simp add: tokenAt_def)
    from 1(1) [OF z this 1(3,4)] show ?thesis by (auto simp: z tokenAt_def)
  next
    case False
    have uni: "\<forall>x \<in> set (a @ t). tokenClass x = tokenClass c"
    proof -
      have "cs = ?w @ dropWhile (\<lambda>x. tokenClass x = tokenClass c) cs" by simp
      then have za: "(c # ?w) @ dropWhile (\<lambda>x. tokenClass x = tokenClass c) cs = (a @ [hd t]) @ List.tl t @ b" using 1(2,4) z by (cases t) auto
      have all: "\<forall>x \<in> set (c # ?w). tokenClass x = tokenClass c" by (auto dest: set_takeWhileD)
      have "length (a @ [hd t]) \<le> length (c # ?w)" using False by simp
      then have "a @ [hd t] = take (length (a @ [hd t])) (c # ?w)" using za by (metis append_eq_append_conv_if)
      then have "set (a @ [hd t]) \<subseteq> set (c # ?w)" by (metis set_take_subset)
      then have at: "\<forall>x \<in> set (a @ [hd t]). tokenClass x = tokenClass c" using all by blast
      then have h: "tokenClass (hd t) = tokenClass c" and a: "\<forall>x \<in> set a. tokenClass x = tokenClass c" by simp_all
      have "tokenClass x = tokenClass c" if "x \<in> set t" for x using 1(3,4) h that hd_in_set by metis
      then show ?thesis using a by auto
    qed
    have tl: "cs = List.tl (a @ t) @ b" using 1(2,4) z by (cases a; cases t) auto
    have "\<forall>x \<in> set (List.tl (a @ t)). tokenClass x = tokenClass c" using uni by (cases "a @ t") auto
    then have "?w = List.tl (a @ t) @ takeWhile (\<lambda>x. tokenClass x = tokenClass c) b" unfolding tl by (simp add: takeWhile_append2)
    then have "length (List.tl (a @ t)) \<le> length ?w" by (metis le_add1 length_append)
    then have "length t \<le> Suc (length ?w)" by simp
    then show ?thesis by (auto simp: z tokenAt_def)
  qed
qed

lemma shortTokens_part: "shortTokens (a @ z @ b) \<Longrightarrow> shortTokens z"
  unfolding shortTokens_def list_all_iff
proof
  fix t
  assume s: "\<forall>u \<in> set (splitTok (a @ z @ b)). length u \<le> lengthMask" and t: "t \<in> set (splitTok z)"
  obtain a' b' k where z: "z = a' @ t @ b'" "\<forall>x \<in> set t. tokenClass x = k" using splitTok_uniform [OF t] by blast
  have "a @ z @ b = (a @ a') @ t @ (b' @ b)" by (simp add: z(1))
  moreover have "t \<noteq> []" using t splitTok_nonempty by auto
  ultimately obtain u where "u \<in> set (splitTok (a @ z @ b))" "length t \<le> length u" using uniform_in_token z(2) by blast
  then show "length t \<le> lengthMask" using s by (meson le_trans)
qed

text \<open>
  A text that the merge handles in full: it fits an address space, it has no byte 0xFE or 0xFF, which no UTF-8 text has
  and only a UTF-16 mark starts with, and its tokens are short.
\<close>

definition plainText :: "bytes \<Rightarrow> bool" where
  "plainText z \<longleftrightarrow> length z < 2 ^ 63 \<and> list_all (\<lambda>c. c \<noteq> CHR 0xFE \<and> c \<noteq> CHR 0xFF) z \<and> shortTokens z"

lemma plainText_part: "plainText (a @ z @ b) \<Longrightarrow> plainText z"
  using shortTokens_part [of a z b] by (auto simp: plainText_def)

lemma plain_utf: "plainText z \<Longrightarrow> \<exists>a b. z = a @ toUTF8NoBOM z @ b"
proof -
  assume p: "plainText z"
  have "utf16BOM z = None"
  proof (cases z)
    case (Cons c cs)
    then have "z ! 0 \<noteq> CHR 0xFE" "z ! 0 \<noteq> CHR 0xFF" using p by (simp_all add: plainText_def)
    then show ?thesis by (simp add: utf16BOM_def)
  qed (simp add: utf16BOM_def)
  moreover have "z = take 3 z @ takeWhile (\<lambda>c. c \<noteq> CHR 0x00) (drop 3 z) @ dropWhile (\<lambda>c. c \<noteq> CHR 0x00) (drop 3 z)" by simp
  ultimately show ?thesis by (metis append.left_neutral append.right_neutral length_Cons list.size(3) numeral_3_eq_3 option.simps(4) toUTF8NoBOM_def utf8BOM_def)
qed

lemma plain_utf_plain: "plainText z \<Longrightarrow> plainText (toUTF8NoBOM z)"
  using plain_utf plainText_part by metis

lemma plain_length: "plainText z \<Longrightarrow> length z < 2 ^ 64"
  by (simp add: plainText_def)

end
