(* ===== verification/Merge_Walk.thy ===== *)
theory Merge_Walk
  imports Merge_Tokens
begin

text \<open>
  The walk over two edit vectors: every operation accounts for what it consumes of both, so that the cursors stay inside
  the texts, no step panics, and the builders read in range.
\<close>

section \<open>What a step consumes\<close>

text \<open>The lines of the version a vector describes.\<close>

definition versionLen :: "triple list \<Rightarrow> nat" where
  "versionLen es = sum_list (map (\<lambda>(c, d, i). c + i) es)"

lemma versionLen_simps [simp]: "versionLen [] = 0" "versionLen ((c, d, i) # es) = c + i + versionLen es"
  by (simp_all add: versionLen_def)

lemma pivotLen_simps [simp]: "pivotLen [] = 0" "pivotLen ((c, d, i) # es) = c + d + pivotLen es"
  by (simp_all add: pivotLen_def)

lemma noZero_simps [simp]: "noZero []" "noZero (t # es) \<longleftrightarrow> t \<noteq> (0, 0, 0) \<and> noZero es"
  by (auto simp: noZero_def)

lemma dropZero_lens [simp]: "versionLen (dropZero es) = versionLen es" "pivotLen (dropZero es) = pivotLen es"
  by (cases es; auto simp: dropZero_def)+

lemma dropZero_noZero: "noZero es \<Longrightarrow> noZero (dropZero ((c, d, i) # es))" "noZero es \<Longrightarrow> noZero (dropZero es)"
  by (auto simp: dropZero_def split: list.splits)

lemma skip_version: "snd (skipConflict es sz) + versionLen (fst (skipConflict es sz)) = versionLen es" if "noZero es"
  using that by (induction es sz rule: skipConflict.induct) (auto split: prod.split)

lemma skip_noZero: "noZero es \<Longrightarrow> noZero (dropZero (fst (skipConflict es sz)))"
proof (induction es sz rule: skipConflict.induct)
  case (2 c d i es sz)
  then show ?case using dropZero_noZero(1) [of es "c - sz" d i] by (auto simp: dropZero_def split: prod.split)
qed (simp add: dropZero_def)

lemma skip_pivot: "noZero es \<Longrightarrow> endsWithCopy es sz \<Longrightarrow> fst (skipConflict es sz) = [] \<or> sz + pivotLen (fst (skipConflict es sz)) = pivotLen es"
proof (induction es sz rule: skipConflict.induct)
  case (2 c d i es sz)
  consider "sz = 0" | "0 < sz" "sz \<le> c" | "0 < sz" "\<not> sz \<le> c" by linarith
  then show ?case
  proof cases
    case 3
    then have d: "\<not> sz - c < d" "endsWithCopy es (sz - c - d)" using 2(2,3) by (auto split: if_splits)
    then have d': "endsWithCopy es (sz - (c + d))" by simp
    have nz: "\<not> (sz = 0 \<or> c = 0 \<and> d = 0 \<and> i = 0)" "noZero es" using 2(2) 3(1) by auto
    have "fst (skipConflict es (sz - (c + d))) = [] \<or> sz - (c + d) + pivotLen (fst (skipConflict es (sz - (c + d)))) = pivotLen es"
      by (rule 2(1) [OF nz(1) 3(2) nz(2) d'])
    moreover have "fst (skipConflict ((c, d, i) # es) sz) = fst (skipConflict es (sz - (c + d)))"
      using nz(1) 3(2) by (auto simp: case_prod_beta)
    ultimately show ?thesis using d(1) 3(2) by (auto simp del: skipConflict.simps)
  qed (use 2(2) in auto)
qed simp

lemma conflictSize_ends: "endsWithCopy e1 (conflictSize e1 e2 sz) \<and> endsWithCopy e2 (conflictSize e1 e2 sz)"
proof (induction e1 e2 sz rule: conflictSize.induct)
  case (1 e1 e2 sz)
  then show ?case by (subst (1 2) conflictSize.simps) auto
qed

text \<open>The contract of a step, kept for both vectors.\<close>

lemma walkStep_lens:
  assumes "walkStep e1 e2 z1 z2 = Inr (op, r1, r2)" "e1 \<noteq> []" "e2 \<noteq> []" "noZero e1" "noZero e2"
  shows "versionLen e1 = moV1 op + versionLen r1" "versionLen e2 = moV2 op + versionLen r2"
    and "noZero (dropZero r1)" "noZero (dropZero r2)"
    and "r1 = [] \<or> pivotLen e1 = moPivot op + pivotLen r1" "r2 = [] \<or> pivotLen e2 = moPivot op + pivotLen r2"
    and "moKind op = opSame \<Longrightarrow> 0 < moPivot op \<and> moPivot op \<le> pivotLen e2"
proof -
  obtain c1 d1 i1 t1 c2 d2 i2 t2 where e: "e1 = (c1, d1, i1) # t1" "e2 = (c2, d2, i2) # t2"
    using assms(2,3) by (metis list.exhaust prod_cases3)
  have nz: "noZero t1" "noZero t2" using assms(4,5) by (simp_all add: e)
  from assms(1) [unfolded e] have "versionLen e1 = moV1 op + versionLen r1 \<and> versionLen e2 = moV2 op + versionLen r2 \<and>
    noZero (dropZero r1) \<and> noZero (dropZero r2) \<and>
    (r1 = [] \<or> pivotLen e1 = moPivot op + pivotLen r1) \<and> (r2 = [] \<or> pivotLen e2 = moPivot op + pivotLen r2) \<and>
    (moKind op = opSame \<longrightarrow> 0 < moPivot op \<and> moPivot op \<le> pivotLen e2)"
  proof (cases rule: walkStep_cases)
    case (conflict sz)
    note ends = conflictSize_ends [of e1 e2 1]
    show ?thesis using conflict skip_version [OF assms(4)] skip_version [OF assms(5)] skip_noZero [OF assms(4)] skip_noZero [OF assms(5)]
        skip_pivot [OF assms(4)] skip_pivot [OF assms(5)] ends by (simp add: e [symmetric] mkOp_def) metis
  qed (use nz dropZero_noZero in \<open>auto simp: e mkOp_def\<close>)
  then show "versionLen e1 = moV1 op + versionLen r1" "versionLen e2 = moV2 op + versionLen r2"
    "noZero (dropZero r1)" "noZero (dropZero r2)"
    "r1 = [] \<or> pivotLen e1 = moPivot op + pivotLen r1" "r2 = [] \<or> pivotLen e2 = moPivot op + pivotLen r2"
    "moKind op = opSame \<Longrightarrow> 0 < moPivot op \<and> moPivot op \<le> pivotLen e2" by blast+
qed

section \<open>The walk returns\<close>

lemma walkStep_total: "z1 = Inr b1 \<Longrightarrow> z2 = Inr b2 \<Longrightarrow> \<exists>op r1 r2. walkStep e1 e2 z1 z2 = Inr (op, r1, r2)"
proof -
  assume z: "z1 = Inr b1" "z2 = Inr b2"
  obtain c1 d1 i1 c2 d2 i2 where h: "hd e1 = (c1, d1, i1)" "hd e2 = (c2, d2, i2)" by (metis prod_cases3)
  have "sameEdit (c, d, i) (c', d', i') b1 b2 \<Longrightarrow> c = c'" for c d i c' d' i' by (auto simp: sameEdit_def split: if_splits)
  then show ?thesis unfolding walkStep_def h z by (auto simp: Let_def case_prod_beta)
qed

text \<open>
  The walk returns when the cursors it can reach are in range; and then both builders read in range: the operations pass
  over no more of each version than is there, and an unchanged run lies inside the pivot.
\<close>

fun opsFit :: "nat \<Rightarrow> nat \<Rightarrow> nat \<Rightarrow> mergeOp list \<Rightarrow> bool" where
  "opsFit p n1 n2 [] \<longleftrightarrow> True"
| "opsFit p n1 n2 (op # ops) \<longleftrightarrow> moV1 op \<le> n1 \<and> moV2 op \<le> n2 \<and> (moKind op = opSame \<longrightarrow> 0 < moPivot op \<and> moPivot op \<le> p) \<and>
     opsFit (p - moPivot op) (n1 - moV1 op) (n2 - moV2 op) ops"

lemma walkTail_fit: "opsFit p (versionLen e1) (versionLen e2) (walkTail e1 e2)"
proof -
  have "snd (snd (hd es)) \<le> versionLen es" if "es \<noteq> []" for es using that by (cases es) auto
  then show ?thesis by (auto simp: walkTail_def mkOp_def)
qed

lemma opsFit_end: "r1 = [] \<or> r2 = [] \<Longrightarrow> walkLoop v1 v2 at1 at2 (dropZero r1) (dropZero r2) u1 u2 = Inr (ops, n) \<Longrightarrow> opsFit p (versionLen r1) (versionLen r2) ops"
proof -
  assume "r1 = [] \<or> r2 = []" "walkLoop v1 v2 at1 at2 (dropZero r1) (dropZero r2) u1 u2 = Inr (ops, n)"
  then have "ops = walkTail (dropZero r1) (dropZero r2)" by (subst (asm) walkLoop.simps) (auto simp: dropZero_def)
  then show ?thesis using walkTail_fit [of p "dropZero r1" "dropZero r2"] by simp
qed

lemma walkLoop_fit:
  assumes "noZero e1" "noZero e2" "\<forall>u \<le> u1 + versionLen e1. at1 u \<le> length v1" "\<forall>u \<le> u2 + versionLen e2. at2 u \<le> length v2"
  shows "\<exists>ops n. walkLoop v1 v2 at1 at2 e1 e2 u1 u2 = Inr (ops, n) \<and> opsFit (pivotLen e2) (versionLen e1) (versionLen e2) ops \<and>
    n = length (filter (\<lambda>op. moKind op = opConflict) ops)"
  using assms
proof (induction v1 v2 at1 at2 e1 e2 u1 u2 rule: walkLoop.induct)
  case (1 v1 v2 at1 at2 e1 e2 u1 u2)
  show ?case
  proof (cases "e1 = [] \<or> e2 = []")
    case True
    then have "walkLoop v1 v2 at1 at2 e1 e2 u1 u2 = Inr (walkTail e1 e2, 0)" by (simp add: walkLoop.simps [of v1 v2 at1 at2 e1 e2])
    moreover have "filter (\<lambda>op. moKind op = opConflict) (walkTail e1 e2) = []" by (simp add: walkTail_def mkOp_def)
    ultimately show ?thesis using walkTail_fit by simp
  next
    case False
    have z: "sliceFrom v1 (at1 u1) = Inr (drop (at1 u1) v1)" "sliceFrom v2 (at2 u2) = Inr (drop (at2 u2) v2)"
      using 1(4,5) by (simp_all add: sliceFrom_def)
    obtain op r1 r2 where st: "walkStep e1 e2 (sliceFrom v1 (at1 u1)) (sliceFrom v2 (at2 u2)) = Inr (op, r1, r2)"
      using walkStep_total [OF z] by blast
    have ne: "e1 \<noteq> []" "e2 \<noteq> []" using False by auto
    note s = walkStep_lens [OF st ne 1(2,3)]
    have at: "\<forall>u \<le> u1 + moV1 op + versionLen (dropZero r1). at1 u \<le> length v1" "\<forall>u \<le> u2 + moV2 op + versionLen (dropZero r2). at2 u \<le> length v2"
      using 1(4,5) s(1,2) by simp_all
    obtain ops n where w: "walkLoop v1 v2 at1 at2 (dropZero r1) (dropZero r2) (u1 + moV1 op) (u2 + moV2 op) = Inr (ops, n)"
      "opsFit (pivotLen r2) (versionLen r1) (versionLen r2) ops" "n = length (filter (\<lambda>op. moKind op = opConflict) ops)"
      using 1(1) [OF False st refl refl s(3,4) at] by auto
    have "opsFit (pivotLen e2 - moPivot op) (versionLen e1 - moV1 op) (versionLen e2 - moV2 op) ops"
    proof (cases "r2 = []")
      case True
      then show ?thesis using opsFit_end [OF _ w(1)] s(1,2) by simp
    next
      case False
      then show ?thesis using w(2) s(1,2,6) by simp
    qed
    then have "opsFit (pivotLen e2) (versionLen e1) (versionLen e2) (op # ops)" using s(1,2,7) by simp
    moreover have "walkLoop v1 v2 at1 at2 e1 e2 u1 u2 = Inr (op # ops, if moKind op = opConflict then n + 1 else n)"
      using False st w(1) by (simp add: walkLoop.simps [of v1 v2 at1 at2 e1 e2])
    ultimately show ?thesis using w(3) by auto
  qed
qed

section \<open>The token builder\<close>

lemma tokensApply_total:
  "opsFit p n1 n2 ops \<Longrightarrow> p = 0 \<or> ip + p \<le> length pivot \<Longrightarrow> i1 + n1 \<le> length v1 \<Longrightarrow> i2 + n2 \<le> length v2 \<Longrightarrow>
   \<exists>out. tokensApply pivot v1 v2 ip i1 i2 ops = Inr out"
proof (induction ops arbitrary: p n1 n2 ip i1 i2)
  case (Cons op ops)
  have f: "moV1 op \<le> n1" "moV2 op \<le> n2" "moKind op = opSame \<Longrightarrow> 0 < moPivot op \<and> moPivot op \<le> p"
    "opsFit (p - moPivot op) (n1 - moV1 op) (n2 - moV2 op) ops" using Cons.prems(1) by auto
  have "p - moPivot op = 0 \<or> ip + moPivot op + (p - moPivot op) \<le> length pivot" using Cons.prems(2) by auto
  moreover have "i1 + moV1 op + (n1 - moV1 op) \<le> length v1" "i2 + moV2 op + (n2 - moV2 op) \<le> length v2" using Cons.prems(3,4) f(1,2) by simp_all
  ultimately obtain rest where r: "tokensApply pivot v1 v2 (ip + moPivot op) (i1 + moV1 op) (i2 + moV2 op) ops = Inr rest"
    using Cons.IH [OF f(4)] by blast
  show ?case using Cons.prems(2-4) f(1-3) r by (cases "moKind op") (auto simp: checkedSlice_def)
qed simp

lemma replays_lens: "replays xs ys es \<Longrightarrow> pivotLen es = length xs \<and> versionLen es = length ys"
  using replays_counts [of xs ys es] by (simp add: versionLen_def)

lemma walkEdits_bytes:
  assumes "editsEnd aC1 = Inr e1" "editsEnd aC2 = Inr e2" "noZero e1" "noZero e2" "replays pivot0 v1 e1" "replays pivot v2 e2"
  shows "\<exists>ops n out. walkEdits aC1 aC2 v1 v2 (\<lambda>i. i) (\<lambda>i. i) = Inr (ops, n) \<and> tokensApply pivot v1 v2 0 0 0 ops = Inr out"
proof -
  note l = replays_lens [OF assms(5)] replays_lens [OF assms(6)]
  obtain ops n where w: "walkLoop v1 v2 (\<lambda>i. i) (\<lambda>i. i) e1 e2 0 0 = Inr (ops, n)" "opsFit (pivotLen e2) (versionLen e1) (versionLen e2) ops"
    using walkLoop_fit [OF assms(3,4), of 0 "\<lambda>i. i" v1 0 "\<lambda>i. i" v2] l by auto
  then show ?thesis using tokensApply_total [OF w(2), of 0 pivot 0 v1 0 v2] assms(1,2) l by (auto simp: walkEdits_def)
qed

text \<open>The token merge of plain texts returns.\<close>

lemma mergeTokens_total:
  assumes "plainText p" "plainText a" "plainText b"
  shows "\<exists>out. mergeTokens p a b = Inr out"
proof -
  let ?p = "toUTF8NoBOM p" and ?a = "toUTF8NoBOM a" and ?b = "toUTF8NoBOM b"
  let ?q = "toUTF8NoBOM ?p"
  have pl: "plainText ?p" "plainText ?a" "plainText ?b" "plainText ?q" using assms plain_utf_plain by blast+
  have st: "shortTokens ?p" "shortTokens ?a" "shortTokens ?b" "shortTokens ?q" using pl by (simp_all add: plainText_def)
  obtain x e1 where d1: "textDiff p a True = Inr (?p, ?a, Some x)" "editsEnd x = Inr e1" "noZero e1" "replays ?p ?a e1"
    using textDiff_tokens [OF plain_length [OF pl(1)] plain_length [OF pl(2)] st(1,2)] by blast
  obtain y e2 where d2: "textDiff ?p b True = Inr (?q, ?b, Some y)" "editsEnd y = Inr e2" "noZero e2" "replays ?q ?b e2"
    using textDiff_tokens [OF plain_length [OF pl(4)] plain_length [OF pl(3)] st(4,3)] by blast
  obtain ops n out where "walkEdits x y ?a ?b (\<lambda>i. i) (\<lambda>i. i) = Inr (ops, n)" "tokensApply ?q ?a ?b 0 0 0 ops = Inr out"
    using walkEdits_bytes [OF d1(2) d2(2) d1(3) d2(3) d1(4) d2(4)] by blast
  then show ?thesis using d1(1) d2(1) by (simp add: mergeTokens_def)
qed

section \<open>The text builder\<close>

lemma extractLines_part: "\<exists>a b. cbData c = a @ extractLines c n @ b"
proof -
  let ?d = "drop (cbCur c) (cbData c)" and ?k = "extractStop (drop (cbCur c) (cbData c)) n"
  have "cbData c = take (cbCur c) (cbData c) @ take ?k ?d @ drop ?k ?d" by (simp only: append_take_drop_id)
  then show ?thesis unfolding extractLines_def by blast
qed

lemma copyLines_data: "cbData (snd (copyLines c n)) = cbData c"
  by (simp add: copyLines_def Let_def)

definition plainMerger :: "textMerger \<Rightarrow> bool" where
  "plainMerger m \<longleftrightarrow> plainText (cbData (tmPivot m)) \<and> plainText (cbData (tmV1 m)) \<and> plainText (cbData (tmV2 m))"

lemma extract_plain: "plainText (cbData c) \<Longrightarrow> plainText (extractLines c n)"
  using extractLines_part [of c n] plainText_part by metis

text \<open>Applying an operation returns, keeps the texts, and adds one conflict exactly for a conflict operation.\<close>

lemma mergerApply_total:
  assumes "plainMerger m"
  shows "\<exists>m'. mergerApply m op = Inr m' \<and> plainMerger m' \<and>
    length (tmConflicts m') = length (tmConflicts m) + (if moKind op = opConflict then 1 else 0)"
proof (cases "moKind op = opConflict")
  case True
  obtain res where "mergeTokens (extractLines (tmPivot m) (moPivot op)) (extractLines (tmV1 m) (moV1 op)) (extractLines (tmV2 m) (moV2 op)) = Inr res"
    using mergeTokens_total assms extract_plain unfolding plainMerger_def by blast
  then show ?thesis using True assms by (simp add: mergerApply_def mergerConflict_def Let_def plainMerger_def copyLines_data)
next
  case False
  then show ?thesis using assms by (cases "moKind op") (simp_all add: mergerApply_def Let_def plainMerger_def copyLines_data)
qed

lemma mergerRun_total:
  "plainMerger m \<Longrightarrow> \<exists>m'. mergerRun m ops = Inr m' \<and> plainMerger m' \<and>
    length (tmConflicts m') = length (tmConflicts m) + length (filter (\<lambda>op. moKind op = opConflict) ops)"
proof (induction ops arbitrary: m)
  case (Cons op ops)
  obtain m1 where m1: "mergerApply m op = Inr m1" "plainMerger m1"
    "length (tmConflicts m1) = length (tmConflicts m) + (if moKind op = opConflict then 1 else 0)" using mergerApply_total [OF Cons.prems] by blast
  from Cons.IH [OF m1(2)] show ?case using m1(1,3) by auto
qed simp

lemma startsLoop_le: "s \<in> set (startsLoop i cs) \<Longrightarrow> s \<le> i + length cs"
  by (induction i cs rule: startsLoop.induct) (auto split: if_splits)

lemma lineStarts_le: "lineStarts z k \<le> length z"
  using startsLoop_le [of _ 0 z] by (auto simp: lineStarts_def Let_def nth_Cons split: nat.splits)

text \<open>\<^verbatim>\<open>mergeText\<close> on plain texts: it returns, refuses exactly binary content, and counts its conflicts.\<close>

lemma mergeText_plain:
  assumes "plainText p" "plainText a" "plainText b"
  shows "\<exists>r. mergeText p a b = Inr r \<and>
    (r = None \<longleftrightarrow> binaryText (toUTF8NoBOM p) \<or> binaryText (toUTF8NoBOM (toUTF8NoBOM p)) \<or> binaryText (toUTF8NoBOM a) \<or> binaryText (toUTF8NoBOM b)) \<and>
    (\<forall>out cs n. r = Some (out, cs, n) \<longrightarrow> n = length cs)"
proof -
  let ?p = "toUTF8NoBOM p" and ?a = "toUTF8NoBOM a" and ?b = "toUTF8NoBOM b"
  let ?q = "toUTF8NoBOM ?p"
  have pl: "plainText ?p" "plainText ?a" "plainText ?b" "plainText ?q" using assms plain_utf_plain by blast+
  obtain r1 where d1: "textDiff p a False = Inr (?p, ?a, r1)" "r1 = None \<longleftrightarrow> binaryText ?p \<or> binaryText ?a"
    "\<And>e. r1 = Some e \<Longrightarrow> \<exists>body. editsEnd e = Inr body \<and> noZero body \<and> replays (splitNL ?p) (splitNL ?a) body"
    using textDiff_lines [OF plain_length [OF pl(1)] plain_length [OF pl(2)]] by blast
  obtain r2 where d2: "textDiff ?p b False = Inr (?q, ?b, r2)" "r2 = None \<longleftrightarrow> binaryText ?q \<or> binaryText ?b"
    "\<And>e. r2 = Some e \<Longrightarrow> \<exists>body. editsEnd e = Inr body \<and> noZero body \<and> replays (splitNL ?q) (splitNL ?b) body"
    using textDiff_lines [OF plain_length [OF pl(4)] plain_length [OF pl(3)]] by blast
  show ?thesis
  proof (cases "r1 = None \<or> r2 = None")
    case True
    then have "mergeText p a b = Inr None" using d1(1) d2(1) by (auto simp: mergeText_def split: option.splits)
    then show ?thesis using True d1(2) d2(2) by blast
  next
    case False
    then obtain x y where xy: "r1 = Some x" "r2 = Some y" by auto
    obtain e1 e2 where e: "editsEnd x = Inr e1" "noZero e1" "editsEnd y = Inr e2" "noZero e2" using d1(3) [OF xy(1)] d2(3) [OF xy(2)] by blast
    obtain ops n where w: "walkLoop ?a ?b (lineStarts ?a) (lineStarts ?b) e1 e2 0 0 = Inr (ops, n)" "n = length (filter (\<lambda>op. moKind op = opConflict) ops)"
      using walkLoop_fit [OF e(2,4), of 0 "lineStarts ?a" ?a 0 "lineStarts ?b" ?b] lineStarts_le by auto
    have "plainMerger (mergerStart ?q ?a ?b)" using pl by (simp add: plainMerger_def mergerStart_def)
    then obtain m where m: "mergerRun (mergerStart ?q ?a ?b) ops = Inr m" "length (tmConflicts m) = n"
      using mergerRun_total [of "mergerStart ?q ?a ?b" ops] w(2) by (auto simp: mergerStart_def)
    have "mergeText p a b = Inr (Some (tmOut m, tmConflicts m, n))" using d1(1) d2(1) xy e w(1) m(1) by (simp add: mergeText_def walkEdits_def)
    then show ?thesis using False d1(2) d2(2) m(2) by auto
  qed
qed

end
