(* ===== verification/Merge_Marks.thy ===== *)
theory Merge_Marks
  imports Merge_Walk
begin

text \<open>
  Conflicts are visible: the text of a merge with conflicts has a conflict marker at the start of a line, and the scan of
  \<^verbatim>\<open>HasConflictMarkers\<close> finds it.
\<close>

section \<open>The scan\<close>

definition lineStartMark :: "bytes \<Rightarrow> bool" where
  "lineStartMark z \<longleftrightarrow> (\<exists>a b. z = a @ markerBegin @ b \<and> (a = [] \<or> last a = LF))"

lemma markerBegin_hd: "\<exists>m. markerBegin = CHR ''<'' # m"
  by (simp add: markerBegin_def)

lemma run_inside:
  assumes "z = a @ (CHR ''<'') # r" "\<not> P (CHR ''<'')" "length a < n"
  shows "length (takeWhile P (take n z)) \<le> length a"
proof -
  have "take n z = a @ (CHR ''<'') # take (n - length a - 1) r" using assms(1,3) by (cases "n - length a") auto
  then have "takeWhile P (take n z) = takeWhile P a" using assms(2) by (simp add: takeWhile_append)
      (metis takeWhile_eq_all_conv takeWhile_append2)
  then show ?thesis by (simp add: length_takeWhile_le)
qed

lemma drop_mark:
  assumes "z = a @ w" "k \<le> length a" "0 < k" "last a = LF" "length a < n"
  shows "length (drop k a) < length a" "drop k z = drop k a @ w" "drop k a = [] \<or> last (drop k a) = LF" "length (drop k a) < n - k"
  using assms by (cases "k < length a"; auto)+

lemma markerScan_finds:
  "z = a @ markerBegin @ b \<Longrightarrow> a = [] \<or> last a = LF \<Longrightarrow> length a < n \<Longrightarrow> markerScan z n"
proof (induction "length a" arbitrary: a z n rule: less_induct)
  case less
  show ?case
  proof (cases "hasMarkerAt z")
    case True
    then show ?thesis using less.prems(3) by (subst markerScan.simps) simp
  next
    case False
    have "a \<noteq> []"
    proof
      assume "a = []"
      then have "hasMarkerAt z" using less.prems(1) by (simp add: hasMarkerAt_def)
      then show False using False by simp
    qed
    then have lf: "LF \<in> set a" "last a = LF" using less.prems(2) last_in_set by fastforce+
    obtain m where m: "markerBegin = CHR ''<'' # m" using markerBegin_hd by blast
    let ?x = "length (takeWhile (\<lambda>c. c \<noteq> LF) (take n z))"
    have z: "z = a @ CHR ''<'' # (m @ b)" using less.prems(1) m by simp
    have "take n z = a @ take (n - length a) (markerBegin @ b)" using less.prems(1,3) by simp
    then have x: "?x = length (takeWhile (\<lambda>c. c \<noteq> LF) a)" using lf(1) by (simp add: takeWhile_append1)
    have "0 < length (dropWhile (\<lambda>c. c \<noteq> LF) a)" using lf(1) by (auto simp: dropWhile_eq_Nil_conv)
    moreover have "length a = length (takeWhile (\<lambda>c. c \<noteq> LF) a) + length (dropWhile (\<lambda>c. c \<noteq> LF) a)"
      by (metis length_append takeWhile_dropWhile_id)
    ultimately have xa: "?x < length a" unfolding x by linarith
    let ?P = "\<lambda>c. c = LF \<or> c = CHR 0x0D"
    let ?y = "length (takeWhile ?P (take (n - ?x) (drop ?x z)))"
    have dz: "drop ?x z = drop ?x a @ CHR ''<'' # (m @ b)" using z xa by simp
    have y: "?y \<le> length (drop ?x a)" using run_inside [OF dz, of ?P "n - ?x"] less.prems(3) xa by simp
    have "a ! ?x = LF" using nth_length_takeWhile [of "\<lambda>c. c \<noteq> LF" a] xa unfolding x by simp
    then have "z ! ?x = LF" "?x < length z" using z xa by (simp_all add: nth_append)
    from Cons_nth_drop_Suc [OF this(2)] this(1) have "drop ?x z = LF # drop (Suc ?x) z" by simp
    then have "take (n - ?x) (drop ?x z) = LF # take (n - ?x - 1) (drop (Suc ?x) z)" using less.prems(3) xa by (cases "n - ?x") simp_all
    then have y0: "0 < ?y" by simp
    have k: "?x + ?y \<le> length a" "0 < ?x + ?y" using y y0 xa by auto
    note dm = drop_mark [OF less.prems(1) k lf(2) less.prems(3)]
    have rec: "markerScan (drop (?x + ?y) z) (n - (?x + ?y))" by (rule less.hyps [OF dm])
    have "n \<noteq> 0" "?x + ?y \<noteq> 0" using less.prems(3) k(2) by simp_all
    then show ?thesis using rec False by (simp only: markerScan.simps [of z n] Let_def if_False)
  qed
qed

lemma HasConflictMarkers_finds: "lineStartMark z \<Longrightarrow> HasConflictMarkers z"
proof -
  assume "lineStartMark z"
  then obtain a b where ab: "z = a @ markerBegin @ b" "a = [] \<or> last a = LF" unfolding lineStartMark_def by blast
  then have "length a < length z + 1 - markerLen" by (simp add: markerLen_def)
  from markerScan_finds [OF ab this] show ?thesis by (simp add: HasConflictMarkers_def)
qed

section \<open>The output of the builder\<close>

lemma mark_append: "lineStartMark z \<Longrightarrow> lineStartMark (z @ y)"
  unfolding lineStartMark_def by (metis append.assoc)

lemma ensureLineEnd_app: "\<exists>y. ensureLineEnd crlf out = out @ y \<and> (ensureLineEnd crlf out = [] \<or> last (ensureLineEnd crlf out) = LF)"
  by (simp add: ensureLineEnd_def)

lemma appendMark_app: "\<exists>y. appendMark crlf out mk k = out @ y"
proof -
  obtain y1 where y1: "ensureLineEnd crlf out = out @ y1" using ensureLineEnd_app by blast
  show ?thesis unfolding appendMark_def y1 using ensureLineEnd_app [of crlf "(out @ y1) @ mk @ (if 0 < k then '' (line '' @ decimal k @ '')'' else [])"]
    by (metis append.assoc)
qed

lemma appendMark_begin: "lineStartMark (appendMark crlf out markerBegin k)"
proof -
  obtain y where y: "appendMark crlf out markerBegin k =
      (ensureLineEnd crlf out @ markerBegin @ (if 0 < k then '' (line '' @ decimal k @ '')'' else [])) @ y"
    unfolding appendMark_def using ensureLineEnd_app by blast
  have "lineStartMark (ensureLineEnd crlf out @ markerBegin @ (if 0 < k then '' (line '' @ decimal k @ '')'' else []))"
    unfolding lineStartMark_def using ensureLineEnd_app [of crlf out] by blast
  then show ?thesis unfolding y by (rule mark_append)
qed

lemma suggest_app: "\<exists>y. suggest crlf res out = out @ y"
  using appendMark_app [of crlf out markerSuggested 0] by (auto simp: suggest_def Let_def)

lemma mergerConflict_mark: "mergerConflict m p a b = Inr m' \<Longrightarrow> lineStartMark (tmOut m')"
proof -
  assume "mergerConflict m p a b = Inr m'"
  then obtain res where out: "tmOut m' = appendMark (tmCRLF m) (emit (copyLines (tmV2 m) b) (appendMark (tmCRLF m) (emit (copyLines (tmPivot m) p)
      (appendMark (tmCRLF m) (suggest (tmCRLF m) res (emit (copyLines (tmV1 m) a) (appendMark (tmCRLF m) (tmOut m) markerBegin (tmLnV1 m + 1))))
        markerAncestor (tmLnPivot m + 1))) markerMergedIn (tmLnV2 m + 1))) markerEnd 0"
    by (auto simp: mergerConflict_def Let_def bindE_eq_Inr_iff)
  have ap: "lineStartMark z \<Longrightarrow> lineStartMark (appendMark c z mk k)" for z c mk k using appendMark_app mark_append by metis
  have em: "lineStartMark z \<Longrightarrow> lineStartMark (emit q z)" for z q by (simp add: emit_def mark_append)
  have su: "lineStartMark z \<Longrightarrow> lineStartMark (suggest c r z)" for z c r using suggest_app mark_append by metis
  show ?thesis unfolding out by (intro ap em su appendMark_begin)
qed

lemma mergerApply_mark:
  assumes "mergerApply m op = Inr m'"
  shows "moKind op = opConflict \<Longrightarrow> lineStartMark (tmOut m')" and "lineStartMark (tmOut m) \<Longrightarrow> lineStartMark (tmOut m')"
proof -
  show c: "moKind op = opConflict \<Longrightarrow> lineStartMark (tmOut m')"
    using assms mergerConflict_mark [of m "moPivot op" "moV1 op" "moV2 op"] by (auto simp: mergerApply_def Let_def bindE_eq_Inr_iff)
  show "lineStartMark (tmOut m) \<Longrightarrow> lineStartMark (tmOut m')"
    using assms c by (cases "moKind op") (auto simp: mergerApply_def Let_def emit_def intro: mark_append)
qed

lemma mergerRun_keeps: "mergerRun m ops = Inr m' \<Longrightarrow> lineStartMark (tmOut m) \<Longrightarrow> lineStartMark (tmOut m')"
  by (induction ops arbitrary: m) (auto simp: bindE_eq_Inr_iff dest: mergerApply_mark(2))

lemma mergerRun_mark:
  "mergerRun m ops = Inr m' \<Longrightarrow> op \<in> set ops \<Longrightarrow> moKind op = opConflict \<Longrightarrow> lineStartMark (tmOut m')"
  by (induction ops arbitrary: m) (auto simp: bindE_eq_Inr_iff dest: mergerApply_mark(1) mergerRun_keeps)

text \<open>The number of conflicts the walk returns is the number of its conflict operations.\<close>

lemma walkLoop_conflicts:
  "walkLoop v1 v2 at1 at2 e1 e2 u1 u2 = Inr (ops, n) \<Longrightarrow> n = length (filter (\<lambda>op. moKind op = opConflict) ops)"
proof (induction v1 v2 at1 at2 e1 e2 u1 u2 arbitrary: ops n rule: walkLoop.induct)
  case (1 v1 v2 at1 at2 e1 e2 u1 u2)
  show ?case
  proof (cases "e1 = [] \<or> e2 = []")
    case True
    then show ?thesis using 1(2) walkLoop.simps [of v1 v2 at1 at2 e1 e2 u1 u2] by (auto simp: walkTail_def mkOp_def)
  next
    case False
    obtain op r1 r2 ops' n' where st: "walkStep e1 e2 (sliceFrom v1 (at1 u1)) (sliceFrom v2 (at2 u2)) = Inr (op, r1, r2)"
      "walkLoop v1 v2 at1 at2 (dropZero r1) (dropZero r2) (u1 + moV1 op) (u2 + moV2 op) = Inr (ops', n')"
      "ops = op # ops'" "n = (if moKind op = opConflict then n' + 1 else n')"
      using 1(2) False walkLoop.simps [of v1 v2 at1 at2 e1 e2 u1 u2] by (auto simp: bindE_eq_Inr_iff)
    show ?thesis using 1(1) [OF False st(1) refl refl st(2)] st(3,4) by simp
  qed
qed

lemma mergeText_Some:
  assumes "mergeText p a b = Inr (Some (out, cs, n))"
  obtains p1 v1 aC1 p2 v2 aC2 e1 e2 ops m where "textDiff p a False = Inr (p1, v1, Some aC1)" "textDiff p1 b False = Inr (p2, v2, Some aC2)"
    "editsEnd aC1 = Inr e1" "editsEnd aC2 = Inr e2" "walkLoop v1 v2 (lineStarts v1) (lineStarts v2) e1 e2 0 0 = Inr (ops, n)"
    "mergerRun (mergerStart p2 v1 v2) ops = Inr m" "out = tmOut m" "cs = tmConflicts m"
proof -
  obtain p1 v1 r1 where d1: "textDiff p a False = Inr (p1, v1, r1)" using assms by (auto simp: mergeText_def bindE_eq_Inr_iff)
  obtain p2 v2 r2 where d2: "textDiff p1 b False = Inr (p2, v2, r2)" using assms d1 by (auto simp: mergeText_def bindE_eq_Inr_iff)
  obtain aC1 aC2 where r: "r1 = Some aC1" "r2 = Some aC2" using assms d1 d2 by (cases r1; cases r2) (auto simp: mergeText_def)
  show thesis using assms d1 d2 r that by (auto simp: mergeText_def walkEdits_def bindE_eq_Inr_iff)
qed

lemma mergeText_marks:
  assumes "mergeText p a b = Inr (Some (out, cs, n))" "0 < n"
  shows "HasConflictMarkers out"
  using assms(1)
proof (cases rule: mergeText_Some)
  case (1 p1 v1 aC1 p2 v2 aC2 e1 e2 ops m)
  have "filter (\<lambda>op. moKind op = opConflict) ops \<noteq> []" using walkLoop_conflicts [OF 1(5)] assms(2) by auto
  then obtain op where "op \<in> set ops" "moKind op = opConflict" by (auto simp: filter_empty_conv)
  from mergerRun_mark [OF 1(6) this] show ?thesis by (simp add: 1(7) HasConflictMarkers_finds)
qed

end
