(* ===== verification/Merge_Laws.thy ===== *)
theory Merge_Laws
  imports Merge_Marks
begin

text \<open>
  What a three-way merge gives when two of its three texts agree, for texts that end in a newline and start with no byte
  order mark: the same change on both sides is taken once, and the side that changed alone comes out as a prefix.
\<close>

section \<open>Lines read through a cursor\<close>

definition unlinesNL :: "bytes list \<Rightarrow> bytes" where
  "unlinesNL ls = concat (map (\<lambda>l. l @ [LF]) ls)"

lemma unlinesNL_simps [simp]: "unlinesNL [] = []" "unlinesNL (l # ls) = l @ LF # unlinesNL ls" "unlinesNL (xs @ ys) = unlinesNL xs @ unlinesNL ys"
  by (simp_all add: unlinesNL_def)

definition terminated :: "bytes \<Rightarrow> bool" where
  "terminated z \<longleftrightarrow> z = [] \<or> last z = LF"

definition cleanLines :: "bytes list \<Rightarrow> bool" where
  "cleanLines ls \<longleftrightarrow> (\<forall>l \<in> set ls. LF \<notin> set l)"

lemma splitNL_clean: "cleanLines (splitNL z)"
proof (induction z rule: splitNL.induct)
  case (1 z)
  show ?case
  proof (cases "z = []")
    case False
    have "LF \<notin> set (takeWhile (\<lambda>c. c \<noteq> LF) z)" by (auto dest: set_takeWhileD)
    then show ?thesis using 1 False by (simp add: splitNL_step cleanLines_def)
  qed (simp add: cleanLines_def)
qed

lemma unlines_split: "terminated z \<Longrightarrow> unlinesNL (splitNL z) = z"
proof (induction z rule: splitNL.induct)
  case (1 z)
  show ?case
  proof (cases "z = []")
    case False
    let ?w = "takeWhile (\<lambda>c. c \<noteq> LF) z"
    have l: "last z = LF" using 1(2) False by (simp add: terminated_def)
    then have d: "dropWhile (\<lambda>c. c \<noteq> LF) z \<noteq> []" using False last_in_set [OF False] by (auto simp: dropWhile_eq_Nil_conv)
    then obtain r where r: "dropWhile (\<lambda>c. c \<noteq> LF) z = LF # r" using hd_dropWhile [OF d] by (cases "dropWhile (\<lambda>c. c \<noteq> LF) z") auto
    have z: "z = ?w @ LF # r" using takeWhile_dropWhile_id [of "\<lambda>c. c \<noteq> LF" z] r by simp
    have dr: "drop (Suc (length ?w)) z = r" by (subst z) simp
    have "r \<noteq> [] \<Longrightarrow> last r = LF" using l arg_cong [OF z, of last] by simp
    then have "terminated r" by (auto simp: terminated_def)
    then have "unlinesNL (splitNL r) = r" using 1(1) [OF False] dr by simp
    then show ?thesis using z by (simp add: splitNL_step [OF False] dr)
  qed simp
qed

lemma lineStop_lines:
  "cleanLines ls \<Longrightarrow> 0 < n \<Longrightarrow> lineStop (unlinesNL ls) n = length (unlinesNL (take n ls))"
proof (induction ls arbitrary: n)
  case (Cons l ls)
  have skip: "LF \<notin> set xs \<Longrightarrow> lineStop (xs @ ys) n = length xs + lineStop ys n" for xs ys by (induction xs) auto
  obtain k where n: "n = Suc k" using Cons.prems(2) by (cases n) auto
  have l: "LF \<notin> set l" "cleanLines ls" using Cons.prems(1) by (simp_all add: cleanLines_def)
  show ?case using Cons.IH [OF l(2), of k] skip [OF l(1)] by (cases "k = 0") (auto simp: n)
qed simp

text \<open>A cursor that stands before the lines \<open>ls\<close>.\<close>

definition before :: "cursorBlob \<Rightarrow> bytes list \<Rightarrow> bool" where
  "before c ls \<longleftrightarrow> drop (cbCur c) (cbData c) = unlinesNL ls \<and> cleanLines ls"

lemma copyLines_before:
  assumes "before c ls"
  shows "fst (copyLines c n) = unlinesNL (take n ls)" "before (snd (copyLines c n)) (drop n ls)"
proof -
  have d: "drop (cbCur c) (cbData c) = unlinesNL ls" and cl: "cleanLines ls" using assms by (simp_all add: before_def)
  have sp: "unlinesNL ls = unlinesNL (take n ls) @ unlinesNL (drop n ls)" by (metis append_take_drop_id unlinesNL_simps(3))
  have cl': "cleanLines (drop n ls)" using cl by (auto simp: cleanLines_def dest: in_set_dropD)
  have k: "0 < n \<Longrightarrow> lineStop (drop (cbCur c) (cbData c)) n = length (unlinesNL (take n ls))" using lineStop_lines [OF cl] d by simp
  have "take (length (unlinesNL (take n ls))) (unlinesNL ls) = unlinesNL (take n ls)" by (subst sp) simp
  then show "fst (copyLines c n) = unlinesNL (take n ls)"
    using k d by (cases "n = 0") (simp_all add: copyLines_def Let_def)
  have "drop (length (unlinesNL (take n ls))) (drop (cbCur c) (cbData c)) = unlinesNL (drop n ls)" unfolding d by (subst sp) simp
  then have "drop (cbCur c + length (unlinesNL (take n ls))) (cbData c) = unlinesNL (drop n ls)" by (metis add.commute drop_drop)
  then show "before (snd (copyLines c n)) (drop n ls)"
    using k d cl cl' by (cases "n = 0") (simp_all add: copyLines_def Let_def before_def)
qed

section \<open>The same change on both sides\<close>

fun opsTwin :: "triple list \<Rightarrow> mergeOp list" where
  "opsTwin [] = []"
| "opsTwin ((c, d, i) # es) = (if 0 < c then [mkOp opSame c c c] else []) @ (if 0 < d + i then [mkOp opChngBoth d i i] else []) @ opsTwin es"

lemma sameLines_refl: "sameLines z z n"
proof -
  have "sameLoop z z n i" for i
  proof (induction "length z - i" arbitrary: n i rule: less_induct)
    case less
    show ?case
    proof (cases "i < length z")
      case True
      then show ?thesis using less.hyps [of "Suc i"] by (subst sameLoop.simps) (simp add: Let_def diff_less_mono2)
    next
      case False
      then show ?thesis by (subst sameLoop.simps) (simp add: atNul_def)
    qed
  qed
  then show ?thesis by (simp add: sameLines_def)
qed

lemma walk_twin:
  assumes "\<forall>u. f u \<le> length v"
  shows "noZero es \<Longrightarrow> walkLoop v v f f es es u u = Inr (opsTwin es, 0)"
proof (induction es arbitrary: u)
  case Nil
  then show ?case by (simp add: walkLoop.simps [of v v f f "[]"] walkTail_def)
next
  case (Cons t es)
  obtain c d i where t: "t = (c, d, i)" by (cases t)
  have z: "sliceFrom v (f x) = Inr (drop (f x) v)" for x using assms by (simp add: sliceFrom_def)
  have nz: "noZero es" "0 < c \<or> 0 < d \<or> 0 < i" using Cons.prems by (auto simp: t)
  have dz: "dropZero es = es" using nz(1) by (cases es) (auto simp: dropZero_def)
  have change: "walkLoop v v f f ((0, d, i) # es) ((0, d, i) # es) x x = Inr (mkOp opChngBoth d i i # opsTwin es, 0)" if "0 < d + i" for x
  proof -
    have "walkStep ((0, d, i) # es) ((0, d, i) # es) (sliceFrom v (f x)) (sliceFrom v (f x)) = Inr (mkOp opChngBoth d i i, es, es)"
      using that by (simp add: walkStep_def z sameEdit_def sameLines_refl)
    then show ?thesis using Cons.IH [OF nz(1), of "x + i"] dz
      by (simp add: walkLoop.simps [of v v f f "(0, d, i) # es" "(0, d, i) # es"] mkOp_def)
  qed
  show ?case
  proof (cases "0 < c")
    case True
    have st: "walkStep (t # es) (t # es) (sliceFrom v (f u)) (sliceFrom v (f u)) = Inr (mkOp opSame c c c, (0, d, i) # es, (0, d, i) # es)"
      using True by (simp add: walkStep_def t)
    have "walkLoop v v f f (dropZero ((0, d, i) # es)) (dropZero ((0, d, i) # es)) (u + c) (u + c) =
        Inr ((if 0 < d + i then [mkOp opChngBoth d i i] else []) @ opsTwin es, 0)"
      using change [of "u + c"] Cons.IH [OF nz(1), of "u + c"] by (auto simp: dropZero_def)
    then show ?thesis using st True by (simp add: walkLoop.simps [of v v f f "t # es" "t # es"]) (simp add: t mkOp_def)
  next
    case False
    then show ?thesis using change [of u] nz(2) by (simp add: t)
  qed
qed

lemma run_twin:
  "replays ps xs es \<Longrightarrow> before (tmPivot m) ps \<Longrightarrow> before (tmV2 m) xs \<Longrightarrow>
   \<exists>m'. mergerRun m (opsTwin es) = Inr m' \<and> tmOut m' = tmOut m @ unlinesNL xs \<and> tmConflicts m' = tmConflicts m"
proof (induction es arbitrary: m ps xs)
  case (Cons t es)
  obtain c d i where t: "t = (c, d, i)" by (cases t)
  have r: "take c ps = take c xs" "replays (drop (c + d) ps) (drop (c + i) xs) es" using Cons.prems(1) by (simp_all add: t)
  obtain m1 where m1: "mergerRun m (if 0 < c then [mkOp opSame c c c] else []) = Inr m1" "tmOut m1 = tmOut m @ unlinesNL (take c xs)"
    "before (tmPivot m1) (drop c ps)" "before (tmV2 m1) (drop c xs)" "tmConflicts m1 = tmConflicts m"
    using copyLines_before [OF Cons.prems(2)] copyLines_before [OF Cons.prems(3)] r(1) Cons.prems(2,3)
    by (cases "0 < c") (auto simp: mergerApply_def Let_def mkOp_def emit_def)
  obtain m2 where m2: "mergerRun m1 (if 0 < d + i then [mkOp opChngBoth d i i] else []) = Inr m2" "tmOut m2 = tmOut m1 @ unlinesNL (take i (drop c xs))"
    "before (tmPivot m2) (drop d (drop c ps))" "before (tmV2 m2) (drop i (drop c xs))" "tmConflicts m2 = tmConflicts m1"
    using copyLines_before [OF m1(3)] copyLines_before [OF m1(4)] m1(3,4)
    by (cases "0 < d + i") (auto simp: mergerApply_def Let_def mkOp_def emit_def)
  have app: "mergerRun m (xs @ ys) = bindE (mergerRun m xs) (\<lambda>m'. mergerRun m' ys)" for m xs ys
    by (induction xs arbitrary: m) (simp_all add: bindE_assoc)
  obtain m3 where m3: "mergerRun m2 (opsTwin es) = Inr m3" "tmOut m3 = tmOut m2 @ unlinesNL (drop (c + i) xs)" "tmConflicts m3 = tmConflicts m2"
    using Cons.IH [OF r(2), of m2] m2(3,4) by (auto simp: add.commute)
  have "unlinesNL xs = unlinesNL (take c xs) @ unlinesNL (take i (drop c xs)) @ unlinesNL (drop (c + i) xs)"
    by (metis append.assoc append_take_drop_id take_add unlinesNL_simps(3))
  then show ?case using m1 m2 m3 by (simp add: t app)
qed simp

lemma start_before:
  assumes "terminated p" "terminated a" "terminated b"
  shows "before (tmPivot (mergerStart p a b)) (splitNL p)" "before (tmV1 (mergerStart p a b)) (splitNL a)" "before (tmV2 (mergerStart p a b)) (splitNL b)"
  using assms splitNL_clean unlines_split by (simp_all add: before_def mergerStart_def)

text \<open>A text the merge leaves as it is: no byte order mark to strip.\<close>

definition bomFree :: "bytes \<Rightarrow> bool" where
  "bomFree z \<longleftrightarrow> \<not> prefix utf8BOM z \<and> utf16BOM z = None"

lemma bomFree_same [simp]: "bomFree z \<Longrightarrow> toUTF8NoBOM z = z"
  by (simp add: bomFree_def toUTF8NoBOM_def)

lemma start_out: "bomFree b \<Longrightarrow> tmOut (mergerStart p a b) = [] \<and> tmConflicts (mergerStart p a b) = []"
  by (simp add: bomFree_def mergerStart_def)

lemma mergeText_twin:
  assumes "bomFree p" "bomFree x" "terminated p" "terminated x" "length p < 2 ^ 64" "length x < 2 ^ 64" "\<not> binaryText p" "\<not> binaryText x"
  shows "mergeText p x x = Inr (Some (x, [], 0))"
proof -
  obtain e es where d: "textDiff p x False = Inr (p, x, Some e)" "editsEnd e = Inr es" "noZero es" "replays (splitNL p) (splitNL x) es"
    using textDiff_lines [of p x] assms by auto
  have w: "walkLoop x x (lineStarts x) (lineStarts x) es es 0 0 = Inr (opsTwin es, 0)"
    using walk_twin [OF _ d(3)] lineStarts_le by blast
  obtain m where m: "mergerRun (mergerStart p x x) (opsTwin es) = Inr m" "tmOut m = x" "tmConflicts m = []"
    using run_twin [OF d(4) start_before(1,3) [OF assms(3,4,4)]] start_out [OF assms(2), of p x] unlines_split [OF assms(4)] by auto
  show ?thesis using d(1,2) w m by (simp add: mergeText_def walkEdits_def)
qed

section \<open>One side unchanged\<close>

lemma commonTail_self:
  assumes "arrayFor xs a" "k \<le> length xs"
  shows "commonTail (newContext (a, length xs) (a, length xs)) k k = Inr (0, 0)"
  using assms(2)
proof (induction k)
  case (Suc k)
  have l: "k < length a" using Suc.prems assms(1) by (simp add: arrayFor_def linksOk_def)
  then have "goodLine (a ! k)" using assms(1) by (simp add: arrayFor_def)
  then have "differAt a (int k) a (int k) = Inr False" using differ_good [of "a ! k" "a ! k"] differIdx [OF l l] by simp
  then show ?case using Suc by (subst commonTail.simps) (simp add: newContext_def)
qed (simp add: commonTail.simps [of _ 0 0])

lemma textDiff_self:
  assumes "bomFree p" "length p < 2 ^ 64" "\<not> binaryText p"
  shows "\<exists>e. textDiff p p False = Inr (p, p, Some e) \<and>
    editsEnd e = Inr (if splitNL p = [] then [] else [(length (splitNL p), 0, 0)])"
proof -
  let ?n = "length (splitNL p)"
  obtain r where r: "breakIntoLines p = Inr r" "\<And>ls n. r = Some (ls, n) \<Longrightarrow> n = countLines p \<and> arrayFor (splitNL p) ls" "r \<noteq> None"
    using breakIntoLines_ok [OF assms(2)] assms(3) unfolding binaryText_def by blast
  obtain a n where rs: "r = Some (a, n)" using r(3) by (metis not_None_eq surj_pair)
  have a: "breakIntoLines p = Inr (Some (a, ?n))" "arrayFor (splitNL p) a" using r(1) r(2) [OF rs] rs by simp_all
  let ?c = "newContext (a, ?n) (a, ?n)"
  have ct: "commonTail ?c ?n ?n = Inr (0, 0)" by (rule commonTail_self [OF a(2) le_refl])
  have "diffSteps [] c = Inr c" for c by (subst diffSteps.simps) simp
  then have ds: "diffSteps [rangeTask 0 0 0 0] c = Inr c" for c by (subst diffSteps.simps) (simp add: rangeTask_def)
  have br: "breakBoth p p False = Inr (Some ?c)" using a(1) by (simp add: breakBoth_def)
  show ?thesis
  proof (cases "splitNL p = []")
    case True
    then have "diffAll ?c = Inr (?c\<lparr>cEdit := [(0, 0, 0)]\<rparr>)" using ct ds by (simp add: diffAll_def newContext_def)
    then show ?thesis using br True assms(1) by (simp add: textDiff_def optimize_def)
  next
    case False
    then have pos: "0 < countLines p" by (metis length_greater_0_conv length_splitNL)
    then have "diffAll ?c = Inr (?c\<lparr>cEdit := [(?n, 0, 0), (0, 0, 0)]\<rparr>)" using ct ds by (simp add: diffAll_def newContext_def appendTriple_def)
    then show ?thesis using br False pos assms(1) by (simp add: textDiff_def optimize_def slideTriple_def)
  qed
qed

definition allCopy :: "nat \<Rightarrow> triple list" where
  "allCopy n = (if n = 0 then [] else [(n, 0, 0)])"

lemma allCopy_drop: "dropZero ((n, 0, 0) # []) = allCopy n"
  by (simp add: allCopy_def dropZero_def)

text \<open>Whether only the first triple can start on an insertion that no copy or deletion precedes.\<close>

definition spaced :: "triple list \<Rightarrow> bool" where
  "spaced es \<longleftrightarrow> list_all (\<lambda>(c, d, i). 0 < c + d) (drop 1 es)"

definition takesOut :: "mergeOp list \<Rightarrow> bytes list \<Rightarrow> bytes list \<Rightarrow> bytes list \<Rightarrow> bool" where
  "takesOut ops ps xs ys \<longleftrightarrow> (\<forall>m. before (tmPivot m) ps \<longrightarrow> before (tmV2 m) xs \<longrightarrow>
     (\<exists>m'. mergerRun m ops = Inr m' \<and> tmOut m' = tmOut m @ unlinesNL ys \<and> tmConflicts m' = tmConflicts m))"

lemma takesOut_same:
  "take c ps = take c xs \<Longrightarrow> takesOut ops (drop c ps) (drop c xs) ys \<Longrightarrow> takesOut (mkOp opSame c c c # ops) ps xs (take c xs @ ys)"
  unfolding takesOut_def
proof (intro allI impI)
  fix m :: textMerger
  assume a: "take c ps = take c xs" "before (tmPivot m) ps" "before (tmV2 m) xs"
    and ih: "\<forall>m. before (tmPivot m) (drop c ps) \<longrightarrow> before (tmV2 m) (drop c xs) \<longrightarrow>
      (\<exists>m'. mergerRun m ops = Inr m' \<and> tmOut m' = tmOut m @ unlinesNL ys \<and> tmConflicts m' = tmConflicts m)"
  obtain m1 where m1: "mergerApply m (mkOp opSame c c c) = Inr m1" "tmOut m1 = tmOut m @ unlinesNL (take c xs)"
    "before (tmPivot m1) (drop c ps)" "before (tmV2 m1) (drop c xs)" "tmConflicts m1 = tmConflicts m"
    using copyLines_before [OF a(2)] copyLines_before [OF a(3)] a(1) by (simp add: mergerApply_def Let_def mkOp_def emit_def)
  from ih [rule_format, OF m1(3,4)] m1(1,2,5)
  show "\<exists>m'. mergerRun m (mkOp opSame c c c # ops) = Inr m' \<and> tmOut m' = tmOut m @ unlinesNL (take c xs @ ys) \<and> tmConflicts m' = tmConflicts m" by auto
qed

lemma takesOut_change:
  "takesOut ops (drop d ps) (drop i xs) ys \<Longrightarrow> takesOut (mkOp opChngV2 d d' i # ops) ps xs (take i xs @ ys)"
  unfolding takesOut_def
proof (intro allI impI)
  fix m :: textMerger
  assume a: "before (tmPivot m) ps" "before (tmV2 m) xs"
    and ih: "\<forall>m. before (tmPivot m) (drop d ps) \<longrightarrow> before (tmV2 m) (drop i xs) \<longrightarrow>
      (\<exists>m'. mergerRun m ops = Inr m' \<and> tmOut m' = tmOut m @ unlinesNL ys \<and> tmConflicts m' = tmConflicts m)"
  obtain m1 where m1: "mergerApply m (mkOp opChngV2 d d' i) = Inr m1" "tmOut m1 = tmOut m @ unlinesNL (take i xs)"
    "before (tmPivot m1) (drop d ps)" "before (tmV2 m1) (drop i xs)" "tmConflicts m1 = tmConflicts m"
    using copyLines_before [OF a(1)] copyLines_before [OF a(2)] by (simp add: mergerApply_def Let_def mkOp_def emit_def)
  from ih [rule_format, OF m1(3,4)] m1(1,2,5)
  show "\<exists>m'. mergerRun m (mkOp opChngV2 d d' i # ops) = Inr m' \<and> tmOut m' = tmOut m @ unlinesNL (take i xs @ ys) \<and> tmConflicts m' = tmConflicts m" by auto
qed

text \<open>
  The walk when the first version is the pivot: every operation copies or takes from the second version, in order, and
  the end of the pivot ends the loop.
\<close>

lemma walk_unchanged:
  assumes "\<forall>u. f1 u \<le> length v1" "\<forall>u. f2 u \<le> length v2"
  shows "replays ps xs es \<Longrightarrow> noZero es \<Longrightarrow>
    \<exists>ops ys. walkLoop v1 v2 f1 f2 (allCopy (length ps)) es u1 u2 = Inr (ops, 0) \<and> takesOut ops ps xs ys \<and> prefix ys xs \<and> (spaced es \<longrightarrow> ys = xs)"
proof (induction "editSize es" arbitrary: es ps xs u1 u2 rule: less_induct)
  case less
  have z: "sliceFrom v1 (f1 x) = Inr (drop (f1 x) v1)" "sliceFrom v2 (f2 x) = Inr (drop (f2 x) v2)" for x using assms by (simp_all add: sliceFrom_def)
  have idle: "takesOut [] ps' xs' []" for ps' xs' by (simp add: takesOut_def)
  show ?case
  proof (cases "ps = []")
    case True
    then have w: "walkLoop v1 v2 f1 f2 (allCopy (length ps)) es u1 u2 = Inr (walkTail [] es, 0)" by (simp add: allCopy_def walkLoop.simps [of v1 v2 f1 f2 "[]"])
    show ?thesis
    proof (cases es)
      case Nil
      then have "xs = []" using less.prems(1) by simp
      then show ?thesis using w idle [of ps xs] Nil by (simp add: walkTail_def)
    next
      case (Cons t ts)
      obtain c d i where t: "t = (c, d, i)" by (cases t)
      have cd: "c = 0" "d = 0" "0 < i" and r: "i \<le> length xs" "replays [] (drop i xs) ts"
        using less.prems True by (auto simp: Cons t)
      have "takesOut (mkOp opChngV2 0 0 i # []) ps xs (take i xs @ [])" using takesOut_change [OF idle] .
      then have "takesOut (walkTail [] es) ps xs (take i xs)" using cd by (simp add: walkTail_def Cons t)
      moreover have "spaced es \<longrightarrow> take i xs = xs" using r by (cases ts) (auto simp: spaced_def Cons)
      ultimately show ?thesis using w take_is_prefix by blast
    qed
  next
    case False
    then obtain c d i ts where es: "es = (c, d, i) # ts" using less.prems(1) by (cases es) auto
    have r: "c + d \<le> length ps" "c + i \<le> length xs" "take c ps = take c xs" "replays (drop (c + d) ps) (drop (c + i) xs) ts"
      and nz: "noZero ts" "0 < c \<or> 0 < d \<or> 0 < i" using less.prems by (auto simp: es)
    have ac: "allCopy (length ps) = [(length ps, 0, 0)]" using False by (simp add: allCopy_def)
    have dts: "dropZero ts = ts" using nz(1) by (cases ts) (auto simp: dropZero_def)
    show ?thesis
    proof (cases "0 < c")
      case True
      let ?es = "dropZero ((0, d, i) # ts)"
      have st: "walkStep (allCopy (length ps)) es (sliceFrom v1 (f1 u1)) (sliceFrom v2 (f2 u2)) = Inr (mkOp opSame c c c, [(length ps - c, 0, 0)], (0, d, i) # ts)"
        using True False min.absorb2 [of c "length ps"] r(1) by (simp add: ac es walkStep_def Let_def)
      have "editSize ?es < editSize es" "replays (drop c ps) (drop c xs) ?es" "noZero ?es"
        using True r dropZero_size [of "(0, d, i) # ts"] dropZero_noZero(1) [OF nz(1)] nz(1) by (auto simp: es dropZero_def add.commute)
      from less.hyps [OF this, of "u1 + c" "u2 + c"] obtain ops ys where o: "walkLoop v1 v2 f1 f2 (allCopy (length ps - c)) ?es (u1 + c) (u2 + c) = Inr (ops, 0)"
        "takesOut ops (drop c ps) (drop c xs) ys" "prefix ys (drop c xs)" "spaced ?es \<longrightarrow> ys = drop c xs" unfolding length_drop by blast
      have "walkLoop v1 v2 f1 f2 (allCopy (length ps)) es u1 u2 = Inr (mkOp opSame c c c # ops, 0)"
        using st o(1) False by (subst walkLoop.simps) (simp add: ac es allCopy_drop, simp add: mkOp_def)
      moreover have "prefix (take c xs @ ys) xs" using o(3) by (metis append_take_drop_id same_prefix_prefix)
      moreover have "spaced es \<longrightarrow> spaced ?es" by (cases ts) (simp_all add: spaced_def es dropZero_def)
      then have "spaced es \<longrightarrow> take c xs @ ys = xs" using o(4) by (metis append_take_drop_id)
      ultimately show ?thesis using takesOut_same [OF r(3) o(2)] by blast
    next
      case c0: False
      have st: "walkStep (allCopy (length ps)) es (sliceFrom v1 (f1 u1)) (sliceFrom v2 (f2 u2)) = Inr (mkOp opChngV2 d d i, [(length ps - d, 0, 0)], ts)"
        using False r(1) nz(2) c0 by (simp add: ac es walkStep_def)
      have "editSize ts < editSize es" "replays (drop d ps) (drop i xs) ts" using r(4) c0 by (simp_all add: es)
      from less.hyps [OF this nz(1), of "u1 + d" "u2 + i"] obtain ops ys where o: "walkLoop v1 v2 f1 f2 (allCopy (length ps - d)) ts (u1 + d) (u2 + i) = Inr (ops, 0)"
        "takesOut ops (drop d ps) (drop i xs) ys" "prefix ys (drop i xs)" "spaced ts \<longrightarrow> ys = drop i xs" unfolding length_drop by blast
      have "walkLoop v1 v2 f1 f2 (allCopy (length ps)) es u1 u2 = Inr (mkOp opChngV2 d d i # ops, 0)"
        using st o(1) False by (subst walkLoop.simps) (simp add: ac es allCopy_drop dts, simp add: mkOp_def)
      moreover have "prefix (take i xs @ ys) xs" using o(3) by (metis append_take_drop_id same_prefix_prefix)
      moreover have "spaced es \<longrightarrow> take i xs @ ys = xs" using o(4) by (cases ts) (auto simp: spaced_def es)
      ultimately show ?thesis using takesOut_change [OF o(2), of d] by blast
    qed
  qed
qed

lemma mergeText_unchanged:
  assumes "bomFree p" "bomFree x" "terminated p" "terminated x" "length p < 2 ^ 64" "length x < 2 ^ 64" "\<not> binaryText p" "\<not> binaryText x"
  shows "\<exists>out e es. mergeText p p x = Inr (Some (out, [], 0)) \<and> prefix out x \<and>
    textDiff p x False = Inr (p, x, Some e) \<and> editsEnd e = Inr es \<and> (spaced es \<longrightarrow> out = x)"
proof -
  obtain e es where d: "textDiff p x False = Inr (p, x, Some e)" "editsEnd e = Inr es" "noZero es" "replays (splitNL p) (splitNL x) es"
    using textDiff_lines [of p x] assms by auto
  have eq: "(if splitNL p = [] then [] else [(length (splitNL p), 0, 0)]) = allCopy (length (splitNL p))"
    by (cases "splitNL p") (simp_all del: length_splitNL add: allCopy_def)
  obtain e0 where s: "textDiff p p False = Inr (p, p, Some e0)" "editsEnd e0 = Inr (allCopy (length (splitNL p)))"
    using textDiff_self [OF assms(1,5,7)] unfolding eq by blast
  obtain ops ys where w: "walkLoop p x (lineStarts p) (lineStarts x) (allCopy (length (splitNL p))) es 0 0 = Inr (ops, 0)"
    "takesOut ops (splitNL p) (splitNL x) ys" "prefix ys (splitNL x)" "spaced es \<longrightarrow> ys = splitNL x"
    using walk_unchanged [OF _ _ d(4,3), of "lineStarts p" p "lineStarts x" x] lineStarts_le by blast
  obtain m where m: "mergerRun (mergerStart p p x) ops = Inr m" "tmOut m = unlinesNL ys" "tmConflicts m = []"
    using w(2) start_before(1,3) [OF assms(3,3,4)] start_out [OF assms(2), of p p] unfolding takesOut_def by fastforce
  obtain zs where "splitNL x = ys @ zs" using w(3) by (auto simp: prefix_def)
  then have "x = unlinesNL ys @ unlinesNL zs" using unlines_split [OF assms(4)] by (metis unlinesNL_simps(3))
  then have "prefix (unlinesNL ys) x" by (metis prefixI)
  moreover have "mergeText p p x = Inr (Some (unlinesNL ys, [], 0))" using s d(1,2) w(1) m by (simp add: mergeText_def walkEdits_def)
  ultimately show ?thesis using d(1,2) w(4) unlines_split [OF assms(4)] by fastforce
qed

end
