(* ===== verification/Merge_Properties.thy ===== *)
theory Merge_Properties
  imports Merge_Laws
begin

text \<open>
  The properties of the diff and the three-way merge, with concrete merges.
\<close>

section \<open>Evaluation\<close>

text \<open>Code equations that keep the large constants in binary, and the continuation of an error closed until its value is there.\<close>

lemma bindE_case [code_unfold]: "bindE m f = (case m of Inl e \<Rightarrow> Inl e | Inr x \<Rightarrow> f x)"
  by (cases m) simp_all

lemma u16_code [code]: "u16 n = nat (int n mod 65536)"
  by (simp add: u16_def nat_mod_distrib)

lemma u32_code [code]: "u32 n = nat (int n mod 4294967296)"
  by (simp add: u32_def nat_mod_distrib)

fun leWord :: "bytes \<Rightarrow> 64 word" where
  "leWord [] = 0"
| "leWord (c # cs) = of_nat (byteval c) + 256 * leWord cs"

lemma leWord_eq: "of_nat (leValue z) = leWord z"
  by (induction z) simp_all

lemma hashLoop_code [code]:
  "hashLoop h z = (if length z < 8 then h XOR leWord z else hashLoop ((h XOR leWord (take 8 z)) * 9000000000000000041) (drop 8 z))"
  by (subst hashLoop.simps) (simp only: leWord_eq)

lemma linesLoop_code [code]:
  "linesLoop z n i start ls =
     (if n \<le> i then Inr (Some ls)
      else if length z < start then Inl ''slice bounds out of range''
      else let e = lineEnd z start; line = bslice z start e in
           if (32767 :: int) < int (e - start) then Inr None
           else linesLoop z n (Suc i) (e + 1) (setLine ls i line (lineHash line) n))"
proof -
  have "lengthMask < k \<longleftrightarrow> (32767 :: int) < int k" for k by (auto simp: lengthMask_eval)
  then show ?thesis by (subst linesLoop.simps) (simp only:)
qed

lemma differ_code [code]:
  "differ a b =
     (if dlH a \<noteq> dlH b then Inr True
      else let m = unat (dlH a AND 32767) in
           if length (dlZ a) < m \<or> length (dlZ b) < m then Inl ''slice bounds out of range''
           else Inr (take m (dlZ a) \<noteq> take m (dlZ b)))"
  by (simp add: differ_def lengthMask_eval)

section \<open>Samples\<close>

definition mergeBase :: bytes where "mergeBase = ''P'' @ [LF] @ ''S'' @ [LF]"

definition mergeRemote :: bytes where
  "mergeRemote = ''Z'' @ [LF] @ ''P'' @ [LF] @ ''S'' @ [LF] @ [LF] @ ''Q'' @ [LF] @ ''S'' @ [LF] @ ''P'' @ [LF] @ ''W'' @ [LF]"

definition mergeKept :: bytes where
  "mergeKept = ''Z'' @ [LF] @ ''P'' @ [LF] @ ''S'' @ [LF] @ [LF] @ ''Q'' @ [LF] @ ''S'' @ [LF]"

definition lineOf :: "byte \<Rightarrow> bytes" where "lineOf c = [c, LF]"

text \<open>A text as an editor leaves it: no byte order mark, every line ended, no binary content, and it fits memory.\<close>

definition lineText :: "bytes \<Rightarrow> bool" where
  "lineText z \<longleftrightarrow> bomFree z \<and> terminated z \<and> length z < 2 ^ 63 \<and> \<not> binaryText z"

lemma lineText_length: "lineText z \<Longrightarrow> length z < 2 ^ 64"
  by (simp add: lineText_def)

lemma lineTextI:
  assumes "splitNL z = ls" "list_all (\<lambda>l. length l < 10) ls" "length z < 100" "bomFree z" "terminated z" "CHR 0x00 \<notin> set z"
  shows "lineText z"
  using assms by (auto simp: lineText_def binaryText_def list_all_iff lengthMask_eval)

lemma sample_lines:
  "splitNL mergeBase = [''P'', ''S'']" "splitNL mergeRemote = [''Z'', ''P'', ''S'', [], ''Q'', ''S'', ''P'', ''W'']"
  "splitNL (lineOf CHR ''a'') = [''a'']" "splitNL (lineOf CHR ''b'') = [''b'']" "splitNL (lineOf CHR ''c'') = [''c'']"
  by code_simp+

lemma sample_bom: "bomFree mergeBase" "bomFree mergeRemote" "bomFree (lineOf CHR ''a'')" "bomFree (lineOf CHR ''b'')" "bomFree (lineOf CHR ''c'')"
  by code_simp+

lemma sample_rest:
  "length mergeBase < 100 \<and> terminated mergeBase \<and> CHR 0x00 \<notin> set mergeBase"
  "length mergeRemote < 100 \<and> terminated mergeRemote \<and> CHR 0x00 \<notin> set mergeRemote"
  "length (lineOf c) < 100 \<and> terminated (lineOf c)" "c \<noteq> CHR 0x00 \<Longrightarrow> CHR 0x00 \<notin> set (lineOf c)"
  by (simp_all add: mergeBase_def mergeRemote_def lineOf_def terminated_def)

lemma sample_text: "lineText mergeBase" "lineText mergeRemote" "lineText (lineOf CHR ''a'')" "lineText (lineOf CHR ''b'')" "lineText (lineOf CHR ''c'')"
  using lineTextI [OF sample_lines(1)] lineTextI [OF sample_lines(2)] lineTextI [OF sample_lines(3)] lineTextI [OF sample_lines(4)]
    lineTextI [OF sample_lines(5)] sample_bom sample_rest by simp_all

lemma sample_plain: "plainText (lineOf CHR ''a'')" "plainText (lineOf CHR ''b'')" "plainText (lineOf CHR ''c'')"
proof -
  have "splitTok (lineOf CHR ''a'') = [''a'', [LF]]" "splitTok (lineOf CHR ''b'') = [''b'', [LF]]" "splitTok (lineOf CHR ''c'') = [''c'', [LF]]" by code_simp+
  then show "plainText (lineOf CHR ''a'')" "plainText (lineOf CHR ''b'')" "plainText (lineOf CHR ''c'')"
    by (simp_all add: plainText_def shortTokens_def lengthMask_eval) (simp_all add: lineOf_def)
qed

lemma sample_diff: "textDiff mergeBase mergeRemote False = Inr (mergeBase, mergeRemote, Some [(0, 0, 1), (2, 0, 3), (0, 0, 2), (0, 0, 0)])"
  by code_simp

lemma sample_diffs:
  "textDiff (lineOf CHR ''a'') (lineOf CHR ''b'') False = Inr (lineOf CHR ''a'', lineOf CHR ''b'', Some [(0, 1, 1), (0, 0, 0)])"
  "textDiff (lineOf CHR ''a'') (lineOf CHR ''c'') False = Inr (lineOf CHR ''a'', lineOf CHR ''c'', Some [(0, 1, 1), (0, 0, 0)])"
  by code_simp+


lemma sample_join:
  "ThreeWayTextMerge (Some ''a'') (Some ''a'') (Some (''a'' @ [LF] @ ''b'' @ [LF])) = Inr \<lparr>rsContent = ''ab'' @ [LF], rsConflicts = [], rsClean = True\<rparr>"
  by code_simp

section \<open>The diff\<close>

text \<open>
  C13. \<^verbatim>\<open>textDiff\<close> returns on every two texts, with no index out of range; it refuses exactly the binary ones; and its edits,
  up to the terminator, patch the lines of the first text into the lines of the second and use up both.
\<close>

theorem textDiff_patches:
  assumes "length (toUTF8NoBOM a) < 2 ^ 63" "length (toUTF8NoBOM b) < 2 ^ 63"
  shows "\<exists>r. textDiff a b False = Inr (toUTF8NoBOM a, toUTF8NoBOM b, r) \<and>
    (r = None \<longleftrightarrow> binaryText (toUTF8NoBOM a) \<or> binaryText (toUTF8NoBOM b)) \<and>
    (\<forall>e. r = Some e \<longrightarrow> (\<exists>es. editsEnd e = Inr es \<and> noZero es \<and>
       replays (splitNL (toUTF8NoBOM a)) (splitNL (toUTF8NoBOM b)) es \<and>
       patched (splitNL (toUTF8NoBOM a)) (splitNL (toUTF8NoBOM b)) es = splitNL (toUTF8NoBOM b)))"
proof -
  have "length (toUTF8NoBOM a) < 2 ^ 64" "length (toUTF8NoBOM b) < 2 ^ 64" using assms by simp_all
  from textDiff_lines [OF this] show ?thesis using replays_patched by metis
qed

theorem textDiff_patches_witness:
  "\<exists>es. editsEnd [(0, 0, 1), (2, 0, 3), (0, 0, 2), (0, 0, 0)] = Inr es \<and> noZero es \<and>
     patched (splitNL mergeBase) (splitNL mergeRemote) es = splitNL mergeRemote"
proof -
  have u: "toUTF8NoBOM mergeBase = mergeBase" "toUTF8NoBOM mergeRemote = mergeRemote" using sample_bom by simp_all
  have "length (toUTF8NoBOM mergeBase) < 2 ^ 63" "length (toUTF8NoBOM mergeRemote) < 2 ^ 63" unfolding u by (simp_all add: mergeBase_def mergeRemote_def)
  from textDiff_patches [OF this] sample_diff show ?thesis unfolding u by auto
qed

section \<open>The merge\<close>

text \<open>
  C14. The three-way merge of plain texts returns: no slice or index of the diffs, of the walk over the edits, of the builder
  or of the token merge inside a conflict is out of range.  The result is clean exactly when it lists no conflict.
\<close>

theorem ThreeWayTextMerge_total:
  assumes "plainText b" "plainText l" "plainText r"
  shows "\<exists>res. ThreeWayTextMerge (Some b) (Some l) (Some r) = Inr res \<and> (rsClean res \<longleftrightarrow> rsConflicts res = [])"
proof -
  obtain x where x: "mergeText b l r = Inr x" "\<forall>out cs n. x = Some (out, cs, n) \<longrightarrow> n = length cs" using mergeText_plain [OF assms] by blast
  show ?thesis
  proof (cases x)
    case None
    then show ?thesis using x(1) by (simp add: ThreeWayTextMerge_def wholeConflict_def)
  next
    case (Some y)
    then show ?thesis using x by (cases y) (auto simp: ThreeWayTextMerge_def)
  qed
qed

theorem ThreeWayTextMerge_total_witness:
  "\<exists>res. ThreeWayTextMerge (Some (lineOf CHR ''a'')) (Some (lineOf CHR ''b'')) (Some (lineOf CHR ''c'')) = Inr res \<and> (rsClean res \<longleftrightarrow> rsConflicts res = [])"
  by (rule ThreeWayTextMerge_total [OF sample_plain])




text \<open>
  C28. For texts that are not binary, start with no byte-order mark and end in a newline: when both sides made the same
  change, the merge takes it once and is clean.
\<close>

theorem same_change_merges:
  assumes "lineText b" "lineText x"
  shows "ThreeWayTextMerge (Some b) (Some x) (Some x) = Inr \<lparr>rsContent = x, rsConflicts = [], rsClean = True\<rparr>"
proof -
  have "mergeText b x x = Inr (Some (x, [], 0))" using mergeText_twin [of b x] assms lineText_length by (simp add: lineText_def)
  then show ?thesis by (simp add: ThreeWayTextMerge_def)
qed

theorem same_change_merges_witness:
  "ThreeWayTextMerge (Some mergeBase) (Some mergeRemote) (Some mergeRemote) = Inr \<lparr>rsContent = mergeRemote, rsConflicts = [], rsClean = True\<rparr>"
  by (rule same_change_merges [OF sample_text(1,2)])

text \<open>
  C29. For texts that are not binary, start with no byte-order mark and end in a newline: when the local copy is
  unchanged, the merge is clean and gives the start of the merged-in text, and all of it when no
  two insertions of the diff meet with nothing copied or deleted between them.
\<close>

theorem unchanged_local_merges:
  assumes "lineText b" "lineText x"
  shows "\<exists>out e es. ThreeWayTextMerge (Some b) (Some b) (Some x) = Inr \<lparr>rsContent = out, rsConflicts = [], rsClean = True\<rparr> \<and>
    prefix out x \<and> textDiff b x False = Inr (b, x, Some e) \<and> editsEnd e = Inr es \<and> (spaced es \<longrightarrow> out = x)"
proof -
  obtain out e es where "mergeText b b x = Inr (Some (out, [], 0))" "prefix out x" "textDiff b x False = Inr (b, x, Some e)"
    "editsEnd e = Inr es" "spaced es \<longrightarrow> out = x"
    using mergeText_unchanged [of b x] assms lineText_length by (auto simp: lineText_def)
  then show ?thesis by (intro exI [of _ out] exI [of _ e] exI [of _ es]) (simp add: ThreeWayTextMerge_def)
qed

theorem unchanged_local_merges_witness:
  "ThreeWayTextMerge (Some (lineOf CHR ''a'')) (Some (lineOf CHR ''a'')) (Some (lineOf CHR ''b'')) =
   Inr \<lparr>rsContent = lineOf CHR ''b'', rsConflicts = [], rsClean = True\<rparr>"
proof -
  have "spaced es" if "editsEnd [(0, 1, 1), (0, 0, 0)] = Inr es" for es using that by (auto simp: spaced_def)
  then show ?thesis using unchanged_local_merges [OF sample_text(3,4)] sample_diffs(1) by auto
qed

text \<open>
  The prefix can be proper: after the loop the walk emits one remaining insertion only, and the sliding of \<^verbatim>\<open>optimize\<close> can
  leave two.  Here the local copy is the ancestor, the merged-in text ends in the lines \<open>P\<close> and \<open>W\<close>, and the clean merge
  has lost both.  And lines are compared without their newline: when the ancestor ends in an unfinished line that the
  merged-in text continues with another, the clean merge joins the two.
\<close>

theorem clean_merge_defects:
  "ThreeWayTextMerge (Some mergeBase) (Some mergeBase) (Some mergeRemote) = Inr \<lparr>rsContent = mergeKept, rsConflicts = [], rsClean = True\<rparr> \<and>
   mergeRemote = mergeKept @ ''P'' @ [LF] @ ''W'' @ [LF] \<and>
   ThreeWayTextMerge (Some ''a'') (Some ''a'') (Some (''a'' @ [LF] @ ''b'' @ [LF])) = Inr \<lparr>rsContent = ''ab'' @ [LF], rsConflicts = [], rsClean = True\<rparr>"
proof -
  obtain e0 where s: "textDiff mergeBase mergeBase False = Inr (mergeBase, mergeBase, Some e0)" "editsEnd e0 = Inr [(2, 0, 0)]"
    using textDiff_self [of mergeBase] sample_text(1) lineText_length sample_lines(1) by (auto simp: lineText_def)
  have e: "editsEnd [(0, 0, 1), (2, 0, 3), (0, 0, 2), (0, 0, 0)] = Inr [(0, 0, 1), (2, 0, 3), (0, 0, 2)]" by simp
  have w: "walkLoop mergeBase mergeRemote (lineStarts mergeBase) (lineStarts mergeRemote) [(2, 0, 0)] [(0, 0, 1), (2, 0, 3), (0, 0, 2)] 0 0 =
      Inr ([mkOp opChngV2 0 0 1, mkOp opSame 2 2 2, mkOp opChngV2 0 0 3], 0)" by code_simp
  have m: "map_sum id tmOut (mergerRun (mergerStart mergeBase mergeBase mergeRemote) [mkOp opChngV2 0 0 1, mkOp opSame 2 2 2, mkOp opChngV2 0 0 3]) = Inr mergeKept"
    "map_sum id tmConflicts (mergerRun (mergerStart mergeBase mergeBase mergeRemote) [mkOp opChngV2 0 0 1, mkOp opSame 2 2 2, mkOp opChngV2 0 0 3]) = Inr []"
    by code_simp+
  then obtain m' where "mergerRun (mergerStart mergeBase mergeBase mergeRemote) [mkOp opChngV2 0 0 1, mkOp opSame 2 2 2, mkOp opChngV2 0 0 3] = Inr m'"
    "tmOut m' = mergeKept" "tmConflicts m' = []" by (cases "mergerRun (mergerStart mergeBase mergeBase mergeRemote) [mkOp opChngV2 0 0 1, mkOp opSame 2 2 2, mkOp opChngV2 0 0 3]") auto
  then have "mergeText mergeBase mergeBase mergeRemote = Inr (Some (mergeKept, [], 0))"
    using s e w sample_diff by (simp add: mergeText_def walkEdits_def del: mergerRun.simps editsEnd.simps)
  then have "ThreeWayTextMerge (Some mergeBase) (Some mergeBase) (Some mergeRemote) = Inr \<lparr>rsContent = mergeKept, rsConflicts = [], rsClean = True\<rparr>"
    by (simp add: ThreeWayTextMerge_def)
  moreover have "mergeRemote = mergeKept @ ''P'' @ [LF] @ ''W'' @ [LF]" by (simp add: mergeRemote_def mergeKept_def)
  ultimately show ?thesis using sample_join by blast
qed

end
