(* ===== verification/Spec2Isabelle.thy ===== *)
theory Spec2Isabelle
  imports Deck_Fields Cone_Laws Xfer_Properties Store_Properties Merge_Properties
begin

text \<open>
  A verification library for \<^verbatim>\<open>go-libfossil\<close>, a Go implementation of the Fossil version control system's
  repository formats and operations.

  \<^bold>\<open>The program.\<close>  A repository is an SQLite database of artifacts.  An artifact is a byte string named by its hash;
  structural artifacts (check-ins, tags, tickets, clusters) are text of one-letter cards.  Stored artifacts are
  zlib-compressed and may be deltas against other artifacts.  Two repositories converge by exchanging messages of
  cards.  The packages under \<^verbatim>\<open>src/internal\<close> stack up accordingly: \<^verbatim>\<open>delta\<close>, \<^verbatim>\<open>hash\<close> and \<^verbatim>\<open>deck\<close> are the formats,
  \<^verbatim>\<open>blob\<close> and \<^verbatim>\<open>content\<close> the storage built on them, \<^verbatim>\<open>xfer\<close> the wire format, \<^verbatim>\<open>cone\<close> the path sets of narrow
  clones, \<^verbatim>\<open>merge\<close> the diff and three-way merge of file texts; \<^verbatim>\<open>manifest\<close>, \<^verbatim>\<open>sync\<close> and \<^verbatim>\<open>checkout\<close> use all of them over SQL tables, the network and the file system.

  \<^bold>\<open>Conventions\<close> (\<open>Prelude\<close>).  Bytes are characters, Go strings and byte slices are byte lists, a
  \<^verbatim>\<open>(T, error)\<close> result is a sum with the error on the left, a panic is one of the errors, and slice indexing out of
  range is an explicit panic value.  Unsigned arithmetic that may wrap is written out or uses words.  Third-party
  code (SHA3) and zlib are parameters; what is assumed of them is a named predicate of each theorem.

  \<^bold>\<open>Theories and sources.\<close>
  \<^item> \<open>Delta\<close>, \<open>Delta_Create\<close>: \<^verbatim>\<open>internal/delta/delta.go\<close>; reader, header, size scan, replay into a buffer of given
    capacity, checksum; hash table, match search and encoder.
  \<^item> \<open>MD5\<close>, \<open>Hash\<close>: the digests, and \<^verbatim>\<open>internal/hash\<close>; artifact names and the hash policy as a function of the
    \<^verbatim>\<open>config\<close> row and the stored names.
  \<^item> \<open>Encode\<close>, \<open>Pathname\<close>, \<open>Clearsign\<close>, \<open>Timestamp\<close>, \<open>Deck\<close>, \<open>Deck_Parse\<close>, \<open>Deck_Marshal\<close>: \<^verbatim>\<open>internal/deck\<close>; field
    encodings, path rules, signature stripping and the Z card, dates, the deck record with its type rules, the
    parser, the writer.  \<open>Deck_Items\<close>, \<open>Deck_Roundtrip\<close>, \<open>Deck_Invariant\<close> and \<open>Deck_Fields\<close> hold the proofs.
  \<^item> \<open>Cone\<close>, \<open>Cone_Laws\<close>: \<^verbatim>\<open>internal/cone\<close>; members, normalization, coverage, horizons, serialized forms.
  \<^item> \<open>Go_Strings\<close>, \<open>Xfer\<close>, \<open>Xfer_Message\<close>, \<open>Xfer_Laws\<close>, \<open>Xfer_Properties\<close>: \<^verbatim>\<open>internal/xfer\<close>; cards, decoder with its
    inflate budget, encoder, message container, login cookie.
  \<^item> \<open>Blob\<close>, \<open>Content\<close>, \<open>Content_Cache\<close>, \<open>Deltify\<close>: \<^verbatim>\<open>internal/blob\<close>, and of \<^verbatim>\<open>internal/content\<close> the expansion of delta
    chains, availability, the caches, deltification and the private table; \<^verbatim>\<open>internal/shun\<close>.  The database is a
    record of its tables.  \<open>Content_Laws\<close>, \<open>Store_Laws\<close> and \<open>Cache_Laws\<close> hold the laws of single operations,
    \<open>Store_Reach\<close> the step relation of the writers with its invariant (the locale \<open>content_step\<close>, interpreted on each
    writer), \<open>Availability\<close> the meaning of an available artifact, \<open>Store_Samples\<close> a concrete store, and
    \<open>Cache_Properties\<close> and \<open>Store_Properties\<close> the properties.
  \<^item> \<open>Merge_Diff\<close>, \<open>Merge_Text\<close>: \<^verbatim>\<open>internal/merge\<close>; the hashed lines and tokens, the search for a common block, the work
    stack and the sliding of edits (\<^verbatim>\<open>fossildiff.go\<close>, \<^verbatim>\<open>fossillcs.go\<close>); UTF conversion, the walk over two edit vectors,
    the builders, the markers and the strategies (\<^verbatim>\<open>utf.go\<close>, \<^verbatim>\<open>merge3.go\<close>, \<^verbatim>\<open>marker.go\<close>, \<^verbatim>\<open>threeway.go\<close>).
    \<open>Merge_Lines\<close> (what the arrays hold), \<open>Merge_Valid\<close> (no step of the diff reads out of range), \<open>Merge_Edits\<close> and
    \<open>Merge_Sound\<close> (the triples lead through both files), \<open>Merge_Tokens\<close> (byte counts), \<open>Merge_Walk\<close> (what the walk
    consumes), \<open>Merge_Marks\<close>, \<open>Merge_Laws\<close> and \<open>Merge_Properties\<close> hold the proofs.

  \<^bold>\<open>What is shown.\<close>  Deltas: every encoded delta rebuilds its target, replay never panics and is independent of the
  buffer it writes to.  Decks: parsing and marshalling are inverse on well-formed decks, everything parsed is
  well formed, nothing panics.  Cones: the serialized form is canonical and read back exactly, normalization keeps
  the coverage, pruning is conservative.  Wire: messages round-trip, decoding stays within its budget and binds each
  login to the bytes after it.  Names: the move to SHA3 is permanent.  Store: expansion returns what the delta chain
  denotes, also through the caches and after any sequence of writes, stops on endless chains, and purging keeps what it
  does not remove.  Merge: the diff patches one text into the other, the merge of plain texts never panics, a conflict is
  always detected by the marker scan, equal changes merge to the change, and a merge into an unchanged copy gives a
  prefix of the merged-in text, which can be a proper one.

  \<^bold>\<open>Termination.\<close>  Loops are recursive functions with proved measures; none uses fuel.

  \<^bold>\<open>Not modelled.\<close>  The packages that are mostly SQL over the derived tables, network transport, file-system work or
  external programs (\<^verbatim>\<open>manifest\<close>, \<^verbatim>\<open>sync\<close>, \<^verbatim>\<open>checkout\<close>, \<^verbatim>\<open>search\<close>, \<^verbatim>\<open>stash\<close>, \<^verbatim>\<open>undo\<close>, \<^verbatim>\<open>clearsign\<close> signing) are left
  out, as are the narrow-clone memos of \<^verbatim>\<open>content\<close> and the parts of \<^verbatim>\<open>merge\<close> that read the repository (ancestor search,
  forks, renames, the resolver's rules).  Database faults, concurrency inside one process and simulated
  faults are outside the model.
\<close>

end
